(* ===== verification/Prelude.thy ===== *)
theory Prelude
  imports Main "HOL-Library.Word" "HOL-Library.Monad_Syntax"
begin

text \<open>
  What the component theories share: C integers as mathematical integers with the
  conversions written out, \<open>assert\<close> as a computation that may fail, counted loops over
  lists, and the arithmetic facts that the component proofs use.

  \<^item> \<open>w16\<close> is the conversion to \<open>short\<close> (two's complement truncation to 16 bits), \<open>i32\<close> the
    conversion to \<open>int\<close>, \<open>i64\<close> and \<open>u64\<close> the conversions to a 64-bit \<open>long\<close> and
    \<open>unsigned long\<close> (the data model of the riscv64 tool chain).
  \<^item> \<open>sasr\<close> is the arithmetic right shift, \<open>shl\<close> the left shift.
  \<^item> \<open>c_assert\<close> is the C macro: it yields \<open>None\<close> when the condition is false, where the
    program aborts.
  \<^item> \<open>fold_opt\<close> and \<open>map_opt\<close> run a loop body that may abort.
\<close>

unbundle bit_operations_syntax

named_theorems wsimps \<open>truncations and shifts that disappear when the value is in range\<close>
named_theorems wrange \<open>range facts of the operations on C integers\<close>

type_synonym byte = "8 word"

section \<open>C integers as integers\<close>

definition w16 :: "int \<Rightarrow> int" where
  "w16 x = signed_take_bit 15 x"

definition i32 :: "int \<Rightarrow> int" where
  "i32 x = signed_take_bit 31 x"

definition u64 :: "int \<Rightarrow> int" where
  "u64 x = take_bit 64 x"

definition i64 :: "int \<Rightarrow> int" where
  "i64 x = signed_take_bit 63 x"

definition sasr :: "int \<Rightarrow> nat \<Rightarrow> int" where
  "sasr x n = drop_bit n x"

definition shl :: "int \<Rightarrow> nat \<Rightarrow> int" where
  "shl x n = push_bit n x"

definition is_word :: "int \<Rightarrow> bool" where
  "is_word x \<longleftrightarrow> - 32768 \<le> x \<and> x \<le> 32767"

definition is_long32 :: "int \<Rightarrow> bool" where
  "is_long32 x \<longleftrightarrow> - 2147483648 \<le> x \<and> x \<le> 2147483647"

lemma is_wordI [intro]: "- 32768 \<le> x \<Longrightarrow> x \<le> 32767 \<Longrightarrow> is_word x"
  by (simp add: is_word_def)

lemma is_wordD: assumes "is_word x" shows "- 32768 \<le> x" "x \<le> 32767"
  using assms by (simp_all add: is_word_def)

lemma w16_eq [wsimps]: "- 32768 \<le> x \<Longrightarrow> x \<le> 32767 \<Longrightarrow> w16 x = x"
  by (simp add: w16_def signed_take_bit_int_eq_self)

lemma w16_word [wsimps, simp]: "is_word x \<Longrightarrow> w16 x = x"
  by (simp add: is_word_def w16_eq)

lemma w16_range [wrange]: "- 32768 \<le> w16 x" "w16 x \<le> 32767"
  using signed_take_bit_int_greater_eq_minus_exp [of 15 x] signed_take_bit_int_less_exp [of 15 x]
  by (simp_all add: w16_def)

lemma is_word_w16 [simp, intro]: "is_word (w16 x)"
  by (simp add: is_word_def w16_range)

lemma i32_eq [wsimps]: "- 2147483648 \<le> x \<Longrightarrow> x \<le> 2147483647 \<Longrightarrow> i32 x = x"
  by (simp add: i32_def signed_take_bit_int_eq_self)

lemma i64_eq [wsimps]:
  "- 9223372036854775808 \<le> x \<Longrightarrow> x \<le> 9223372036854775807 \<Longrightarrow> i64 x = x"
  by (simp add: i64_def signed_take_bit_int_eq_self)

lemma u64_eq [wsimps]: "0 \<le> x \<Longrightarrow> x < 18446744073709551616 \<Longrightarrow> u64 x = x"
  by (simp add: u64_def take_bit_int_eq_self)

lemma u64_neg [wsimps]:
  "- 18446744073709551616 \<le> x \<Longrightarrow> x < 0 \<Longrightarrow> u64 x = x + 18446744073709551616"
proof -
  assume "- 18446744073709551616 \<le> x" and "x < 0"
  then have "(x + 18446744073709551616) mod 18446744073709551616 = x + 18446744073709551616"
    by (intro mod_pos_pos_trivial) auto
  then have "x mod 18446744073709551616 = x + 18446744073709551616"
    by simp
  then show ?thesis
    by (simp add: u64_def take_bit_eq_mod)
qed

lemma sasr_div: "sasr x n = x div 2 ^ n"
  by (simp add: sasr_def drop_bit_eq_div)

lemma shl_mult: "shl x n = x * 2 ^ n"
  by (simp add: shl_def push_bit_eq_mult)

lemma sasr_0 [simp]: "sasr x 0 = x"
  by (simp add: sasr_def)

lemma shl_0 [simp]: "shl x 0 = x"
  by (simp add: shl_def)

lemma sasr_mono: "x \<le> y \<Longrightarrow> sasr x n \<le> sasr y n"
  by (simp add: sasr_div zdiv_mono1)

lemma sasr_word [wrange, intro]: "is_word x \<Longrightarrow> is_word (sasr x n)"
proof -
  assume w: "is_word x"
  have "sasr x n \<le> 32767"
  proof (cases "x < 0")
    case True
    then have "x div 2 ^ n < 0" by (simp add: pos_imp_zdiv_neg_iff)
    then show ?thesis by (simp add: sasr_div)
  next
    case False
    then have "x div 2 ^ n \<le> x" using zdiv_mono2 [of x 1 "2 ^ n"] by simp
    with w show ?thesis by (simp add: sasr_div is_word_def)
  qed
  moreover have "- 32768 \<le> sasr x n"
  proof -
    have "(- 32768) div 2 ^ n \<le> x div 2 ^ n"
      using w by (intro zdiv_mono1) (auto simp: is_word_def)
    moreover have "- 32768 \<le> (- 32768 :: int) div 2 ^ n"
    proof -
      have "(- 32768 :: int) div 2 ^ n \<ge> (- 32768 * 2 ^ n) div 2 ^ n"
        by (intro zdiv_mono1) auto
      moreover have "(- 32768 * 2 ^ n) div 2 ^ n = (- 32768 :: int)"
        by (rule nonzero_mult_div_cancel_right) simp
      ultimately show ?thesis by simp
    qed
    ultimately show ?thesis by (simp add: sasr_div)
  qed
  ultimately show ?thesis by auto
qed

lemma int_div_less: "0 < d \<Longrightarrow> x < q * d \<Longrightarrow> x div d < q" for x d q :: int
proof (rule ccontr)
  assume d: "0 < d" and x: "x < q * d" and "\<not> x div d < q"
  then have "q * d \<le> x div d * d" by (intro mult_right_mono) auto
  also have "\<dots> \<le> x" using div_mult_mod_eq [of x d] pos_mod_sign [OF d, of x] by linarith
  finally show False using x by simp
qed

text \<open>A contiguous mask selects a field of the integer.\<close>

lemma and_field: "x AND push_bit n (mask m) = push_bit n (take_bit m (drop_bit n x))"
  for x :: int
  by (rule bit_eqI) (auto simp: bit_simps)

lemma and_mask: "x AND mask m = take_bit m x" for x :: int
  by (simp add: take_bit_eq_mask)

section \<open>Assertions and loops that may abort\<close>

definition c_assert :: "bool \<Rightarrow> unit option" where
  "c_assert b = (if b then Some () else None)"

lemma c_assert_True [simp]: "c_assert True = Some ()"
  by (simp add: c_assert_def)

lemma c_assert_bind: "b \<Longrightarrow> Option.bind (c_assert b) f = f ()"
  by simp

lemma c_assert_eq_Some [simp]: "c_assert b = Some u \<longleftrightarrow> b"
  by (simp add: c_assert_def)

primrec fold_opt :: "('a \<Rightarrow> 's \<Rightarrow> 's option) \<Rightarrow> 'a list \<Rightarrow> 's \<Rightarrow> 's option" where
  "fold_opt f [] s = Some s"
| "fold_opt f (x # xs) s = Option.bind (f x s) (fold_opt f xs)"

primrec map_opt :: "('a \<Rightarrow> 'b option) \<Rightarrow> 'a list \<Rightarrow> 'b list option" where
  "map_opt f [] = Some []"
| "map_opt f (x # xs) = Option.bind (f x) (\<lambda>y. Option.bind (map_opt f xs) (\<lambda>ys. Some (y # ys)))"

lemma fold_opt_Some:
  assumes "\<And>x s. x \<in> set xs \<Longrightarrow> P s \<Longrightarrow> \<exists>s'. f x s = Some s' \<and> P s'" and "P s"
  shows "\<exists>s'. fold_opt f xs s = Some s' \<and> P s'"
  using assms
proof (induction xs arbitrary: s)
  case Nil
  then show ?case by simp
next
  case (Cons x xs)
  from Cons.prems obtain s1 where s1: "f x s = Some s1" "P s1" by force
  with Cons.IH [of s1] Cons.prems(1) show ?case by auto
qed

lemma map_opt_eq_map:
  "(\<And>x. x \<in> set xs \<Longrightarrow> f x = Some (g x)) \<Longrightarrow> map_opt f xs = Some (map g xs)"
  by (induction xs) auto

lemma map_opt_Some_iff:
  "map_opt f xs = Some ys \<longleftrightarrow> list_all2 (\<lambda>x y. f x = Some y) xs ys"
proof (induction xs arbitrary: ys)
  case (Cons x xs)
  then show ?case by (cases ys) (auto simp: bind_eq_Some_conv)
qed auto

lemma map_opt_length: "map_opt f xs = Some ys \<Longrightarrow> length ys = length xs"
  by (simp add: map_opt_Some_iff list_all2_lengthD)

section \<open>Lists of words\<close>

lemma fold_invariant_upt:
  assumes "P s" and "\<And>i s. i < n \<Longrightarrow> P s \<Longrightarrow> P (f i s)"
  shows "P (fold f [0..<n] s)"
proof -
  have "P (fold f xs s)" if "P s" "set xs \<subseteq> {..<n}" for xs s
    using that assms(2) by (induction xs arbitrary: s) auto
  with assms(1) show ?thesis by (simp add: lessThan_atLeast0)
qed

lemma list_all_update:
  "list_all P xs \<Longrightarrow> P x \<Longrightarrow> list_all P (xs[i := x])"
  by (auto simp: list_all_iff dest: set_update_subset_insert [THEN subsetD])

lemma list_all_nthD: "list_all P xs \<Longrightarrow> i < length xs \<Longrightarrow> P (xs ! i)"
  by (simp add: list_all_length)

lemma list_all_replicate: "list_all P (replicate n x) \<longleftrightarrow> n = 0 \<or> P x"
  by (auto simp: list_all_iff)

end
