(* ===== verification/Flex_Resource.thy ===== *)
theory Flex_Resource
  imports Prelude "HOL-Library.While_Combinator"
begin

text \<open>
  The shared units of the FlexCPU model of \<open>gem5/src/cpu/flexcpu\<close>: the base class \<open>Resource\<close> and
  \<open>MemoryResource\<close> (\<open>flexcpu.cc\<close>), the unit that schedules between hardware threads,
  \<open>ResourceThreadsManaged\<close> (\<open>ResourceThreadsManaged.cc\<close>), and the fetch unit
  \<open>ResourceFetchDecision\<close> (\<open>ResourceFetchDecision.cc\<close>).

  A request is opaque: the closure \<open>func\<close> it carries and the instruction it belongs to live outside
  these files, so they are parameters, collected in the record \<open>unit_env\<close>: \<open>run_func\<close> runs the
  closure in a world \<open>'w\<close> and reports its boolean result, the new world and the calls the closure
  makes back into the unit (\<open>AddRequest\<close>, \<open>Schedule\<close>); \<open>is_ready\<close>, \<open>is_squashed\<close>, \<open>is_control\<close> and
  \<open>is_mem_ref\<close> are the questions the unit asks of the instruction, \<open>port_blocked\<close> and \<open>issue_size\<close>
  those it asks of the CPU. \<open>curTick\<close>, \<open>nextCycle\<close> and \<open>clockEdge\<close> are the clock.

  A ThreadID that may be \<open>InvalidThreadID\<close> is an option. An operation yields \<open>None\<close> where an
  assertion fails or a loop does not end.
\<close>

section \<open>State\<close>

datatype flex_policy = FlxSingleThreaded | FlxRoundRobin | FlxRandom | FlxMax | FlxCorse | FlxEvent

datatype 'r unit_call = AddRequest nat 'r | Schedule

record ('r, 'w) unit_env =
  run_func :: "'r \<Rightarrow> 'w \<Rightarrow> bool \<times> 'w \<times> 'r unit_call list"
  is_ready :: "'w \<Rightarrow> 'r \<Rightarrow> bool"
  is_squashed :: "'w \<Rightarrow> 'r \<Rightarrow> bool"
  is_control :: "'r \<Rightarrow> bool"
  is_mem_ref :: "'r \<Rightarrow> bool"
  port_blocked :: "'w \<Rightarrow> bool"
  issue_size :: "'w \<Rightarrow> nat \<Rightarrow> nat"
  threads_size :: nat
  curTick :: nat
  nextCycle :: nat
  clockEdge :: "nat \<Rightarrow> nat"

abbreviation MaxTick :: nat where "MaxTick \<equiv> 2 ^ 64 - 1"

record 'r resource =
  latency :: nat
  bandwidth :: int
  usedBandwidth :: int
  lastActiveTick :: nat
  requests :: "'r list"
  attemptAllEvent :: "nat option"
  activeCycles :: nat
  bandwidthPerCycle :: "int list"

record 'r threads_resource = "'r resource" +
  attemptAllThreads :: "nat option"
  map_requests :: "nat \<Rightarrow> 'r list"
  priority :: nat
  threadPolicy :: flex_policy

record cpu_stats =
  numCycles :: nat
  cpu_lastActiveTick :: nat

definition markActiveCycle :: "nat \<Rightarrow> cpu_stats \<Rightarrow> cpu_stats" where
  "markActiveCycle now K =
     (if now \<noteq> cpu_lastActiveTick K then K\<lparr>numCycles := numCycles K + 1, cpu_lastActiveTick := now\<rparr> else K)"

section \<open>Resource\<close>

definition new_resource :: "nat \<Rightarrow> int \<Rightarrow> 'r resource" where
  "new_resource lat bw = \<lparr>latency = lat, bandwidth = bw, usedBandwidth = 0, lastActiveTick = MaxTick,
     requests = [], attemptAllEvent = None, activeCycles = 0, bandwidthPerCycle = []\<rparr>"

definition addRequest :: "'r \<Rightarrow> 'r resource \<Rightarrow> 'r resource" where
  "addRequest r R = R\<lparr>requests := requests R @ [r]\<rparr>"

definition resourceAvailable :: "('r, 'z) resource_scheme \<Rightarrow> bool" where
  "resourceAvailable R \<longleftrightarrow> bandwidth R = 0 \<or> usedBandwidth R < bandwidth R"

definition memory_resourceAvailable :: "('r, 'w) unit_env \<Rightarrow> 'w \<Rightarrow> ('r, 'z) resource_scheme \<Rightarrow> bool" where
  "memory_resourceAvailable E w R = (if port_blocked E w then False else resourceAvailable R)"

definition schedule :: "('r, 'w) unit_env \<Rightarrow> 'r resource \<Rightarrow> 'r resource" where
  "schedule E R =
     (if requests R \<noteq> [] \<and> attemptAllEvent R = None
      then R\<lparr>attemptAllEvent := Some (clockEdge E (latency R))\<rparr> else R)"

text \<open>What a closure does to the unit that runs it.\<close>

primrec unit_calls :: "('r, 'w) unit_env \<Rightarrow> 'r unit_call list \<Rightarrow> 'r resource \<Rightarrow> 'r resource" where
  "unit_calls E [] R = R"
| "unit_calls E (c # cs) R =
     unit_calls E cs (case c of AddRequest tid r \<Rightarrow> addRequest r R | Schedule \<Rightarrow> schedule E R)"

text \<open>The start of every \<open>attemptAllRequests\<close>: the bookkeeping on the first activity of a cycle.\<close>

definition new_cycle ::
    "('r, 'w) unit_env \<Rightarrow> ('r, 'z) resource_scheme \<Rightarrow> cpu_stats \<Rightarrow> (('r, 'z) resource_scheme \<times> cpu_stats) option" where
  "new_cycle E R K =
     (if curTick E \<noteq> lastActiveTick R then do {
        c_assert (bandwidth R = 0 \<or> usedBandwidth R \<le> bandwidth R);
        let R = R\<lparr>activeCycles := activeCycles R + 1\<rparr>;
        let R = R\<lparr>bandwidthPerCycle := bandwidthPerCycle R @ [usedBandwidth R]\<rparr>;
        let R = R\<lparr>usedBandwidth := 0, lastActiveTick := curTick E\<rparr>;
        Some (R, markActiveCycle (curTick E) K)
      } else Some (R, K))"

definition run_request :: "('r, 'w) unit_env \<Rightarrow> 'r resource \<times> 'w \<Rightarrow> 'r resource \<times> 'w" where
  "run_request E = (\<lambda>(R, w).
     let req = hd (requests R);
         (ran, w, calls) = run_func E req w;
         R = unit_calls E calls R;
         R = (if ran then R\<lparr>usedBandwidth := usedBandwidth R + 1\<rparr> else R);
         R = R\<lparr>requests := tl (requests R)\<rparr>
     in (R, w))"

definition run_requests ::
    "('r, 'w) unit_env \<Rightarrow> ('w \<Rightarrow> 'r resource \<Rightarrow> bool) \<Rightarrow> 'r resource \<Rightarrow> 'w \<Rightarrow> ('r resource \<times> 'w) option" where
  "run_requests E available R w =
     while_option (\<lambda>(R, w). requests R \<noteq> [] \<and> available w R) (run_request E) (R, w)"

definition attemptAllRequests ::
    "('r, 'w) unit_env \<Rightarrow> ('w \<Rightarrow> 'r resource \<Rightarrow> bool) \<Rightarrow> 'r resource \<Rightarrow> cpu_stats \<Rightarrow> 'w
      \<Rightarrow> ('r resource \<times> cpu_stats \<times> 'w) option" where
  "attemptAllRequests E available R K w = do {
     let R = R\<lparr>attemptAllEvent := None\<rparr>;
     (R, K) \<leftarrow> new_cycle E R K;
     if requests R = [] then Some (R, K, w)
     else do {
       (R, w) \<leftarrow> run_requests E available R w;
       if requests R \<noteq> [] then do {
         c_assert (nextCycle E \<noteq> curTick E);
         Some (R\<lparr>attemptAllEvent := Some (nextCycle E)\<rparr>, K, w)
       } else Some (R, K, w)
     }
   }"

section \<open>ResourceThreadsManaged\<close>

definition new_threads_resource :: "nat \<Rightarrow> int \<Rightarrow> flex_policy \<Rightarrow> 'r threads_resource" where
  "new_threads_resource lat bw pol =
     resource.extend (new_resource lat bw)
       \<lparr>attemptAllThreads = None, map_requests = (\<lambda>tid. []), priority = 0, threadPolicy = pol\<rparr>"

definition threads_addRequest :: "nat \<Rightarrow> 'r \<Rightarrow> 'r threads_resource \<Rightarrow> 'r threads_resource" where
  "threads_addRequest tid r R = R\<lparr>map_requests := (map_requests R)(tid := map_requests R tid @ [r])\<rparr>"

definition there_is_no_any_request :: "('r, 'w) unit_env \<Rightarrow> 'r threads_resource \<Rightarrow> bool" where
  "there_is_no_any_request E R = list_all (\<lambda>tid. map_requests R tid = []) [0..<threads_size E]"

definition totalInstInQueues :: "('r, 'w) unit_env \<Rightarrow> 'r threads_resource \<Rightarrow> nat" where
  "totalInstInQueues E R = fold (\<lambda>i count. count + length (map_requests R i)) [0..<threads_size E] 0"

definition threads_schedule :: "('r, 'w) unit_env \<Rightarrow> 'r threads_resource \<Rightarrow> 'r threads_resource" where
  "threads_schedule E R =
     (if \<not> there_is_no_any_request E R \<and> attemptAllThreads R = None
      then R\<lparr>attemptAllThreads := Some (clockEdge E (latency R))\<rparr> else R)"

definition clean_squashed :: "('r, 'w) unit_env \<Rightarrow> 'w \<Rightarrow> 'r threads_resource \<Rightarrow> 'r threads_resource" where
  "clean_squashed E w R =
     fold (\<lambda>i R. R\<lparr>map_requests := (map_requests R)(i := dropWhile (is_squashed E w) (map_requests R i))\<rparr>)
       [0..<threads_size E] R"

text \<open>The test every policy makes: the queue has a head, and its instruction is ready.\<close>

definition head_ready :: "('r, 'w) unit_env \<Rightarrow> 'w \<Rightarrow> 'r threads_resource \<Rightarrow> nat \<Rightarrow> bool" where
  "head_ready E w R tid =
     (case map_requests R tid of [] \<Rightarrow> False | req # reqs \<Rightarrow> is_ready E w req)"

text \<open>The probing loops: \<open>n\<close> threads, starting with the thread \<open>first\<close>.\<close>

definition probe :: "nat \<Rightarrow> nat \<Rightarrow> (nat \<Rightarrow> bool) \<Rightarrow> nat option" where
  "probe n first ok = List.find ok (map (\<lambda>i. (first + i) mod n) [0..<n])"

definition keep_priority :: "'r threads_resource \<Rightarrow> nat option \<Rightarrow> nat option \<times> 'r threads_resource" where
  "keep_priority R chosen = (chosen, case chosen of None \<Rightarrow> R | Some tid \<Rightarrow> R\<lparr>priority := tid\<rparr>)"

definition roundRobinPriority ::
    "('r, 'w) unit_env \<Rightarrow> 'w \<Rightarrow> 'r threads_resource \<Rightarrow> nat option \<times> 'r threads_resource" where
  "roundRobinPriority E w R = keep_priority R (probe (threads_size E) (priority R + 1) (head_ready E w R))"

text \<open>\<open>rnd\<close> is the result of \<open>std::rand()\<close> as a ThreadID, a 16-bit integer; the first remainder is
  taken of its successor as an unsigned 64-bit number.\<close>

definition randomPriority :: "('r, 'w) unit_env \<Rightarrow> int \<Rightarrow> 'w \<Rightarrow> 'r threads_resource \<Rightarrow> nat" where
  "randomPriority E rnd w R =
     (let n = threads_size E; first = nat (u64 (rnd + 1)) mod n in
      case probe n first (head_ready E w R) of Some tid \<Rightarrow> tid | None \<Rightarrow> (first + (n - 1)) mod n)"

definition maxPriority :: "('r, 'w) unit_env \<Rightarrow> 'w \<Rightarrow> 'r threads_resource \<Rightarrow> nat option" where
  "maxPriority E w R = fst (fold (\<lambda>tid (chosen, mx).
     let curr = length (map_requests R tid) in
     if curr > mx \<and> head_ready E w R tid then (Some tid, curr) else (chosen, mx)) [0..<threads_size E] (None, 0))"

definition corsePriority ::
    "('r, 'w) unit_env \<Rightarrow> 'w \<Rightarrow> 'r threads_resource \<Rightarrow> nat option \<times> 'r threads_resource" where
  "corsePriority E w R = keep_priority R (probe (threads_size E) (priority R) (head_ready E w R))"

definition head_event :: "('r, 'w) unit_env \<Rightarrow> 'r threads_resource \<Rightarrow> nat \<Rightarrow> bool" where
  "head_event E R tid =
     (case map_requests R tid of [] \<Rightarrow> False | req # reqs \<Rightarrow> is_control E req \<or> is_mem_ref E req)"

definition eventPriority ::
    "('r, 'w) unit_env \<Rightarrow> 'w \<Rightarrow> 'r threads_resource \<Rightarrow> nat option \<times> 'r threads_resource" where
  "eventPriority E w R =
     (case probe (threads_size E) (priority R + 1) (\<lambda>tid. head_ready E w R tid \<and> head_event E R tid) of
        Some tid \<Rightarrow> (Some tid, R\<lparr>priority := tid\<rparr>)
      | None \<Rightarrow> roundRobinPriority E w R)"

definition qid_select ::
    "('r, 'w) unit_env \<Rightarrow> int \<Rightarrow> 'w \<Rightarrow> 'r threads_resource \<Rightarrow> nat option \<times> 'r threads_resource" where
  "qid_select E rnd w R =
     (case threadPolicy R of
        FlxSingleThreaded \<Rightarrow> (Some 0, R)
      | FlxRoundRobin \<Rightarrow> roundRobinPriority E w R
      | FlxRandom \<Rightarrow> (Some (randomPriority E rnd w R), R)
      | FlxMax \<Rightarrow> (maxPriority E w R, R)
      | FlxEvent \<Rightarrow> eventPriority E w R
      | FlxCorse \<Rightarrow> corsePriority E w R)"

primrec threads_calls :: "('r, 'w) unit_env \<Rightarrow> 'r unit_call list \<Rightarrow> 'r threads_resource \<Rightarrow> 'r threads_resource" where
  "threads_calls E [] R = R"
| "threads_calls E (c # cs) R =
     threads_calls E cs (case c of AddRequest tid r \<Rightarrow> threads_addRequest tid r R | Schedule \<Rightarrow> threads_schedule E R)"

text \<open>One turn of the loop over the queue of the chosen thread.\<close>

definition run_head ::
    "('r, 'w) unit_env \<Rightarrow> nat \<Rightarrow> 'r threads_resource \<Rightarrow> 'w \<Rightarrow> 'r threads_resource \<times> 'w" where
  "run_head E tid R w =
     (let req = hd (map_requests R tid);
          (ran, w, calls) = run_func E req w;
          R = threads_calls E calls R;
          R = (if ran then R\<lparr>usedBandwidth := usedBandwidth R + 1\<rparr> else R);
          R = R\<lparr>map_requests := (map_requests R)(tid := tl (map_requests R tid))\<rparr>
      in (R, w))"

definition run_thread ::
    "('r, 'w) unit_env \<Rightarrow> ('w \<Rightarrow> 'r threads_resource \<Rightarrow> bool) \<Rightarrow> nat \<Rightarrow> 'r threads_resource \<Rightarrow> 'w
      \<Rightarrow> ('r threads_resource \<times> 'w) option" where
  "run_thread E available tid R w =
     while_option (\<lambda>(R, w). map_requests R tid \<noteq> [] \<and> available w R) (\<lambda>(R, w). run_head E tid R w) (R, w)"

text \<open>The body that \<open>ResourceThreadsManaged\<close> and \<open>ResourceFetchDecision\<close> share: they differ in how
  they choose the thread and in the test for a free unit.\<close>

definition attempt_threads ::
    "('r, 'w) unit_env \<Rightarrow> ('w \<Rightarrow> 'r threads_resource \<Rightarrow> nat option \<times> 'r threads_resource)
      \<Rightarrow> (nat \<Rightarrow> 'w \<Rightarrow> 'r threads_resource \<Rightarrow> bool) \<Rightarrow> 'r threads_resource \<Rightarrow> cpu_stats \<Rightarrow> 'w
      \<Rightarrow> ('r threads_resource \<times> cpu_stats \<times> 'w) option" where
  "attempt_threads E select available R K w = do {
     let R = R\<lparr>attemptAllThreads := None\<rparr>;
     (R, K) \<leftarrow> new_cycle E R K;
     let R = clean_squashed E w R;
     if there_is_no_any_request E R then Some (R, K, w)
     else do {
       let (chosen_tid, R) = select w R;
       (R, w) \<leftarrow> (case chosen_tid of
           None \<Rightarrow> Some (R, w)
         | Some tid \<Rightarrow> run_thread E (available tid) tid R w);
       if \<not> there_is_no_any_request E R then do {
         c_assert (nextCycle E \<noteq> curTick E);
         Some (R\<lparr>attemptAllThreads := Some (nextCycle E)\<rparr>, K, w)
       } else Some (R, K, w)
     }
   }"

definition threads_attemptAllRequests ::
    "('r, 'w) unit_env \<Rightarrow> int \<Rightarrow> 'r threads_resource \<Rightarrow> cpu_stats \<Rightarrow> 'w
      \<Rightarrow> ('r threads_resource \<times> cpu_stats \<times> 'w) option" where
  "threads_attemptAllRequests E rnd =
     attempt_threads E (\<lambda>w R. qid_select E rnd w R) (\<lambda>tid w R. resourceAvailable R)"

section \<open>ResourceFetchDecision\<close>

definition fetch_resourceAvailable ::
    "('r, 'w) unit_env \<Rightarrow> nat \<Rightarrow> 'w \<Rightarrow> ('r, 'z) resource_scheme \<Rightarrow> bool" where
  "fetch_resourceAvailable E tid w R =
     (if port_blocked E w \<or> issue_size E w (if tid < threads_size E then tid else 0) > 20 then False
      else resourceAvailable R)"

definition get_min_qid :: "('r, 'w) unit_env \<Rightarrow> 'w \<Rightarrow> 'r threads_resource \<Rightarrow> nat option" where
  "get_min_qid E w R = fst (fold (\<lambda>tid (res, min_size).
     if min_size > int (issue_size E w tid) \<and> map_requests R tid \<noteq> [] then (Some tid, int (issue_size E w tid))
     else (res, min_size)) [0..<threads_size E] (None, 2147483647))"

definition fetch_attemptAllRequests ::
    "('r, 'w) unit_env \<Rightarrow> 'r threads_resource \<Rightarrow> cpu_stats \<Rightarrow> 'w
      \<Rightarrow> ('r threads_resource \<times> cpu_stats \<times> 'w) option" where
  "fetch_attemptAllRequests E =
     attempt_threads E (\<lambda>w R. (get_min_qid E w R, R)) (\<lambda>tid w R. fetch_resourceAvailable E tid w R)"

section \<open>Probing\<close>

text \<open>How many threads the probing loop passes over before it reaches \<open>t\<close>.\<close>

definition gap :: "nat \<Rightarrow> nat \<Rightarrow> nat \<Rightarrow> nat" where
  "gap n first t = (t + (n - first mod n)) mod n"

lemma gap_less: "0 < n \<Longrightarrow> gap n first t < n"
  by (simp add: gap_def)

lemma gap_inverse:
  assumes "t < n"
  shows "(first + gap n first t) mod n = t"
proof -
  have "(first + gap n first t) mod n = (first mod n + (t + (n - first mod n))) mod n"
    unfolding gap_def by (simp add: mod_simps)
  also have "first mod n + (t + (n - first mod n)) = t + n"
  proof -
    have "first mod n < n" using assms by simp
    then show ?thesis by simp
  qed
  finally show ?thesis using assms by simp
qed

lemma gap_unique:
  assumes "i < n" "t = (first + i) mod n"
  shows "gap n first t = i"
proof -
  have "gap n first t = ((first + i) + (n - first mod n)) mod n" unfolding gap_def assms(2) by (simp add: mod_simps)
  also have "\<dots> = (first mod n + i + (n - first mod n)) mod n" by (metis mod_add_left_eq add.assoc)
  also have "first mod n + i + (n - first mod n) = i + n"
  proof -
    have "first mod n < n" using assms(1) by simp
    then show ?thesis by simp
  qed
  finally show ?thesis using assms(1) by simp
qed

lemma probe_Some:
  assumes "probe n first ok = Some t"
  shows "t < n" "ok t" "u < n \<Longrightarrow> ok u \<Longrightarrow> gap n first t \<le> gap n first u"
proof -
  let ?xs = "map (\<lambda>i. (first + i) mod n) [0..<n]"
  obtain i where i: "i < n" "ok (?xs ! i)" "t = ?xs ! i" "\<forall>j < i. \<not> ok (?xs ! j)"
    using assms unfolding probe_def find_Some_iff by auto
  then show "t < n" "ok t" by simp_all
  have t: "gap n first t = i" using i(1,3) by (intro gap_unique) simp_all
  show "gap n first t \<le> gap n first u" if "u < n" "ok u"
  proof (rule ccontr)
    assume "\<not> ?thesis"
    then have "gap n first u < i" by (simp add: t)
    then have "\<not> ok u" using i(1,4) gap_inverse [OF that(1), of first] by force
    with that(2) show False by contradiction
  qed
qed

lemma probe_None: "probe n first ok = None \<longleftrightarrow> (\<forall>t < n. \<not> ok t)"
proof
  assume "probe n first ok = None"
  then have "\<not> ok ((first + i) mod n)" if "i < n" for i using that unfolding probe_def find_None_iff by auto
  then show "\<forall>t < n. \<not> ok t" using gap_inverse gap_less by (metis gr_zeroI not_less_zero)
next
  assume "\<forall>t < n. \<not> ok t"
  then show "probe n first ok = None" unfolding probe_def find_None_iff by auto
qed

lemma gap_next:
  assumes "c < n" "t < n" "c \<noteq> t" "gap n (Suc p) c \<le> gap n (Suc p) t"
  shows "gap n (Suc c) t < gap n (Suc p) t"
proof -
  let ?j = "gap n (Suc p) c" and ?g = "gap n (Suc p) t"
  have c: "c = (Suc p + ?j) mod n" and t: "t = (Suc p + ?g) mod n" 
    using gap_inverse [OF assms(1), of "Suc p"] gap_inverse [OF assms(2), of "Suc p"] by (simp_all only:)
  have "?j \<noteq> ?g" using assms(3) c t by metis
  with assms(4) have lt: "?j < ?g" by simp
  have g: "?g < n" using gap_less assms(1) by simp
  have "t = (Suc p + ?j + Suc (?g - Suc ?j)) mod n" using t lt by simp
  also have "\<dots> = (c + Suc (?g - Suc ?j)) mod n" by (subst c) (simp only: mod_add_left_eq)
  finally have "gap n (Suc c) t = ?g - Suc ?j" using lt g by (intro gap_unique) simp_all
  then show ?thesis using lt by simp
qed

section \<open>The contract of a policy\<close>

text \<open>
  A policy looks at the queues and picks a thread among the candidates: only a candidate, none only
  if there is none, and nothing but the priority changes.
\<close>

locale thread_policy =
  fixes select :: "'w \<Rightarrow> 'r threads_resource \<Rightarrow> nat option \<times> 'r threads_resource"
    and candidate :: "'w \<Rightarrow> 'r threads_resource \<Rightarrow> nat \<Rightarrow> bool"
    and n :: nat
  assumes sound: "select w R = (Some t, R') \<Longrightarrow> t < n \<and> candidate w R t"
    and complete: "select w R = (None, R') \<Longrightarrow> t < n \<Longrightarrow> \<not> candidate w R t"
    and frame: "select w R = (c, R') \<Longrightarrow> R' = R\<lparr>priority := priority R'\<rparr>"
    and candidate_head: "candidate w R t \<Longrightarrow> map_requests R t \<noteq> []"
begin

lemma work_conserving:
  assumes "t < n" "candidate w R t"
  obtains u R' where "select w R = (Some u, R')" "u < n" "candidate w R u" "map_requests R' u \<noteq> []"
proof -
  obtain c R' where s: "select w R = (c, R')" by force
  with complete [of w R R' t] assms obtain u where c: "c = Some u" by (cases c) auto
  have "map_requests R' = map_requests R" using frame [OF s] by (metis threads_resource.select_convs(2) threads_resource.surjective threads_resource.update_convs(3))
  then show ?thesis using that [of u R'] s sound [of w R u R'] candidate_head [of w R u] by (simp add: c)
qed

lemma idle_only_without_candidate: "fst (select w R) = None \<longleftrightarrow> (\<forall>t < n. \<not> candidate w R t)"
  using sound [of w R] complete [of w R] by (cases "select w R"; cases "fst (select w R)") auto

end

lemma keep_priority_simps:
  "keep_priority R c = (d, R') \<longleftrightarrow> d = c \<and> R' = (case c of None \<Rightarrow> R | Some tid \<Rightarrow> R\<lparr>priority := tid\<rparr>)"
  by (auto simp: keep_priority_def)

lemma head_readyD: "head_ready E w R t \<Longrightarrow> map_requests R t \<noteq> []"
  by (auto simp: head_ready_def split: list.splits)

lemma probe_policy:
  assumes "\<And>w R t. ok w R t \<Longrightarrow> map_requests R t \<noteq> []"
  shows "thread_policy (\<lambda>w R. keep_priority R (probe n (first R) (ok w R))) ok n"
proof
  fix w R R' t c
  let ?p = "probe n (first R) (ok w R)"
  show "t < n \<and> ok w R t" if "keep_priority R ?p = (Some t, R')"
    using that probe_Some [of n "first R" "ok w R" t] by (simp add: keep_priority_simps)
  show "\<not> ok w R t" if "keep_priority R ?p = (None, R')" "t < n"
  proof -
    have "?p = None" using that(1) by (simp add: keep_priority_simps)
    then show ?thesis using that(2) by (simp add: probe_None)
  qed
  show "R' = R\<lparr>priority := priority R'\<rparr>" if "keep_priority R ?p = (c, R')"
    using that by (auto simp: keep_priority_simps split: option.splits)
qed (rule assms)

interpretation round_robin: thread_policy "roundRobinPriority E" "head_ready E" "threads_size E"
  for E :: "('r, 'w) unit_env"
  unfolding roundRobinPriority_def [abs_def] by (rule probe_policy) (rule head_readyD)

interpretation corse: thread_policy "corsePriority E" "head_ready E" "threads_size E"
  for E :: "('r, 'w) unit_env"
  unfolding corsePriority_def [abs_def] by (rule probe_policy) (rule head_readyD)

interpretation event: thread_policy "eventPriority E" "head_ready E" "threads_size E"
  for E :: "('r, 'w) unit_env"
proof
  fix w :: 'w and R R' :: "'r threads_resource" and t c
  let ?ok = "\<lambda>tid. head_ready E w R tid \<and> head_event E R tid"
  consider (found) u where "probe (threads_size E) (priority R + 1) ?ok = Some u"
      "eventPriority E w R = (Some u, R\<lparr>priority := u\<rparr>)"
    | (none) "eventPriority E w R = roundRobinPriority E w R"
    by (cases "probe (threads_size E) (priority R + 1) ?ok") (simp_all add: eventPriority_def)
  note cs = this
  show "t < threads_size E \<and> head_ready E w R t" if "eventPriority E w R = (Some t, R')"
  proof (cases rule: cs)
    case (found u)
    then show ?thesis using that probe_Some(1,2) [OF found(1)] by simp
  next
    case none
    then show ?thesis using that round_robin.sound [of E w R t R'] by simp
  qed
  show "\<not> head_ready E w R t" if "eventPriority E w R = (None, R')" "t < threads_size E"
    using that round_robin.complete [of E w R R' t] by (cases rule: cs) auto
  show "R' = R\<lparr>priority := priority R'\<rparr>" if "eventPriority E w R = (c, R')"
    using that round_robin.frame [of E w R c R'] by (cases rule: cs) auto
qed (rule head_readyD)

lemma maxPriority_fold:
  assumes "fold (\<lambda>tid (chosen, mx). let curr = length (q tid) in
     if curr > mx \<and> ok tid then (Some tid, curr) else (chosen, mx)) [0..<k] (None, 0) = (c, mx)"
  shows "case c of None \<Rightarrow> mx = 0 \<and> (\<forall>t < k. ok t \<longrightarrow> q t = [])
    | Some u \<Rightarrow> u < k \<and> ok u \<and> q u \<noteq> [] \<and> mx = length (q u)
        \<and> (\<forall>t < k. ok t \<longrightarrow> length (q t) \<le> mx) \<and> (\<forall>t < u. ok t \<longrightarrow> length (q t) < mx)"
  using assms
proof (induction k arbitrary: c mx)
  case (Suc k)
  let ?f = "\<lambda>tid (chosen, mx). let curr = length (q tid) in
     if curr > mx \<and> ok tid then (Some tid, curr) else (chosen, mx)"
  obtain c0 m0 where f: "fold ?f [0..<k] (None, 0) = (c0, m0)" by force
  note IH = Suc.IH [OF f]
  have step: "(c, mx) = (if length (q k) > m0 \<and> ok k then (Some k, length (q k)) else (c0, m0))"
    using Suc.prems f by (simp add: Let_def)
  show ?case
  proof (cases c0)
    case None
    then show ?thesis using IH step by (auto simp: less_Suc_eq split: if_splits)
  next
    case (Some u)
    then show ?thesis using IH step by (fastforce simp: less_Suc_eq split: if_splits)
  qed
qed simp

lemma maxPriority_cases:
  "case maxPriority E w R of
     None \<Rightarrow> \<forall>t < threads_size E. \<not> head_ready E w R t
   | Some u \<Rightarrow> u < threads_size E \<and> head_ready E w R u
       \<and> (\<forall>t < threads_size E. head_ready E w R t \<longrightarrow> length (map_requests R t) \<le> length (map_requests R u))
       \<and> (\<forall>t < u. head_ready E w R t \<longrightarrow> length (map_requests R t) < length (map_requests R u))"
proof -
  obtain c mx where f: "fold (\<lambda>tid (chosen, mx). let curr = length (map_requests R tid) in
     if curr > mx \<and> head_ready E w R tid then (Some tid, curr) else (chosen, mx)) [0..<threads_size E] (None, 0) = (c, mx)"
    by force
  have "maxPriority E w R = c" unfolding maxPriority_def f by simp
  then show ?thesis using maxPriority_fold [OF f] head_readyD [of E w R] by (cases c) auto
qed

interpretation max_queue: thread_policy "\<lambda>w R. (maxPriority E w R, R)" "head_ready E" "threads_size E"
  for E :: "('r, 'w) unit_env"
proof
  fix w :: 'w and R R' :: "'r threads_resource" and t
  show "t < threads_size E \<and> head_ready E w R t" if "(maxPriority E w R, R) = (Some t, R')"
    using that maxPriority_cases [of E w R] by auto
  show "\<not> head_ready E w R t" if "(maxPriority E w R, R) = (None, R')" "t < threads_size E"
    using that maxPriority_cases [of E w R] by auto
qed (simp_all add: head_readyD)

lemma get_min_qid_fold:
  assumes "fold (\<lambda>tid (res, mn). if mn > int (sz tid) \<and> q tid \<noteq> [] then (Some tid, int (sz tid)) else (res, mn))
     [0..<k] (None, M) = (c, mn)"
  shows "case c of None \<Rightarrow> mn = M \<and> (\<forall>t < k. q t \<noteq> [] \<longrightarrow> M \<le> int (sz t))
    | Some u \<Rightarrow> u < k \<and> q u \<noteq> [] \<and> mn = int (sz u) \<and> mn < M
        \<and> (\<forall>t < k. q t \<noteq> [] \<longrightarrow> mn \<le> int (sz t))"
  using assms
proof (induction k arbitrary: c mn)
  case (Suc k)
  let ?f = "\<lambda>tid (res, mn). if mn > int (sz tid) \<and> q tid \<noteq> [] then (Some tid, int (sz tid)) else (res, mn)"
  obtain c0 m0 where f: "fold ?f [0..<k] (None, M) = (c0, m0)" by force
  note IH = Suc.IH [OF f]
  have step: "(c, mn) = (if m0 > int (sz k) \<and> q k \<noteq> [] then (Some k, int (sz k)) else (c0, m0))"
    using Suc.prems f by simp
  show ?case
  proof (cases c0)
    case None
    then show ?thesis using IH step by (auto simp: less_Suc_eq split: if_splits)
  next
    case (Some u)
    then show ?thesis using IH step by (fastforce simp: less_Suc_eq split: if_splits)
  qed
qed simp

definition fetch_candidate :: "('r, 'w) unit_env \<Rightarrow> 'w \<Rightarrow> 'r threads_resource \<Rightarrow> nat \<Rightarrow> bool" where
  "fetch_candidate E w R tid \<longleftrightarrow> map_requests R tid \<noteq> [] \<and> issue_size E w tid < 2147483647"

lemma get_min_qid_cases:
  "case get_min_qid E w R of
     None \<Rightarrow> \<forall>t < threads_size E. \<not> fetch_candidate E w R t
   | Some u \<Rightarrow> u < threads_size E \<and> fetch_candidate E w R u
       \<and> (\<forall>t < threads_size E. map_requests R t \<noteq> [] \<longrightarrow> issue_size E w u \<le> issue_size E w t)"
proof -
  obtain c mn where f: "fold (\<lambda>tid (res, mn). if mn > int (issue_size E w tid) \<and> map_requests R tid \<noteq> []
     then (Some tid, int (issue_size E w tid)) else (res, mn)) [0..<threads_size E] (None, 2147483647) = (c, mn)"
    by force
  have "get_min_qid E w R = c" unfolding get_min_qid_def f by simp
  then show ?thesis using get_min_qid_fold [OF f] by (cases c) (auto simp: fetch_candidate_def)
qed

interpretation fetch: thread_policy "\<lambda>w R. (get_min_qid E w R, R)" "fetch_candidate E" "threads_size E"
  for E :: "('r, 'w) unit_env"
proof
  fix w :: 'w and R R' :: "'r threads_resource" and t
  show "t < threads_size E \<and> fetch_candidate E w R t" if "(get_min_qid E w R, R) = (Some t, R')"
    using that get_min_qid_cases [of E w R] by auto
  show "\<not> fetch_candidate E w R t" if "(get_min_qid E w R, R) = (None, R')" "t < threads_size E"
    using that get_min_qid_cases [of E w R] by auto
qed (simp_all add: fetch_candidate_def)

section \<open>Fairness of the round robin\<close>

text \<open>The choices the round robin makes in a sequence of situations: only the priority is carried
  from one call to the next.\<close>

primrec selections :: "('r, 'w) unit_env \<Rightarrow> nat \<Rightarrow> ('w \<times> 'r threads_resource) list \<Rightarrow> nat option list" where
  "selections E p [] = []"
| "selections E p (x # xs) =
     (let (chosen, R) = roundRobinPriority E (fst x) ((snd x)\<lparr>priority := p\<rparr>)
      in chosen # selections E (priority R) xs)"

lemma head_ready_priority [simp]: "head_ready E w (R\<lparr>priority := p\<rparr>) = head_ready E w R"
  by (rule ext) (simp add: head_ready_def)

lemma selections_reach:
  assumes "t < threads_size E" "\<forall>x \<in> set xs. head_ready E (fst x) (snd x) t"
    and "gap (threads_size E) (Suc p) t < length xs"
  shows "\<exists>i \<le> gap (threads_size E) (Suc p) t. selections E p xs ! i = Some t"
  using assms(2,3)
proof (induction xs arbitrary: p)
  case (Cons x xs)
  let ?n = "threads_size E" and ?ok = "head_ready E (fst x) (snd x)"
  obtain c where pr: "probe ?n (Suc p) ?ok = Some c"
    using Cons.prems(1) assms(1) probe_None [of ?n "Suc p" ?ok] by (cases "probe ?n (Suc p) ?ok") auto
  have sel: "selections E p (x # xs) = Some c # selections E c xs"
    by (simp add: roundRobinPriority_def keep_priority_def pr)
  show ?case
  proof (cases "c = t")
    case True
    then show ?thesis unfolding sel by (intro exI [of _ 0]) simp
  next
    case False
    have "gap ?n (Suc p) c \<le> gap ?n (Suc p) t" using probe_Some(3) [OF pr assms(1)] Cons.prems(1) by simp
    then have lt: "gap ?n (Suc c) t < gap ?n (Suc p) t"
      using gap_next probe_Some(1) [OF pr] assms(1) False by blast
    with Cons.prems have "gap ?n (Suc c) t < length xs" by simp
    then obtain i where "i \<le> gap ?n (Suc c) t" "selections E c xs ! i = Some t"
      using Cons.IH [of c] Cons.prems(1) by auto
    with lt show ?thesis unfolding sel by (intro exI [of _ "Suc i"]) simp
  qed
qed simp

text \<open>A choice changes nothing but the priority, and depends on the queues, the priority and the policy only.\<close>

lemma qid_select_frame: "qid_select E rnd w R = (c, R') \<Longrightarrow> R' = R\<lparr>priority := priority R'\<rparr>"
  using round_robin.frame [of E w R c R'] corse.frame [of E w R c R'] event.frame [of E w R c R']
  by (cases "threadPolicy R") (auto simp: qid_select_def)

lemma select_cong:
  fixes R S :: "'r threads_resource"
  assumes "map_requests S = map_requests R"
  shows "priority S = priority R \<Longrightarrow> threadPolicy S = threadPolicy R \<Longrightarrow> fst (qid_select E rnd w S) = fst (qid_select E rnd w R)"
    "get_min_qid E w S = get_min_qid E w R"
proof -
  have h: "head_ready E w S = head_ready E w R" "head_event E S = head_event E R"
    using assms by (simp_all add: head_ready_def head_event_def fun_eq_iff)
  show "fst (qid_select E rnd w S) = fst (qid_select E rnd w R)"
    if "priority S = priority R" "threadPolicy S = threadPolicy R"
    using that h assms by (simp add: qid_select_def roundRobinPriority_def corsePriority_def eventPriority_def
        randomPriority_def maxPriority_def keep_priority_def split: flex_policy.split option.split)
  show "get_min_qid E w S = get_min_qid E w R" using assms by (simp add: get_min_qid_def)
qed

section \<open>The loop over the chosen queue\<close>

lemma calls_frame:
  "usedBandwidth (threads_calls E cs R) = usedBandwidth R"
  "bandwidth (threads_calls E cs R) = bandwidth R"
  "latency (threads_calls E cs R) = latency R"
  by (induction cs arbitrary: R)
    (auto simp: threads_addRequest_def threads_schedule_def split: unit_call.splits)

lemma calls_extend: "\<exists>ys. map_requests (threads_calls E cs R) tid = map_requests R tid @ ys"
proof (induction cs arbitrary: R)
  case (Cons c cs)
  have "\<exists>zs. map_requests (case c of AddRequest t r \<Rightarrow> threads_addRequest t r R | Schedule \<Rightarrow> threads_schedule E R) tid
      = map_requests R tid @ zs"
    by (auto simp: threads_addRequest_def threads_schedule_def split: unit_call.splits)
  with Cons.IH show ?case by (metis append.assoc threads_calls.simps(2))
qed simp

definition bandwidth_inv :: "('r, 'z) resource_scheme \<Rightarrow> bool" where
  "bandwidth_inv R \<longleftrightarrow> 0 \<le> usedBandwidth R \<and> (bandwidth R = 0 \<or> usedBandwidth R \<le> bandwidth R)"

lemma run_head_bandwidth:
  assumes "run_head E tid R w = (R', w')"
  shows "bandwidth R' = bandwidth R"
    "usedBandwidth R' = usedBandwidth R + (if fst (run_func E (hd (map_requests R tid)) w) then 1 else 0)"
  using assms by (auto simp: run_head_def Let_def calls_frame split: prod.splits)

lemma run_thread_invariant:
  assumes "run_thread E available tid R w = Some (R', w')" "I R w"
    and step: "\<And>R w R' w'. I R w \<Longrightarrow> map_requests R tid \<noteq> [] \<Longrightarrow> available w R \<Longrightarrow> run_head E tid R w = (R', w')
      \<Longrightarrow> I R' w'"
  shows "I R' w'" "map_requests R' tid = [] \<or> \<not> available w' R'"
proof -
  note loop = assms(1) [unfolded run_thread_def]
  have "case (R', w') of (R, w) \<Rightarrow> I R w"
    by (rule while_option_rule [OF _ loop]) (use step assms(2) in \<open>auto split: prod.splits\<close>)
  then show "I R' w'" by simp
  show "map_requests R' tid = [] \<or> \<not> available w' R'" using while_option_stop [OF loop] by auto
qed

lemma run_thread_bandwidth:
  assumes "run_thread E available tid R w = Some (R', w')"
    and "\<And>w R. available w R \<Longrightarrow> resourceAvailable R" "bandwidth_inv R"
  shows "bandwidth_inv R'" "bandwidth R' = bandwidth R"
proof -
  have "bandwidth_inv R' \<and> bandwidth R' = bandwidth R"
  proof (rule run_thread_invariant(1) [OF assms(1), where I = "\<lambda>S v. bandwidth_inv S \<and> bandwidth S = bandwidth R"])
    fix S v S' v'
    assume I: "bandwidth_inv S \<and> bandwidth S = bandwidth R" and av: "available v S" and h: "run_head E tid S v = (S', v')"
    from assms(2) [OF av] I run_head_bandwidth [OF h]
    show "bandwidth_inv S' \<and> bandwidth S' = bandwidth R"
      by (auto simp: bandwidth_inv_def resourceAvailable_def)
  qed (use assms(3) in simp)
  then show "bandwidth_inv R'" "bandwidth R' = bandwidth R" by auto
qed

text \<open>When the loop ends. With a positive bandwidth it is enough that a closure that reports false, having
  found its instruction squashed, adds no request: the others are limited by the bandwidth. With
  bandwidth 0, which stands for no limit, nothing in the unit bounds the loop, and the closures
  have to: \<open>finite_work\<close> says that some quantity of the world is used up by every closure that
  adds a request, and increased by none.\<close>

lemma drain_terminates:
  fixes free len :: "'s \<Rightarrow> nat"
  assumes "\<And>s. P s \<Longrightarrow> c s \<Longrightarrow> P (b s) \<and> (free (b s) < free s \<or> free (b s) = free s \<and> len (b s) < len s)"
    and "P s"
  shows "\<exists>t. while_option c b s = Some t"
proof (rule wf_rel_while_option_Some [where P = P
      and R = "inv_image (less_than <*lex*> less_than) (\<lambda>s. (free s, len s))"])
  fix s assume s: "P s \<and> c s"
  show "(b s, s) \<in> inv_image (less_than <*lex*> less_than) (\<lambda>s. (free s, len s))"
    using assms(1) [of s] s by auto
  show "P (b s)" using assms(1) [of s] s by blast
qed (use assms(2) in auto)

definition adds_none :: "'r unit_call list \<Rightarrow> bool" where
  "adds_none cs \<longleftrightarrow> list_all (\<lambda>c. c = Schedule) cs"

definition squashed_quiet :: "('r, 'w) unit_env \<Rightarrow> bool" where
  "squashed_quiet E \<longleftrightarrow> (\<forall>r w. \<not> fst (run_func E r w) \<longrightarrow> adds_none (snd (snd (run_func E r w))))"

definition finite_work :: "('w \<Rightarrow> nat) \<Rightarrow> ('r, 'w) unit_env \<Rightarrow> bool" where
  "finite_work \<mu> E \<longleftrightarrow> (\<forall>r w. case run_func E r w of
     (_, w', calls) \<Rightarrow> \<mu> w' < \<mu> w \<or> \<mu> w' = \<mu> w \<and> adds_none calls)"

definition settles :: "('r, 'w) unit_env \<Rightarrow> int \<Rightarrow> bool" where
  "settles E bw \<longleftrightarrow> 0 < bw \<and> squashed_quiet E \<or> (\<exists>\<mu>. finite_work \<mu> E)"

lemma squashed_quietD: "squashed_quiet E \<Longrightarrow> run_func E r w = (False, v, cs) \<Longrightarrow> adds_none cs"
  unfolding squashed_quiet_def by (metis fst_conv snd_conv)

lemma finite_workD:
  "finite_work \<mu> E \<Longrightarrow> \<mu> (fst (snd (run_func E r w))) < \<mu> w
    \<or> \<mu> (fst (snd (run_func E r w))) = \<mu> w \<and> adds_none (snd (snd (run_func E r w)))"
  by (simp add: finite_work_def case_prod_beta)

lemma calls_quiet: "adds_none cs \<Longrightarrow> map_requests (threads_calls E cs R) = map_requests R"
  by (induction cs arbitrary: R) (auto simp: adds_none_def threads_schedule_def)

lemma unit_calls_quiet: "adds_none cs \<Longrightarrow> requests (unit_calls E cs R) = requests R"
  by (induction cs arbitrary: R) (auto simp: adds_none_def schedule_def)

lemma run_head_shorter:
  assumes "run_head E tid R w = (R', w')" "map_requests R tid \<noteq> []"
    and "adds_none (snd (snd (run_func E (hd (map_requests R tid)) w)))"
  shows "length (map_requests R' tid) < length (map_requests R tid)"
  using assms by (auto simp: run_head_def Let_def calls_quiet split: prod.splits)

lemma run_head_world: "run_head E tid R w = (R', w') \<Longrightarrow> w' = fst (snd (run_func E (hd (map_requests R tid)) w))"
  by (auto simp: run_head_def Let_def split: prod.splits)

lemma run_thread_terminates:
  assumes "settles E (bandwidth R)" "\<And>w R. available w R \<Longrightarrow> resourceAvailable R"
  shows "\<exists>R' w'. run_thread E available tid R w = Some (R', w')"
proof -
  let ?c = "\<lambda>(R, w). map_requests R tid \<noteq> [] \<and> available w R" and ?b = "\<lambda>(R, w). run_head E tid R w"
  let ?len = "\<lambda>(R, w). length (map_requests R tid)"
  have "\<exists>t. while_option ?c ?b (R, w) = Some t"
    using assms(1) unfolding settles_def
  proof (elim disjE conjE exE)
    assume bw: "0 < bandwidth R" and quiet: "squashed_quiet E"
    show ?thesis
    proof (rule drain_terminates [where P = "\<lambda>(R, w). 0 < bandwidth R"
          and free = "\<lambda>(R, w). nat (bandwidth R - usedBandwidth R)" and len = ?len], clarify)
      fix S v
      assume s: "0 < bandwidth S" "map_requests S tid \<noteq> []" "available v S"
      obtain S1 v1 where h: "run_head E tid S v = (S1, v1)" by force
      have "usedBandwidth S < bandwidth S" using assms(2) [OF s(3)] s(1) by (simp add: resourceAvailable_def)
      moreover have "length (map_requests S1 tid) < length (map_requests S tid)"
        if "\<not> fst (run_func E (hd (map_requests S tid)) v)"
        using that quiet by (intro run_head_shorter [OF h s(2)]) (simp add: squashed_quiet_def)
      ultimately show "(case run_head E tid S v of (R, w) \<Rightarrow> 0 < bandwidth R)
        \<and> ((case run_head E tid S v of (R, w) \<Rightarrow> nat (bandwidth R - usedBandwidth R)) < nat (bandwidth S - usedBandwidth S)
          \<or> (case run_head E tid S v of (R, w) \<Rightarrow> nat (bandwidth R - usedBandwidth R)) = nat (bandwidth S - usedBandwidth S)
            \<and> (case run_head E tid S v of (R, w) \<Rightarrow> length (map_requests R tid)) < length (map_requests S tid))"
        using run_head_bandwidth [OF h] s(1) by (auto simp: h)
    qed (use bw in simp)
  next
    fix \<mu> assume \<mu>: "finite_work \<mu> E"
    show ?thesis
    proof (rule drain_terminates [where P = "\<lambda>_. True" and free = "\<lambda>s. \<mu> (snd s)" and len = "\<lambda>s. length (map_requests (fst s) tid)"])
      fix s
      assume c: "?c s"
      obtain S v S1 v1 where s: "s = (S, v)" and h: "run_head E tid S v = (S1, v1)" by (metis surj_pair)
      have ne: "map_requests S tid \<noteq> []" using c s by simp
      have "\<mu> v1 < \<mu> v \<or> \<mu> v1 = \<mu> v \<and> adds_none (snd (snd (run_func E (hd (map_requests S tid)) v)))"
        using finite_workD [OF \<mu>, of "hd (map_requests S tid)" v] run_head_world [OF h] by simp
      then show "True \<and> (\<mu> (snd (?b s)) < \<mu> (snd s) \<or> \<mu> (snd (?b s)) = \<mu> (snd s)
          \<and> length (map_requests (fst (?b s)) tid) < length (map_requests (fst s) tid))"
        using run_head_shorter [OF h ne] by (auto simp: s h)
    qed simp
  qed
  then show ?thesis unfolding run_thread_def by auto
qed

text \<open>Without such a condition the loop need not end: at bandwidth 0 a closure that puts its own request back at
  the end of the queue keeps the unit busy for ever.\<close>

lemma unlimited_unit_spins:
  assumes "bandwidth R = 0" "map_requests R tid = [r]" "\<And>w. run_func E r w = (True, w, [AddRequest tid r])"
  shows "run_thread E (\<lambda>w R. resourceAvailable R) tid R w = None"
proof (rule ccontr)
  assume "run_thread E (\<lambda>w R. resourceAvailable R) tid R w \<noteq> None"
  then obtain R' w' where r: "run_thread E (\<lambda>w R. resourceAvailable R) tid R w = Some (R', w')" by fastforce
  note inv = run_thread_invariant [OF r, where I = "\<lambda>S v. bandwidth S = 0 \<and> map_requests S tid = [r]"]
  have "bandwidth R' = 0 \<and> map_requests R' tid = [r]"
    by (rule inv(1)) (use assms in \<open>auto simp: run_head_def threads_addRequest_def\<close>)
  moreover have "map_requests R' tid = [] \<or> \<not> resourceAvailable R'"
    by (rule inv(2)) (use assms in \<open>auto simp: run_head_def threads_addRequest_def\<close>)
  ultimately show False by (simp add: resourceAvailable_def)
qed

text \<open>Order: as long as closures add nothing behind the queue, a prefix of it is run, in its order.\<close>

lemma run_thread_prefix:
  fixes R :: "'r threads_resource" and w :: 'w
  assumes "run_thread E available tid R w = Some (R', w')"
    and quiet: "\<And>r w. adds_none (snd (snd (run_func E r w)))"
  shows "\<exists>k. map_requests R' tid = drop k (map_requests R tid)
    \<and> w' = fold (\<lambda>r w. fst (snd (run_func E r w))) (take k (map_requests R tid)) w
    \<and> (\<forall>t. t \<noteq> tid \<longrightarrow> map_requests R' t = map_requests R t)"
proof -
  let ?q = "map_requests R tid" and ?go = "\<lambda>r w. fst (snd (run_func E r w))"
  define I where "I S v \<longleftrightarrow> (\<exists>k. map_requests S tid = drop k ?q \<and> v = fold ?go (take k ?q) w
    \<and> (\<forall>t. t \<noteq> tid \<longrightarrow> map_requests S t = map_requests R t))" for S :: "'r threads_resource" and v
  have "I R' w'"
  proof (rule run_thread_invariant(1) [OF assms(1)])
    show "I R w" unfolding I_def by (intro exI [of _ 0]) simp
    fix S v S' v'
    assume "I S v" and ne: "map_requests S tid \<noteq> []" and h: "run_head E tid S v = (S', v')"
    then obtain k where k: "map_requests S tid = drop k ?q" "v = fold ?go (take k ?q) w"
      "\<forall>t. t \<noteq> tid \<longrightarrow> map_requests S t = map_requests R t" unfolding I_def by blast
    have lt: "k < length ?q" using k(1) ne by (metis drop_all not_le)
    then have hd: "hd (map_requests S tid) = ?q ! k" by (simp add: k(1) hd_drop_conv_nth)
    have "map_requests S' = (map_requests S)(tid := tl (map_requests S tid))" "v' = ?go (?q ! k) v"
      using h quiet [of "?q ! k" v] by (auto simp: run_head_def Let_def hd calls_quiet split: prod.splits)
    then show "I S' v'" unfolding I_def using k lt
      by (intro exI [of _ "Suc k"]) (simp add: take_Suc_conv_app_nth drop_Suc tl_drop)
  qed
  then show ?thesis unfolding I_def by blast
qed

section \<open>One activation of the unit\<close>

lemma clean_squashed_eq:
  "clean_squashed E w R = R\<lparr>map_requests := (\<lambda>t. if t < threads_size E
     then dropWhile (is_squashed E w) (map_requests R t) else map_requests R t)\<rparr>"
proof -
  have "fold (\<lambda>i R. R\<lparr>map_requests := (map_requests R)(i := dropWhile (is_squashed E w) (map_requests R i))\<rparr>)
      [0..<k] R = R\<lparr>map_requests := (\<lambda>t. if t < k then dropWhile (is_squashed E w) (map_requests R t)
        else map_requests R t)\<rparr>" for k
    by (induction k) (auto simp: fun_eq_iff less_Suc_eq)
  then show ?thesis by (simp add: clean_squashed_def)
qed

lemma no_request_iff: "there_is_no_any_request E R \<longleftrightarrow> (\<forall>t < threads_size E. map_requests R t = [])"
  by (auto simp: there_is_no_any_request_def list_all_iff)

lemma totalInstInQueues_sum: "totalInstInQueues E R = (\<Sum>i < threads_size E. length (map_requests R i))"
proof -
  have "fold (\<lambda>i count. count + length (map_requests R i)) [0..<k] 0 = (\<Sum>i < k. length (map_requests R i))" for k
    by (induction k) simp_all
  then show ?thesis by (simp add: totalInstInQueues_def)
qed

lemma new_cycle_Some:
  assumes "bandwidth_inv R"
  obtains R' K' where "new_cycle E R K = Some (R', K')" "bandwidth_inv R'" "bandwidth R' = bandwidth R"
    "R' = R\<lparr>activeCycles := activeCycles R', bandwidthPerCycle := bandwidthPerCycle R',
      usedBandwidth := usedBandwidth R', lastActiveTick := curTick E\<rparr>"
proof (cases "curTick E = lastActiveTick R")
  case True
  then show ?thesis using assms by (intro that [of R K]) (simp_all add: new_cycle_def)
next
  case False
  then show ?thesis
    using assms by (intro that [of "R\<lparr>activeCycles := Suc (activeCycles R),
      bandwidthPerCycle := bandwidthPerCycle R @ [usedBandwidth R], usedBandwidth := 0, lastActiveTick := curTick E\<rparr>"
      "markActiveCycle (curTick E) K"]) (auto simp: new_cycle_def bandwidth_inv_def)
qed

text \<open>Work that is queued has the event that will run it.\<close>

definition wake_inv :: "('r, 'w) unit_env \<Rightarrow> 'r threads_resource \<Rightarrow> bool" where
  "wake_inv E R \<longleftrightarrow> (there_is_no_any_request E R \<or> attemptAllThreads R \<noteq> None)"

lemma attempt_threads_Some:
  fixes R :: "'r threads_resource" and w :: 'w
  assumes "bandwidth_inv R" "settles E (bandwidth R)" "nextCycle E \<noteq> curTick E"
    and pol: "\<And>w R c R'. select w R = (c, R') \<Longrightarrow> R' = R\<lparr>priority := priority R'\<rparr>"
    and av: "\<And>t w R. available t w R \<Longrightarrow> resourceAvailable R"
  shows "\<exists>R' K' w'. attempt_threads E select available R K w = Some (R', K', w')
    \<and> bandwidth_inv R' \<and> bandwidth R' = bandwidth R \<and> wake_inv E R'"
proof -
  let ?R = "R\<lparr>attemptAllThreads := None\<rparr>"
  have "bandwidth_inv ?R" using assms(1) by (simp add: bandwidth_inv_def)
  then obtain R1 K1 where "new_cycle E ?R K = Some (R1, K1)" "bandwidth_inv R1" "bandwidth R1 = bandwidth ?R"
    by (rule new_cycle_Some)
  then have c: "new_cycle E ?R K = Some (R1, K1)" "bandwidth_inv R1" "bandwidth R1 = bandwidth R" by simp_all
  define R2 where "R2 = clean_squashed E w R1"
  have R2: "bandwidth_inv R2" "bandwidth R2 = bandwidth R"
    using c by (simp_all add: R2_def clean_squashed_eq bandwidth_inv_def)
  show ?thesis
  proof (cases "there_is_no_any_request E R2")
    case True
    then show ?thesis using c R2 by (auto simp: attempt_threads_def R2_def wake_inv_def)
  next
    case False
    obtain ch R3 where s: "select w R2 = (ch, R3)" by force
    note fr = pol [OF s]
    have R3: "bandwidth_inv R3" "bandwidth R3 = bandwidth R" using R2 by (subst fr, simp add: bandwidth_inv_def)+
    have "\<exists>R4 w4. (case ch of None \<Rightarrow> Some (R3, w) | Some tid \<Rightarrow> run_thread E (available tid) tid R3 w) = Some (R4, w4)
      \<and> bandwidth_inv R4 \<and> bandwidth R4 = bandwidth R"
    proof (cases ch)
      case None
      then show ?thesis using R3 by simp
    next
      case (Some tid)
      obtain R4 w4 where r: "run_thread E (available tid) tid R3 w = Some (R4, w4)"
        using run_thread_terminates [of E R3 "available tid" tid w] R3(2) assms(2) av by auto
      then show ?thesis using run_thread_bandwidth [OF r av R3(1)] R3(2) Some by simp
    qed
    then obtain R4 w4 where r: "(case ch of None \<Rightarrow> Some (R3, w) | Some tid \<Rightarrow> run_thread E (available tid) tid R3 w)
        = Some (R4, w4)" "bandwidth_inv R4" "bandwidth R4 = bandwidth R" by blast
    have "attempt_threads E select available R K w = (if \<not> there_is_no_any_request E R4
        then Some (R4\<lparr>attemptAllThreads := Some (nextCycle E)\<rparr>, K1, w4) else Some (R4, K1, w4))"
      using c(1) False s r(1) assms(3) unfolding attempt_threads_def R2_def by (simp add: Let_def)
    then show ?thesis using r(2,3) by (auto simp: wake_inv_def bandwidth_inv_def)
  qed
qed

text \<open>The queues after the heads of squashed instructions are gone, and what an activation makes of them when
  its closures add nothing.\<close>

definition cleaned :: "('r, 'w) unit_env \<Rightarrow> 'w \<Rightarrow> 'r threads_resource \<Rightarrow> nat \<Rightarrow> 'r list" where
  "cleaned E w R t = (if t < threads_size E then dropWhile (is_squashed E w) (map_requests R t) else map_requests R t)"

lemma attempt_threads_order:
  fixes R :: "'r threads_resource" and w :: 'w
  assumes "bandwidth_inv R" "nextCycle E \<noteq> curTick E"
    and pol: "\<And>w R c R'. select w R = (c, R') \<Longrightarrow> R' = R\<lparr>priority := priority R'\<rparr>"
    and same: "\<And>w R S. map_requests S = map_requests R \<Longrightarrow> priority S = priority R \<Longrightarrow> threadPolicy S = threadPolicy R
      \<Longrightarrow> fst (select w S) = fst (select w R)"
    and av: "\<And>t w R. available t w R \<Longrightarrow> resourceAvailable R"
    and av_frame: "\<And>t w R e. available t w (R\<lparr>attemptAllThreads := e\<rparr>) = available t w R"
    and quiet: "\<And>r w. adds_none (snd (snd (run_func E r w)))"
  shows "\<exists>R' K' w'. attempt_threads E select available R K w = Some (R', K', w') \<and>
    (case (if \<forall>t < threads_size E. cleaned E w R t = [] then None else fst (select w (R\<lparr>map_requests := cleaned E w R\<rparr>))) of
       None \<Rightarrow> map_requests R' = cleaned E w R \<and> w' = w
     | Some tid \<Rightarrow> \<exists>k. map_requests R' = (cleaned E w R)(tid := drop k (cleaned E w R tid))
         \<and> w' = fold (\<lambda>r w. fst (snd (run_func E r w))) (take k (cleaned E w R tid)) w
         \<and> (drop k (cleaned E w R tid) = [] \<or> \<not> available tid w' R'))"
proof -
  let ?R = "R\<lparr>attemptAllThreads := None\<rparr>" and ?Q = "cleaned E w R"
  have "bandwidth_inv ?R" using assms(1) by (simp add: bandwidth_inv_def)
  then obtain R1 K1 where c: "new_cycle E ?R K = Some (R1, K1)"
    and R1: "R1 = ?R\<lparr>activeCycles := activeCycles R1, bandwidthPerCycle := bandwidthPerCycle R1,
      usedBandwidth := usedBandwidth R1, lastActiveTick := curTick E\<rparr>" by (rule new_cycle_Some)
  have R1': "map_requests R1 = map_requests R" "priority R1 = priority R" "threadPolicy R1 = threadPolicy R"
    by (subst R1, simp)+
  define R2 where "R2 = clean_squashed E w R1"
  have R2: "map_requests R2 = ?Q" "priority R2 = priority R" "threadPolicy R2 = threadPolicy R"
    by (simp_all add: R2_def clean_squashed_eq R1' cleaned_def fun_eq_iff)
  show ?thesis
  proof (cases "\<forall>t < threads_size E. ?Q t = []")
    case True
    then have "there_is_no_any_request E R2" by (simp add: no_request_iff R2(1))
    then show ?thesis using c True R2(1) by (auto simp: attempt_threads_def R2_def)
  next
    case False
    then have ne: "\<not> there_is_no_any_request E R2" by (simp add: no_request_iff R2(1))
    obtain ch R3 where s: "select w R2 = (ch, R3)" by force
    have R3: "map_requests R3 = ?Q" using R2(1) by (subst pol [OF s]) simp
    have ch: "fst (select w (R\<lparr>map_requests := ?Q\<rparr>)) = ch"
      using same [of "R\<lparr>map_requests := ?Q\<rparr>" R2 w] R2 s by simp
    have fin: "attempt_threads E select available R K w = (if \<not> there_is_no_any_request E R4
        then Some (R4\<lparr>attemptAllThreads := Some (nextCycle E)\<rparr>, K1, w4) else Some (R4, K1, w4))"
      if "(case ch of None \<Rightarrow> Some (R3, w) | Some tid \<Rightarrow> run_thread E (available tid) tid R3 w) = Some (R4, w4)" for R4 w4
      using c(1) ne s that assms(2) unfolding attempt_threads_def R2_def by (simp add: Let_def)
    show ?thesis
    proof (cases ch)
      case None
      then show ?thesis using fin [of R3 w] False ch R3 by auto
    next
      case (Some tid)
      have "finite_work (\<lambda>_. 0) E" using quiet by (simp add: finite_work_def split: prod.split) (metis snd_conv)
      then have "settles E (bandwidth R3)" by (auto simp: settles_def)
      then obtain R4 w4 where r: "run_thread E (available tid) tid R3 w = Some (R4, w4)"
        using run_thread_terminates [of E R3 "available tid" tid w] av by blast
      obtain k where k: "map_requests R4 tid = drop k (?Q tid)"
        "w4 = fold (\<lambda>r w. fst (snd (run_func E r w))) (take k (?Q tid)) w" "\<forall>t. t \<noteq> tid \<longrightarrow> map_requests R4 t = ?Q t"
        using run_thread_prefix [OF r quiet] unfolding R3 by blast
      have "map_requests R4 = ?Q(tid := drop k (?Q tid))" using k(1,3) by (auto simp: fun_eq_iff)
      moreover have "drop k (?Q tid) = [] \<or> \<not> available tid w4 R4"
        using run_thread_invariant(2) [OF r, of "\<lambda>_ _. True"] k(1) by simp
      moreover have "attempt_threads E select available R K w = (if \<not> there_is_no_any_request E R4
        then Some (R4\<lparr>attemptAllThreads := Some (nextCycle E)\<rparr>, K1, w4) else Some (R4, K1, w4))"
        by (rule fin) (simp add: Some r)
      ultimately show ?thesis
        using False ch Some k(2) by (cases "there_is_no_any_request E R4") (auto simp: av_frame)
    qed
  qed
qed

section \<open>One activation of a plain unit\<close>

lemma unit_calls_frame:
  "usedBandwidth (unit_calls E cs R) = usedBandwidth R" "bandwidth (unit_calls E cs R) = bandwidth R"
  by (induction cs arbitrary: R) (auto simp: addRequest_def schedule_def split: unit_call.splits)

lemma run_request_bandwidth:
  assumes "run_request E (R, w) = (R', w')"
  shows "bandwidth R' = bandwidth R"
    "usedBandwidth R' = usedBandwidth R + (if fst (run_func E (hd (requests R)) w) then 1 else 0)"
  using assms by (auto simp: run_request_def Let_def unit_calls_frame split: prod.splits)

lemma run_request_shorter:
  assumes "run_request E (R, w) = (R', w')" "requests R \<noteq> []" "adds_none (snd (snd (run_func E (hd (requests R)) w)))"
  shows "length (requests R') < length (requests R)"
  using assms by (auto simp: run_request_def Let_def unit_calls_quiet split: prod.splits)

lemma run_request_world: "run_request E (R, w) = (R', w') \<Longrightarrow> w' = fst (snd (run_func E (hd (requests R)) w))"
  by (auto simp: run_request_def Let_def split: prod.splits)

lemma run_requests_Some:
  assumes "settles E (bandwidth R)" "bandwidth_inv R" "\<And>w R. available w R \<Longrightarrow> resourceAvailable R"
  obtains R' w' where "run_requests E available R w = Some (R', w')" "bandwidth_inv R'" "bandwidth R' = bandwidth R"
proof -
  let ?c = "\<lambda>(R, w). requests R \<noteq> [] \<and> available w R" and ?len = "\<lambda>(R, w). length (requests R)"
  have step: "bandwidth (fst (run_request E (S, v))) = bandwidth S \<and> bandwidth_inv (fst (run_request E (S, v)))"
    if "bandwidth_inv S" "available v S" for S v
  proof -
    obtain S1 v1 where h: "run_request E (S, v) = (S1, v1)" by force
    from run_request_bandwidth [OF h] assms(3) [OF that(2)] that(1) show ?thesis
      by (auto simp: h bandwidth_inv_def resourceAvailable_def)
  qed
  have "\<exists>t. while_option ?c (run_request E) (R, w) = Some t"
    using assms(1) unfolding settles_def
  proof (elim disjE conjE exE)
    assume bw: "0 < bandwidth R" and quiet: "squashed_quiet E"
    show ?thesis
    proof (rule drain_terminates [where P = "\<lambda>(R, w). 0 < bandwidth R"
          and free = "\<lambda>(R, w). nat (bandwidth R - usedBandwidth R)" and len = ?len], clarify)
      fix S v
      assume s: "0 < bandwidth S" "requests S \<noteq> []" "available v S"
      obtain S1 v1 where h: "run_request E (S, v) = (S1, v1)" by force
      have "usedBandwidth S < bandwidth S" using assms(3) [OF s(3)] s(1) by (simp add: resourceAvailable_def)
      moreover have "length (requests S1) < length (requests S)" if "\<not> fst (run_func E (hd (requests S)) v)"
        using that quiet by (intro run_request_shorter [OF h s(2)]) (simp add: squashed_quiet_def)
      ultimately show "(case run_request E (S, v) of (R, w) \<Rightarrow> 0 < bandwidth R)
        \<and> ((case run_request E (S, v) of (R, w) \<Rightarrow> nat (bandwidth R - usedBandwidth R)) < nat (bandwidth S - usedBandwidth S)
          \<or> (case run_request E (S, v) of (R, w) \<Rightarrow> nat (bandwidth R - usedBandwidth R)) = nat (bandwidth S - usedBandwidth S)
            \<and> (case run_request E (S, v) of (R, w) \<Rightarrow> length (requests R)) < length (requests S))"
        using run_request_bandwidth [OF h] s(1) by (auto simp: h)
    qed (use bw in simp)
  next
    fix \<mu> assume \<mu>: "finite_work \<mu> E"
    show ?thesis
    proof (rule drain_terminates [where P = "\<lambda>_. True" and free = "\<lambda>s. \<mu> (snd s)" and len = "\<lambda>s. length (requests (fst s))"])
      fix s
      assume c: "?c s"
      obtain S v S1 v1 where s: "s = (S, v)" and h: "run_request E (S, v) = (S1, v1)" by (metis surj_pair)
      have ne: "requests S \<noteq> []" using c s by simp
      have "\<mu> v1 < \<mu> v \<or> \<mu> v1 = \<mu> v \<and> adds_none (snd (snd (run_func E (hd (requests S)) v)))"
        using finite_workD [OF \<mu>, of "hd (requests S)" v] run_request_world [OF h] by simp
      then show "True \<and> (\<mu> (snd (run_request E s)) < \<mu> (snd s) \<or> \<mu> (snd (run_request E s)) = \<mu> (snd s)
          \<and> length (requests (fst (run_request E s))) < length (requests (fst s)))"
        using run_request_shorter [OF h ne] by (auto simp: s h)
    qed simp
  qed
  then obtain R' w' where r: "while_option ?c (run_request E) (R, w) = Some (R', w')" by auto
  have "case (R', w') of (S, v) \<Rightarrow> bandwidth_inv S \<and> bandwidth S = bandwidth R"
    by (rule while_option_rule [OF _ r]) (use step assms(2) in \<open>auto simp: case_prod_beta\<close>)
  then show ?thesis using that r by (simp add: run_requests_def)
qed

lemma attemptAllRequests_Some:
  assumes "settles E (bandwidth R)" "bandwidth_inv R" "nextCycle E \<noteq> curTick E"
    and "\<And>w R. available w R \<Longrightarrow> resourceAvailable R"
  shows "\<exists>R' K' w'. attemptAllRequests E available R K w = Some (R', K', w') \<and> bandwidth_inv R'
    \<and> bandwidth R' = bandwidth R \<and> (requests R' = [] \<or> attemptAllEvent R' \<noteq> None)"
proof -
  let ?R = "R\<lparr>attemptAllEvent := None\<rparr>"
  have "bandwidth_inv ?R" using assms(2) by (simp add: bandwidth_inv_def)
  then obtain R1 K1 where "new_cycle E ?R K = Some (R1, K1)" "bandwidth_inv R1" "bandwidth R1 = bandwidth ?R"
    by (rule new_cycle_Some)
  then have c: "new_cycle E ?R K = Some (R1, K1)" "bandwidth_inv R1" "bandwidth R1 = bandwidth R" by simp_all
  obtain R2 w2 where r: "run_requests E available R1 w = Some (R2, w2)" "bandwidth_inv R2" "bandwidth R2 = bandwidth R1"
    using run_requests_Some [of E R1 available w] assms(1,4) c(2,3) by metis
  have "attemptAllRequests E available R K w = (if requests R1 = [] then Some (R1, K1, w)
      else if requests R2 \<noteq> [] then Some (R2\<lparr>attemptAllEvent := Some (nextCycle E)\<rparr>, K1, w2) else Some (R2, K1, w2))"
    unfolding attemptAllRequests_def Let_def using c(1) r(1) assms(3) by simp
  then show ?thesis using c r by (auto simp: bandwidth_inv_def)
qed

section \<open>Properties\<close>

text \<open>C8 (no starvation): under the round-robin policy a thread whose queue has a ready head every time
  the policy is asked is chosen within as many calls as there are threads, whatever the other
  threads do in between and whatever the priority was.\<close>

theorem round_robin_no_starvation:
  assumes "t < threads_size E" "\<forall>x \<in> set xs. head_ready E (fst x) (snd x) t" "threads_size E \<le> length xs"
  shows "\<exists>i < threads_size E. selections E p xs ! i = Some t"
proof -
  have g: "gap (threads_size E) (Suc p) t < threads_size E" using gap_less assms(1) by simp
  then have "gap (threads_size E) (Suc p) t < length xs" using assms(3) by simp
  with selections_reach [OF assms(1,2)] g show ?thesis by (meson le_less_trans)
qed

definition sample_env :: "(nat, nat) unit_env" where
  "sample_env = \<lparr>run_func = (\<lambda>r w. (r < 100, w + r, [])), is_ready = (\<lambda>w r. True), is_squashed = (\<lambda>w r. False),
     is_control = (\<lambda>r. False), is_mem_ref = (\<lambda>r. False), port_blocked = (\<lambda>w. False), issue_size = (\<lambda>w t. t),
     threads_size = 2, curTick = 10, nextCycle = 11, clockEdge = (\<lambda>c. 10 + c)\<rparr>"

definition sample_unit :: "flex_policy \<Rightarrow> nat threads_resource" where
  "sample_unit pol = (new_threads_resource 1 2 pol)\<lparr>map_requests := (\<lambda>t. [t, 7])\<rparr>"

lemmas sample_defs = sample_env_def sample_unit_def new_threads_resource_def new_resource_def
  threads_resource.defs resource.defs head_ready_def

theorem round_robin_no_starvation_witness:
  "\<exists>i < 2. selections sample_env 0 [(0, sample_unit FlxRoundRobin), (5, sample_unit FlxRoundRobin)] ! i = Some 0"
  using round_robin_no_starvation [of 0 sample_env "[(0, sample_unit FlxRoundRobin), (5, sample_unit FlxRoundRobin)]" 0]
  by (simp add: sample_defs)

text \<open>The random policy always names a thread, a ready one whenever there is one; but when
  no thread has a ready head it names a thread all the same, where the other policies answer
  \<open>InvalidThreadID\<close>, and the unit goes on to run the requests of that thread.\<close>

lemma random_policy_choice:
  assumes "0 < threads_size E" "threadPolicy R = FlxRandom"
  shows "\<exists>t < threads_size E. qid_select E rnd w R = (Some t, R)
    \<and> (head_ready E w R t \<longleftrightarrow> (\<exists>u < threads_size E. head_ready E w R u))"
proof -
  let ?n = "threads_size E" let ?f = "nat (u64 (rnd + 1)) mod ?n"
  show ?thesis
  proof (cases "probe ?n ?f (head_ready E w R)")
    case None
    then have "\<not> head_ready E w R t" if "t < ?n" for t using that by (simp add: probe_None)
    then show ?thesis using None assms by (auto simp: qid_select_def randomPriority_def Let_def)
  next
    case (Some t)
    then show ?thesis using probe_Some(1,2) [OF Some] assms by (auto simp: qid_select_def randomPriority_def Let_def)
  qed
qed

text \<open>C14 (choice of a thread): what each of the six policies answers. The round-robin, coarse, event and
  longest-queue policies choose a thread only if its queue has a head whose instruction is ready,
  and choose none only if there is no such thread; the coarse policy stays with its thread as long
  as that is ready, and the longest-queue policy chooses, among the ready threads, the first of those
  with the longest queue. The other two do not conserve work: the single-threaded policy answers thread 0 without looking
  at its queue, and the random policy names a ready thread if there is one and a thread that is not
  ready otherwise. No policy changes anything but the priority.\<close>

theorem policies_choose_ready_threads:
  assumes "qid_select E rnd w R = (c, R')"
  shows "R' = R\<lparr>priority := priority R'\<rparr>
    \<and> (case threadPolicy R of
         FlxSingleThreaded \<Rightarrow> c = Some 0
       | FlxRandom \<Rightarrow> 0 < threads_size E \<longrightarrow> (\<exists>t < threads_size E. c = Some t
           \<and> (head_ready E w R t \<longleftrightarrow> (\<exists>u < threads_size E. head_ready E w R u)))
       | _ \<Rightarrow> (case c of Some t \<Rightarrow> t < threads_size E \<and> head_ready E w R t
           | None \<Rightarrow> \<forall>t < threads_size E. \<not> head_ready E w R t))
    \<and> (threadPolicy R = FlxCorse \<and> priority R < threads_size E \<and> head_ready E w R (priority R) \<longrightarrow> c = Some (priority R))
    \<and> (threadPolicy R = FlxMax \<longrightarrow> (\<forall>u. c = Some u \<longrightarrow> (\<forall>t < threads_size E. head_ready E w R t \<longrightarrow>
          length (map_requests R t) \<le> length (map_requests R u)
          \<and> (length (map_requests R t) = length (map_requests R u) \<longrightarrow> u \<le> t))))"
proof -
  have cand: "(case c of Some t \<Rightarrow> t < threads_size E \<and> head_ready E w R t
        | None \<Rightarrow> \<forall>t < threads_size E. \<not> head_ready E w R t)"
    if "thread_policy sel (head_ready E) (threads_size E)" "sel w R = (c, R')" for sel
    using thread_policy.sound [OF that(1), of w R _ R'] thread_policy.complete [OF that(1), of w R R'] that(2)
    by (cases c) auto
  have "case threadPolicy R of FlxSingleThreaded \<Rightarrow> c = Some 0
       | FlxRandom \<Rightarrow> 0 < threads_size E \<longrightarrow> (\<exists>t < threads_size E. c = Some t
           \<and> (head_ready E w R t \<longleftrightarrow> (\<exists>u < threads_size E. head_ready E w R u)))
       | _ \<Rightarrow> (case c of Some t \<Rightarrow> t < threads_size E \<and> head_ready E w R t
           | None \<Rightarrow> \<forall>t < threads_size E. \<not> head_ready E w R t)"
    using assms cand [OF round_robin.thread_policy_axioms] cand [OF corse.thread_policy_axioms]
      cand [OF event.thread_policy_axioms] cand [OF max_queue.thread_policy_axioms] random_policy_choice [of E R rnd w]
    by (cases "threadPolicy R") (auto simp: qid_select_def)
  moreover have "c = Some (priority R)"
    if "threadPolicy R = FlxCorse" "priority R < threads_size E" "head_ready E w R (priority R)"
  proof -
    have "probe (threads_size E) (priority R) (head_ready E w R) = Some (priority R)"
      using that(2,3) unfolding probe_def by (cases "threads_size E") (simp_all add: upt_conv_Cons del: upt_Suc)
    then show ?thesis using assms that(1) by (auto simp: qid_select_def corsePriority_def keep_priority_def)
  qed
  moreover have "length (map_requests R t) \<le> length (map_requests R u)
      \<and> (length (map_requests R t) = length (map_requests R u) \<longrightarrow> u \<le> t)"
    if "threadPolicy R = FlxMax" "c = Some u" "t < threads_size E" "head_ready E w R t" for u t
    using maxPriority_cases [of E w R] assms that by (auto simp: qid_select_def) (metis less_irrefl_nat not_le)
  ultimately show ?thesis using qid_select_frame [OF assms] by blast
qed

theorem policies_choose_ready_threads_witness:
  "fst (qid_select sample_env 0 0 (sample_unit FlxCorse)) = Some 0"
  using policies_choose_ready_threads [of sample_env 0 0 "sample_unit FlxCorse"]
  by (cases "qid_select sample_env 0 0 (sample_unit FlxCorse)") (simp add: sample_defs)

text \<open>C9 (an activation ends, within the bandwidth, and loses no wake-up): one activation of the issue
  unit or of the fetch unit returns, if either the bandwidth is positive and a closure that reports
  false, having been squashed, adds no request, or (for every bandwidth, in particular the default 0,
  which is no limit) the requests that closures add use up some finite quantity of the world. It
  uses at most the bandwidth of the cycle, so the assertion at the start of the next one holds, and
  if a request is left the event that will run it is scheduled. At bandwidth 0 the condition on the
  closures cannot be dropped: \<open>unlimited_unit_spins\<close>.\<close>

theorem thread_units_total:
  assumes "bandwidth_inv R" "settles E (bandwidth R)" "nextCycle E \<noteq> curTick E"
  shows "(\<exists>R' K' w'. threads_attemptAllRequests E rnd R K w = Some (R', K', w')
      \<and> bandwidth_inv R' \<and> bandwidth R' = bandwidth R \<and> wake_inv E R')
    \<and> (\<exists>R' K' w'. fetch_attemptAllRequests E R K w = Some (R', K', w')
      \<and> bandwidth_inv R' \<and> bandwidth R' = bandwidth R \<and> wake_inv E R')"
proof (intro conjI)
  show "\<exists>R' K' w'. threads_attemptAllRequests E rnd R K w = Some (R', K', w')
      \<and> bandwidth_inv R' \<and> bandwidth R' = bandwidth R \<and> wake_inv E R'"
    unfolding threads_attemptAllRequests_def
    by (rule attempt_threads_Some [OF assms]) (rule qid_select_frame, assumption, assumption)
  show "\<exists>R' K' w'. fetch_attemptAllRequests E R K w = Some (R', K', w')
      \<and> bandwidth_inv R' \<and> bandwidth R' = bandwidth R \<and> wake_inv E R'"
    unfolding fetch_attemptAllRequests_def
    by (rule attempt_threads_Some [OF assms]) (auto simp: fetch_resourceAvailable_def split: if_splits)
qed

text \<open>A closure that adds a request as long as there is work left, as the issue of an instruction does that finds its
  successor in the fetch buffer: it settles although the unit has no limit.\<close>

definition chain_env :: "(nat, nat) unit_env" where
  "chain_env = sample_env\<lparr>run_func := (\<lambda>r w. (True, w - 1, if w = 0 then [] else [AddRequest 0 w]))\<rparr>"

theorem thread_units_total_witness:
  "\<exists>R' K' w'. threads_attemptAllRequests chain_env 0 ((sample_unit FlxMax)\<lparr>bandwidth := 0\<rparr>)
       \<lparr>numCycles = 0, cpu_lastActiveTick = 0\<rparr> 7 = Some (R', K', w') \<and> wake_inv chain_env R'"
proof -
  have u: "bandwidth_inv ((sample_unit FlxMax)\<lparr>bandwidth := 0\<rparr>)" "nextCycle chain_env \<noteq> curTick chain_env"
    by (simp_all add: bandwidth_inv_def chain_env_def sample_defs)
  have "finite_work (\<lambda>w. w) chain_env"
    by (auto simp: finite_work_def adds_none_def chain_env_def sample_defs)
  then have "settles chain_env (bandwidth ((sample_unit FlxMax)\<lparr>bandwidth := 0\<rparr>))" by (auto simp: settles_def)
  from conjunct1 [OF thread_units_total [OF u(1) this u(2)]] show ?thesis by blast
qed

text \<open>C15 (an activation serves one queue in order): when its closures add no requests, a whole activation of the
  issue unit or of the fetch unit returns, whatever the bandwidth. It first drops the squashed instructions at the heads of
  all queues. If no request is left, or the policy names no thread, it runs nothing. Otherwise it
  runs a prefix of what is left of the queue of the chosen thread, oldest first, and leaves the rest of it
  and the other queues as they are; it stops only when that queue is empty or the unit is busy.\<close>

theorem thread_queue_in_order:
  assumes "bandwidth_inv R" "nextCycle E \<noteq> curTick E" "\<forall>r w. adds_none (snd (snd (run_func E r w)))"
  shows "(\<exists>R' K' w'. threads_attemptAllRequests E rnd R K w = Some (R', K', w') \<and>
      (case (if \<forall>t < threads_size E. cleaned E w R t = [] then None
             else fst (qid_select E rnd w (R\<lparr>map_requests := cleaned E w R\<rparr>))) of
         None \<Rightarrow> map_requests R' = cleaned E w R \<and> w' = w
       | Some tid \<Rightarrow> \<exists>k. map_requests R' = (cleaned E w R)(tid := drop k (cleaned E w R tid))
           \<and> w' = fold (\<lambda>r w. fst (snd (run_func E r w))) (take k (cleaned E w R tid)) w
           \<and> (drop k (cleaned E w R tid) = [] \<or> \<not> resourceAvailable R')))
    \<and> (\<exists>R' K' w'. fetch_attemptAllRequests E R K w = Some (R', K', w') \<and>
      (case (if \<forall>t < threads_size E. cleaned E w R t = [] then None
             else get_min_qid E w (R\<lparr>map_requests := cleaned E w R\<rparr>)) of
         None \<Rightarrow> map_requests R' = cleaned E w R \<and> w' = w
       | Some tid \<Rightarrow> \<exists>k. map_requests R' = (cleaned E w R)(tid := drop k (cleaned E w R tid))
           \<and> w' = fold (\<lambda>r w. fst (snd (run_func E r w))) (take k (cleaned E w R tid)) w
           \<and> (drop k (cleaned E w R tid) = [] \<or> \<not> fetch_resourceAvailable E tid w' R')))"
proof (rule conjI, goal_cases)
  case 1
  show ?case
    unfolding threads_attemptAllRequests_def
    by (rule attempt_threads_order [OF assms(1,2) qid_select_frame select_cong(1)])
      (use assms(3) in \<open>auto simp: resourceAvailable_def\<close>)
next
  case 2
  have pol: "S' = S\<lparr>priority := priority S'\<rparr>" if "(get_min_qid E v S, S) = (c, S')" for v c and S S' :: "'a threads_resource"
  proof -
    from that have "S' = S" by (rule Pair_inject) (rule sym)
    then show ?thesis by (intro threads_resource.equality) simp_all
  qed
  have av: "resourceAvailable S" if "fetch_resourceAvailable E t v S" for t v and S :: "'a threads_resource"
    using that by (simp add: fetch_resourceAvailable_def split: if_splits)
  have fr: "fetch_resourceAvailable E t v (S\<lparr>attemptAllThreads := e\<rparr>) = fetch_resourceAvailable E t v S"
    for t v e and S :: "'a threads_resource"
    by (simp add: fetch_resourceAvailable_def resourceAvailable_def)
  have same: "fst (get_min_qid E v S, S) = fst (get_min_qid E v T, T)"
    if "map_requests S = map_requests T" for v and S T :: "'a threads_resource"
    using select_cong(2) [OF that] by simp
  note order = attempt_threads_order [OF assms(1,2), where select = "\<lambda>w R. (get_min_qid E w R, R)"
      and available = "fetch_resourceAvailable E", OF pol same av fr assms(3) [THEN spec, THEN spec]]
  show ?case
    unfolding fetch_attemptAllRequests_def by (rule order [unfolded fst_conv])
qed

theorem thread_queue_in_order_witness:
  "\<exists>R' K' w' k. threads_attemptAllRequests (sample_env\<lparr>is_squashed := (\<lambda>w r. r = 0)\<rparr>) 0 (sample_unit FlxMax)
       \<lparr>numCycles = 0, cpu_lastActiveTick = 0\<rparr> 0 = Some (R', K', w')
     \<and> map_requests R' = (\<lambda>t. if t = 0 then [7] else if t = 1 then drop k [1, 7] else [t, 7])"
proof -
  let ?E = "sample_env\<lparr>is_squashed := (\<lambda>w r. r = 0)\<rparr>" and ?R = "sample_unit FlxMax"
  have c: "cleaned ?E 0 ?R = (\<lambda>t. if t = 0 then [7] else [t, 7])"
    by (simp add: cleaned_def fun_eq_iff sample_defs)
  have "fst (qid_select ?E 0 0 (?R\<lparr>map_requests := cleaned ?E 0 ?R\<rparr>)) = Some 1"
    unfolding c by (simp add: qid_select_def maxPriority_def sample_defs upt_rec)
  moreover have "\<not> (\<forall>t < threads_size ?E. cleaned ?E 0 ?R t = [])" unfolding c by (auto simp: sample_defs)
  moreover have "bandwidth_inv ?R" "nextCycle ?E \<noteq> curTick ?E" "\<forall>r w. adds_none (snd (snd (run_func ?E r w)))"
    by (simp_all add: bandwidth_inv_def adds_none_def sample_defs)
  ultimately obtain R' K' w' k where r: "threads_attemptAllRequests ?E 0 ?R \<lparr>numCycles = 0, cpu_lastActiveTick = 0\<rparr> 0 = Some (R', K', w')"
    and m: "map_requests R' = (cleaned ?E 0 ?R)(1 := drop k (cleaned ?E 0 ?R 1))"
    using conjunct1 [OF thread_queue_in_order [of ?R ?E 0 "\<lparr>numCycles = 0, cpu_lastActiveTick = 0\<rparr>" 0]]
    by (simp only: if_False option.case) blast
  have "map_requests R' = (\<lambda>t. if t = 0 then [7] else if t = 1 then drop k [1, 7] else [t, 7])"
    unfolding m c by (simp add: fun_eq_iff)
  with r show ?thesis by blast
qed

text \<open>C16 (fetch decision): the fetch unit serves a thread that has a fetch pending and, among those, one
  with the fewest instructions waiting for issue; it serves none only if no thread has a fetch
  pending (or all issue queues have reached the largest \<open>int\<close>).\<close>

theorem fetch_serves_shortest_issue_queue:
  "case get_min_qid E w R of
     Some u \<Rightarrow> u < threads_size E \<and> map_requests R u \<noteq> []
       \<and> (\<forall>t < threads_size E. map_requests R t \<noteq> [] \<longrightarrow> issue_size E w u \<le> issue_size E w t)
   | None \<Rightarrow> \<forall>t < threads_size E. map_requests R t = [] \<or> 2147483647 \<le> issue_size E w t"
  using get_min_qid_cases [of E w R] by (auto simp: fetch_candidate_def split: option.splits)

theorem fetch_serves_shortest_issue_queue_witness: "get_min_qid sample_env 0 (sample_unit FlxRandom) = Some 0"
  using fetch_serves_shortest_issue_queue [where E = sample_env and w = 0 and R = "sample_unit FlxRandom"]
  by (cases "get_min_qid sample_env 0 (sample_unit FlxRandom)") (auto simp: sample_defs less_2_cases_iff)

text \<open>plain units: one activation of a unit without threads, or of the memory unit with its
  blocked port, returns under the same condition, uses at most its bandwidth and schedules the
  next activation if requests are left.\<close>

lemma plain_units_total:
  assumes "bandwidth_inv R" "settles E (bandwidth R)" "nextCycle E \<noteq> curTick E"
    and "available = (\<lambda>w R. resourceAvailable R) \<or> available = memory_resourceAvailable E"
  shows "\<exists>R' K' w'. attemptAllRequests E available R K w = Some (R', K', w')
    \<and> bandwidth_inv R' \<and> bandwidth R' = bandwidth R \<and> (requests R' = [] \<or> attemptAllEvent R' \<noteq> None)"
proof (rule attemptAllRequests_Some [OF assms(2,1,3)])
  show "resourceAvailable S" if "available v S" for v S
    using assms(4) that by (auto simp: memory_resourceAvailable_def split: if_splits)
qed

end
