(* ===== verification/Riscv_Decoder.thy ===== *)
theory Riscv_Decoder
  imports Prelude
begin

text \<open>
  Program counters, static instructions and the byte collection of the RISC-V decoder
  (\<open>gem5/src/arch/generic/types.hh\<close>, \<open>arch/riscv/types.hh\<close>, \<open>arch/riscv/insts/static_inst.*\<close>,
  \<open>cpu/static_inst.hh\<close>, \<open>arch/riscv/decoder.*\<close>).

  A \<open>StaticInst\<close> is the record of the flags and registers that the FlexCPU reads. What the
  instruction set description generates (\<open>decodeInst\<close>) is a parameter. The decoder receives
  aligned 32-bit words and assembles an instruction of 16 or 32 bits that may start in the middle
  of a word; \<open>inst_bits\<close> is what it should find in a memory of half words.
\<close>

section \<open>Program counters\<close>

type_synonym Addr = "64 word"
type_synonym MicroPC = "16 word"

record PCState =
  s_pc :: Addr
  s_npc :: Addr
  s_upc :: MicroPC
  s_nupc :: MicroPC
  pc_compressed :: bool
  pc_rv32 :: bool

definition MicroPCRomBit :: MicroPC where
  "MicroPCRomBit = push_bit 15 1"

definition isRomMicroPC :: "MicroPC \<Rightarrow> bool" where
  "isRomMicroPC u \<longleftrightarrow> MicroPCRomBit AND u \<noteq> 0"

definition advance :: "PCState \<Rightarrow> PCState" where
  "advance s = s\<lparr>s_pc := s_npc s, s_npc := s_npc s + 4\<rparr>"

definition uAdvance :: "PCState \<Rightarrow> PCState" where
  "uAdvance s = s\<lparr>s_upc := s_nupc s, s_nupc := s_nupc s + 1\<rparr>"

definition uEnd :: "PCState \<Rightarrow> PCState" where
  "uEnd s = (advance s)\<lparr>s_upc := 0, s_nupc := 1\<rparr>"

definition branching :: "PCState \<Rightarrow> bool" where
  "branching s \<longleftrightarrow> (if pc_compressed s then s_npc s \<noteq> s_pc s + 2 \<or> s_nupc s \<noteq> s_upc s + 1
     else s_npc s \<noteq> s_pc s + 4 \<or> s_nupc s \<noteq> s_upc s + 1)"

text \<open>Where a program counter points, the part that is compared when a branch is resolved.\<close>

definition location :: "PCState \<Rightarrow> Addr \<times> MicroPC" where
  "location s = (s_pc s, s_upc s)"

section \<open>Static instructions\<close>

datatype RegClass = IntRegClass | FloatRegClass | VecRegClass | VecElemClass | VecPredRegClass | CCRegClass | MiscRegClass

record RegId =
  regClass :: RegClass
  regIdx :: nat

definition isZeroReg :: "RegId \<Rightarrow> bool" where
  "isZeroReg r \<longleftrightarrow> regClass r = IntRegClass \<and> regIdx r = 0"

definition flattenRegId :: "RegId \<Rightarrow> RegId" where
  "flattenRegId r = r"

record StaticInst =
  machInst :: "64 word"
  isMemRef :: bool
  isStore :: bool
  isControl :: bool
  isCall :: bool
  isReturn :: bool
  isDirectCtrl :: bool
  isUncondCtrl :: bool
  flag_IsSerializing :: bool
  isSerializeBefore :: bool
  isSerializeAfter :: bool
  isMemBarrier :: bool
  isNonSpeculative :: bool
  isMicroop :: bool
  isLastMicroop :: bool
  srcRegIdx :: "RegId list"
  destRegIdx :: "RegId list"

definition isSerializing :: "StaticInst \<Rightarrow> bool" where
  "isSerializing si \<longleftrightarrow> flag_IsSerializing si \<or> isSerializeBefore si \<or> isSerializeAfter si"

definition advancePC :: "StaticInst \<Rightarrow> PCState \<Rightarrow> PCState" where
  "advancePC si s = (if isMicroop si then (if isLastMicroop si then uEnd s else uAdvance s) else advance s)"

section \<open>The decoder\<close>

record Decoder =
  mid :: bool
  dec_more :: bool
  emi :: "64 word"
  instDone :: bool

definition decoder_reset :: Decoder where
  "decoder_reset = \<lparr>mid = False, dec_more = True, emi = 0, instDone = False\<rparr>"

definition LowerBitMask :: "32 word" where "LowerBitMask = push_bit 16 1 - 1"
definition UpperBitMask :: "32 word" where "UpperBitMask = push_bit 16 LowerBitMask"

definition compressed :: "64 word \<Rightarrow> bool" where
  "compressed i \<longleftrightarrow> i AND 3 < 3"

definition moreBytes :: "PCState \<Rightarrow> 32 word \<Rightarrow> Decoder \<Rightarrow> Decoder option" where
  "moreBytes s inst d =
    (if s_pc s mod 4 = 0 then
       (let e = ucast inst; e = (if compressed e then e AND ucast LowerBitMask else e) in
        Some (d\<lparr>emi := e, dec_more := \<not> compressed e, instDone := True\<rparr>))
     else if mid d then do {
       c_assert (emi d AND ucast UpperBitMask = 0);
       Some (d\<lparr>emi := emi d OR ucast (push_bit 16 (inst AND LowerBitMask)), mid := False, dec_more := False, instDone := True\<rparr>)
     } else
       (let e = ucast (drop_bit 16 (inst AND UpperBitMask)) in
        Some (d\<lparr>emi := e, mid := \<not> compressed e, dec_more := True, instDone := compressed e\<rparr>)))"

text \<open>The cache of decoded instructions is not part of the state: it returns what \<open>decodeInst\<close> returned for the
  same bits.\<close>

definition decode :: "(64 word \<Rightarrow> StaticInst) \<Rightarrow> PCState \<Rightarrow> Decoder \<Rightarrow> StaticInst option \<times> PCState \<times> Decoder" where
  "decode decodeInst s d =
    (if \<not> instDone d then (None, s, d)
     else (Some (decodeInst (emi d)), s\<lparr>s_npc := s_pc s + (if compressed (emi d) then 2 else 4)\<rparr>, d\<lparr>instDone := False\<rparr>))"

section \<open>What is decoded\<close>

definition half_at :: "(Addr \<Rightarrow> 16 word) \<Rightarrow> Addr \<Rightarrow> 64 word" where
  "half_at m a = ucast (m a)"

definition word_at :: "(Addr \<Rightarrow> 16 word) \<Rightarrow> Addr \<Rightarrow> 32 word" where
  "word_at m a = ucast (m a) OR push_bit 16 (ucast (m (a + 2)))"

definition inst_bits :: "(Addr \<Rightarrow> 16 word) \<Rightarrow> Addr \<Rightarrow> 64 word" where
  "inst_bits m a = (if compressed (half_at m a) then half_at m a else half_at m a OR push_bit 16 (half_at m (a + 2)))"

lemma location_decode: "decode f s d = (r, s', d') \<Longrightarrow> location s' = location s"
  by (auto simp: decode_def location_def split: if_splits)

lemma decode_None: "decode f s d = (None, s', d') \<longleftrightarrow> \<not> instDone d \<and> s' = s \<and> d' = d"
  by (auto simp: decode_def)

lemma decode_None': "(None, s', d') = decode f s d \<longleftrightarrow> \<not> instDone d \<and> s' = s \<and> d' = d"
  using decode_None [of f s d s' d'] by auto

text \<open>The decoder asks for another word only in the middle of a 32-bit instruction that is not aligned.\<close>

lemma moreBytes_not_done:
  assumes "moreBytes s w d = Some d'" "\<not> instDone d'"
  shows "\<not> mid d" "mid d'" "s_pc s mod 4 \<noteq> 0"
  using assms by (auto simp: moreBytes_def Let_def c_assert_def split: if_splits)

lemma bit_three: "bit (3 :: 64 word) n \<longleftrightarrow> n < 2"
proof -
  have "(3 :: 64 word) = mask 2" by (simp add: mask_eq_decr_exp)
  then show ?thesis by (simp only: bit_mask_iff) auto
qed

lemma compressed_low: "compressed i \<longleftrightarrow> \<not> (bit i 0 \<and> bit i 1)"
proof -
  have "i AND 3 = 3 \<longleftrightarrow> bit i 0 \<and> bit i 1"
    by (simp only: bit_eq_iff bit_and_iff bit_three) (auto simp: less_2_cases_iff dest: spec [of _ 0] spec [of _ "Suc 0"])
  moreover have "i AND 3 \<le> 3" by (rule word_and_le1)
  ultimately show ?thesis by (auto simp: compressed_def order_le_less)
qed

lemma bit_LowerBitMask: "bit LowerBitMask n \<longleftrightarrow> n < 16"
proof -
  have m: "LowerBitMask = mask 16" by (simp add: LowerBitMask_def mask_eq_exp_minus_1 push_bit_eq_mult)
  show ?thesis unfolding m by (auto simp: bit_mask_iff)
qed

lemma bit_UpperBitMask: "bit UpperBitMask n \<longleftrightarrow> 16 \<le> n \<and> n < 32"
  by (auto simp: UpperBitMask_def bit_simps bit_LowerBitMask)

lemma bit_half: "bit (m a :: 16 word) n \<Longrightarrow> n < 16"
  using bit_imp_le_length [of "m a" n] by simp

lemmas bit_masks = bit_LowerBitMask bit_UpperBitMask word_at_def half_at_def bit_simps

text \<open>From an aligned word the decoder takes the instruction at once; from the upper half of a word it takes a
  compressed instruction at once, and joins the halves of a longer one when the next word arrives.\<close>

lemma moreBytes_aligned:
  assumes "s_pc s mod 4 = 0"
  shows "\<exists>d'. moreBytes s (word_at m (s_pc s)) d = Some d' \<and> instDone d' \<and> emi d' = inst_bits m (s_pc s) \<and> mid d' = mid d"
proof -
  let ?w = "ucast (word_at m (s_pc s)) :: 64 word"
  have c: "compressed ?w \<longleftrightarrow> compressed (half_at m (s_pc s))"
    by (simp add: compressed_low bit_masks)
  have "?w AND ucast LowerBitMask = half_at m (s_pc s)"
    by (rule bit_word_eqI) (auto simp: bit_masks dest: bit_half)
  moreover have "?w = half_at m (s_pc s) OR push_bit 16 (half_at m (s_pc s + 2))"
    by (rule bit_word_eqI) (auto simp: bit_masks dest: bit_half)
  ultimately show ?thesis using assms c by (auto simp: moreBytes_def inst_bits_def Let_def)
qed

lemma moreBytes_upper:
  assumes "s_pc s mod 4 = 2" "\<not> mid d"
  shows "\<exists>d'. moreBytes s (word_at m (s_pc s - 2)) d = Some d' \<and> emi d' = half_at m (s_pc s)
    \<and> instDone d' = compressed (half_at m (s_pc s)) \<and> mid d' = (\<not> compressed (half_at m (s_pc s)))"
proof -
  have "ucast (drop_bit 16 (word_at m (s_pc s - 2) AND UpperBitMask)) = half_at m (s_pc s)"
    by (rule bit_word_eqI) (auto simp: bit_masks dest: bit_half)
  then show ?thesis using assms by (auto simp: moreBytes_def Let_def)
qed

lemma moreBytes_second:
  assumes "s_pc s mod 4 = 2" "mid d" "emi d = half_at m (s_pc s)" "\<not> compressed (emi d)"
  shows "\<exists>d'. moreBytes s (word_at m (s_pc s + 2)) d = Some d' \<and> emi d' = inst_bits m (s_pc s) \<and> instDone d' \<and> \<not> mid d'"
proof -
  have u: "emi d AND ucast UpperBitMask = 0"
    by (rule bit_word_eqI) (auto simp: assms(3) bit_masks dest: bit_half)
  have "ucast (push_bit 16 (word_at m (s_pc s + 2) AND LowerBitMask)) = push_bit 16 (half_at m (s_pc s + 2))"
    by (rule bit_word_eqI) (auto simp: bit_masks dest: bit_half)
  then show ?thesis using assms u by (auto simp: moreBytes_def inst_bits_def c_assert_def)
qed

text \<open>The address of the first word that is fetched for an instruction.\<close>

lemma aligned_address: "a AND NOT 3 = a - a mod (4 :: 64 word)"
proof -
  have three: "(3 :: 64 word) = mask 2" by (simp add: mask_eq_decr_exp)
  have two: "Suc (Suc (n - 2)) = n" if "2 \<le> n" for n using that by arith
  have "a AND NOT 3 = push_bit 2 (drop_bit 2 a)" by (rule bit_word_eqI) (auto simp: three bit_simps two not_less)
  also have "\<dots> = a - take_bit 2 a" using bits_ident [of 2 a] by (simp add: eq_diff_eq)
  also have "take_bit 2 a = a mod 4" by (simp add: take_bit_eq_mod)
  finally show ?thesis .
qed

lemma inst_bits_compressed: "compressed (inst_bits m a) \<longleftrightarrow> compressed (half_at m a)"
  by (auto simp: inst_bits_def compressed_low bit_masks)

definition decoded :: "(64 word \<Rightarrow> StaticInst) \<Rightarrow> (Addr \<Rightarrow> 16 word) \<Rightarrow> PCState \<Rightarrow> Decoder \<Rightarrow> bool" where
  "decoded f m s d \<longleftrightarrow> (\<exists>d'. \<not> mid d' \<and> decode f s d = (Some (f (inst_bits m (s_pc s))),
     s\<lparr>s_npc := s_pc s + (if compressed (half_at m (s_pc s)) then 2 else 4)\<rparr>, d'))"

lemma decodedI: "instDone d \<Longrightarrow> emi d = inst_bits m (s_pc s) \<Longrightarrow> \<not> mid d \<Longrightarrow> decoded f m s d"
  by (simp add: decoded_def decode_def inst_bits_compressed)

section \<open>Properties\<close>

text \<open>C7 (the decoder): given the aligned 32-bit word of memory that holds the program counter, and the next one if it asks for it,
  a decoder that is not in the middle of an instruction hands \<open>decodeInst\<close> exactly the 16 or 32 bits that are in
  memory at the program counter, aligned to a word or not, and sets the next program counter 2 or 4 further accordingly. It
  asks for the next word only for a 32-bit instruction that starts in the upper half of a word, fails no assertion and is again not in the middle
  of an instruction at the end.\<close>

theorem decoder_assembles_instruction:
  assumes "s_pc s mod 4 = 0 \<or> s_pc s mod 4 = 2" "\<not> mid d"
  shows "\<exists>d1. moreBytes s (word_at m (s_pc s AND NOT 3)) d = Some d1 \<and>
    (if s_pc s mod 4 = 2 \<and> \<not> compressed (half_at m (s_pc s))
     then decode f s d1 = (None, s, d1)
       \<and> (\<exists>d2. moreBytes s (word_at m ((s_pc s AND NOT 3) + 4)) d1 = Some d2 \<and> decoded f m s d2)
     else decoded f m s d1)"
proof (cases "s_pc s mod 4 = 0")
  case True
  obtain d1 where "moreBytes s (word_at m (s_pc s)) d = Some d1" "instDone d1" "emi d1 = inst_bits m (s_pc s)" "mid d1 = mid d"
    using moreBytes_aligned [OF True, of m d] by blast
  moreover have "s_pc s AND NOT 3 = s_pc s" using True by (simp only: aligned_address diff_0_right)
  moreover have "s_pc s mod 4 \<noteq> 2" using True by simp
  ultimately show ?thesis using assms(2) decodedI [of d1 m s f] by (simp only: if_False simp_thms) blast
next
  case False
  then have pc: "s_pc s mod 4 = 2" using assms(1) by blast
  then have al: "s_pc s AND NOT 3 = s_pc s - 2" by (simp only: aligned_address)
  obtain d1 where d1: "moreBytes s (word_at m (s_pc s - 2)) d = Some d1" "emi d1 = half_at m (s_pc s)"
    "instDone d1 = compressed (half_at m (s_pc s))" "mid d1 = (\<not> compressed (half_at m (s_pc s)))"
    using moreBytes_upper [OF pc assms(2)] by blast
  show ?thesis
  proof (cases "compressed (half_at m (s_pc s))")
    case True
    then have "decoded f m s d1" using d1 by (intro decodedI) (auto simp: inst_bits_def)
    then show ?thesis unfolding al using True d1(1) by auto
  next
    case False
    obtain d2 where d2: "moreBytes s (word_at m (s_pc s + 2)) d1 = Some d2" "emi d2 = inst_bits m (s_pc s)" "instDone d2" "\<not> mid d2"
      using moreBytes_second [OF pc, of d1 m] d1 False by auto
    have "decoded f m s d2" using d2 by (intro decodedI)
    moreover have "s_pc s - 2 + 4 = s_pc s + 2" by simp
    moreover have "decode f s d1 = (None, s, d1)" using d1(3) False by (simp add: decode_None)
    ultimately show ?thesis unfolding al using False d1(1) d2(1) pc by (auto simp: add.commute)
  qed
qed

theorem decoder_assembles_instruction_witness:
  "\<exists>d1 d2. moreBytes \<lparr>s_pc = 0x1002, s_npc = 0x1004, s_upc = 0, s_nupc = 1, pc_compressed = False, pc_rv32 = False\<rparr>
       (word_at (\<lambda>a. 0x13) 0x1000) decoder_reset = Some d1
     \<and> moreBytes \<lparr>s_pc = 0x1002, s_npc = 0x1004, s_upc = 0, s_nupc = 1, pc_compressed = False, pc_rv32 = False\<rparr>
       (word_at (\<lambda>a. 0x13) 0x1004) d1 = Some d2"
proof -
  let ?s = "\<lparr>s_pc = 0x1002, s_npc = 0x1004, s_upc = 0, s_nupc = 1, pc_compressed = False, pc_rv32 = False\<rparr>"
  have e: "s_pc ?s mod 4 = 2" "s_pc ?s AND NOT 3 = 0x1000" "(s_pc ?s AND NOT 3) + 4 = 0x1004" "\<not> compressed (half_at (\<lambda>a. 0x13) (s_pc ?s))"
    "\<not> mid decoder_reset" by code_simp+
  from decoder_assembles_instruction [OF disjI2 [OF e(1)] e(5), of "\<lambda>a. 0x13" undefined, unfolded e(3), unfolded e(1,2)] e(4) show ?thesis by auto
qed

end
