(* ===== verification/Flex_Inflight.thy ===== *)
theory Flex_Inflight
  imports Prelude "HOL-Library.Multiset"
begin

text \<open>
  In-flight instructions of the FlexCPU (\<open>gem5/src/cpu/flexcpu/inflight_inst.cc\<close>): their status, and the
  counters and callbacks by which an instruction waits for stages of older ones.

  Instructions are shared objects; the store maps the identity of an object that is alive to its
  contents, and a weak pointer is the identity. A closure is a value: \<open>Release Exec c\<close> and
  \<open>Release Mem c\<close> are the ones the class builds itself, in \<open>add...Dependency\<close>, to count down the
  dependencies of \<open>c\<close>; \<open>Client k\<close> is one handed in by the thread. A notification pushes the callbacks it
  calls on the \<open>agenda\<close>, the stack of calls still to be made; a client callback may call any public
  operation, so between two calls the step relation admits all of them that the contract
  \<open>permitted\<close> allows. The contract is not written down in the class; it is what the counters need of the
  callers. It admits that \<open>FlexCPUThread::executeInstruction\<close> announces the beginning of an execution
  twice as long as no instruction waits for that beginning, which is so on a CPU without
  \<open>in_order_begin_execute\<close> (the default), and that the completion of a store is announced after its
  commit. With \<open>in_order_begin_execute\<close> the second announcement breaks the contract
  (\<open>executeInstruction_releases_twice\<close>). A time stamp that was not written yet is \<open>None\<close>.

  The invariant says that the counters of an instruction that is not squashed are the numbers of
  releases still to come, so an instruction is ready exactly when all that it waits for has
  happened.
\<close>

section \<open>Status\<close>

datatype Status = Invalid | Empty | Decoded | Issued | IssuedTid | Executing | EffAddred | Memorying | Complete | Committed

primrec status_code :: "Status \<Rightarrow> nat" where
  "status_code Invalid = 0"
| "status_code Empty = 1"
| "status_code Decoded = 2"
| "status_code Issued = 3"
| "status_code IssuedTid = 4"
| "status_code Executing = 5"
| "status_code EffAddred = 6"
| "status_code Memorying = 7"
| "status_code Complete = 8"
| "status_code Committed = 9"

lemma status_code_inj: "status_code x = status_code y \<longleftrightarrow> x = y"
  by (cases x; cases y) simp_all

instantiation Status :: linorder
begin

definition less_eq_Status :: "Status \<Rightarrow> Status \<Rightarrow> bool" where
  "less_eq_Status x y \<longleftrightarrow> status_code x \<le> status_code y"

definition less_Status :: "Status \<Rightarrow> Status \<Rightarrow> bool" where
  "less_Status x y \<longleftrightarrow> status_code x < status_code y"

instance
  by standard (auto simp: less_eq_Status_def less_Status_def status_code_inj [symmetric])

end

section \<open>Objects\<close>

type_synonym inst_id = nat
type_synonym tick = nat

record TimingRecord =
  creationTick :: "tick option"
  decodeTick :: "tick option"
  issueTick :: "tick option"
  issueTidTick :: "tick option"
  beginExecuteTick :: "tick option"
  effAddredTick :: "tick option"
  beginMemoryTick :: "tick option"
  completionTick :: "tick option"
  commitTick :: "tick option"
  squashTick :: "tick option"

datatype counter = Exec | Mem

datatype 'c callback = Release counter inst_id | Client 'c

record addr_range =
  range_start :: "64 word"
  range_end :: "64 word"

record 'c inflight_inst =
  i_status :: Status
  i_squashed :: bool
  i_timing :: TimingRecord
  beginExecCallbacks :: "'c callback list"
  commitCallbacks :: "'c callback list"
  completionCallbacks :: "'c callback list"
  effAddrCalculatedCallbacks :: "'c callback list"
  remainingDependencies :: "64 word"
  remainingMemDependencies :: "64 word"
  readyCallbacks :: "'c list"
  memReadyCallbacks :: "'c list"
  squashCallbacks :: "'c list"
  accessedPAddrs :: "addr_range option"
  isSplitMemReq :: bool
  accessedSplitPAddrs :: "addr_range option"

record 'c system =
  store :: "inst_id \<rightharpoonup> 'c inflight_inst"
  next_id :: inst_id
  agenda :: "'c callback list"
  client_calls :: "'c list"

definition empty_system :: "'c system" where
  "empty_system = \<lparr>store = Map.empty, next_id = 0, agenda = [], client_calls = []\<rparr>"

definition new_inst :: "tick \<Rightarrow> 'c inflight_inst" where
  "new_inst curTick = \<lparr>i_status = Empty, i_squashed = False,
     i_timing = \<lparr>creationTick = Some curTick, decodeTick = None, issueTick = None, issueTidTick = None,
       beginExecuteTick = None, effAddredTick = None, beginMemoryTick = None, completionTick = None,
       commitTick = None, squashTick = None\<rparr>,
     beginExecCallbacks = [], commitCallbacks = [], completionCallbacks = [], effAddrCalculatedCallbacks = [],
     remainingDependencies = 0, remainingMemDependencies = 0, readyCallbacks = [], memReadyCallbacks = [],
     squashCallbacks = [], accessedPAddrs = None, isSplitMemReq = False, accessedSplitPAddrs = None\<rparr>"

definition create :: "tick \<Rightarrow> 'c system \<Rightarrow> 'c system" where
  "create curTick s = s\<lparr>store := (store s)(next_id s \<mapsto> new_inst curTick), next_id := next_id s + 1\<rparr>"

definition destroy :: "inst_id \<Rightarrow> 'c system \<Rightarrow> 'c system" where
  "destroy p s = s\<lparr>store := (store s)(p := None)\<rparr>"

text \<open>An operation on the object \<open>p\<close> that changes it by \<open>f\<close> and then calls \<open>cbs\<close>.\<close>

definition act :: "inst_id \<Rightarrow> ('c inflight_inst \<Rightarrow> 'c inflight_inst) \<Rightarrow> ('c inflight_inst \<Rightarrow> 'c callback list)
    \<Rightarrow> 'c system \<Rightarrow> 'c system" where
  "act p f cbs s = (case store s p of None \<Rightarrow> s
     | Some i \<Rightarrow> s\<lparr>store := (store s)(p \<mapsto> f i), agenda := cbs i @ agenda s\<rparr>)"

section \<open>Predicates\<close>

definition isCommitted :: "'c inflight_inst \<Rightarrow> bool" where "isCommitted i \<longleftrightarrow> i_status i \<ge> Committed"
definition isComplete :: "'c inflight_inst \<Rightarrow> bool" where "isComplete i \<longleftrightarrow> i_status i \<ge> Complete"
definition isEffAddred :: "'c inflight_inst \<Rightarrow> bool" where "isEffAddred i \<longleftrightarrow> i_status i \<ge> EffAddred"
definition isExecuting :: "'c inflight_inst \<Rightarrow> bool" where "isExecuting i \<longleftrightarrow> i_status i \<ge> Executing"
definition isMemorying :: "'c inflight_inst \<Rightarrow> bool" where "isMemorying i \<longleftrightarrow> i_status i \<ge> Memorying"
definition isReady :: "'c inflight_inst \<Rightarrow> bool" where "isReady i \<longleftrightarrow> remainingDependencies i = 0"
definition isMemReady :: "'c inflight_inst \<Rightarrow> bool" where "isMemReady i \<longleftrightarrow> remainingMemDependencies i = 0"

section \<open>Callbacks and dependencies\<close>

definition addBeginExecCallback :: "inst_id \<Rightarrow> 'c callback \<Rightarrow> 'c system \<Rightarrow> 'c system" where
  "addBeginExecCallback p cb = act p (\<lambda>i. i\<lparr>beginExecCallbacks := beginExecCallbacks i @ [cb]\<rparr>) (\<lambda>_. [])"

definition addCommitCallback :: "inst_id \<Rightarrow> 'c callback \<Rightarrow> 'c system \<Rightarrow> 'c system" where
  "addCommitCallback p cb = act p (\<lambda>i. i\<lparr>commitCallbacks := commitCallbacks i @ [cb]\<rparr>) (\<lambda>_. [])"

definition addCompletionCallback :: "inst_id \<Rightarrow> 'c callback \<Rightarrow> 'c system \<Rightarrow> 'c system" where
  "addCompletionCallback p cb = act p (\<lambda>i. i\<lparr>completionCallbacks := completionCallbacks i @ [cb]\<rparr>) (\<lambda>_. [])"

definition addEffAddrCalculatedCallback :: "inst_id \<Rightarrow> 'c callback \<Rightarrow> 'c system \<Rightarrow> 'c system" where
  "addEffAddrCalculatedCallback p cb =
     act p (\<lambda>i. i\<lparr>effAddrCalculatedCallbacks := effAddrCalculatedCallbacks i @ [cb]\<rparr>) (\<lambda>_. [])"

definition addReadyCallback :: "inst_id \<Rightarrow> 'c \<Rightarrow> 'c system \<Rightarrow> 'c system" where
  "addReadyCallback p k = act p (\<lambda>i. i\<lparr>readyCallbacks := readyCallbacks i @ [k]\<rparr>) (\<lambda>_. [])"

definition addMemReadyCallback :: "inst_id \<Rightarrow> 'c \<Rightarrow> 'c system \<Rightarrow> 'c system" where
  "addMemReadyCallback p k = act p (\<lambda>i. i\<lparr>memReadyCallbacks := memReadyCallbacks i @ [k]\<rparr>) (\<lambda>_. [])"

definition addSquashCallback :: "inst_id \<Rightarrow> 'c \<Rightarrow> 'c system \<Rightarrow> 'c system" where
  "addSquashCallback p k = act p (\<lambda>i. i\<lparr>squashCallbacks := squashCallbacks i @ [k]\<rparr>) (\<lambda>_. [])"

definition increment :: "counter \<Rightarrow> inst_id \<Rightarrow> 'c system \<Rightarrow> 'c system" where
  "increment k c = act c (\<lambda>i. case k of
       Exec \<Rightarrow> i\<lparr>remainingDependencies := remainingDependencies i + 1\<rparr>
     | Mem \<Rightarrow> i\<lparr>remainingMemDependencies := remainingMemDependencies i + 1\<rparr>) (\<lambda>_. [])"

definition addBeginExecDependency :: "inst_id \<Rightarrow> inst_id \<Rightarrow> 'c system \<Rightarrow> 'c system" where
  "addBeginExecDependency c parent s = (case store s parent of None \<Rightarrow> s
     | Some j \<Rightarrow> if i_squashed j \<or> isExecuting j then s
         else addBeginExecCallback parent (Release Exec c) (increment Exec c s))"

definition addCommitDependency :: "inst_id \<Rightarrow> inst_id \<Rightarrow> 'c system \<Rightarrow> 'c system" where
  "addCommitDependency c parent s = (case store s parent of None \<Rightarrow> s
     | Some j \<Rightarrow> if i_squashed j \<or> isCommitted j then s
         else addCommitCallback parent (Release Exec c) (increment Exec c s))"

definition addDependency :: "inst_id \<Rightarrow> inst_id \<Rightarrow> 'c system \<Rightarrow> 'c system" where
  "addDependency c parent s = (case store s parent of None \<Rightarrow> s
     | Some j \<Rightarrow> if i_squashed j \<or> isComplete j then s
         else addCompletionCallback parent (Release Exec c) (increment Exec c s))"

definition addMemCommitDependency :: "inst_id \<Rightarrow> inst_id \<Rightarrow> 'c system \<Rightarrow> 'c system" where
  "addMemCommitDependency c parent s = (case store s parent of None \<Rightarrow> s
     | Some j \<Rightarrow> if i_squashed j \<or> isCommitted j then s
         else addCommitCallback parent (Release Mem c) (increment Mem c s))"

definition addMemDependency :: "inst_id \<Rightarrow> inst_id \<Rightarrow> 'c system \<Rightarrow> 'c system" where
  "addMemDependency c parent s = (case store s parent of None \<Rightarrow> s
     | Some j \<Rightarrow> if i_squashed j \<or> isComplete j then s
         else addCompletionCallback parent (Release Mem c) (increment Mem c s))"

definition addMemEffAddrDependency :: "inst_id \<Rightarrow> inst_id \<Rightarrow> 'c system \<Rightarrow> 'c system" where
  "addMemEffAddrDependency c parent s = (case store s parent of None \<Rightarrow> s
     | Some j \<Rightarrow> if i_squashed j \<or> isEffAddred j then s
         else addEffAddrCalculatedCallback parent (Release Mem c) (increment Mem c s))"

section \<open>Notifications\<close>

definition notifyCommitted :: "tick \<Rightarrow> inst_id \<Rightarrow> 'c system \<Rightarrow> 'c system" where
  "notifyCommitted curTick p =
     act p (\<lambda>i. i\<lparr>i_timing := (i_timing i)\<lparr>commitTick := Some curTick\<rparr>, i_status := Committed\<rparr>) commitCallbacks"

definition notifyComplete :: "tick \<Rightarrow> inst_id \<Rightarrow> 'c system \<Rightarrow> 'c system" where
  "notifyComplete curTick p =
     act p (\<lambda>i. i\<lparr>i_timing := (i_timing i)\<lparr>completionTick := Some curTick\<rparr>, i_status := Complete\<rparr>) completionCallbacks"

definition notifyDecoded :: "tick \<Rightarrow> inst_id \<Rightarrow> 'c system \<Rightarrow> 'c system" where
  "notifyDecoded curTick p =
     act p (\<lambda>i. i\<lparr>i_timing := (i_timing i)\<lparr>decodeTick := Some curTick\<rparr>, i_status := Decoded\<rparr>) (\<lambda>_. [])"

definition notifyEffAddrCalculated :: "tick \<Rightarrow> inst_id \<Rightarrow> 'c system \<Rightarrow> 'c system" where
  "notifyEffAddrCalculated curTick p =
     act p (\<lambda>i. i\<lparr>i_timing := (i_timing i)\<lparr>effAddredTick := Some curTick\<rparr>, i_status := EffAddred\<rparr>)
       effAddrCalculatedCallbacks"

definition notifyExecuting :: "tick \<Rightarrow> inst_id \<Rightarrow> 'c system \<Rightarrow> 'c system" where
  "notifyExecuting curTick p =
     act p (\<lambda>i. i\<lparr>i_timing := (i_timing i)\<lparr>beginExecuteTick := Some curTick\<rparr>, i_status := Executing\<rparr>) beginExecCallbacks"

definition notifyIssued :: "tick \<Rightarrow> inst_id \<Rightarrow> 'c system \<Rightarrow> 'c system" where
  "notifyIssued curTick p =
     act p (\<lambda>i. i\<lparr>i_timing := (i_timing i)\<lparr>issueTick := Some curTick\<rparr>, i_status := Issued\<rparr>) (\<lambda>_. [])"

definition notifyIssuedTid :: "tick \<Rightarrow> inst_id \<Rightarrow> 'c system \<Rightarrow> 'c system" where
  "notifyIssuedTid curTick p =
     act p (\<lambda>i. i\<lparr>i_timing := (i_timing i)\<lparr>issueTidTick := Some curTick\<rparr>, i_status := IssuedTid\<rparr>) (\<lambda>_. [])"

definition notifyMemorying :: "tick \<Rightarrow> inst_id \<Rightarrow> 'c system \<Rightarrow> 'c system" where
  "notifyMemorying curTick p =
     act p (\<lambda>i. i\<lparr>i_timing := (i_timing i)\<lparr>beginMemoryTick := Some curTick\<rparr>, i_status := Memorying\<rparr>) (\<lambda>_. [])"

definition notifyMemReady :: "inst_id \<Rightarrow> 'c system \<Rightarrow> 'c system" where
  "notifyMemReady p = act p id (\<lambda>i. map Client (memReadyCallbacks i))"

definition notifyReady :: "inst_id \<Rightarrow> 'c system \<Rightarrow> 'c system" where
  "notifyReady p = act p id (\<lambda>i. map Client (readyCallbacks i))"

definition notifySquashed :: "tick \<Rightarrow> inst_id \<Rightarrow> 'c system \<Rightarrow> 'c system" where
  "notifySquashed curTick p s = (case store s p of None \<Rightarrow> s
     | Some i \<Rightarrow> if i_squashed i then s
         else act p (\<lambda>i. i\<lparr>i_timing := (i_timing i)\<lparr>squashTick := Some curTick\<rparr>, i_squashed := True\<rparr>)
           (\<lambda>i. map Client (squashCallbacks i)) s)"

section \<open>Calling a callback\<close>

definition remaining :: "counter \<Rightarrow> 'c inflight_inst \<Rightarrow> 64 word" where
  "remaining k i = (case k of Exec \<Rightarrow> remainingDependencies i | Mem \<Rightarrow> remainingMemDependencies i)"

text \<open>The body of the closures built by \<open>add...Dependency\<close>, and the call of a client's closure, which is
  recorded; what the client then does are operations of their own.\<close>

definition release :: "counter \<Rightarrow> inst_id \<Rightarrow> 'c system \<Rightarrow> 'c system" where
  "release k c s = (case store s c of None \<Rightarrow> s
     | Some _ \<Rightarrow>
        (let s = act c (\<lambda>i. case k of
              Exec \<Rightarrow> i\<lparr>remainingDependencies := remainingDependencies i - 1\<rparr>
            | Mem \<Rightarrow> i\<lparr>remainingMemDependencies := remainingMemDependencies i - 1\<rparr>) (\<lambda>_. []) s in
         case store s c of None \<Rightarrow> s
         | Some i \<Rightarrow> if remaining k i = 0 then (case k of Exec \<Rightarrow> notifyReady c s | Mem \<Rightarrow> notifyMemReady c s) else s))"

primrec run_callback :: "'c callback \<Rightarrow> 'c system \<Rightarrow> 'c system" where
  "run_callback (Release k c) s = release k c s"
| "run_callback (Client k) s = s\<lparr>client_calls := client_calls s @ [k]\<rparr>"

primrec run_agenda :: "nat \<Rightarrow> 'c system \<Rightarrow> 'c system" where
  "run_agenda 0 s = s"
| "run_agenda (Suc n) s =
     (case agenda s of [] \<Rightarrow> s | cb # cbs \<Rightarrow> run_agenda n (run_callback cb (s\<lparr>agenda := cbs\<rparr>)))"

section \<open>Addresses\<close>

definition intersects :: "addr_range \<Rightarrow> addr_range \<Rightarrow> bool" where
  "intersects a b = (if range_start a > range_end b \<or> range_end a < range_start b then False else True)"

definition effPAddrRange :: "addr_range \<Rightarrow> 'c inflight_inst \<Rightarrow> 'c inflight_inst option" where
  "effPAddrRange r i = do { c_assert (range_start r \<le> range_end r); Some (i\<lparr>accessedPAddrs := Some r\<rparr>) }"

definition effPAddrRangeHigh :: "addr_range \<Rightarrow> 'c inflight_inst \<Rightarrow> 'c inflight_inst option" where
  "effPAddrRangeHigh r i = do {
     c_assert (isSplitMemReq i \<and> range_start r \<le> range_end r);
     Some (i\<lparr>accessedSplitPAddrs := Some r\<rparr>)
   }"

definition effAddrOverlap :: "'c inflight_inst \<Rightarrow> 'c inflight_inst \<Rightarrow> bool option" where
  "effAddrOverlap i other = do {
     c_assert (accessedPAddrs i \<noteq> None \<and> accessedPAddrs other \<noteq> None
       \<and> (\<not> isSplitMemReq i \<or> accessedSplitPAddrs i \<noteq> None)
       \<and> (\<not> isSplitMemReq other \<or> accessedSplitPAddrs other \<noteq> None));
     Some (intersects (the (accessedPAddrs i)) (the (accessedPAddrs other))
       \<or> isSplitMemReq i \<and> intersects (the (accessedSplitPAddrs i)) (the (accessedPAddrs other))
       \<or> isSplitMemReq other \<and> intersects (the (accessedPAddrs i)) (the (accessedSplitPAddrs other))
       \<or> isSplitMemReq i \<and> isSplitMemReq other
           \<and> intersects (the (accessedSplitPAddrs i)) (the (accessedSplitPAddrs other)))
   }"

section \<open>The operations and the contract of their callers\<close>

datatype 'c operation =
    Create tick
  | Destroy inst_id
  | AddBeginExecCallback inst_id 'c | AddCommitCallback inst_id 'c | AddCompletionCallback inst_id 'c
  | AddEffAddrCalculatedCallback inst_id 'c | AddReadyCallback inst_id 'c | AddMemReadyCallback inst_id 'c
  | AddSquashCallback inst_id 'c
  | AddBeginExecDependency inst_id inst_id | AddCommitDependency inst_id inst_id | AddDependency inst_id inst_id
  | AddMemCommitDependency inst_id inst_id | AddMemDependency inst_id inst_id | AddMemEffAddrDependency inst_id inst_id
  | NotifyDecoded tick inst_id | NotifyIssued tick inst_id | NotifyIssuedTid tick inst_id
  | NotifyExecuting tick inst_id | NotifyEffAddrCalculated tick inst_id | NotifyMemorying tick inst_id
  | NotifyComplete tick inst_id | NotifyCommitted tick inst_id | NotifySquashed tick inst_id

primrec perform :: "'c operation \<Rightarrow> 'c system \<Rightarrow> 'c system" where
  "perform (Create t) = create t"
| "perform (Destroy p) = destroy p"
| "perform (AddBeginExecCallback p k) = addBeginExecCallback p (Client k)"
| "perform (AddCommitCallback p k) = addCommitCallback p (Client k)"
| "perform (AddCompletionCallback p k) = addCompletionCallback p (Client k)"
| "perform (AddEffAddrCalculatedCallback p k) = addEffAddrCalculatedCallback p (Client k)"
| "perform (AddReadyCallback p k) = addReadyCallback p k"
| "perform (AddMemReadyCallback p k) = addMemReadyCallback p k"
| "perform (AddSquashCallback p k) = addSquashCallback p k"
| "perform (AddBeginExecDependency c p) = addBeginExecDependency c p"
| "perform (AddCommitDependency c p) = addCommitDependency c p"
| "perform (AddDependency c p) = addDependency c p"
| "perform (AddMemCommitDependency c p) = addMemCommitDependency c p"
| "perform (AddMemDependency c p) = addMemDependency c p"
| "perform (AddMemEffAddrDependency c p) = addMemEffAddrDependency c p"
| "perform (NotifyDecoded t p) = notifyDecoded t p"
| "perform (NotifyIssued t p) = notifyIssued t p"
| "perform (NotifyIssuedTid t p) = notifyIssuedTid t p"
| "perform (NotifyExecuting t p) = notifyExecuting t p"
| "perform (NotifyEffAddrCalculated t p) = notifyEffAddrCalculated t p"
| "perform (NotifyMemorying t p) = notifyMemorying t p"
| "perform (NotifyComplete t p) = notifyComplete t p"
| "perform (NotifyCommitted t p) = notifyCommitted t p"
| "perform (NotifySquashed t p) = notifySquashed t p"

text \<open>The callbacks of stages that were not reached yet.\<close>

definition waiting :: "'c inflight_inst \<Rightarrow> 'c callback list" where
  "waiting i =
     (if beginExecuteTick (i_timing i) = None then beginExecCallbacks i else [])
     @ (if effAddredTick (i_timing i) = None then effAddrCalculatedCallbacks i else [])
     @ (if completionTick (i_timing i) = None then completionCallbacks i else [])
     @ (if commitTick (i_timing i) = None then commitCallbacks i else [])"

definition before_status :: "inst_id \<Rightarrow> Status \<Rightarrow> 'c system \<Rightarrow> bool" where
  "before_status p st s \<longleftrightarrow> (case store s p of None \<Rightarrow> False | Some i \<Rightarrow> i_status i < st)"

definition gone :: "inst_id \<Rightarrow> 'c system \<Rightarrow> bool" where
  "gone c s \<longleftrightarrow> (case store s c of None \<Rightarrow> True | Some i \<Rightarrow> i_squashed i)"

text \<open>The stage of which the callbacks were called already.\<close>

definition announced :: "Status \<Rightarrow> 'c inflight_inst \<Rightarrow> bool" where
  "announced st i \<longleftrightarrow> (case st of
       Executing \<Rightarrow> beginExecuteTick (i_timing i) \<noteq> None
     | EffAddred \<Rightarrow> effAddredTick (i_timing i) \<noteq> None
     | Complete \<Rightarrow> completionTick (i_timing i) \<noteq> None
     | Committed \<Rightarrow> commitTick (i_timing i) \<noteq> None
     | _ \<Rightarrow> False)"

definition is_client :: "'c callback \<Rightarrow> bool" where
  "is_client cb \<longleftrightarrow> (case cb of Client _ \<Rightarrow> True | Release k c \<Rightarrow> False)"

definition when_alive :: "inst_id \<Rightarrow> ('c inflight_inst \<Rightarrow> bool) \<Rightarrow> 'c system \<Rightarrow> bool" where
  "when_alive p P s \<longleftrightarrow> (case store s p of None \<Rightarrow> False | Some i \<Rightarrow> P i)"

text \<open>What callers owe the class: a status is not announced after a later one, nor twice, with two exceptions. The beginning of
  execution may be announced again as long as no instruction waits for it, and an instruction that
  was committed before it completed (a store) may complete afterwards; from then on its status is that of an
  instruction not committed yet, so nothing may be made to wait for its commit. The waiting
  instruction is alive, and an object is dropped only when nobody that still matters waits for it.\<close>

definition commit_pending :: "inst_id \<Rightarrow> 'c system \<Rightarrow> bool" where
  "commit_pending p s \<longleftrightarrow> (case store s p of None \<Rightarrow> True | Some j \<Rightarrow> announced Committed j \<longrightarrow> isCommitted j)"

fun permitted :: "'c operation \<Rightarrow> 'c system \<Rightarrow> bool" where
  "permitted (NotifyDecoded t p) s = before_status p Decoded s"
| "permitted (NotifyIssued t p) s = before_status p Issued s"
| "permitted (NotifyIssuedTid t p) s = before_status p IssuedTid s"
| "permitted (NotifyExecuting t p) s = (before_status p Executing s
     \<or> when_alive p (\<lambda>i. i_status i = Executing \<and> list_all is_client (beginExecCallbacks i)) s)"
| "permitted (NotifyEffAddrCalculated t p) s = before_status p EffAddred s"
| "permitted (NotifyMemorying t p) s = before_status p Memorying s"
| "permitted (NotifyComplete t p) s = (before_status p Complete s
     \<or> when_alive p (\<lambda>i. i_status i = Committed \<and> \<not> announced Complete i) s)"
| "permitted (NotifyCommitted t p) s = when_alive p (\<lambda>i. i_status i < Committed \<and> \<not> announced Committed i) s"
| "permitted (AddBeginExecDependency c p) s = (store s c \<noteq> None)"
| "permitted (AddCommitDependency c p) s = (store s c \<noteq> None \<and> commit_pending p s)"
| "permitted (AddDependency c p) s = (store s c \<noteq> None)"
| "permitted (AddMemCommitDependency c p) s = (store s c \<noteq> None \<and> commit_pending p s)"
| "permitted (AddMemDependency c p) s = (store s c \<noteq> None)"
| "permitted (AddMemEffAddrDependency c p) s = (store s c \<noteq> None)"
| "permitted (Destroy p) s = (case store s p of None \<Rightarrow> False
     | Some i \<Rightarrow> list_all (\<lambda>cb. case cb of Client _ \<Rightarrow> True | Release k c \<Rightarrow> c = p \<or> gone c s) (waiting i))"
| "permitted _ s = True"

inductive step :: "'c system \<Rightarrow> 'c system \<Rightarrow> bool" where
  run: "agenda s = cb # cbs \<Longrightarrow> step s (run_callback cb (s\<lparr>agenda := cbs\<rparr>))"
| operate: "permitted oper s \<Longrightarrow> step s (perform oper s)"

inductive_cases stepE: "step s s'"

section \<open>Releases still to come\<close>

definition held :: "counter \<Rightarrow> inst_id \<Rightarrow> 'c inflight_inst option \<Rightarrow> nat" where
  "held k c i = (case i of None \<Rightarrow> 0 | Some i \<Rightarrow> count_list (waiting i) (Release k c))"

definition to_come :: "counter \<Rightarrow> inst_id \<Rightarrow> 'c system \<Rightarrow> nat" where
  "to_come k c s = (\<Sum>p<next_id s. held k c (store s p)) + count_list (agenda s) (Release k c)"

definition known :: "'c system \<Rightarrow> 'c callback \<Rightarrow> bool" where
  "known s cb \<longleftrightarrow> (case cb of Client _ \<Rightarrow> True | Release k c \<Rightarrow> c < next_id s)"

definition stamped :: "'c inflight_inst \<Rightarrow> bool" where
  "stamped i \<longleftrightarrow> (beginExecuteTick (i_timing i) \<noteq> None \<longrightarrow> Executing \<le> i_status i)
     \<and> (effAddredTick (i_timing i) \<noteq> None \<longrightarrow> EffAddred \<le> i_status i)
     \<and> (completionTick (i_timing i) \<noteq> None \<longrightarrow> Complete \<le> i_status i)
     \<and> (commitTick (i_timing i) \<noteq> None \<longrightarrow> Complete \<le> i_status i)"

definition callbacks :: "'c inflight_inst \<Rightarrow> 'c callback list" where
  "callbacks i = beginExecCallbacks i @ effAddrCalculatedCallbacks i @ completionCallbacks i @ commitCallbacks i"

definition well_formed :: "'c system \<Rightarrow> bool" where
  "well_formed s \<longleftrightarrow> (\<forall>p i. store s p = Some i \<longrightarrow> p < next_id s \<and> stamped i \<and> list_all (known s) (callbacks i))
     \<and> list_all (known s) (agenda s)"

definition counted :: "'c system \<Rightarrow> bool" where
  "counted s \<longleftrightarrow> (\<forall>c i k. store s c = Some i \<longrightarrow> \<not> i_squashed i \<longrightarrow> remaining k i = of_nat (to_come k c s))"

definition inst_inv :: "'c system \<Rightarrow> bool" where
  "inst_inv s \<longleftrightarrow> well_formed s \<and> counted s"

lemma act_None: "store s p = None \<Longrightarrow> act p f cbs s = s"
  by (simp add: act_def)

lemma act_fields [simp]:
  "next_id (act p f cbs s) = next_id s"
  "store (act p f cbs s) q = (if q = p then map_option f (store s p) else store s q)"
  "agenda (act p f cbs s) = (case store s p of None \<Rightarrow> agenda s | Some i \<Rightarrow> cbs i @ agenda s)"
  by (auto simp: act_def split: option.splits)

lemma sum_lessThan_upd:
  fixes g h :: "nat \<Rightarrow> nat"
  assumes "p < n" "\<And>q. q \<noteq> p \<Longrightarrow> h q = g q"
  shows "(\<Sum>q<n. h q) + g p = (\<Sum>q<n. g q) + h p"
proof -
  have "(\<Sum>q<n. h q) = (\<Sum>q\<in>{..<n} - {p}. h q) + h p" "(\<Sum>q<n. g q) = (\<Sum>q\<in>{..<n} - {p}. g q) + g p"
    using assms(1) by (simp_all add: sum.remove)
  moreover have "(\<Sum>q\<in>{..<n} - {p}. h q) = (\<Sum>q\<in>{..<n} - {p}. g q)" using assms(2) by (intro sum.cong) auto
  ultimately show ?thesis by simp
qed

lemma to_come_act:
  assumes "store s p = Some i" "p < next_id s"
  shows "to_come k c (act p f cbs s) + held k c (Some i)
    = to_come k c s + held k c (Some (f i)) + count_list (cbs i) (Release k c)"
  using sum_lessThan_upd [OF assms(2), of "\<lambda>q. held k c (store (act p f cbs s) q)" "\<lambda>q. held k c (store s q)"] assms(1)
  by (simp add: to_come_def)

section \<open>The invariant is kept\<close>

lemma held_Some [simp]: "held k c None = 0" "held k c (Some i) = count_list (waiting i) (Release k c)"
  by (simp_all add: held_def)

lemma known_Client [simp]: "known s (Client x)" "list_all (known s) (map Client xs)"
  "count_list (map Client xs) (Release k c) = 0"
  by (auto simp: known_def list_all_iff count_list_0_iff)

lemma known_mono: "known s cb \<Longrightarrow> next_id s \<le> next_id s' \<Longrightarrow> known s' cb"
  by (auto simp: known_def split: callback.splits)

lemma known_cong: "next_id s' = next_id s \<Longrightarrow> known s' = known s"
  by (rule ext) (simp add: known_def split: callback.splits)

lemma inst_invD:
  assumes "inst_inv s" "store s p = Some i"
  shows "p < next_id s" "stamped i" "list_all (known s) (callbacks i)"
    "\<not> i_squashed i \<Longrightarrow> remaining k i = of_nat (to_come k p s)"
  using assms by (auto simp: inst_inv_def well_formed_def counted_def)

lemma inst_inv_agenda: "inst_inv s \<Longrightarrow> list_all (known s) (agenda s)"
  by (simp add: inst_inv_def well_formed_def)

lemma inst_inv_act:
  assumes inv: "inst_inv s" and i: "store s p = Some i"
    and wf: "stamped (f i)" "list_all (known s) (callbacks (f i))" "list_all (known s) (cbs i)"
    and cnt: "\<And>k c. count_list (waiting (f i)) (Release k c) + count_list (cbs i) (Release k c)
      = count_list (waiting i) (Release k c)"
    and same: "\<And>k. remaining k (f i) = remaining k i" "i_squashed i \<Longrightarrow> i_squashed (f i)"
  shows "inst_inv (act p f cbs s)"
proof -
  let ?s = "act p f cbs s"
  have tc: "to_come k c ?s = to_come k c s" for k c
    using to_come_act [OF i inst_invD(1) [OF inv i], of k c f cbs] cnt [of k c] by simp
  have "well_formed ?s"
    using inv i wf by (auto simp: inst_inv_def well_formed_def known_cong [of ?s s])
  moreover have "counted ?s"
    using inv i same by (auto simp: inst_inv_def counted_def tc)
  ultimately show ?thesis by (simp add: inst_inv_def)
qed

lemma inst_inv_act_None: "inst_inv s \<Longrightarrow> (\<And>i. store s p = Some i \<Longrightarrow> inst_inv (act p f cbs s)) \<Longrightarrow> inst_inv (act p f cbs s)"
  by (cases "store s p") (simp_all add: act_None)

lemmas callback_defs = waiting_def callbacks_def stamped_def remaining_def

lemma inst_inv_client_callback:
  assumes "inst_inv s"
  shows "inst_inv (addBeginExecCallback p (Client x) s)" "inst_inv (addCommitCallback p (Client x) s)"
    "inst_inv (addCompletionCallback p (Client x) s)" "inst_inv (addEffAddrCalculatedCallback p (Client x) s)"
    "inst_inv (addReadyCallback p x s)" "inst_inv (addMemReadyCallback p x s)" "inst_inv (addSquashCallback p x s)"
  unfolding addBeginExecCallback_def addCommitCallback_def addCompletionCallback_def addEffAddrCalculatedCallback_def
    addReadyCallback_def addMemReadyCallback_def addSquashCallback_def
  by (rule inst_inv_act_None [OF assms], rule inst_inv_act [OF assms], assumption,
      (use inst_invD(2,3) [OF assms, of p] in \<open>auto simp: callback_defs split: counter.splits\<close>))+

lemma inst_inv_notifyReady: "inst_inv s \<Longrightarrow> inst_inv (notifyReady c s)" "inst_inv s \<Longrightarrow> inst_inv (notifyMemReady c s)"
  unfolding notifyReady_def notifyMemReady_def
  by (rule inst_inv_act_None, assumption, rule inst_inv_act, assumption, assumption, (auto dest: inst_invD(2,3)))+

lemma inst_inv_notifySquashed:
  assumes "inst_inv s"
  shows "inst_inv (notifySquashed t p s)"
proof (cases "store s p")
  case (Some i)
  show ?thesis
  proof (cases "i_squashed i")
    case False
    have "inst_inv (act p (\<lambda>i. i\<lparr>i_timing := (i_timing i)\<lparr>squashTick := Some t\<rparr>, i_squashed := True\<rparr>)
        (\<lambda>i. map Client (squashCallbacks i)) s)"
      using inst_invD(2,3) [OF assms Some]
      by (intro inst_inv_act [OF assms Some]) (auto simp: callback_defs split: counter.splits)
    then show ?thesis using Some False by (simp add: notifySquashed_def)
  qed (use assms Some in \<open>simp add: notifySquashed_def\<close>)
qed (use assms in \<open>simp add: notifySquashed_def\<close>)

lemma count_clients: "list_all is_client xs \<Longrightarrow> count_list xs (Release k c) = 0"
  by (auto simp: count_list_0_iff list_all_iff is_client_def)

lemma inst_inv_notify:
  assumes "inst_inv s"
  shows "before_status p Decoded s \<Longrightarrow> inst_inv (notifyDecoded t p s)"
    "before_status p Issued s \<Longrightarrow> inst_inv (notifyIssued t p s)"
    "before_status p IssuedTid s \<Longrightarrow> inst_inv (notifyIssuedTid t p s)"
    "before_status p Memorying s \<Longrightarrow> inst_inv (notifyMemorying t p s)"
    "permitted (NotifyExecuting t p) s \<Longrightarrow> inst_inv (notifyExecuting t p s)"
    "before_status p EffAddred s \<Longrightarrow> inst_inv (notifyEffAddrCalculated t p s)"
    "permitted (NotifyComplete t p) s \<Longrightarrow> inst_inv (notifyComplete t p s)"
    "permitted (NotifyCommitted t p) s \<Longrightarrow> inst_inv (notifyCommitted t p s)"
  unfolding notifyDecoded_def notifyIssued_def notifyIssuedTid_def notifyMemorying_def notifyExecuting_def
    notifyEffAddrCalculated_def notifyComplete_def notifyCommitted_def
  by (rule inst_inv_act_None [OF assms], rule inst_inv_act [OF assms], assumption,
      (use inst_invD(2,3) [OF assms, of p] in
        \<open>auto simp: callback_defs before_status_def when_alive_def announced_def count_clients less_Status_def
          less_eq_Status_def split: counter.splits\<close>))+

text \<open>Registering a dependency: the counter and the list of the parent grow together.\<close>

lemma inst_inv_depend:
  assumes inv: "inst_inv s" and c: "store s c = Some ic" and p: "store s p = Some j"
    and g: "\<And>i. i_timing i = i_timing j \<Longrightarrow> i_status i = i_status j \<Longrightarrow> stamped (g i) = stamped i"
      "\<And>i. set (callbacks (g i)) = insert (Release k c) (set (callbacks i))"
      "\<And>i. i_timing i = i_timing j \<Longrightarrow> mset (waiting (g i)) = add_mset (Release k c) (mset (waiting i))"
      "\<And>i k. remaining k (g i) = remaining k i" "\<And>i. i_squashed (g i) = i_squashed i"
  shows "inst_inv (act p g (\<lambda>_. []) (increment k c s))"
proof -
  let ?f = "\<lambda>i. case k of Exec \<Rightarrow> i\<lparr>remainingDependencies := remainingDependencies i + 1\<rparr>
     | Mem \<Rightarrow> i\<lparr>remainingMemDependencies := remainingMemDependencies i + 1\<rparr>"
  let ?s1 = "increment k c s" and ?s2 = "act p g (\<lambda>_. []) (increment k c s)"
  have f: "waiting (?f i) = waiting i" "callbacks (?f i) = callbacks i" "stamped (?f i) = stamped i"
    "i_squashed (?f i) = i_squashed i" "i_timing (?f i) = i_timing i" "i_status (?f i) = i_status i" for i
    by (cases k; simp add: callback_defs)+
  have rf: "remaining k' (?f i) = (if k' = k then remaining k i + 1 else remaining k' i)" for k' i
    by (cases k; cases k'; simp add: remaining_def)
  define j1 where "j1 = (if p = c then ?f j else j)"
  have s1: "store ?s1 p = Some j1" "next_id ?s1 = next_id s" using p c by (auto simp: increment_def j1_def)
  have j1: "i_timing j1 = i_timing j" "i_status j1 = i_status j" by (simp_all add: j1_def f)
  have lt: "c < next_id s" "p < next_id s" using inst_invD(1) [OF inv] c p by blast+
  have tc1: "to_come k' c' ?s1 = to_come k' c' s" for k' c'
    using to_come_act [OF c lt(1), of k' c' ?f "\<lambda>_. []"] by (simp add: increment_def f)
  have cl: "count_list xs x = count (mset xs) x" for xs and x :: "'a callback" by (simp add: count_mset)
  have "count_list (waiting (g j1)) (Release k' c') = (if k' = k \<and> c' = c then 1 else 0) + count_list (waiting j1) (Release k' c')" for k' c'
    unfolding cl by (simp add: g(3) [OF j1(1)])
  then have tc2: "to_come k' c' ?s2 = to_come k' c' s + (if k' = k \<and> c' = c then 1 else 0)" for k' c'
    using to_come_act [OF s1(1), of k' c' g "\<lambda>_. []"] lt(2) s1(2) by (simp add: tc1)
  have st: "store ?s2 q = (if q = p then Some (g j1) else if q = c then Some (?f ic) else store s q)" for q
    using s1(1) c by (simp add: increment_def)
  have kn: "list_all (known s) (callbacks (g j1))"
    using inst_invD(3) [OF inv p] lt(1) by (auto simp: list_all_iff g(2) j1_def f known_def)
  have "stamped (g j1)" using g(1) [OF j1] inst_invD(2) [OF inv p] by (simp add: j1_def f)
  moreover have nx: "next_id ?s2 = next_id s" using s1(2) by simp
  then have kn2: "known ?s2 = known s" by (rule known_cong)
  have ag: "agenda ?s2 = agenda s" using c p by (simp add: increment_def)
  ultimately have "well_formed ?s2"
    unfolding well_formed_def st nx kn2 ag using inst_invD(1-3) [OF inv] inst_inv_agenda [OF inv] kn c lt by (auto simp: f)
  moreover have "counted ?s2"
    unfolding counted_def st tc2
    using inst_invD(4) [OF inv] c p by (auto simp: g(4,5) f rf j1_def)
  ultimately show ?thesis by (simp add: inst_inv_def)
qed

lemma inst_inv_dependency:
  assumes "inst_inv s" "store s c = Some ic"
  shows "inst_inv (addBeginExecDependency c p s)" "inst_inv (addDependency c p s)"
    "inst_inv (addMemDependency c p s)" "inst_inv (addMemEffAddrDependency c p s)"
    "commit_pending p s \<Longrightarrow> inst_inv (addCommitDependency c p s)"
    "commit_pending p s \<Longrightarrow> inst_inv (addMemCommitDependency c p s)"
  unfolding addBeginExecDependency_def addCommitDependency_def addDependency_def addMemCommitDependency_def
    addMemDependency_def addMemEffAddrDependency_def addBeginExecCallback_def addCommitCallback_def
    addCompletionCallback_def addEffAddrCalculatedCallback_def
  by ((cases "store s p"; simp add: assms(1); intro impI inst_inv_depend [OF assms]; assumption?),
      (use inst_invD(2) [OF assms(1), of p] in
        \<open>auto simp: callback_defs commit_pending_def announced_def isExecuting_def isCommitted_def isComplete_def
          isEffAddred_def split: counter.splits\<close>))+

lemma to_come_pop:
  "agenda s = cb # cbs \<Longrightarrow> to_come k c s = to_come k c (s\<lparr>agenda := cbs\<rparr>) + (if cb = Release k c then 1 else 0)"
  by (simp add: to_come_def)

lemma inst_inv_pop:
  assumes inv: "inst_inv s" and a: "agenda s = cb # cbs" and cb: "\<And>k c. cb = Release k c \<Longrightarrow> store s c = None"
  shows "inst_inv (s\<lparr>agenda := cbs\<rparr>)"
proof -
  let ?s = "s\<lparr>agenda := cbs\<rparr>"
  have "well_formed ?s"
    using inv a by (auto simp: inst_inv_def well_formed_def known_cong [of ?s s])
  moreover have "to_come k c ?s = to_come k c s" if "store s c \<noteq> None" for k c
    using to_come_pop [OF a, of k c] cb [of k c] that by auto
  then have "counted ?s" using inv by (auto simp: inst_inv_def counted_def)
  ultimately show ?thesis by (simp add: inst_inv_def)
qed

lemma inst_inv_release:
  assumes inv: "inst_inv s" and a: "agenda s = Release k c # cbs"
  shows "inst_inv (release k c (s\<lparr>agenda := cbs\<rparr>))"
proof (cases "store s c")
  case None
  then show ?thesis using inst_inv_pop [OF inv a] by (simp add: release_def)
next
  case (Some i)
  let ?f = "\<lambda>i. case k of Exec \<Rightarrow> i\<lparr>remainingDependencies := remainingDependencies i - 1\<rparr>
     | Mem \<Rightarrow> i\<lparr>remainingMemDependencies := remainingMemDependencies i - 1\<rparr>"
  let ?s0 = "s\<lparr>agenda := cbs\<rparr>" and ?s1 = "act c ?f (\<lambda>_. []) (s\<lparr>agenda := cbs\<rparr>)"
  have f: "waiting (?f i) = waiting i" "callbacks (?f i) = callbacks i" "stamped (?f i) = stamped i"
    "i_squashed (?f i) = i_squashed i" for i by (cases k; simp add: callback_defs)+
  have rf: "remaining k' (?f i) = (if k' = k then remaining k i - 1 else remaining k' i)" for k' i
    by (cases k; cases k'; simp add: remaining_def)
  have tc: "to_come k' c' s = to_come k' c' ?s1 + (if k' = k \<and> c' = c then 1 else 0)" for k' c'
    using to_come_act [of ?s0 c i k' c' ?f "\<lambda>_. []"] Some inst_invD(1) [OF inv Some] to_come_pop [OF a, of k' c']
    by (auto simp: f)
  have kn: "known ?s1 = known s" by (rule known_cong) simp
  have "well_formed ?s1"
    unfolding well_formed_def kn using inst_invD(1-3) [OF inv] inst_inv_agenda [OF inv] Some a
    by (auto simp: f split: if_splits)
  moreover have "counted ?s1"
    unfolding counted_def
  proof (intro allI impI)
    fix c' i' k'
    assume i': "store ?s1 c' = Some i'" "\<not> i_squashed i'"
    then obtain i0 where i0: "store s c' = Some i0" "i' = (if c' = c then ?f i0 else i0)"
      using Some by (auto split: if_splits)
    then have "remaining k' i0 = of_nat (to_come k' c' s)" using inst_invD(4) [OF inv i0(1)] i'(2) f(4) by (auto split: if_splits)
    then show "remaining k' i' = of_nat (to_come k' c' ?s1)" using i0(2) tc [of k' c'] by (auto simp: rf)
  qed
  ultimately have "inst_inv ?s1" by (simp add: inst_inv_def)
  then show ?thesis
    using Some inst_inv_notifyReady by (auto simp: release_def Let_def split: counter.splits)
qed

lemma inst_inv_client_calls: "inst_inv (s\<lparr>client_calls := xs\<rparr>) = inst_inv s"
  by (simp add: inst_inv_def well_formed_def counted_def to_come_def known_cong [of "s\<lparr>client_calls := xs\<rparr>" s])

lemma inst_inv_run:
  assumes "inst_inv s" "agenda s = cb # cbs"
  shows "inst_inv (run_callback cb (s\<lparr>agenda := cbs\<rparr>))"
proof (cases cb)
  case (Release k c)
  then show ?thesis using inst_inv_release assms by simp
next
  case (Client x)
  have "inst_inv (s\<lparr>agenda := cbs\<rparr>)" by (rule inst_inv_pop [OF assms]) (simp add: Client)
  then show ?thesis by (simp add: Client inst_inv_client_calls)
qed

lemma inst_inv_create:
  assumes inv: "inst_inv s"
  shows "inst_inv (create t s)"
proof -
  let ?n = "next_id s" and ?s = "create t s"
  have new: "waiting (new_inst t) = []" "callbacks (new_inst t) = []" "stamped (new_inst t)" "remaining k (new_inst t) = 0"
    for k by (simp_all add: callback_defs new_inst_def split: counter.splits)
  have kn: "known s cb \<Longrightarrow> known ?s cb" for cb using known_mono [of s cb ?s] by (simp add: create_def)
  have "(\<Sum>p<?n. held k c (store ?s p)) = (\<Sum>p<?n. held k c (store s p))" for k c
    by (intro sum.cong) (auto simp: create_def)
  then have tc: "to_come k c ?s = to_come k c s" for k c
    by (simp add: to_come_def new) (simp add: create_def new)
  have "count_list xs (Release k ?n) = 0" if "list_all (known s) xs" for xs k
    using that by (auto simp: count_list_0_iff list_all_iff known_def)
  moreover have "list_all (known s) (waiting i)" if "store s p = Some i" for p i
    using inst_invD(3) [OF inv that] by (auto simp: waiting_def callbacks_def)
  ultimately have "held k ?n (store s p) = 0" for k p by (cases "store s p") auto
  then have tn: "to_come k ?n s = 0" for k
    using inst_inv_agenda [OF inv] \<open>\<And>xs k. list_all (known s) xs \<Longrightarrow> count_list xs (Release k ?n) = 0\<close>
    by (simp add: to_come_def)
  have "well_formed ?s"
    unfolding well_formed_def using inst_invD(1-3) [OF inv] inst_inv_agenda [OF inv] kn
    by (auto simp: create_def new less_Suc_eq list_all_iff)
  moreover have "counted ?s"
    unfolding counted_def tc using inst_invD(4) [OF inv] tn by (auto simp: create_def new)
  ultimately show ?thesis by (simp add: inst_inv_def)
qed

lemma inst_inv_destroy:
  assumes inv: "inst_inv s" and "permitted (Destroy p) s"
  shows "inst_inv (destroy p s)"
proof -
  obtain i where i: "store s p = Some i"
    and w: "list_all (\<lambda>cb. case cb of Client _ \<Rightarrow> True | Release k c \<Rightarrow> c = p \<or> gone c s) (waiting i)"
    using assms(2) by (auto split: option.splits)
  let ?s = "destroy p s"
  have kn: "known ?s = known s" by (rule known_cong) (simp add: destroy_def)
  have tc: "to_come k c ?s = to_come k c s" if "c \<noteq> p" "\<not> gone c s" for k c
  proof -
    have "count_list (waiting i) (Release k c) = 0" using w that by (auto simp: count_list_0_iff list_all_iff)
    then have "held k c (store ?s q) = held k c (store s q)" for q using i by (auto simp: destroy_def)
    then show ?thesis by (simp add: to_come_def) (simp add: destroy_def)
  qed
  have "well_formed ?s"
    unfolding well_formed_def kn using inst_invD(1-3) [OF inv] inst_inv_agenda [OF inv]
    by (auto simp: destroy_def split: if_splits)
  moreover have "counted ?s"
    unfolding counted_def
  proof (intro allI impI)
    fix c i' k
    assume "store ?s c = Some i'" "\<not> i_squashed i'"
    then have c: "c \<noteq> p" "store s c = Some i'" "\<not> i_squashed i'" by (auto simp: destroy_def split: if_splits)
    then show "remaining k i' = of_nat (to_come k c ?s)"
      using inst_invD(4) [OF inv c(2,3)] tc [OF c(1)] by (simp add: gone_def)
  qed
  ultimately show ?thesis by (simp add: inst_inv_def)
qed

lemma inst_inv_perform: "inst_inv s \<Longrightarrow> permitted oper s \<Longrightarrow> inst_inv (perform oper s)"
  by (cases oper)
    (auto simp del: permitted.simps(4,7,8,15) intro: inst_inv_create inst_inv_destroy inst_inv_client_callback
      inst_inv_notify inst_inv_notifySquashed inst_inv_dependency simp: permitted.simps(4,7,8) [symmetric])

lemma inst_inv_step: "inst_inv s \<Longrightarrow> step s s' \<Longrightarrow> inst_inv s'"
  by (erule stepE) (auto intro: inst_inv_run inst_inv_perform)

lemma inst_inv_empty: "inst_inv empty_system"
  by (simp add: inst_inv_def well_formed_def counted_def empty_system_def)

lemma inst_inv_steps: "step\<^sup>*\<^sup>* s s' \<Longrightarrow> inst_inv s \<Longrightarrow> inst_inv s'"
  by (induction rule: rtranclp_induct) (auto intro: inst_inv_step)

section \<open>Waiting instructions\<close>

lemma not_to_come:
  assumes "inst_inv s" "to_come k c s < 2 ^ 64" "store s c = Some i" "\<not> i_squashed i"
  shows "remaining k i = 0 \<longleftrightarrow> Release k c \<notin> set (agenda s)
    \<and> (\<forall>p j. store s p = Some j \<longrightarrow> Release k c \<notin> set (waiting j))"
proof -
  have "(of_nat n :: 64 word) = 0 \<longleftrightarrow> n = 0" if "n < 2 ^ 64" for n
    using that word_of_nat_eq_0_iff [of n, where ?'a = 64] by (auto dest: nat_dvd_not_less)
  then have "remaining k i = 0 \<longleftrightarrow> to_come k c s = 0" using inst_invD(4) [OF assms(1,3,4)] assms(2) by simp
  also have "\<dots> \<longleftrightarrow> Release k c \<notin> set (agenda s) \<and> (\<forall>p<next_id s. held k c (store s p) = 0)"
    by (auto simp: to_come_def count_list_0_iff)
  also have "(\<forall>p<next_id s. held k c (store s p) = 0) \<longleftrightarrow> (\<forall>p j. store s p = Some j \<longrightarrow> Release k c \<notin> set (waiting j))"
    using inst_invD(1) [OF assms(1)] by (auto simp: held_def count_list_0_iff split: option.splits)
  finally show ?thesis .
qed

text \<open>The dependencies: which counter of which instruction waits for which status of which parent.\<close>

fun awaits :: "'c operation \<Rightarrow> (counter \<times> inst_id \<times> inst_id \<times> Status) option" where
  "awaits (AddBeginExecDependency c p) = Some (Exec, c, p, Executing)"
| "awaits (AddCommitDependency c p) = Some (Exec, c, p, Committed)"
| "awaits (AddDependency c p) = Some (Exec, c, p, Complete)"
| "awaits (AddMemCommitDependency c p) = Some (Mem, c, p, Committed)"
| "awaits (AddMemDependency c p) = Some (Mem, c, p, Complete)"
| "awaits (AddMemEffAddrDependency c p) = Some (Mem, c, p, EffAddred)"
| "awaits _ = None"

definition stage_callbacks :: "Status \<Rightarrow> 'c inflight_inst \<Rightarrow> 'c callback list" where
  "stage_callbacks st i = (case st of Executing \<Rightarrow> beginExecCallbacks i | EffAddred \<Rightarrow> effAddrCalculatedCallbacks i
     | Complete \<Rightarrow> completionCallbacks i | Committed \<Rightarrow> commitCallbacks i | _ \<Rightarrow> [])"

lemma stage_callbacks_waiting: "\<not> announced st i \<Longrightarrow> set (stage_callbacks st i) \<subseteq> set (waiting i)"
  by (cases st) (auto simp: stage_callbacks_def waiting_def announced_def)

definition keeps :: "inst_id \<Rightarrow> Status \<Rightarrow> 'c callback \<Rightarrow> 'c system \<Rightarrow> bool" where
  "keeps p st cb s \<longleftrightarrow> p < next_id s \<and> (\<forall>j. store s p = Some j \<longrightarrow> cb \<in> set (stage_callbacks st j))"

lemma keeps_act:
  "keeps p st cb s \<Longrightarrow> (\<And>i. set (stage_callbacks st i) \<subseteq> set (stage_callbacks st (f i))) \<Longrightarrow> keeps p st cb (act q f cbs s)"
  by (auto simp: keeps_def)

lemma keeps_release:
  assumes "keeps p st cb s"
  shows "keeps p st cb (release k c s)"
proof -
  have n: "keeps p st cb (notifyReady c t)" "keeps p st cb (notifyMemReady c t)" if "keeps p st cb t" for t
    unfolding notifyReady_def notifyMemReady_def using that by (auto intro: keeps_act)
  have "keeps p st cb (act c (\<lambda>i. case k of
      Exec \<Rightarrow> i\<lparr>remainingDependencies := remainingDependencies i - 1\<rparr>
    | Mem \<Rightarrow> i\<lparr>remainingMemDependencies := remainingMemDependencies i - 1\<rparr>) (\<lambda>_. []) s)"
    using assms by (rule keeps_act) (auto simp: stage_callbacks_def split: counter.splits Status.splits)
  with n assms show ?thesis
    unfolding release_def Let_def by (auto split: option.split counter.split)
qed

lemma keeps_increment: "keeps p st cb s \<Longrightarrow> keeps p st cb (increment k c s)"
  unfolding increment_def by (rule keeps_act) (auto simp: stage_callbacks_def split: counter.splits Status.splits)

lemma keeps_add:
  assumes "keeps p st cb s"
  shows "keeps p st cb (addBeginExecCallback q x s)" "keeps p st cb (addCommitCallback q x s)"
    "keeps p st cb (addCompletionCallback q x s)" "keeps p st cb (addEffAddrCalculatedCallback q x s)"
    "keeps p st cb (addReadyCallback q y s)" "keeps p st cb (addMemReadyCallback q y s)" "keeps p st cb (addSquashCallback q y s)"
  unfolding addBeginExecCallback_def addCommitCallback_def addCompletionCallback_def addEffAddrCalculatedCallback_def
    addReadyCallback_def addMemReadyCallback_def addSquashCallback_def
  by (rule keeps_act [OF assms], force simp: stage_callbacks_def split: Status.splits)+

lemma keeps_notify:
  assumes "keeps p st cb s"
  shows "keeps p st cb (notifyDecoded t q s)" "keeps p st cb (notifyIssued t q s)" "keeps p st cb (notifyIssuedTid t q s)"
    "keeps p st cb (notifyMemorying t q s)" "keeps p st cb (notifyExecuting t q s)"
    "keeps p st cb (notifyEffAddrCalculated t q s)" "keeps p st cb (notifyComplete t q s)"
    "keeps p st cb (notifyCommitted t q s)" "keeps p st cb (notifySquashed t q s)"
  unfolding notifyDecoded_def notifyIssued_def notifyIssuedTid_def notifyMemorying_def notifyExecuting_def
    notifyEffAddrCalculated_def notifyComplete_def notifyCommitted_def notifySquashed_def
  by (auto split: option.split intro!: keeps_act [OF assms] simp: assms, (auto simp: stage_callbacks_def split: Status.splits)+)

lemma keeps_dependency:
  assumes "keeps p st cb s"
  shows "keeps p st cb (addBeginExecDependency c q s)" "keeps p st cb (addCommitDependency c q s)"
    "keeps p st cb (addDependency c q s)" "keeps p st cb (addMemCommitDependency c q s)"
    "keeps p st cb (addMemDependency c q s)" "keeps p st cb (addMemEffAddrDependency c q s)"
  unfolding addBeginExecDependency_def addCommitDependency_def addDependency_def addMemCommitDependency_def
    addMemDependency_def addMemEffAddrDependency_def
  by (auto split: option.split simp: assms intro!: keeps_add keeps_increment)

lemma keeps_step:
  assumes "keeps p st cb s" "step s s'"
  shows "keeps p st cb s'"
  using assms(2)
proof cases
  case (run c cs)
  have "keeps p st cb (s\<lparr>agenda := cs\<rparr>)" using assms(1) by (simp add: keeps_def)
  moreover have "keeps p st cb (t\<lparr>client_calls := xs\<rparr>) = keeps p st cb t" for t xs by (simp add: keeps_def)
  ultimately show ?thesis using run keeps_release by (cases c) auto
next
  case (operate oper)
  have "keeps p st cb (create t s)" "keeps p st cb (destroy q s)" for t q
    using assms(1) by (auto simp: keeps_def create_def destroy_def split: if_splits)
  then show ?thesis
    unfolding operate(1) using keeps_add keeps_notify keeps_dependency assms(1) by (cases oper) auto
qed

lemma keeps_steps: "step\<^sup>*\<^sup>* s s' \<Longrightarrow> keeps p st cb s \<Longrightarrow> keeps p st cb s'"
  by (induction rule: rtranclp_induct) (auto intro: keeps_step)

lemma awaits_keeps:
  assumes "awaits oper = Some (k, c, p, st)" "inst_inv s" "store s p = Some j" "\<not> i_squashed j" "i_status j < st"
  shows "keeps p st (Release k c) (perform oper s)"
  using assms inst_invD(1) [OF assms(2,3)]
  by (cases oper; simp add: not_le [symmetric])
    (auto simp: keeps_def addBeginExecDependency_def addCommitDependency_def addDependency_def addMemCommitDependency_def
      addMemDependency_def addMemEffAddrDependency_def isExecuting_def isCommitted_def isComplete_def isEffAddred_def
      addBeginExecCallback_def addCommitCallback_def addCompletionCallback_def addEffAddrCalculatedCallback_def
      increment_def stage_callbacks_def split: if_splits)

section \<open>The thread's use of the class\<close>

text \<open>\<open>FlexCPUThread::executeInstruction\<close>: the request to the execution unit is recorded as the client
  call \<open>request\<close>; \<open>n\<close> bounds the callbacks made by each of the two notifications. The assertion failing
  is \<open>None\<close>.\<close>

definition executeInstruction :: "nat \<Rightarrow> tick \<Rightarrow> 'c \<Rightarrow> inst_id \<Rightarrow> 'c system \<Rightarrow> 'c system option" where
  "executeInstruction n curTick request p s = do {
     i \<leftarrow> store s p;
     c_assert (isReady i);
     let s = run_agenda n (notifyExecuting curTick p s);
     let s = s\<lparr>client_calls := client_calls s @ [request]\<rparr>;
     Some (run_agenda n (notifyExecuting curTick p s))
   }"





section \<open>Address ranges\<close>

definition range_valid :: "addr_range \<Rightarrow> bool" where
  "range_valid r \<longleftrightarrow> range_start r \<le> range_end r"

definition bytes_of :: "'c inflight_inst \<Rightarrow> 64 word set" where
  "bytes_of i = {a. (\<exists>r. accessedPAddrs i = Some r \<and> range_start r \<le> a \<and> a \<le> range_end r)
     \<or> isSplitMemReq i \<and> (\<exists>r. accessedSplitPAddrs i = Some r \<and> range_start r \<le> a \<and> a \<le> range_end r)}"

definition ranges_valid :: "'c inflight_inst \<Rightarrow> bool" where
  "ranges_valid i \<longleftrightarrow> pred_option range_valid (accessedPAddrs i) \<and> pred_option range_valid (accessedSplitPAddrs i)"

lemma intersects_iff:
  assumes "range_valid a" "range_valid b"
  shows "intersects a b \<longleftrightarrow> (\<exists>x. range_start a \<le> x \<and> x \<le> range_end a \<and> range_start b \<le> x \<and> x \<le> range_end b)"
proof
  assume "intersects a b"
  then have "range_start a \<le> range_end b" "range_start b \<le> range_end a" by (auto simp: intersects_def split: if_splits)
  with assms show "\<exists>x. range_start a \<le> x \<and> x \<le> range_end a \<and> range_start b \<le> x \<and> x \<le> range_end b"
    by (intro exI [of _ "max (range_start a) (range_start b)"]) (auto simp: range_valid_def)
qed (auto simp: intersects_def)

lemma effAddrOverlap_Some:
  "effAddrOverlap i other = Some b \<longleftrightarrow> (\<exists>r q. accessedPAddrs i = Some r \<and> accessedPAddrs other = Some q
     \<and> (isSplitMemReq i \<longrightarrow> accessedSplitPAddrs i \<noteq> None) \<and> (isSplitMemReq other \<longrightarrow> accessedSplitPAddrs other \<noteq> None)
     \<and> b = (intersects r q \<or> isSplitMemReq i \<and> intersects (the (accessedSplitPAddrs i)) q
         \<or> isSplitMemReq other \<and> intersects r (the (accessedSplitPAddrs other))
         \<or> isSplitMemReq i \<and> isSplitMemReq other
             \<and> intersects (the (accessedSplitPAddrs i)) (the (accessedSplitPAddrs other))))"
  by (cases "accessedPAddrs i"; cases "accessedPAddrs other"; cases "isSplitMemReq i"; cases "isSplitMemReq other")
    (auto simp: effAddrOverlap_def c_assert_def)

lemma effAddrOverlap_bytes:
  assumes "effAddrOverlap i other = Some b" "ranges_valid i" "ranges_valid other"
  shows "b \<longleftrightarrow> bytes_of i \<inter> bytes_of other \<noteq> {}"
proof -
  define S where "S r = {a. range_start r \<le> a \<and> a \<le> range_end r}" for r :: addr_range
  have I: "intersects r q \<longleftrightarrow> S r \<inter> S q \<noteq> {}" if "range_valid r" "range_valid q" for r q
    using intersects_iff [OF that] by (auto simp: S_def)
  have B: "bytes_of j = S (the (accessedPAddrs j)) \<union> (if isSplitMemReq j then S (the (accessedSplitPAddrs j)) else {})"
    if "accessedPAddrs j \<noteq> None" "isSplitMemReq j \<longrightarrow> accessedSplitPAddrs j \<noteq> None" for j :: "'z inflight_inst"
    using that by (auto simp: bytes_of_def S_def)
  from assms(1) obtain r q where rq: "accessedPAddrs i = Some r" "accessedPAddrs other = Some q"
    "isSplitMemReq i \<longrightarrow> accessedSplitPAddrs i \<noteq> None" "isSplitMemReq other \<longrightarrow> accessedSplitPAddrs other \<noteq> None"
    and b: "b = (intersects r q \<or> isSplitMemReq i \<and> intersects (the (accessedSplitPAddrs i)) q
         \<or> isSplitMemReq other \<and> intersects r (the (accessedSplitPAddrs other))
         \<or> isSplitMemReq i \<and> isSplitMemReq other
             \<and> intersects (the (accessedSplitPAddrs i)) (the (accessedSplitPAddrs other)))"
    unfolding effAddrOverlap_Some by blast
  have v: "range_valid r" "range_valid q" "isSplitMemReq i \<Longrightarrow> range_valid (the (accessedSplitPAddrs i))"
    "isSplitMemReq other \<Longrightarrow> range_valid (the (accessedSplitPAddrs other))"
    using assms(2,3) rq by (auto simp: ranges_valid_def)
  show ?thesis
    unfolding b using rq(3,4) v
    by (cases "isSplitMemReq i"; cases "isSplitMemReq other") (auto simp: B rq I)
qed

section \<open>Two instructions, the younger waiting for the older\<close>

definition two_insts :: "unit system" where
  "two_insts = create 0 (create 0 empty_system)"

lemma two_insts_fields: "store two_insts 0 = Some (new_inst 0)" "store two_insts 1 = Some (new_inst 0)"
    "store two_insts (Suc 0) = Some (new_inst 0)" "next_id two_insts = 2" "agenda two_insts = []"
  by (simp_all add: two_insts_def create_def empty_system_def)

lemma two_insts_steps: "step\<^sup>*\<^sup>* empty_system two_insts"
proof -
  have "step (empty_system :: unit system) (create 0 empty_system)" "step (create 0 (empty_system :: unit system)) two_insts"
    using step.operate [of "Create 0"] by (simp_all add: two_insts_def)
  then show ?thesis by (meson rtranclp.simps)
qed

lemma two_insts_wait:
  shows "store (addDependency 1 0 two_insts) 1 = Some ((new_inst 0)\<lparr>remainingDependencies := 1\<rparr>)"
    and "store (addDependency 1 0 two_insts) 0 = Some ((new_inst 0)\<lparr>completionCallbacks := [Release Exec 1]\<rparr>)"
    and "to_come k 1 (addDependency 1 0 two_insts) = (if k = Exec then 1 else 0)"
    and "permitted (AddDependency 1 0) two_insts"
proof -
  have l2: "{..<2 :: nat} = {0, 1}" by auto
  show "store (addDependency 1 0 two_insts) 1 = Some ((new_inst 0)\<lparr>remainingDependencies := 1\<rparr>)"
    "store (addDependency 1 0 two_insts) 0 = Some ((new_inst 0)\<lparr>completionCallbacks := [Release Exec 1]\<rparr>)"
    "to_come k 1 (addDependency 1 0 two_insts) = (if k = Exec then 1 else 0)"
    by (simp_all add: addDependency_def addCompletionCallback_def increment_def two_insts_fields
        new_inst_def isComplete_def less_eq_Status_def waiting_def to_come_def l2)
  show "permitted (AddDependency 1 0) two_insts" by (simp add: two_insts_fields)
qed

section \<open>Properties\<close>

text \<open>C11 (dependency counters): in every state that callers who keep the contract \<open>permitted\<close> of the class can reach, an
  instruction that is not squashed has no dependencies left, for execution or for memory, exactly
  when no release is waiting for it on the stack of calls or on a stage of an instruction
  alive that was not announced, provided fewer than 2^64 are. The contract covers the repeated announcement of \<open>executeInstruction\<close> only
  when nothing waits for the beginning of that execution: it excludes CPUs with
  \<open>in_order_begin_execute\<close>, where \<open>executeInstruction_releases_twice\<close> shows a counter of 2^64 - 1 and no release to come.\<close>

theorem ready_iff_all_released:
  assumes "step\<^sup>*\<^sup>* empty_system s" "store s c = Some i" "\<not> i_squashed i" "\<forall>k. to_come k c s < 2 ^ 64"
  shows "(isReady i \<longleftrightarrow> Release Exec c \<notin> set (agenda s)
      \<and> (\<forall>p j. store s p = Some j \<longrightarrow> Release Exec c \<notin> set (waiting j)))
    \<and> (isMemReady i \<longleftrightarrow> Release Mem c \<notin> set (agenda s)
      \<and> (\<forall>p j. store s p = Some j \<longrightarrow> Release Mem c \<notin> set (waiting j)))"
proof -
  have inv: "inst_inv s" by (rule inst_inv_steps [OF assms(1) inst_inv_empty])
  have r: "isReady i \<longleftrightarrow> remaining Exec i = 0" "isMemReady i \<longleftrightarrow> remaining Mem i = 0"
    by (simp_all add: isReady_def isMemReady_def remaining_def)
  show ?thesis
    unfolding r using not_to_come [OF inv _ assms(2,3)] assms(4) by blast
qed

theorem ready_iff_all_released_witness:
  "\<exists>i. step\<^sup>*\<^sup>* empty_system (addDependency 1 0 two_insts) \<and> store (addDependency 1 0 two_insts) 1 = Some i
    \<and> \<not> isReady i \<and> isMemReady i"
proof -
  let ?s = "addDependency 1 0 two_insts" and ?i = "(new_inst 0)\<lparr>remainingDependencies := 1\<rparr> :: unit inflight_inst"
  have "step two_insts ?s" using step.operate [OF two_insts_wait(4)] by simp
  then have r: "step\<^sup>*\<^sup>* empty_system ?s" using two_insts_steps by simp
  have "Release Exec 1 \<in> set (waiting (the (store ?s 0)))"
    unfolding two_insts_wait(2) by (simp add: waiting_def new_inst_def)
  moreover have "\<forall>k. to_come k 1 ?s < 2 ^ 64" unfolding two_insts_wait(3) by simp
  moreover have "\<not> i_squashed ?i" "isMemReady ?i" by (simp_all add: new_inst_def isMemReady_def)
  ultimately show ?thesis
    using ready_iff_all_released [OF r two_insts_wait(1)] r two_insts_wait(1,2) by auto
qed

text \<open>C10 (dependencies are respected): after any of the six ways of making an instruction wait for a status of
  another, and whatever callbacks and operations that keep the contract \<open>permitted\<close> follow, the counter
  of the waiting instruction, as long as it is not squashed, stays above zero while the other one
  is alive and that status of it was not announced. Operations outside the contract are not covered: with \<open>in_order_begin_execute\<close>
  the second announcement of \<open>executeInstruction\<close> is one, and the counter may reach zero too early.\<close>

theorem dependency_respected:
  assumes "step\<^sup>*\<^sup>* empty_system s" "awaits oper = Some (k, c, p, st)" "permitted oper s"
    and "store s p = Some j" "\<not> i_squashed j" "i_status j < st"
    and "step\<^sup>*\<^sup>* (perform oper s) t"
    and "store t p = Some j'" "\<not> announced st j'"
    and "store t c = Some i" "\<not> i_squashed i" "to_come k c t < 2 ^ 64"
  shows "remaining k i \<noteq> 0"
proof -
  have inv: "inst_inv s" by (rule inst_inv_steps [OF assms(1) inst_inv_empty])
  have "step s (perform oper s)" using assms(3) by (rule step.operate)
  then have inv': "inst_inv t" using inst_inv_step [OF inv] inst_inv_steps [OF assms(7)] by blast
  have "keeps p st (Release k c) t"
    by (rule keeps_steps [OF assms(7)], rule awaits_keeps [OF assms(2) inv assms(4-6)])
  then have "Release k c \<in> set (waiting j')"
    using assms(8) stage_callbacks_waiting [OF assms(9)] by (auto simp: keeps_def)
  then show ?thesis using not_to_come [OF inv' assms(12,10,11)] assms(8) by blast
qed

theorem dependency_respected_witness:
  "\<exists>i. store (perform (AddDependency 1 0) two_insts) 1 = Some i \<and> remaining Exec i \<noteq> 0"
proof -
  have t: "perform (AddDependency 1 0) two_insts = addDependency 1 0 two_insts" by simp
  have "to_come Exec 1 (addDependency 1 0 two_insts) < 2 ^ 64" unfolding two_insts_wait(3) by simp
  moreover have "awaits (AddDependency 1 0) = Some (Exec, 1, 0, Complete)" by simp
  moreover have "i_status (new_inst 0 :: unit inflight_inst) < Complete" "\<not> i_squashed (new_inst 0 :: unit inflight_inst)"
    "\<not> announced Complete ((new_inst 0 :: unit inflight_inst)\<lparr>completionCallbacks := [Release Exec 1]\<rparr>)"
    "\<not> i_squashed ((new_inst 0 :: unit inflight_inst)\<lparr>remainingDependencies := 1\<rparr>)"
    by (simp_all add: new_inst_def less_Status_def announced_def)
  ultimately have "remaining Exec ((new_inst 0)\<lparr>remainingDependencies := 1\<rparr> :: unit inflight_inst) \<noteq> 0"
    by (intro dependency_respected [OF two_insts_steps _ two_insts_wait(4) two_insts_fields(1), unfolded t,
          OF _ _ _ rtranclp.rtrancl_refl two_insts_wait(2) _ two_insts_wait(1)])
  then show ?thesis using two_insts_wait(1) by simp
qed

text \<open>The second notification: \<open>executeInstruction\<close> calls \<open>notifyExecuting\<close> twice, and the callbacks of the
  stage with it. An instruction 1 that waits for instruction 0 to begin execution, and for nothing
  else, is then left with 2^64 - 1 dependencies and no release to come; one that also waits for the
  completion of instruction 2 is told that it is ready while 2 has not completed.\<close>

lemma executeInstruction_releases_twice:
  "(let s = addBeginExecDependency 1 0 (create 0 (create 0 empty_system)) in
      case executeInstruction 9 5 ''request'' 0 s of
        None \<Rightarrow> False
      | Some t \<Rightarrow> agenda t = [] \<and> to_come Exec 1 t = 0
          \<and> map_option remainingDependencies (store t 1) = Some 18446744073709551615)
   \<and> (let s = addReadyCallback 1 ''execute 1'' (addDependency 1 2 (addBeginExecDependency 1 0
          (create 0 (create 0 (create 0 empty_system))))) in
      case executeInstruction 9 5 ''request'' 0 s of
        None \<Rightarrow> False
      | Some t \<Rightarrow> ''execute 1'' \<in> set (client_calls t) \<and> map_option i_status (store t 2) = Some Empty)"
  by code_simp



text \<open>C13 (overlapping accesses): \<open>effAddrOverlap\<close> does not depend on the order of the two instructions, fails its
  assertion only when an address is missing, and otherwise answers whether some byte is accessed by
  both, split accesses included.\<close>

theorem effAddrOverlap_correct:
  assumes "ranges_valid i" "ranges_valid other"
  shows "effAddrOverlap i other = effAddrOverlap other i
    \<and> (case effAddrOverlap i other of
         None \<Rightarrow> accessedPAddrs i = None \<or> accessedPAddrs other = None
           \<or> isSplitMemReq i \<and> accessedSplitPAddrs i = None \<or> isSplitMemReq other \<and> accessedSplitPAddrs other = None
       | Some b \<Rightarrow> b \<longleftrightarrow> bytes_of i \<inter> bytes_of other \<noteq> {})"
proof -
  have "intersects a b = intersects b a" for a b by (auto simp: intersects_def)
  then have "effAddrOverlap i other = effAddrOverlap other i"
    by (auto simp: effAddrOverlap_def c_assert_def split: if_splits)
  moreover have "effAddrOverlap i other = None \<Longrightarrow> accessedPAddrs i = None \<or> accessedPAddrs other = None
           \<or> isSplitMemReq i \<and> accessedSplitPAddrs i = None \<or> isSplitMemReq other \<and> accessedSplitPAddrs other = None"
    by (auto simp: effAddrOverlap_def c_assert_def split: if_splits)
  ultimately show ?thesis using effAddrOverlap_bytes [OF _ assms] by (auto split: option.split)
qed

theorem effAddrOverlap_correct_witness:
  "effAddrOverlap ((new_inst 0)\<lparr>accessedPAddrs := Some \<lparr>range_start = 4, range_end = 7\<rparr>\<rparr> :: unit inflight_inst)
     ((new_inst 0)\<lparr>accessedPAddrs := Some \<lparr>range_start = 6, range_end = 9\<rparr>\<rparr> :: unit inflight_inst)
   = effAddrOverlap ((new_inst 0)\<lparr>accessedPAddrs := Some \<lparr>range_start = 6, range_end = 9\<rparr>\<rparr> :: unit inflight_inst)
     ((new_inst 0)\<lparr>accessedPAddrs := Some \<lparr>range_start = 4, range_end = 7\<rparr>\<rparr> :: unit inflight_inst)"
  by (rule conjunct1 [OF effAddrOverlap_correct]) (simp_all add: ranges_valid_def range_valid_def new_inst_def)

end
