(* ===== verification/Flex_Thread.thy ===== *)
theory Flex_Thread
  imports Riscv_Decoder Flex_Inflight
begin

text \<open>
  A hardware thread of the FlexCPU (\<open>gem5/src/cpu/flexcpu/flexcpu_thread.cc\<close>): the buffer of in-flight
  instructions and every handler that fills, executes, squashes and commits it.

  The thread keeps the objects of \<open>Flex_Inflight\<close> in \<open>sys\<close> and the remaining fields of an instruction in
  \<open>info\<close>. A lambda that the thread stores in an instruction is a value of \<open>frame\<close>, and so is the rest of
  a function after a call that runs callbacks: \<open>agenda (sys t)\<close> is the stack of calls and
  continuations still to run, and \<open>exec\<close> runs its top. The callbacks of \<open>notifySquashed\<close> never come
  back into the buffer and are run where they are called. Requests to the shared units of the CPU are
  asynchronous there (every one goes through an event), so a request is an entry of \<open>requests\<close> that an
  event answers once the stack is empty.

  \<open>None\<close> is a failed assertion, a panic, a null dereference or the end of an empty list. What
  belongs to the instruction set description, the branch predictor or the memory system is a
  field of \<open>cpu\<close> or chosen by the event. Statistics and debug output are left out.
\<close>

section \<open>State\<close>

type_synonym fault = string

datatype thread_status = Active | Suspended | Halting | Halted

record thread_context =
  tc_status :: thread_status
  tc_pc :: PCState
  tc_regs :: "RegId \<Rightarrow> 64 word"
  tc_misc :: "nat \<Rightarrow> 64 word"

type_synonym DataSource = "(inst_id \<times> nat) option"

record inst_data =
  seqNum :: "64 word"
  issueSeqNum :: "64 word"
  pcState :: PCState
  staticInst :: "StaticInst option"
  inst_fault :: "fault option"
  sources :: "DataSource list"
  results :: "64 word list"
  resultValid :: "bool list"
  miscResults :: "(nat \<times> 64 word) list"

record Request =
  r_vaddr :: Addr
  r_size :: nat
  r_paddr :: "Addr option"
  r_byteEnable :: "bool list"
  r_isLLSC :: bool
  r_isMmappedIpr :: bool
  r_isCondSwap :: bool
  r_extraData :: "64 word option"

record SplitRequest =
  split_main :: Request
  split_low :: "Request option"
  split_high :: "Request option"

record mem_args =
  ma_req :: Request
  ma_write :: bool
  ma_data :: "byte list"
  ma_split :: "nat option"

text \<open>The lambdas stored in instructions, and the continuations of the thread's own functions.\<close>

datatype frame =
    ExecuteInstruction inst_id
  | SendToMemory inst_id mem_args
  | OverlapKnown inst_id inst_id
  | OverlapInst inst_id inst_id
  | OverlapOther inst_id inst_id
  | PredictorSquash "64 word"
  | FreeUnlessComplete inst_id
  | ExecuteRest inst_id
  | EffAddrRest inst_id mem_args
  | CompletedRest inst_id
  | CommitLoop bool
  | CommitRest inst_id

datatype cpu_request =
    InstAddrTranslation inst_id Addr
  | InstructionData inst_id Addr
  | Issue inst_id
  | IssueTid inst_id
  | Execution inst_id
  | DataAddrTranslation inst_id Request mem_args bool
  | MemAccess inst_id mem_args
  | BranchPredictor inst_id
  | ActivateEvent

datatype predictor_call = Update "64 word" | Squash "64 word" | SquashBranch "64 word" PCState bool

record trace_record =
  tr_seq :: "64 word"
  tr_issue :: "64 word"
  tr_pc :: PCState
  tr_inst :: StaticInst

record thread =
  sys :: "frame system"
  info :: "inst_id \<Rightarrow> inst_data"
  inflightInsts :: "inst_id list"
  lastCommittedInstNum :: "64 word"
  nextIssueNum :: "64 word"
  numInsts :: nat
  numOps :: nat
  fetchBuf :: "byte list"
  fetchBufBase :: Addr
  fetchOffset :: Addr
  decoder :: Decoder
  curMacroOp :: "StaticInst option"
  lastSerializingInstruction :: "inst_id option"
  lastMemBarrier :: "inst_id option"
  lastUses :: "RegId \<Rightarrow> DataSource"
  advanceInstNeedsRetry :: bool
  advanceInstRetryPC :: PCState
  remainingBranchPredDepth :: "32 word"
  unpredictedBranch :: "inst_id option"
  splitRequests :: "SplitRequest list"
  committedState :: thread_context
  requests :: "cpu_request list"
  predictor_calls :: "predictor_call list"
  trace :: "trace_record list"
  curTick :: tick

record cpu =
  inOrderBeginExecute :: bool
  inOrderExecute :: bool
  strictSerialize :: bool
  hasBranchPredictor :: bool
  inflightInstsMaxSize :: "32 word"
  branch_pred_max_depth :: "32 word"
  fetch_buf_size :: nat
  cacheLineSize :: "64 word"
  rom_fetchMicroop :: "MicroPC \<Rightarrow> StaticInst option \<Rightarrow> StaticInst"
  fetchMicroop :: "StaticInst \<Rightarrow> MicroPC \<Rightarrow> StaticInst"
  decodeInst :: "64 word \<Rightarrow> StaticInst"
  branchTarget :: "StaticInst \<Rightarrow> PCState \<Rightarrow> PCState"
  completeAcc :: "StaticInst \<Rightarrow> mem_args \<Rightarrow> inst_data \<Rightarrow> fault option \<times> 64 word list \<times> bool list"
  fault_invoke :: "fault \<Rightarrow> StaticInst option \<Rightarrow> thread_context \<Rightarrow> thread_context"
  setMiscReg :: "nat \<Rightarrow> 64 word \<Rightarrow> (nat \<Rightarrow> 64 word) \<Rightarrow> nat \<Rightarrow> 64 word"

definition new_thread :: "cpu \<Rightarrow> thread_context \<Rightarrow> thread option" where
  "new_thread c tc = (if fetch_buf_size c mod 4 \<noteq> 0 \<or> of_nat (fetch_buf_size c) > cacheLineSize c then None
     else Some \<lparr>sys = empty_system,
       info = (\<lambda>_. \<lparr>seqNum = 0, issueSeqNum = 0, pcState = tc_pc tc, staticInst = None, inst_fault = None, sources = [],
         results = [], resultValid = [], miscResults = []\<rparr>),
       inflightInsts = [], lastCommittedInstNum = 0, nextIssueNum = 0, numInsts = 0, numOps = 0,
       fetchBuf = replicate (fetch_buf_size c) 0, fetchBufBase = 0, fetchOffset = 0, decoder = decoder_reset,
       curMacroOp = None, lastSerializingInstruction = None, lastMemBarrier = None, lastUses = (\<lambda>_. None),
       advanceInstNeedsRetry = False, advanceInstRetryPC = tc_pc tc,
       remainingBranchPredDepth = (if branch_pred_max_depth c = 0 then - 1 else branch_pred_max_depth c),
       unpredictedBranch = None, splitRequests = [], committedState = tc, requests = [], predictor_calls = [],
       trace = [], curTick = 0\<rparr>)"

section \<open>Access to objects\<close>

text \<open>\<open>holds P t p\<close> asks an instruction that a shared pointer keeps alive; \<open>live\<close> is the test at the head of the
  functions that take a weak pointer: it can be locked and the instruction is not squashed.\<close>

definition holds :: "(frame inflight_inst \<Rightarrow> bool) \<Rightarrow> thread \<Rightarrow> inst_id \<Rightarrow> bool" where
  "holds P t p \<longleftrightarrow> (case store (sys t) p of None \<Rightarrow> False | Some i \<Rightarrow> P i)"

definition alive :: "thread \<Rightarrow> inst_id \<Rightarrow> bool" where
  "alive t p \<longleftrightarrow> store (sys t) p \<noteq> None"

definition live :: "thread \<Rightarrow> inst_id \<Rightarrow> bool" where
  "live t p \<longleftrightarrow> holds (\<lambda>i. \<not> i_squashed i) t p"

definition on_sys :: "(frame system \<Rightarrow> frame system) \<Rightarrow> thread \<Rightarrow> thread" where
  "on_sys f t = t\<lparr>sys := f (sys t)\<rparr>"

definition set_info :: "inst_id \<Rightarrow> (inst_data \<Rightarrow> inst_data) \<Rightarrow> thread \<Rightarrow> thread" where
  "set_info p f t = t\<lparr>info := (info t)(p := f (info t p))\<rparr>"

definition request :: "cpu_request \<Rightarrow> thread \<Rightarrow> thread" where
  "request r t = t\<lparr>requests := requests t @ [r]\<rparr>"

definition call :: "frame \<Rightarrow> thread \<Rightarrow> thread" where
  "call fr = on_sys (\<lambda>s. s\<lparr>agenda := Client fr # agenda s\<rparr>)"

abbreviation static :: "thread \<Rightarrow> inst_id \<Rightarrow> StaticInst option" where
  "static t p \<equiv> staticInst (info t p)"

section \<open>Fetch\<close>

definition set_static :: "StaticInst \<Rightarrow> inst_data \<Rightarrow> inst_data" where
  "set_static si d = d\<lparr>staticInst := Some si, results := results d @ replicate (length (destRegIdx si)) 0,
     resultValid := resultValid d @ replicate (length (destRegIdx si)) False,
     sources := sources d @ replicate (length (srcRegIdx si)) None\<rparr>"

definition issueInstruction :: "inst_id \<Rightarrow> thread \<Rightarrow> thread" where
  "issueInstruction p = request (Issue p)"

definition fetch_word :: "byte list \<Rightarrow> nat \<Rightarrow> 32 word" where
  "fetch_word bs k = ucast (bs ! k) OR push_bit 8 (ucast (bs ! (k + 1)))
     OR push_bit 16 (ucast (bs ! (k + 2))) OR push_bit 24 (ucast (bs ! (k + 3)))"

definition req_vaddr :: "inst_id \<Rightarrow> thread \<Rightarrow> Addr" where
  "req_vaddr p t = (s_pc (pcState (info t p)) AND NOT 3) + fetchOffset t"

definition fetch_hit :: "inst_id \<Rightarrow> thread \<Rightarrow> bool" where
  "fetch_hit p t \<longleftrightarrow> fetchBufBase t \<noteq> 0 \<and> fetchBufBase t \<le> req_vaddr p t
     \<and> req_vaddr p t + 4 \<le> fetchBufBase t + of_nat (length (fetchBuf t))"

definition fetchBufMask :: "cpu \<Rightarrow> Addr" where
  "fetchBufMask c = NOT (of_nat (fetch_buf_size c) - 1)"

text \<open>\<open>attemptFetch\<close> and \<open>onInstDataFetched\<close> call each other as long as the fetch buffer has the words the decoder asks for.\<close>

function attemptFetch :: "cpu \<Rightarrow> inst_id \<Rightarrow> thread \<Rightarrow> thread option" where
  "attemptFetch c p t =
    (if fetch_hit p t then
       if \<not> live t p then Some t
       else case moreBytes (pcState (info t p)) (fetch_word (fetchBuf t) (unat (req_vaddr p t - fetchBufBase t))) (decoder t) of
         None \<Rightarrow> None
       | Some d \<Rightarrow>
          (case decode (decodeInst c) (pcState (info t p)) d of
             (None, s, d') \<Rightarrow>
               attemptFetch c p (set_info p (pcState_update (\<lambda>_. s)) (t\<lparr>decoder := d', fetchOffset := fetchOffset t + 4\<rparr>))
           | (Some si, s, d') \<Rightarrow>
               Some (issueInstruction p (on_sys (notifyDecoded (curTick t) p)
                 (set_info p (\<lambda>i. set_static si (i\<lparr>pcState := s\<rparr>)) (t\<lparr>decoder := d'\<rparr>)))))
     else Some (request (InstAddrTranslation p (req_vaddr p t AND fetchBufMask c)) t))"
  by pat_completeness auto

termination
  by (relation "measure (\<lambda>(c, p, t). if mid (decoder t) then 0 else 1)")
    (auto simp: set_info_def decode_None' dest: moreBytes_not_done)

declare attemptFetch.simps [simp del]

definition attemptFetch_weak :: "cpu \<Rightarrow> inst_id \<Rightarrow> thread \<Rightarrow> thread option" where
  "attemptFetch_weak c p t = (if live t p then attemptFetch c p t else Some t)"

definition bufferInstructionData :: "Addr \<Rightarrow> byte list \<Rightarrow> thread \<Rightarrow> thread" where
  "bufferInstructionData vaddr data t = (let t = t\<lparr>fetchBufBase := vaddr\<rparr> in
     if vaddr = 0 then t else t\<lparr>fetchBuf := take (length (fetchBuf t)) data\<rparr>)"

definition new_data :: "64 word \<Rightarrow> PCState \<Rightarrow> inst_data" where
  "new_data seq s = \<lparr>seqNum = seq, issueSeqNum = 0, pcState = s, staticInst = None, inst_fault = None, sources = [],
     results = [], resultValid = [], miscResults = []\<rparr>"

text \<open>A new object at the end of the buffer; its number is the position it has in program order.\<close>

definition push_inst :: "PCState \<Rightarrow> thread \<Rightarrow> thread" where
  "push_inst s t = (let p = next_id (sys t) in
     t\<lparr>sys := create (curTick t) (sys t),
       info := (info t)(p := new_data (lastCommittedInstNum t + of_nat (length (inflightInsts t)) + 1) s),
       inflightInsts := inflightInsts t @ [p]\<rparr>)"

definition push_microop :: "StaticInst \<Rightarrow> PCState \<Rightarrow> thread \<Rightarrow> thread" where
  "push_microop si s t = (let p = next_id (sys t) in
     issueInstruction p (on_sys (notifyDecoded (curTick t) p) (set_info p (set_static si) (push_inst s t))))"

definition buffer_full :: "cpu \<Rightarrow> thread \<Rightarrow> bool" where
  "buffer_full c t \<longleftrightarrow> inflightInstsMaxSize c \<noteq> 0 \<and> unat (inflightInstsMaxSize c) \<le> length (inflightInsts t)"

definition advanceInst :: "cpu \<Rightarrow> PCState \<Rightarrow> thread \<Rightarrow> thread option" where
  "advanceInst c next_pc t =
    (if tc_status (committedState t) \<noteq> Active then Some t
     else if buffer_full c t then Some (t\<lparr>advanceInstNeedsRetry := True, advanceInstRetryPC := next_pc\<rparr>)
     else
       let t = t\<lparr>advanceInstNeedsRetry := False\<rparr> in
       if isRomMicroPC (s_upc next_pc) then
         Some (push_microop (rom_fetchMicroop c (s_upc next_pc) (curMacroOp t)) next_pc t)
       else case curMacroOp t of
         Some m \<Rightarrow> Some (push_microop (fetchMicroop c m (s_upc next_pc)) next_pc t)
       | None \<Rightarrow> attemptFetch c (next_id (sys t)) ((push_inst next_pc t)\<lparr>fetchOffset := 0\<rparr>))"

definition hasNextPC :: "thread \<Rightarrow> bool option" where
  "hasNextPC t = (if inflightInsts t = [] then Some True
     else case static t (last (inflightInsts t)) of None \<Rightarrow> None
     | Some si \<Rightarrow> Some (\<not> isControl si \<or> holds isComplete t (last (inflightInsts t))))"

definition getNextPC :: "thread \<Rightarrow> PCState option" where
  "getNextPC t = (if inflightInsts t = [] then Some (tc_pc (committedState t))
     else case static t (last (inflightInsts t)) of None \<Rightarrow> None
     | Some si \<Rightarrow> if \<not> isControl si \<or> holds isComplete t (last (inflightInsts t))
         then Some (advancePC si (pcState (info t (last (inflightInsts t))))) else None)"

section \<open>Branch prediction\<close>

definition predictCtrlInst :: "inst_id \<Rightarrow> thread \<Rightarrow> thread" where
  "predictCtrlInst p t = request (BranchPredictor p)
     (on_sys (addSquashCallback p (PredictorSquash (issueSeqNum (info t p)))) t)"

definition freeBranchPredDepth :: "thread \<Rightarrow> thread option" where
  "freeBranchPredDepth t =
    (if remainingBranchPredDepth t \<noteq> 0 then Some (t\<lparr>remainingBranchPredDepth := remainingBranchPredDepth t + 1\<rparr>)
     else
       let t' = t\<lparr>unpredictedBranch := None\<rparr> in
       case unpredictedBranch t of
         None \<Rightarrow> Some (t'\<lparr>remainingBranchPredDepth := remainingBranchPredDepth t + 1\<rparr>)
       | Some p \<Rightarrow>
          if \<not> alive t p then Some (t'\<lparr>remainingBranchPredDepth := remainingBranchPredDepth t + 1\<rparr>)
          else if inflightInsts t = [] then None
          else if p = last (inflightInsts t) \<and> \<not> advanceInstNeedsRetry t then Some (predictCtrlInst p t')
          else Some (t'\<lparr>remainingBranchPredDepth := remainingBranchPredDepth t + 1\<rparr>))"

section \<open>Squashing\<close>

fun run_squash_callback :: "frame \<Rightarrow> thread \<Rightarrow> thread option" where
  "run_squash_callback (PredictorSquash n) t = Some (t\<lparr>predictor_calls := predictor_calls t @ [Squash n]\<rparr>)"
| "run_squash_callback (FreeUnlessComplete p) t = (if holds isComplete t p then Some t else freeBranchPredDepth t)"
| "run_squash_callback _ t = None"

definition squash_inst :: "inst_id \<Rightarrow> thread \<Rightarrow> thread option" where
  "squash_inst p t = (case store (sys t) p of None \<Rightarrow> None
     | Some i \<Rightarrow> if i_squashed i then Some t
         else fold_opt run_squash_callback (squashCallbacks i)
           (on_sys (\<lambda>s. (notifySquashed (curTick t) p s)\<lparr>agenda := agenda s\<rparr>) t))"

definition recordInstStats :: "inst_id \<Rightarrow> thread \<Rightarrow> unit option" where
  "recordInstStats p t = do {
     c_assert (holds (\<lambda>i. Invalid < i_status i) t p);
     if holds i_squashed t p then Some ()
     else c_assert (holds (\<lambda>i. i_status i = Committed) t p \<and> static t p \<noteq> None)
   }"

definition populateUses :: "inst_id \<Rightarrow> thread \<Rightarrow> thread option" where
  "populateUses p t = do {
     si \<leftarrow> static t p;
     Some (t\<lparr>lastUses := fold (\<lambda>(k, r) u. u(flattenRegId r := Some (p, k))) (enumerate 0 (destRegIdx si)) (lastUses t)\<rparr>)
   }"

text \<open>The first loop of \<open>squashUpTo\<close> takes the instructions of the buffer from the youngest on; it remembers whether
  the last serializing instruction and the last barrier are still among the others.\<close>

primrec squash_loop :: "inst_id list \<Rightarrow> inst_id \<Rightarrow> inst_id option \<Rightarrow> inst_id option \<Rightarrow> bool \<Rightarrow> bool \<Rightarrow> thread
    \<Rightarrow> (bool \<times> bool \<times> thread) option" where
  "squash_loop [] p ser bar ser_ok bar_ok t = Some (ser_ok, bar_ok, t)"
| "squash_loop (q # qs) p ser bar ser_ok bar_ok t =
    (if q = p then Some (ser_ok, bar_ok, t)
     else do {
       t \<leftarrow> squash_inst q t;
       recordInstStats q t;
       squash_loop qs p ser bar (ser_ok \<and> ser \<noteq> Some q) (bar_ok \<and> bar \<noteq> Some q)
         (t\<lparr>inflightInsts := butlast (inflightInsts t)\<rparr>)
     })"

primrec rebuild_scan :: "cpu \<Rightarrow> inst_id list \<Rightarrow> bool \<Rightarrow> bool \<Rightarrow> thread \<Rightarrow> thread option" where
  "rebuild_scan c [] ser_ok bar_ok t = Some t"
| "rebuild_scan c (q # qs) ser_ok bar_ok t =
    (if ser_ok \<and> bar_ok then Some t
     else do {
       si \<leftarrow> static t q;
       let ser = (\<not> ser_ok \<and> (if strictSerialize c then isSerializing si else isSerializeAfter si));
       let bar = (\<not> bar_ok \<and> isMemBarrier si);
       rebuild_scan c qs (ser_ok \<or> ser) (bar_ok \<or> bar)
         (t\<lparr>lastSerializingInstruction := (if ser then Some q else lastSerializingInstruction t),
            lastMemBarrier := (if bar then Some q else lastMemBarrier t)\<rparr>)
     })"

definition lock :: "thread \<Rightarrow> inst_id option \<Rightarrow> inst_id option" where
  "lock t w = (case w of None \<Rightarrow> None | Some p \<Rightarrow> if alive t p then Some p else None)"

definition squashUpTo :: "cpu \<Rightarrow> inst_id \<Rightarrow> bool \<Rightarrow> thread \<Rightarrow> thread option" where
  "squashUpTo c p rebuild_lasts t = do {
     (ser_ok, bar_ok, t) \<leftarrow> squash_loop (rev (inflightInsts t)) p
       (lock t (lastSerializingInstruction t)) (lock t (lastMemBarrier t)) True True t;
     t \<leftarrow> (if rebuild_lasts then do {
             t \<leftarrow> fold_opt populateUses (inflightInsts t) t;
             rebuild_scan c (rev (inflightInsts t)) ser_ok bar_ok t
           } else Some t);
     Some (t\<lparr>decoder := decoder_reset, curMacroOp := None\<rparr>)
   }"

section \<open>Commit\<close>

definition canCommit :: "thread \<Rightarrow> inst_id \<Rightarrow> bool option" where
  "canCommit t p = (if holds isCommitted t p then Some False
     else if holds isComplete t p then Some True
     else if holds isMemorying t p then map_option isStore (static t p) else Some False)"

definition commit_reg :: "cpu \<Rightarrow> RegId \<Rightarrow> 64 word \<Rightarrow> thread_context \<Rightarrow> thread_context" where
  "commit_reg c r v tc = (case regClass r of
       MiscRegClass \<Rightarrow> tc\<lparr>tc_misc := setMiscReg c (regIdx r) v (tc_misc tc)\<rparr>
     | VecPredRegClass \<Rightarrow> tc
     | _ \<Rightarrow> tc\<lparr>tc_regs := (tc_regs tc)(r := v)\<rparr>)"

definition commitToTC :: "cpu \<Rightarrow> inst_data \<Rightarrow> StaticInst \<Rightarrow> thread_context \<Rightarrow> thread_context" where
  "commitToTC c d si tc =
     (let tc = fold (\<lambda>(k, r). commit_reg c r (results d ! k)) (enumerate 0 (destRegIdx si)) tc;
          tc = tc\<lparr>tc_pc := advancePC si (pcState d)\<rparr> in
      fold (\<lambda>(k, v) tc. tc\<lparr>tc_misc := setMiscReg c k v (tc_misc tc)\<rparr>) (miscResults d) tc)"

definition commitInstruction :: "cpu \<Rightarrow> inst_id \<Rightarrow> thread \<Rightarrow> thread option" where
  "commitInstruction c p t = do {
     si \<leftarrow> static t p;
     let d = info t p;
     let t = t\<lparr>committedState := commitToTC c d si (committedState t)\<rparr>;
     let t = (if hasBranchPredictor c \<and> isControl si
              then t\<lparr>predictor_calls := predictor_calls t @ [Update (issueSeqNum d)]\<rparr> else t);
     let t = (if \<not> isMicroop si \<or> isLastMicroop si then t\<lparr>numInsts := numInsts t + 1\<rparr> else t);
     Some (t\<lparr>numOps := numOps t + 1, lastCommittedInstNum := seqNum d,
             trace := trace t @ [\<lparr>tr_seq = seqNum d, tr_issue = issueSeqNum d, tr_pc = pcState d, tr_inst = si\<rparr>]\<rparr>)
   }"

definition handleFault :: "cpu \<Rightarrow> inst_id \<Rightarrow> thread \<Rightarrow> thread option" where
  "handleFault c p t = (case inst_fault (info t p) of None \<Rightarrow> None
     | Some f \<Rightarrow>
        let t = bufferInstructionData 0 [] (t\<lparr>inflightInsts := []\<rparr>);
            t = t\<lparr>committedState := fault_invoke c f (static t p) (committedState t)\<rparr> in
        do { next_pc \<leftarrow> getNextPC t; advanceInst c next_pc t })"

definition commit_end :: "cpu \<Rightarrow> bool \<Rightarrow> thread \<Rightarrow> thread option" where
  "commit_end c buffer_shrunk t =
    (if buffer_shrunk \<and> advanceInstNeedsRetry t then advanceInst c (advanceInstRetryPC t) t else Some t)"

text \<open>One turn of the loop of \<open>commitAllAvailableInstructions\<close>, up to the callbacks of \<open>notifyCommitted\<close>, and what
  follows them.\<close>

definition commit_loop :: "cpu \<Rightarrow> bool \<Rightarrow> thread \<Rightarrow> thread option" where
  "commit_loop c buffer_shrunk t = (case inflightInsts t of [] \<Rightarrow> commit_end c buffer_shrunk t
     | p # ps \<Rightarrow> do {
         ok \<leftarrow> canCommit t p;
         if ok \<or> holds i_squashed t p then
           if inst_fault (info t p) \<noteq> None then handleFault c p t
           else if holds i_squashed t p then do {
             recordInstStats p t;
             Some (call (CommitLoop True) (t\<lparr>inflightInsts := ps\<rparr>))
           } else do {
             t \<leftarrow> commitInstruction c p t;
             Some (on_sys (notifyCommitted (curTick t) p) (call (CommitRest p) t))
           }
         else commit_end c buffer_shrunk t
       })"

definition commit_rest :: "thread \<Rightarrow> thread option" where
  "commit_rest t = (case inflightInsts t of [] \<Rightarrow> None
     | p # ps \<Rightarrow> do { recordInstStats p t; Some (call (CommitLoop True) (t\<lparr>inflightInsts := ps\<rparr>)) })"

definition commitAllAvailableInstructions :: "thread \<Rightarrow> thread" where
  "commitAllAvailableInstructions = call (CommitLoop False)"

definition markFault :: "cpu \<Rightarrow> inst_id \<Rightarrow> fault \<Rightarrow> thread \<Rightarrow> thread option" where
  "markFault c p f t = do {
     t \<leftarrow> squashUpTo c p False (set_info p (inst_fault_update (\<lambda>_. Some f)) t);
     t \<leftarrow> squash_inst p t;
     Some (commitAllAvailableInstructions (t\<lparr>advanceInstNeedsRetry := False\<rparr>))
   }"

section \<open>Execution\<close>

definition executeInstruction_begin :: "inst_id \<Rightarrow> thread \<Rightarrow> thread option" where
  "executeInstruction_begin p t = do {
     c_assert (holds isReady t p);
     si \<leftarrow> static t p;
     Some (on_sys (notifyExecuting (curTick t) p) (call (ExecuteRest p) t))
   }"

definition executeInstruction_rest :: "inst_id \<Rightarrow> thread \<Rightarrow> thread" where
  "executeInstruction_rest p t = on_sys (notifyExecuting (curTick t) p) (request (Execution p) t)"

definition executeInstruction_weak :: "inst_id \<Rightarrow> thread \<Rightarrow> thread option" where
  "executeInstruction_weak p t = (if live t p then executeInstruction_begin p t else Some t)"

definition onExecutionCompleted :: "cpu \<Rightarrow> inst_id \<Rightarrow> fault option \<Rightarrow> thread \<Rightarrow> thread option" where
  "onExecutionCompleted c p fault t = (case fault of Some f \<Rightarrow> markFault c p f t
     | None \<Rightarrow> Some (on_sys (notifyComplete (curTick t) p) (call (CompletedRest p) t)))"

definition onExecutionCompleted_weak :: "cpu \<Rightarrow> inst_id \<Rightarrow> fault option \<Rightarrow> thread \<Rightarrow> thread option" where
  "onExecutionCompleted_weak c p fault t = (if live t p then onExecutionCompleted c p fault t else Some t)"

definition following :: "inst_id \<Rightarrow> inst_id list \<Rightarrow> inst_id option" where
  "following p B = (case dropWhile (\<lambda>q. q \<noteq> p) B of _ # q # _ \<Rightarrow> Some q | _ \<Rightarrow> None)"

text \<open>A control instruction has been resolved: the continuation of \<open>onExecutionCompleted\<close> compares the prediction
  that was made, if any, with the computed program counter.\<close>

definition resolve_branch :: "cpu \<Rightarrow> inst_id \<Rightarrow> StaticInst \<Rightarrow> thread \<Rightarrow> thread option" where
  "resolve_branch c p si t =
    (if hasBranchPredictor c then
       if p \<notin> set (inflightInsts t) then None
       else
         let following_inst = following p (inflightInsts t) in
         if following_inst \<noteq> None \<or> advanceInstNeedsRetry t then do {
           t \<leftarrow> freeBranchPredDepth t;
           let calculatedPC = pcState (info t p);
           let correctPC = advancePC si calculatedPC;
           let predictedPC = (case following_inst of Some q \<Rightarrow> pcState (info t q) | None \<Rightarrow> advanceInstRetryPC t);
           if s_pc correctPC = s_pc predictedPC \<and> s_upc correctPC = s_upc predictedPC then Some t
           else do {
             t \<leftarrow> squashUpTo c p True t;
             advanceInst c correctPC (t\<lparr>predictor_calls := predictor_calls t @
               [SquashBranch (issueSeqNum (info t p)) correctPC (branching calculatedPC)]\<rparr>)
           }
         }
         else do { next_pc \<leftarrow> getNextPC t; advanceInst c next_pc t }
     else do { next_pc \<leftarrow> getNextPC t; advanceInst c next_pc t })"

definition completed_rest :: "cpu \<Rightarrow> inst_id \<Rightarrow> thread \<Rightarrow> thread option" where
  "completed_rest c p t = do {
     si \<leftarrow> static t p;
     t \<leftarrow> (if isControl si then resolve_branch c p si t else Some t);
     Some (commitAllAvailableInstructions t)
   }"

definition onBranchPredictorAccessed :: "cpu \<Rightarrow> inst_id \<Rightarrow> bool \<Rightarrow> PCState \<Rightarrow> thread \<Rightarrow> thread option" where
  "onBranchPredictorAccessed c p taken predicted t =
    (if \<not> alive t p \<or> holds isCommitted t p \<or> holds i_squashed t p \<or> holds isComplete t p then freeBranchPredDepth t
     else do {
       si \<leftarrow> static t p;
       if isDirectCtrl si \<and> isUncondCtrl si then
         if \<not> taken \<or> branchTarget c si (pcState (info t p)) \<noteq> predicted then freeBranchPredDepth t
         else advanceInst c predicted (on_sys (addSquashCallback p (FreeUnlessComplete p)) t)
       else if (isCall si \<or> isReturn si) \<and> \<not> taken then freeBranchPredDepth t
       else advanceInst c predicted (on_sys (addSquashCallback p (FreeUnlessComplete p)) t)
     })"

section \<open>Memory\<close>

definition sendToMemory :: "cpu \<Rightarrow> inst_id \<Rightarrow> mem_args \<Rightarrow> thread \<Rightarrow> thread option" where
  "sendToMemory c p a t =
    (let t = on_sys (notifyMemorying (curTick t) p) t in
     if ma_write a then do {
       si \<leftarrow> static t p;
       let (f, rs, vs) = completeAcc c si a (info t p);
       let t = set_info p (\<lambda>d. d\<lparr>results := rs, resultValid := vs\<rparr>) t;
       case f of
         Some flt \<Rightarrow> markFault c p flt t
       | None \<Rightarrow> do {
           c_assert (case ma_split a of None \<Rightarrow> True | Some k \<Rightarrow> k < length (splitRequests t)
             \<and> split_low (splitRequests t ! k) \<noteq> None \<and> split_high (splitRequests t ! k) \<noteq> None);
           Some (commitAllAvailableInstructions (request (MemAccess p a) t))
         }
     } else do {
       c_assert (case ma_split a of None \<Rightarrow> True | Some k \<Rightarrow> k < length (splitRequests t)
         \<and> split_low (splitRequests t ! k) \<noteq> None \<and> split_high (splitRequests t ! k) \<noteq> None);
       Some (request (MemAccess p a) t)
     })"

definition sendToMemory_weak :: "cpu \<Rightarrow> inst_id \<Rightarrow> mem_args \<Rightarrow> thread \<Rightarrow> thread option" where
  "sendToMemory_weak c p a t = (if live t p then sendToMemory c p a t else Some t)"

definition set_range :: "(addr_range \<Rightarrow> frame inflight_inst \<Rightarrow> frame inflight_inst option) \<Rightarrow> Request \<Rightarrow> inst_id \<Rightarrow> thread
    \<Rightarrow> thread option" where
  "set_range f req p t = do {
     a \<leftarrow> r_paddr req;
     i \<leftarrow> store (sys t) p;
     i \<leftarrow> f \<lparr>range_start = a, range_end = a + of_nat (r_size req) - 1\<rparr> i;
     Some (on_sys (act p (\<lambda>_. i) (\<lambda>_. [])) t)
   }"

definition onDataAddrTranslated :: "cpu \<Rightarrow> inst_id \<Rightarrow> fault option \<Rightarrow> Request \<Rightarrow> mem_args \<Rightarrow> bool \<Rightarrow> thread \<Rightarrow> thread option" where
  "onDataAddrTranslated c p fault req a high t =
    (if \<not> live t p then Some t
     else case fault of Some f \<Rightarrow> markFault c p f t
     | None \<Rightarrow>
        (case ma_split a of
           Some k \<Rightarrow> do {
             c_assert (k < length (splitRequests t));
             let sr = splitRequests t ! k;
             let sr = (if high then sr\<lparr>split_high := Some req\<rparr> else sr\<lparr>split_low := Some req\<rparr>);
             let t = t\<lparr>splitRequests := (splitRequests t)[k := sr]\<rparr>;
             t \<leftarrow> set_range (if high then effPAddrRangeHigh else effPAddrRange) req p t;
             if split_high sr = None \<or> split_low sr = None then Some t
             else Some (on_sys (notifyEffAddrCalculated (curTick t) p) (call (EffAddrRest p (a\<lparr>ma_req := req\<rparr>)) t))
           }
         | None \<Rightarrow> do {
             t \<leftarrow> set_range effPAddrRange req p t;
             Some (on_sys (notifyEffAddrCalculated (curTick t) p) (call (EffAddrRest p (a\<lparr>ma_req := req\<rparr>)) t))
           }))"

definition eff_addr_rest :: "cpu \<Rightarrow> inst_id \<Rightarrow> mem_args \<Rightarrow> thread \<Rightarrow> thread option" where
  "eff_addr_rest c p a t = (if holds isMemReady t p then sendToMemory c p a t
     else Some (on_sys (addMemReadyCallback p (SendToMemory p a)) t))"

definition roundDown :: "Addr \<Rightarrow> Addr \<Rightarrow> Addr" where
  "roundDown val align = val AND NOT (align - 1)"

definition splitOnVaddr :: "Request \<Rightarrow> Addr \<Rightarrow> (Request \<times> Request) option" where
  "splitOnVaddr req split_addr = do {
     c_assert (r_paddr req = None \<and> split_addr > r_vaddr req \<and> split_addr < r_vaddr req + of_nat (r_size req));
     let n = unat (split_addr - r_vaddr req);
     Some (req\<lparr>r_size := n, r_byteEnable := (if r_byteEnable req = [] then [] else take n (r_byteEnable req))\<rparr>,
           req\<lparr>r_vaddr := split_addr, r_size := r_size req - n,
               r_byteEnable := (if r_byteEnable req = [] then [] else drop n (r_byteEnable req))\<rparr>)
   }"

text \<open>\<open>MemIface::initiateMemRead\<close> and \<open>MemIface::writeMem\<close>: an access that crosses a cache line is split in two.\<close>

definition access_memory :: "cpu \<Rightarrow> inst_id \<Rightarrow> Request \<Rightarrow> bool \<Rightarrow> byte list \<Rightarrow> thread \<Rightarrow> thread option" where
  "access_memory c p req write data t =
    (let split_addr = roundDown (r_vaddr req + of_nat (r_size req) - 1) (cacheLineSize c) in
     if split_addr > r_vaddr req then do {
       c_assert (\<not> (r_isLLSC req \<or> r_isMmappedIpr req));
       let t = on_sys (act p (isSplitMemReq_update (\<lambda>_. True)) (\<lambda>_. [])) t;
       (req1, req2) \<leftarrow> splitOnVaddr req split_addr;
       let a = \<lparr>ma_req = req, ma_write = write, ma_data = data, ma_split = Some (length (splitRequests t))\<rparr>;
       let t = t\<lparr>splitRequests := splitRequests t @ [\<lparr>split_main = req, split_low = None, split_high = None\<rparr>]\<rparr>;
       Some (request (DataAddrTranslation p req2 a True) (request (DataAddrTranslation p req1 a False) t))
     }
     else Some (request (DataAddrTranslation p req \<lparr>ma_req = req, ma_write = write, ma_data = data, ma_split = None\<rparr> False) t))"

definition initiateMemRead :: "cpu \<Rightarrow> inst_id \<Rightarrow> Request \<Rightarrow> thread \<Rightarrow> thread option" where
  "initiateMemRead c p req t = access_memory c p req False [] t"

definition writeMem :: "cpu \<Rightarrow> inst_id \<Rightarrow> byte list \<Rightarrow> Request \<Rightarrow> 64 word option \<Rightarrow> thread \<Rightarrow> thread option" where
  "writeMem c p data req res t =
    (if roundDown (r_vaddr req + of_nat (r_size req) - 1) (cacheLineSize c) > r_vaddr req \<or> \<not> r_isCondSwap req
     then access_memory c p req True (take (r_size req) data) t
     else do { v \<leftarrow> res; access_memory c p (req\<lparr>r_extraData := Some v\<rparr>) True (take (r_size req) data) t })"

section \<open>Dependencies\<close>

text \<open>The rules of \<open>populateDependencies\<close>, each a function of its own. \<open>previous\<close> is the instruction before the last
  one of the buffer, where the source writes \<open>*(++inflightInsts.rbegin())\<close>.\<close>

definition previous :: "thread \<Rightarrow> inst_id option" where
  "previous t = (if 1 < length (inflightInsts t) then Some (last (butlast (inflightInsts t))) else None)"

definition dep_in_order :: "cpu \<Rightarrow> inst_id \<Rightarrow> thread \<Rightarrow> thread" where
  "dep_in_order c p t = (case previous t of None \<Rightarrow> t
     | Some q \<Rightarrow>
        let t = (if inOrderExecute c \<and> \<not> (holds isComplete t q \<or> holds i_squashed t q)
                 then on_sys (addDependency p q) t else t) in
        if inOrderBeginExecute c \<and> \<not> (holds isExecuting t q \<or> holds i_squashed t q)
        then on_sys (addBeginExecDependency p q) t else t)"

definition dep_serialize :: "cpu \<Rightarrow> inst_id \<Rightarrow> StaticInst \<Rightarrow> thread \<Rightarrow> thread" where
  "dep_serialize c p si t =
    (let t = (case lock t (lastSerializingInstruction t) of
                Some q \<Rightarrow> if \<not> (holds isCommitted t q \<or> holds i_squashed t q) then on_sys (addCommitDependency p q) t else t
              | None \<Rightarrow> t) in
     if strictSerialize c then
       (case previous t of
          Some q \<Rightarrow> if isSerializing si then
              (if \<not> (holds isCommitted t q \<or> holds i_squashed t q) then on_sys (addCommitDependency p q) t else t)
                \<lparr>lastSerializingInstruction := Some p\<rparr>
            else t
        | None \<Rightarrow> t)
     else
       let t = (case previous t of
                  Some q \<Rightarrow> if isSerializeBefore si then on_sys (addCommitDependency p q) t else t
                | None \<Rightarrow> t) in
       if isSerializeAfter si then t\<lparr>lastSerializingInstruction := Some p\<rparr> else t)"

definition barrier_waits :: "inst_id \<Rightarrow> StaticInst \<Rightarrow> inst_id \<Rightarrow> thread \<Rightarrow> thread option" where
  "barrier_waits p si q t =
    (if q = p \<or> holds isComplete t q \<or> holds i_squashed t q then Some t
     else do {
       other_si \<leftarrow> static t q;
       Some (if isMemBarrier other_si \<or> isMemRef other_si
             then on_sys (if isMemRef si then addMemDependency p q else addDependency p q) t else t)
     })"

definition dep_barrier :: "inst_id \<Rightarrow> StaticInst \<Rightarrow> thread \<Rightarrow> thread option" where
  "dep_barrier p si t =
    (let t = (if isMemRef si then (case lock t (lastMemBarrier t) of Some q \<Rightarrow> on_sys (addMemDependency p q) t | None \<Rightarrow> t) else t) in
     if isMemBarrier si then fold_opt (barrier_waits p si) (rev (inflightInsts t)) (t\<lparr>lastMemBarrier := Some p\<rparr>)
     else Some t)"

definition dep_non_speculative :: "inst_id \<Rightarrow> StaticInst \<Rightarrow> thread \<Rightarrow> thread" where
  "dep_non_speculative p si t = (case previous t of
       Some q \<Rightarrow> if isNonSpeculative si \<and> \<not> (holds isCommitted t q \<or> holds i_squashed t q)
         then on_sys (addCommitDependency p q) t else t
     | None \<Rightarrow> t)"

definition overlap_waits :: "inst_id \<Rightarrow> inst_id \<Rightarrow> thread \<Rightarrow> thread option" where
  "overlap_waits p q t = do {
     other_si \<leftarrow> static t q;
     Some (if \<not> isStore other_si then t
       else if holds isEffAddred t q then on_sys (addEffAddrCalculatedCallback p (Client (OverlapKnown p q))) t
       else on_sys (addMemEffAddrDependency p q)
         (on_sys (addEffAddrCalculatedCallback q (Client (OverlapOther p q)))
           (on_sys (addEffAddrCalculatedCallback p (Client (OverlapInst p q))) t)))
   }"

definition dep_memory_order :: "inst_id \<Rightarrow> StaticInst \<Rightarrow> thread \<Rightarrow> thread option" where
  "dep_memory_order p si t =
    (if isMemRef si then fold_opt (overlap_waits p) (takeWhile (\<lambda>q. q \<noteq> p) (inflightInsts t)) t else Some t)"

definition dep_store_at_commit :: "inst_id \<Rightarrow> StaticInst \<Rightarrow> thread \<Rightarrow> thread" where
  "dep_store_at_commit p si t = (case previous t of
       Some q \<Rightarrow> if isStore si then on_sys (addMemCommitDependency p q) t else t
     | None \<Rightarrow> t)"

definition data_source :: "inst_id \<Rightarrow> nat \<times> RegId \<Rightarrow> thread \<Rightarrow> thread" where
  "data_source p kr t = (case kr of (k, r) \<Rightarrow>
     let src_reg = flattenRegId r in
     if isZeroReg src_reg then t
     else
       let last_use = lastUses t src_reg;
           t = (case last_use of Some (q, _) \<Rightarrow> if alive t q then on_sys (addDependency p q) t else t | None \<Rightarrow> t) in
       set_info p (\<lambda>d. d\<lparr>sources := (sources d)[k := last_use]\<rparr>) t)"

definition dep_data :: "inst_id \<Rightarrow> StaticInst \<Rightarrow> thread \<Rightarrow> thread" where
  "dep_data p si t = fold (data_source p) (enumerate 0 (srcRegIdx si)) t"

definition populateDependencies :: "cpu \<Rightarrow> inst_id \<Rightarrow> thread \<Rightarrow> thread option" where
  "populateDependencies c p t = do {
     let t = dep_in_order c p t;
     si \<leftarrow> static t p;
     t \<leftarrow> dep_barrier p si (dep_serialize c p si t);
     t \<leftarrow> dep_memory_order p si (dep_non_speculative p si t);
     Some (dep_data p si (dep_store_at_commit p si t))
   }"

text \<open>The callbacks by which a memory access learns the addresses of older stores.\<close>

definition overlap :: "inst_id \<Rightarrow> inst_id \<Rightarrow> thread \<Rightarrow> thread option" where
  "overlap p q t = do {
     i \<leftarrow> store (sys t) p;
     j \<leftarrow> store (sys t) q;
     b \<leftarrow> effAddrOverlap i j;
     Some (if b then on_sys (addMemDependency p q) t else t)
   }"

section \<open>Issue\<close>

definition onIssueAccessed :: "cpu \<Rightarrow> inst_id \<Rightarrow> thread \<Rightarrow> thread option" where
  "onIssueAccessed c p t =
    (if \<not> live t p then Some t
     else do {
       t \<leftarrow> populateDependencies c p
         ((set_info p (issueSeqNum_update (\<lambda>_. nextIssueNum t)) t)\<lparr>nextIssueNum := nextIssueNum t + 1\<rparr>);
       t \<leftarrow> populateUses p t;
       let t = request (IssueTid p) (on_sys (notifyIssued (curTick t) p) t);
       si \<leftarrow> static t p;
       let t = (if isLastMicroop si then t\<lparr>curMacroOp := None\<rparr> else t);
       b \<leftarrow> hasNextPC t;
       if b then do { next_pc \<leftarrow> getNextPC t; advanceInst c next_pc t }
       else if hasBranchPredictor c then
         if remainingBranchPredDepth t = 0 then Some (t\<lparr>unpredictedBranch := Some p\<rparr>)
         else Some (predictCtrlInst p (t\<lparr>remainingBranchPredDepth := remainingBranchPredDepth t - 1\<rparr>))
       else Some t
     })"

definition onIssueTidAccessed :: "inst_id \<Rightarrow> thread \<Rightarrow> thread option" where
  "onIssueTidAccessed p t =
    (if \<not> live t p then Some t
     else
       let t = on_sys (notifyIssuedTid (curTick t) p) t in
       if holds isReady t p then executeInstruction_begin p t
       else Some (on_sys (addReadyCallback p (ExecuteInstruction p)) t))"

definition onPCTranslated :: "cpu \<Rightarrow> inst_id \<Rightarrow> fault option \<Rightarrow> Addr \<Rightarrow> thread \<Rightarrow> thread option" where
  "onPCTranslated c p fault vaddr t =
    (if \<not> live t p then Some t
     else case fault of Some f \<Rightarrow> markFault c p f t | None \<Rightarrow> Some (request (InstructionData p vaddr) t))"

section \<open>The top of the stack\<close>

fun exec_frame :: "cpu \<Rightarrow> frame \<Rightarrow> thread \<Rightarrow> thread option" where
  "exec_frame c (ExecuteInstruction p) t = executeInstruction_weak p t"
| "exec_frame c (ExecuteRest p) t = Some (executeInstruction_rest p t)"
| "exec_frame c (SendToMemory p a) t = sendToMemory_weak c p a t"
| "exec_frame c (EffAddrRest p a) t = eff_addr_rest c p a t"
| "exec_frame c (CompletedRest p) t = completed_rest c p t"
| "exec_frame c (CommitLoop shrunk) t = commit_loop c shrunk t"
| "exec_frame c (CommitRest p) t = commit_rest t"
| "exec_frame c (OverlapKnown p q) t =
     (if \<not> alive t q \<or> holds i_squashed t q \<or> holds isComplete t q then Some t else overlap p q t)"
| "exec_frame c (OverlapInst p q) t =
     (if \<not> alive t q \<or> holds i_squashed t q \<or> holds isComplete t q \<or> \<not> holds isEffAddred t q then Some t else overlap p q t)"
| "exec_frame c (OverlapOther p q) t =
     (if \<not> live t p \<or> \<not> holds isEffAddred t p then Some t else overlap p q t)"
| "exec_frame c (PredictorSquash n) t = run_squash_callback (PredictorSquash n) t"
| "exec_frame c (FreeUnlessComplete p) t = run_squash_callback (FreeUnlessComplete p) t"

text \<open>\<open>exec\<close> pops the top of the stack and runs it; the releases of \<open>Flex_Inflight\<close> are run there.\<close>

definition exec :: "cpu \<Rightarrow> thread \<Rightarrow> thread option" where
  "exec c t = (case agenda (sys t) of [] \<Rightarrow> None
     | cb # cbs \<Rightarrow>
        let t = on_sys (agenda_update (\<lambda>_. cbs)) t in
        case cb of Release k p \<Rightarrow> Some (on_sys (release k p) t) | Client fr \<Rightarrow> exec_frame c fr t)"

section \<open>Events\<close>

datatype access = Read Request | Write Request "byte list" "64 word option"

text \<open>The results of an execution (\<open>StaticInst::execute\<close>, or \<open>initiateAcc\<close> and the access it asks for).\<close>

record outcome =
  out_fault :: "fault option"
  out_pc :: PCState
  out_results :: "64 word list"
  out_valid :: "bool list"
  out_misc :: "(nat \<times> 64 word) list"
  out_access :: "access option"

datatype event =
    SetStatus thread_status
  | Activate
  | Advance
  | PCTranslated inst_id Addr "fault option"
  | InstData inst_id Addr "byte list"
  | IssueGranted inst_id
  | IssueTidGranted inst_id
  | Predicted inst_id bool PCState
  | Executed inst_id outcome
  | DataTranslated inst_id Request mem_args bool "fault option" Addr
  | MemDone inst_id mem_args "fault option" "64 word list" "bool list"

definition status_event :: "thread_status \<Rightarrow> thread \<Rightarrow> thread" where
  "status_event st t = t\<lparr>committedState := (committedState t)\<lparr>tc_status := st\<rparr>\<rparr>"

definition activate :: "thread \<Rightarrow> thread" where
  "activate t = request ActivateEvent (status_event Active t)"

definition advance_next :: "cpu \<Rightarrow> thread \<Rightarrow> thread option" where
  "advance_next c t = do { next_pc \<leftarrow> getNextPC t; advanceInst c next_pc t }"

text \<open>The lambda of \<open>requestExecution\<close> and the callback given to it.\<close>

definition executed :: "cpu \<Rightarrow> inst_id \<Rightarrow> outcome \<Rightarrow> thread \<Rightarrow> thread option" where
  "executed c p out t =
    (if \<not> alive t p then Some t
     else do {
       si \<leftarrow> static t p;
       if isMemRef si then do {
         t \<leftarrow> (case out_access out of None \<Rightarrow> Some t
                | Some (Read req) \<Rightarrow> initiateMemRead c p req t
                | Some (Write req data res) \<Rightarrow> writeMem c p data req res t);
         if \<not> live t p then Some t else case out_fault out of None \<Rightarrow> Some t | Some f \<Rightarrow> markFault c p f t
       } else onExecutionCompleted_weak c p (out_fault out)
         (set_info p (\<lambda>d. d\<lparr>pcState := out_pc out, results := out_results out, resultValid := out_valid out,
            miscResults := out_misc out\<rparr>) t)
     })"

text \<open>\<open>completeMemAccess\<close>: the memory system has answered; a load now writes its registers.\<close>

definition completeMemAccess :: "cpu \<Rightarrow> inst_id \<Rightarrow> mem_args \<Rightarrow> fault option \<Rightarrow> 64 word list \<Rightarrow> bool list \<Rightarrow> thread \<Rightarrow> thread option" where
  "completeMemAccess c p a fault rs vs t = do {
     si \<leftarrow> static t p;
     let (f, t) = (if alive t p \<and> \<not> isStore si
       then (fault, set_info p (\<lambda>d. d\<lparr>results := rs, resultValid := vs\<rparr>) t) else (None, t));
     if ma_write a then onExecutionCompleted c p f t else onExecutionCompleted_weak c p f t
   }"

fun answered :: "event \<Rightarrow> cpu_request option" where
  "answered (SetStatus st) = None"
| "answered Activate = None"
| "answered Advance = Some ActivateEvent"
| "answered (PCTranslated p v f) = Some (InstAddrTranslation p v)"
| "answered (InstData p v bs) = Some (InstructionData p v)"
| "answered (IssueGranted p) = Some (Issue p)"
| "answered (IssueTidGranted p) = Some (IssueTid p)"
| "answered (Predicted p taken s) = Some (BranchPredictor p)"
| "answered (Executed p out) = Some (Execution p)"
| "answered (DataTranslated p req a high f pa) = Some (DataAddrTranslation p req a high)"
| "answered (MemDone p a f rs vs) = Some (MemAccess p a)"

definition answer :: "event \<Rightarrow> thread \<Rightarrow> thread" where
  "answer e t = (case answered e of None \<Rightarrow> t | Some r \<Rightarrow> t\<lparr>requests := remove1 r (requests t)\<rparr>)"

fun handle :: "cpu \<Rightarrow> event \<Rightarrow> thread \<Rightarrow> thread option" where
  "handle c (SetStatus st) t = Some (status_event st t)"
| "handle c Activate t = Some (activate t)"
| "handle c Advance t = advance_next c t"
| "handle c (PCTranslated p v f) t = onPCTranslated c p f v t"
| "handle c (InstData p v bs) t = attemptFetch_weak c p (bufferInstructionData v bs t)"
| "handle c (IssueGranted p) t = onIssueAccessed c p t"
| "handle c (IssueTidGranted p) t = onIssueTidAccessed p t"
| "handle c (Predicted p taken s) t = onBranchPredictorAccessed c p taken s t"
| "handle c (Executed p out) t = executed c p out t"
| "handle c (DataTranslated p req a high f pa) t = onDataAddrTranslated c p f (req\<lparr>r_paddr := Some pa\<rparr>) a high t"
| "handle c (MemDone p a f rs vs) t = completeMemAccess c p a f rs vs t"

section \<open>Operands\<close>

definition readIntRegOperand :: "inst_id \<Rightarrow> StaticInst \<Rightarrow> nat \<Rightarrow> thread \<Rightarrow> 64 word option" where
  "readIntRegOperand p si op_idx t = do {
     let reg_id = srcRegIdx si ! op_idx;
     c_assert (regClass reg_id = IntRegClass);
     if isZeroReg reg_id then Some 0
     else case sources (info t p) ! op_idx of
       Some (q, k) \<Rightarrow>
         if alive t q then do {
           c_assert (holds isComplete t q);
           c_assert (k < length (results (info t q)) \<and> resultValid (info t q) ! k);
           Some (results (info t q) ! k)
         } else Some (tc_regs (committedState t) reg_id)
     | None \<Rightarrow> Some (tc_regs (committedState t) reg_id)
   }"

definition setIntRegOperand :: "StaticInst \<Rightarrow> nat \<Rightarrow> 64 word \<Rightarrow> inst_data \<Rightarrow> inst_data option" where
  "setIntRegOperand si dst_idx val d = do {
     c_assert (regClass (destRegIdx si ! dst_idx) = IntRegClass);
     Some (d\<lparr>results := (results d)[dst_idx := (if isZeroReg (destRegIdx si ! dst_idx) then 0 else val)],
             resultValid := (resultValid d)[dst_idx := True]\<rparr>)
   }"

section \<open>Steps\<close>

text \<open>What the rest of the system owes the thread: an answer belongs to a request; a thread that is woken up has an
  empty buffer; an instruction is executed once, executing it keeps its address, and only a control
  instruction chooses where to go next.\<close>

fun permitted_event :: "event \<Rightarrow> thread \<Rightarrow> bool" where
  "permitted_event (SetStatus st) t \<longleftrightarrow> st \<noteq> Active"
| "permitted_event Activate t \<longleftrightarrow> inflightInsts t = [] \<and> tc_status (committedState t) \<noteq> Active \<and> ActivateEvent \<notin> set (requests t)"
| "permitted_event (Executed p out) t \<longleftrightarrow> Execution p \<in> set (requests t)
     \<and> (live t p \<longrightarrow> \<not> holds isComplete t p) \<and> location (out_pc out) = location (pcState (info t p))
     \<and> (case static t p of None \<Rightarrow> True | Some si \<Rightarrow> isControl si
         \<or> location (advancePC si (out_pc out)) = location (advancePC si (pcState (info t p))))"
| "permitted_event e t \<longleftrightarrow> (case answered e of None \<Rightarrow> True | Some r \<Rightarrow> r \<in> set (requests t))"

text \<open>Instructions that a continuation on the stack keeps alive.\<close>

fun holder :: "frame callback \<Rightarrow> inst_id option" where
  "holder (Client (ExecuteRest p)) = Some p"
| "holder (Client (EffAddrRest p a)) = Some p"
| "holder (Client (CompletedRest p)) = Some p"
| "holder (Client (CommitRest p)) = Some p"
| "holder _ = None"

text \<open>The contract of the in-flight instructions (\<open>permitted\<close> of \<open>Flex_Inflight\<close>): a status is not taken back. The one
  exception the code makes is a store, which is committed when it is sent and completes later.\<close>

definition forward :: "thread \<Rightarrow> thread \<Rightarrow> bool" where
  "forward t t' \<longleftrightarrow> (\<forall>p i i'. store (sys t) p = Some i \<longrightarrow> store (sys t') p = Some i' \<longrightarrow> i_status i \<le> i_status i'
     \<or> i_status i = Committed \<and> i_status i' = Complete \<and> (\<exists>si. static t p = Some si \<and> isStore si))"

inductive tstep :: "cpu \<Rightarrow> thread \<Rightarrow> thread \<Rightarrow> bool" for c where
  call_top: "exec c t = Some t' \<Longrightarrow> forward t t' \<Longrightarrow> tstep c t t'"
| event: "agenda (sys t) = [] \<Longrightarrow> permitted_event e t \<Longrightarrow> handle c e (answer e (t\<lparr>curTick := now\<rparr>)) = Some t'
    \<Longrightarrow> forward t t' \<Longrightarrow> tstep c t t'"
| reap: "p \<notin> set (inflightInsts t) \<Longrightarrow> list_all (\<lambda>cb. holder cb \<noteq> Some p) (agenda (sys t)) \<Longrightarrow> tstep c t (on_sys (destroy p) t)"

inductive_cases tstepE: "tstep c t t'"

definition reachable :: "cpu \<Rightarrow> thread \<Rightarrow> bool" where
  "reachable c t \<longleftrightarrow> (\<exists>tc t0. new_thread c tc = Some t0 \<and> (tstep c)\<^sup>*\<^sup>* t0 t)"

end
