(* ===== verification/Flex_Buffer.thy ===== *)
theory Flex_Buffer
  imports Flex_Thread
begin

text \<open>
  The instruction buffer of a FlexCPU thread as an abstract state, and its invariant.

  \<open>core\<close> forgets what does not decide the order of instructions: counters, callbacks, registers, the fetch
  buffer, and of the status only the phase (fetched, issued, complete, committed). The invariant relates the buffer to the stack of calls, to the requests
  that are under way and to the committed program counter. It is a conjunction of named parts,
  and each elementary change of the abstract state has the lemmas that say which parts it keeps.
\<close>

datatype phase = Fetching | Pending | Done | Retired

definition phase_of :: "Status \<Rightarrow> phase" where
  "phase_of s = (if s < Issued then Fetching else if s < Complete then Pending else if s = Complete then Done else Retired)"

record buffer =
  b_next :: inst_id
  b_stat :: "inst_id \<Rightarrow> (phase \<times> bool) option"
  b_insts :: "inst_id list"
  b_committed :: "64 word"
  b_seq :: "inst_id \<Rightarrow> 64 word"
  b_pc :: "inst_id \<Rightarrow> PCState"
  b_static :: "inst_id \<Rightarrow> StaticInst option"
  b_fault :: "inst_id \<Rightarrow> fault option"
  b_stack :: "frame callback list"
  b_reqs :: "cpu_request list"
  b_active :: bool
  b_tcpc :: PCState
  b_retry :: bool
  b_retryPC :: PCState
  b_unpred :: "inst_id option"
  b_ser :: "inst_id option"
  b_bar :: "inst_id option"
  b_uses :: "RegId \<Rightarrow> DataSource"

definition stat_of :: "frame inflight_inst option \<Rightarrow> (phase \<times> bool) option" where
  "stat_of i = map_option (\<lambda>i. (phase_of (i_status i), i_squashed i)) i"

definition core :: "thread \<Rightarrow> buffer" where
  "core t = \<lparr>b_next = next_id (sys t), b_stat = (\<lambda>p. stat_of (store (sys t) p)), b_insts = inflightInsts t,
     b_committed = lastCommittedInstNum t, b_seq = (\<lambda>p. seqNum (info t p)), b_pc = (\<lambda>p. pcState (info t p)),
     b_static = (\<lambda>p. staticInst (info t p)), b_fault = (\<lambda>p. inst_fault (info t p)),
     b_stack = agenda (sys t), b_reqs = requests t, b_active = (tc_status (committedState t) = Active),
     b_tcpc = tc_pc (committedState t), b_retry = advanceInstNeedsRetry t, b_retryPC = advanceInstRetryPC t,
     b_unpred = unpredictedBranch t, b_ser = lastSerializingInstruction t, b_bar = lastMemBarrier t, b_uses = lastUses t\<rparr>"

section \<open>Predicates\<close>

definition plain :: "StaticInst \<Rightarrow> bool" where
  "plain si \<longleftrightarrow> (isControl si \<longrightarrow> \<not> isMemRef si \<and> \<not> isStore si \<and> \<not> isMemBarrier si)"

definition b_ctl :: "buffer \<Rightarrow> inst_id \<Rightarrow> bool" where
  "b_ctl k p \<longleftrightarrow> (case b_static k p of None \<Rightarrow> False | Some si \<Rightarrow> isControl si)"

definition b_at :: "(phase \<Rightarrow> bool) \<Rightarrow> buffer \<Rightarrow> inst_id \<Rightarrow> bool" where
  "b_at P k p \<longleftrightarrow> (case b_stat k p of None \<Rightarrow> False | Some (s, _) \<Rightarrow> P s)"

definition b_live :: "buffer \<Rightarrow> inst_id \<Rightarrow> bool" where
  "b_live k p \<longleftrightarrow> (case b_stat k p of None \<Rightarrow> False | Some (_, q) \<Rightarrow> \<not> q)"

definition b_alive :: "buffer \<Rightarrow> inst_id \<Rightarrow> bool" where
  "b_alive k p \<longleftrightarrow> b_stat k p \<noteq> None"

abbreviation b_issued :: "buffer \<Rightarrow> inst_id \<Rightarrow> bool" where
  "b_issued \<equiv> b_at (\<lambda>s. s \<noteq> Fetching)"

abbreviation b_complete :: "buffer \<Rightarrow> inst_id \<Rightarrow> bool" where
  "b_complete \<equiv> b_at (\<lambda>s. s = Done \<or> s = Retired)"

definition b_succ :: "buffer \<Rightarrow> inst_id \<Rightarrow> PCState" where
  "b_succ k p = advancePC (the (b_static k p)) (b_pc k p)"

definition unresolved :: "buffer \<Rightarrow> inst_id \<Rightarrow> bool" where
  "unresolved k p \<longleftrightarrow> \<not> b_complete k p \<or> Client (CompletedRest p) \<in> set (b_stack k)"

definition window :: "buffer \<Rightarrow> inst_id \<Rightarrow> bool" where
  "window k p \<longleftrightarrow> Client (CommitRest p) \<in> set (b_stack k)"

text \<open>\<open>s\<close> may be the program counter of the instruction after \<open>p\<close>: it is the successor of \<open>p\<close>, unless \<open>p\<close> is a branch
  that has not been resolved and there is a predictor.\<close>

definition allowed :: "cpu \<Rightarrow> buffer \<Rightarrow> inst_id \<Rightarrow> PCState \<Rightarrow> bool" where
  "allowed c k p s \<longleftrightarrow> (if b_ctl k p \<and> unresolved k p then hasBranchPredictor c else location s = location (b_succ k p))"

definition extends :: "cpu \<Rightarrow> buffer \<Rightarrow> PCState \<Rightarrow> bool" where
  "extends c k s \<longleftrightarrow> (if b_insts k = [] then location s = location (b_tcpc k)
     else b_live k (last (b_insts k)) \<and> b_issued k (last (b_insts k)) \<and> allowed c k (last (b_insts k)) s
       \<and> (BranchPredictor (last (b_insts k)) \<in> set (b_reqs k) \<longrightarrow> b_complete k (last (b_insts k))))"

section \<open>The stack\<close>

text \<open>What may run while \<open>p\<close> is between its commit and its removal, and what may run before a branch is resolved.\<close>

fun above :: "inst_id \<Rightarrow> frame callback \<Rightarrow> bool" where
  "above p (Release k q) \<longleftrightarrow> p < q"
| "above p (Client (ExecuteInstruction q)) \<longleftrightarrow> p < q"
| "above p (Client (ExecuteRest q)) \<longleftrightarrow> p < q"
| "above p (Client (SendToMemory q a)) \<longleftrightarrow> p < q"
| "above p (Client (CommitLoop shrunk)) \<longleftrightarrow> \<not> shrunk"
| "above p _ \<longleftrightarrow> False"

fun exec_like :: "frame callback \<Rightarrow> bool" where
  "exec_like (Release k q) \<longleftrightarrow> k = Exec"
| "exec_like (Client (ExecuteInstruction q)) \<longleftrightarrow> True"
| "exec_like (Client (ExecuteRest q)) \<longleftrightarrow> True"
| "exec_like _ \<longleftrightarrow> False"

primrec stack_ok :: "(inst_id \<Rightarrow> bool) \<Rightarrow> frame callback list \<Rightarrow> bool" where
  "stack_ok ctl [] \<longleftrightarrow> True"
| "stack_ok ctl (cb # cbs) \<longleftrightarrow> stack_ok ctl cbs
     \<and> (\<forall>p. Client (CommitRest p) \<in> set cbs \<longrightarrow> above p cb)
     \<and> (\<forall>p. Client (CompletedRest p) \<in> set cbs \<longrightarrow> ctl p \<longrightarrow> exec_like cb)
     \<and> (\<forall>p. cb = Client (CompletedRest p) \<longrightarrow> cbs = [])"

text \<open>The issued instruction that a frame or a request is about.\<close>

fun frame_inst :: "frame callback \<Rightarrow> inst_id option" where
  "frame_inst (Client (ExecuteInstruction p)) = Some p"
| "frame_inst (Client (ExecuteRest p)) = Some p"
| "frame_inst (Client (SendToMemory p a)) = Some p"
| "frame_inst (Client (EffAddrRest p a)) = Some p"
| "frame_inst (Client (CompletedRest p)) = Some p"
| "frame_inst (Client (CommitRest p)) = Some p"
| "frame_inst _ = None"

fun request_inst :: "cpu_request \<Rightarrow> inst_id option" where
  "request_inst (IssueTid p) = Some p"
| "request_inst (Execution p) = Some p"
| "request_inst (DataAddrTranslation p r a h) = Some p"
| "request_inst (MemAccess p a) = Some p"
| "request_inst (BranchPredictor p) = Some p"
| "request_inst _ = None"

definition was_issued :: "buffer \<Rightarrow> inst_id \<Rightarrow> bool" where
  "was_issued k p \<longleftrightarrow> p < b_next k \<and> (b_alive k p \<longrightarrow> b_issued k p)"

section \<open>The invariant\<close>

definition inv_ids :: "buffer \<Rightarrow> bool" where
  "inv_ids k \<longleftrightarrow> sorted_wrt (<) (b_insts k) \<and> (\<forall>p. b_alive k p \<longrightarrow> p < b_next k) \<and> (\<forall>p\<in>set (b_insts k). b_alive k p)"

definition inv_static :: "buffer \<Rightarrow> bool" where
  "inv_static k \<longleftrightarrow> (\<forall>p si. b_static k p = Some si \<longrightarrow> plain si) \<and> (\<forall>p. b_issued k p \<longrightarrow> b_static k p \<noteq> None)"

definition inv_stack :: "buffer \<Rightarrow> bool" where
  "inv_stack k \<longleftrightarrow> stack_ok (b_ctl k) (b_stack k)
     \<and> (\<forall>cb p. cb \<in> set (b_stack k) \<longrightarrow> frame_inst cb = Some p \<longrightarrow> was_issued k p)
     \<and> (\<forall>p. Client (CompletedRest p) \<in> set (b_stack k) \<longrightarrow> b_ctl k p \<longrightarrow> p \<in> set (b_insts k) \<and> b_live k p \<and> b_complete k p)
     \<and> (\<forall>p. window k p \<longrightarrow> b_insts k = [] \<or> hd (b_insts k) = p \<and> b_stat k p = Some (Retired, False)
          \<and> location (b_tcpc k) = location (b_succ k p))
     \<and> (\<forall>p\<in>set (b_insts k). b_at (\<lambda>s. s = Retired) k p \<longrightarrow> window k p)"

definition inv_seq :: "buffer \<Rightarrow> bool" where
  "inv_seq k \<longleftrightarrow> map (b_seq k) (b_insts k)
     = map (\<lambda>i. b_committed k + (if \<exists>p. window k p then 0 else 1) + of_nat i) [0..<length (b_insts k)]"

definition inv_issue :: "buffer \<Rightarrow> bool" where
  "inv_issue k \<longleftrightarrow> (\<forall>p. b_live k p \<longrightarrow> \<not> b_issued k p \<longrightarrow> b_insts k \<noteq> [] \<and> p = last (b_insts k) \<and> b_next k = Suc p)
     \<and> (\<forall>p\<in>set (b_insts k). \<not> b_live k p \<longrightarrow> p = last (b_insts k) \<and> b_fault k p \<noteq> None)
     \<and> (\<forall>p\<in>set (b_insts k). b_fault k p \<noteq> None \<longrightarrow> \<not> b_live k p)
     \<and> (\<forall>p. b_live k p \<longrightarrow> p \<notin> set (b_insts k) \<longrightarrow> b_at (\<lambda>s. s = Retired) k p
          \<or> b_at (\<lambda>s. s = Done) k p \<and> (\<exists>si. b_static k p = Some si \<and> isStore si))"

fun fetch_request :: "inst_id \<Rightarrow> cpu_request \<Rightarrow> bool" where
  "fetch_request p (InstAddrTranslation q a) \<longleftrightarrow> q = p"
| "fetch_request p (InstructionData q a) \<longleftrightarrow> q = p"
| "fetch_request p (Issue q) \<longleftrightarrow> q = p"
| "fetch_request p _ \<longleftrightarrow> False"

definition inv_fetch :: "buffer \<Rightarrow> bool" where
  "inv_fetch k \<longleftrightarrow> (\<forall>p. length (filter (fetch_request p) (b_reqs k)) \<le> 1)
     \<and> (\<forall>p r. r \<in> set (b_reqs k) \<longrightarrow> fetch_request p r \<longrightarrow> p < b_next k \<and> (b_live k p \<longrightarrow> \<not> b_issued k p))"

definition inv_late :: "buffer \<Rightarrow> bool" where
  "inv_late k \<longleftrightarrow> (\<forall>r p. r \<in> set (b_reqs k) \<longrightarrow> request_inst r = Some p \<longrightarrow> was_issued k p)"

definition inv_pred :: "cpu \<Rightarrow> buffer \<Rightarrow> bool" where
  "inv_pred c k \<longleftrightarrow> (\<forall>p. count_list (b_reqs k) (BranchPredictor p) \<le> 1)
     \<and> (\<forall>p. BranchPredictor p \<in> set (b_reqs k) \<longrightarrow> hasBranchPredictor c \<and> b_ctl k p
          \<and> (b_live k p \<longrightarrow> \<not> b_complete k p \<longrightarrow> b_insts k \<noteq> [] \<and> p = last (b_insts k)))"

definition inv_unpred :: "cpu \<Rightarrow> buffer \<Rightarrow> bool" where
  "inv_unpred c k \<longleftrightarrow> (\<forall>p. b_unpred k = Some p \<longrightarrow> hasBranchPredictor c \<and> was_issued k p \<and> b_ctl k p
     \<and> BranchPredictor p \<notin> set (b_reqs k))"

definition inv_activate :: "buffer \<Rightarrow> bool" where
  "inv_activate k \<longleftrightarrow> count_list (b_reqs k) ActivateEvent \<le> 1 \<and> (ActivateEvent \<in> set (b_reqs k) \<longrightarrow> b_insts k = [])"

definition inv_requests :: "cpu \<Rightarrow> buffer \<Rightarrow> bool" where
  "inv_requests c k \<longleftrightarrow> inv_fetch k \<and> inv_late k \<and> inv_pred c k \<and> inv_unpred c k \<and> inv_activate k"

definition inv_refs :: "buffer \<Rightarrow> bool" where
  "inv_refs k \<longleftrightarrow> (\<forall>p. b_ser k = Some p \<longrightarrow> was_issued k p)
     \<and> (\<forall>p. b_bar k = Some p \<longrightarrow> was_issued k p \<and> \<not> b_ctl k p)
     \<and> (\<forall>r p n. b_uses k r = Some (p, n) \<longrightarrow> was_issued k p)"

definition inv_chain :: "cpu \<Rightarrow> buffer \<Rightarrow> bool" where
  "inv_chain c k \<longleftrightarrow> successively (\<lambda>p q. allowed c k p (b_pc k q)) (b_insts k)
     \<and> (b_insts k = [] \<or> (\<exists>p. window k p) \<or> location (b_pc k (hd (b_insts k))) = location (b_tcpc k))"

definition inv_retry :: "cpu \<Rightarrow> buffer \<Rightarrow> bool" where
  "inv_retry c k \<longleftrightarrow> (b_retry k \<and> b_active k
     \<and> (b_insts k \<noteq> [] \<or> Client (CommitLoop True) \<in> set (b_stack k) \<or> (\<exists>p. window k p))
     \<longrightarrow> extends c k (b_retryPC k) \<and> ActivateEvent \<notin> set (b_reqs k))"

text \<open>The youngest instruction of a list that writes a register, with the index of the result: what \<open>lastUses\<close> stands for.\<close>

primrec writes :: "RegId \<Rightarrow> nat \<Rightarrow> RegId list \<Rightarrow> nat option" where
  "writes r n [] = None"
| "writes r n (d # ds) = (case writes r (Suc n) ds of Some m \<Rightarrow> Some m | None \<Rightarrow> if flattenRegId d = r then Some n else None)"

primrec youngest_writer :: "(inst_id \<Rightarrow> StaticInst option) \<Rightarrow> RegId \<Rightarrow> inst_id list \<Rightarrow> DataSource" where
  "youngest_writer f r [] = None"
| "youngest_writer f r (p # ps) = (case youngest_writer f r ps of Some d \<Rightarrow> Some d
     | None \<Rightarrow> (case f p of None \<Rightarrow> None | Some si \<Rightarrow> map_option (\<lambda>n. (p, n)) (writes r 0 (destRegIdx si))))"

definition inv_uses :: "buffer \<Rightarrow> bool" where
  "inv_uses k \<longleftrightarrow> (b_insts k \<noteq> [] \<longrightarrow> b_live k (last (b_insts k))) \<longrightarrow>
     (\<forall>r d. youngest_writer (b_static k) r (filter (b_issued k) (b_insts k)) = Some d \<longrightarrow> b_uses k r = Some d)"

lemmas inv_defs = inv_ids_def inv_static_def inv_stack_def inv_seq_def inv_issue_def inv_refs_def
  inv_chain_def inv_retry_def inv_uses_def

definition order_inv :: "cpu \<Rightarrow> buffer \<Rightarrow> bool" where
  "order_inv c k \<longleftrightarrow> inv_ids k \<and> inv_static k \<and> inv_stack k \<and> inv_seq k \<and> inv_issue k \<and> inv_requests c k
     \<and> inv_refs k \<and> inv_chain c k"

definition buffer_inv :: "cpu \<Rightarrow> buffer \<Rightarrow> bool" where
  "buffer_inv c k \<longleftrightarrow> inv_ids k \<and> inv_static k \<and> inv_stack k \<and> inv_seq k \<and> inv_issue k \<and> inv_requests c k
     \<and> inv_refs k \<and> inv_chain c k \<and> inv_uses k"

lemma buffer_inv_order: "buffer_inv c k \<longleftrightarrow> order_inv c k \<and> inv_uses k"
  by (auto simp: buffer_inv_def order_inv_def)

lemma order_inv_parts:
  assumes "order_inv c k"
  shows "inv_ids k" "inv_static k" "inv_stack k" "inv_seq k" "inv_issue k" "inv_requests c k" "inv_refs k" "inv_chain c k"
  using assms by (simp_all add: order_inv_def)

lemma buffer_inv_parts:
  assumes "buffer_inv c k"
  shows "inv_ids k" "inv_static k" "inv_stack k" "inv_seq k" "inv_issue k" "inv_requests c k" "inv_refs k"
    "inv_chain c k" "inv_uses k"
  using assms by (simp_all add: buffer_inv_def)

lemmas b_defs = b_at_def b_live_def b_alive_def b_ctl_def was_issued_def window_def

text \<open>Parts that do not look at a field.\<close>

lemma b_preds_cong [simp]:
  "b_at P (k\<lparr>b_stack := x\<rparr>) = b_at P k" "b_live (k\<lparr>b_stack := x\<rparr>) = b_live k" "b_alive (k\<lparr>b_stack := x\<rparr>) = b_alive k"
  "b_ctl (k\<lparr>b_stack := x\<rparr>) = b_ctl k" "b_succ (k\<lparr>b_stack := x\<rparr>) = b_succ k" "was_issued (k\<lparr>b_stack := x\<rparr>) = was_issued k"
  "b_at P (k\<lparr>b_reqs := y\<rparr>) = b_at P k" "b_live (k\<lparr>b_reqs := y\<rparr>) = b_live k" "b_alive (k\<lparr>b_reqs := y\<rparr>) = b_alive k"
  "b_ctl (k\<lparr>b_reqs := y\<rparr>) = b_ctl k" "b_succ (k\<lparr>b_reqs := y\<rparr>) = b_succ k" "was_issued (k\<lparr>b_reqs := y\<rparr>) = was_issued k"
  "window (k\<lparr>b_reqs := y\<rparr>) = window k" "unresolved (k\<lparr>b_reqs := y\<rparr>) = unresolved k"
  "allowed c (k\<lparr>b_reqs := y\<rparr>) = allowed c k"
  by (auto simp: fun_eq_iff b_defs b_succ_def unresolved_def allowed_def)

section \<open>Requests\<close>

lemma request_inv:
  assumes "inv_requests c (k\<lparr>b_reqs := rs\<rparr>)" "buffer_inv c k"
  shows "buffer_inv c (k\<lparr>b_reqs := rs\<rparr>)"
  using assms by (simp add: buffer_inv_def inv_ids_def inv_static_def inv_stack_def inv_seq_def inv_issue_def inv_refs_def
      inv_chain_def inv_uses_def)

lemma extends_reqs:
  assumes "extends c k s" "\<And>p. BranchPredictor p \<in> set rs \<Longrightarrow> BranchPredictor p \<in> set (b_reqs k)"
  shows "extends c (k\<lparr>b_reqs := rs\<rparr>) s"
  using assms by (auto simp: extends_def)

lemma retry_reqs:
  assumes "inv_retry c k" "\<And>p. BranchPredictor p \<in> set rs \<Longrightarrow> BranchPredictor p \<in> set (b_reqs k)"
    and "ActivateEvent \<in> set rs \<Longrightarrow> ActivateEvent \<in> set (b_reqs k)"
  shows "inv_retry c (k\<lparr>b_reqs := rs\<rparr>)"
  using assms extends_reqs [OF _ assms(2)] by (auto simp: inv_retry_def)

lemma count_list_remove1: "count_list (remove1 r xs) x \<le> count_list xs x"
  by (induction xs) auto

lemma length_filter_remove1: "length (filter P (remove1 r xs)) \<le> length (filter P xs)"
  by (induction xs) auto

lemmas req_defs = inv_fetch_def inv_late_def inv_pred_def inv_unpred_def inv_activate_def

lemma inv_requests_remove1:
  assumes "inv_requests c k"
  shows "inv_requests c (k\<lparr>b_reqs := remove1 r (b_reqs k)\<rparr>)"
proof -
  let ?k = "k\<lparr>b_reqs := remove1 r (b_reqs k)\<rparr>"
  note sub = subsetD [OF set_remove1_subset]
  have "inv_fetch ?k" using assms
    unfolding inv_requests_def inv_fetch_def by (auto dest: sub intro: le_trans [OF length_filter_remove1])
  moreover have "inv_late ?k" using assms unfolding inv_requests_def inv_late_def by (auto dest: sub)
  moreover have "inv_pred c ?k" using assms
    unfolding inv_requests_def inv_pred_def by (auto dest: sub intro: le_trans [OF count_list_remove1])
  moreover have "inv_unpred c ?k" using assms unfolding inv_requests_def inv_unpred_def by (auto dest: sub)
  moreover have "inv_activate ?k" using assms
    unfolding inv_requests_def inv_activate_def by (auto dest: sub intro: le_trans [OF count_list_remove1])
  ultimately show ?thesis by (simp add: inv_requests_def)
qed

text \<open>Requests about an instruction that was issued; only the predictor's say more.\<close>

lemma inv_requests_late:
  assumes "inv_requests c k" "request_inst r = Some p" "was_issued k p" "\<And>q. r \<noteq> BranchPredictor q"
  shows "inv_requests c (k\<lparr>b_reqs := b_reqs k @ [r]\<rparr>)"
proof -
  have "r \<noteq> ActivateEvent" "\<And>q. \<not> fetch_request q r" using assms(2) by (cases r; simp)+
  with assms show ?thesis unfolding inv_requests_def req_defs by (simp add: count_list_append) blast
qed

lemma inv_requests_predictor:
  assumes "inv_requests c k" "was_issued k p" "hasBranchPredictor c" "b_ctl k p" "BranchPredictor p \<notin> set (b_reqs k)"
    and "b_live k p \<Longrightarrow> \<not> b_complete k p \<Longrightarrow> b_insts k \<noteq> [] \<and> p = last (b_insts k)" "b_unpred k \<noteq> Some p"
  shows "inv_requests c (k\<lparr>b_reqs := b_reqs k @ [BranchPredictor p]\<rparr>)"
  using assms unfolding inv_requests_def req_defs by (auto simp: count_list_append count_list_0_iff)

text \<open>A request of the fetch path replaces the one before it.\<close>

lemma inv_requests_fetch:
  assumes "inv_requests c k" "fetch_request p r" "p < b_next k" "b_live k p \<Longrightarrow> \<not> b_issued k p"
    and "\<And>r. r \<in> set (b_reqs k) \<Longrightarrow> \<not> fetch_request p r"
  shows "inv_requests c (k\<lparr>b_reqs := b_reqs k @ [r]\<rparr>)"
proof -
  have r: "r \<noteq> ActivateEvent" "\<And>q. r \<noteq> BranchPredictor q" "request_inst r = None" "\<And>q. fetch_request q r \<longleftrightarrow> q = p"
    using assms(2) by (cases r; auto)+
  have "filter (fetch_request p) (b_reqs k) = []" using assms(5) by (simp add: filter_empty_conv)
  with r assms(1,3,4) show ?thesis unfolding inv_requests_def req_defs by (auto simp: count_list_append)
qed

section \<open>The stack of calls\<close>

fun special :: "frame callback \<Rightarrow> bool" where
  "special (Client (CompletedRest p)) \<longleftrightarrow> True"
| "special (Client (CommitRest p)) \<longleftrightarrow> True"
| "special _ \<longleftrightarrow> False"

definition branch_open :: "buffer \<Rightarrow> bool" where
  "branch_open k \<longleftrightarrow> (\<exists>p. Client (CompletedRest p) \<in> set (b_stack k) \<and> b_ctl k p)"

lemma not_special: "\<not> special cb \<Longrightarrow> cb \<noteq> Client (CompletedRest p) \<and> cb \<noteq> Client (CommitRest p)"
  by auto

lemma stack_ok_append:
  assumes "stack_ok ctl r" "list_all (\<lambda>cb. \<not> special cb) news"
    and "\<And>p. Client (CommitRest p) \<in> set r \<Longrightarrow> list_all (above p) news"
    and "\<And>p. Client (CompletedRest p) \<in> set r \<Longrightarrow> ctl p \<Longrightarrow> list_all exec_like news"
  shows "stack_ok ctl (news @ r)"
  using assms by (induction news) (auto simp: list_all_iff)

lemma nonspecial_mem:
  assumes "list_all (\<lambda>cb. \<not> special cb) news"
  shows "Client (CompletedRest p) \<notin> set news" "Client (CommitRest p) \<notin> set news"
  using assms by (auto simp: list_all_iff)

lemma stack_change:
  assumes inv: "buffer_inv c k"
    and same: "\<And>p. window (k\<lparr>b_stack := s\<rparr>) p = window k p"
      "\<And>p. Client (CompletedRest p) \<in> set s \<longleftrightarrow> Client (CompletedRest p) \<in> set (b_stack k)"
    and ok: "stack_ok (b_ctl k) s" "\<And>cb p. cb \<in> set s \<Longrightarrow> frame_inst cb = Some p \<Longrightarrow> was_issued k p"
  shows "buffer_inv c (k\<lparr>b_stack := s\<rparr>)"
proof -
  have w: "window (k\<lparr>b_stack := s\<rparr>) = window k" using same(1) by blast
  have u: "allowed c (k\<lparr>b_stack := s\<rparr>) = allowed c k" by (intro ext) (auto simp: allowed_def unresolved_def same(2))
  have st: "inv_stack (k\<lparr>b_stack := s\<rparr>)"
    using inv ok unfolding buffer_inv_def inv_stack_def w by (simp add: same(2))
  have rq: "inv_requests c (k\<lparr>b_stack := s\<rparr>)" "inv_refs (k\<lparr>b_stack := s\<rparr>)"
    using inv by (simp_all add: buffer_inv_def inv_requests_def req_defs inv_refs_def)
  show ?thesis using inv st rq
    by (simp add: buffer_inv_def inv_ids_def inv_static_def inv_seq_def inv_issue_def inv_chain_def inv_uses_def w u)
qed

lemma stack_push:
  assumes "buffer_inv c k" "list_all (\<lambda>cb. \<not> special cb) news"
    and "\<And>p. window k p \<Longrightarrow> list_all (above p) news"
    and "branch_open k \<Longrightarrow> list_all exec_like news"
    and "\<And>cb p. cb \<in> set news \<Longrightarrow> frame_inst cb = Some p \<Longrightarrow> was_issued k p"
  shows "buffer_inv c (k\<lparr>b_stack := news @ b_stack k\<rparr>)"
proof (rule stack_change [OF assms(1)])
  note n = nonspecial_mem [OF assms(2)]
  show "window (k\<lparr>b_stack := news @ b_stack k\<rparr>) p = window k p" for p by (simp add: window_def n)
  show "Client (CompletedRest p) \<in> set (news @ b_stack k) \<longleftrightarrow> Client (CompletedRest p) \<in> set (b_stack k)" for p
    by (simp add: n)
  show "stack_ok (b_ctl k) (news @ b_stack k)"
    using assms buffer_inv_parts(3) [OF assms(1)]
    by (intro stack_ok_append) (auto simp: window_def branch_open_def inv_stack_def)
  show "was_issued k p" if "cb \<in> set (news @ b_stack k)" "frame_inst cb = Some p" for cb p
    using that assms(5) buffer_inv_parts(3) [OF assms(1)] unfolding inv_stack_def by auto
qed

lemma stack_pop:
  assumes "buffer_inv c k" "b_stack k = cb # r" "\<not> special cb"
  shows "buffer_inv c (k\<lparr>b_stack := r\<rparr>)" "window (k\<lparr>b_stack := r\<rparr>) = window k" "branch_open (k\<lparr>b_stack := r\<rparr>) = branch_open k"
    "window k p \<Longrightarrow> above p cb" "branch_open k \<Longrightarrow> exec_like cb"
proof -
  have s: "stack_ok (b_ctl k) (cb # r)" using buffer_inv_parts(3) [OF assms(1)] by (simp add: inv_stack_def assms(2))
  show w: "window (k\<lparr>b_stack := r\<rparr>) = window k" using assms(2,3) by (auto simp: window_def fun_eq_iff)
  show "branch_open (k\<lparr>b_stack := r\<rparr>) = branch_open k" using assms(2,3) by (auto simp: branch_open_def)
  show "window k p \<Longrightarrow> above p cb" "branch_open k \<Longrightarrow> exec_like cb"
    using s assms(2,3) by (auto simp: window_def branch_open_def)
  show "buffer_inv c (k\<lparr>b_stack := r\<rparr>)"
  proof (rule stack_change [OF assms(1)])
    show "window (k\<lparr>b_stack := r\<rparr>) p = window k p" for p by (simp add: w)
    show "Client (CompletedRest p) \<in> set r \<longleftrightarrow> Client (CompletedRest p) \<in> set (b_stack k)" for p
      using assms(2,3) by auto
    show "stack_ok (b_ctl k) r" using s by simp
    show "was_issued k p" if "x \<in> set r" "frame_inst x = Some p" for x p
      using that buffer_inv_parts(3) [OF assms(1)] unfolding inv_stack_def assms(2) by auto
  qed
qed

lemma retry_push:
  assumes "inv_retry c k" "list_all (\<lambda>cb. \<not> special cb \<and> cb \<noteq> Client (CommitLoop True)) news"
  shows "inv_retry c (k\<lparr>b_stack := news @ b_stack k\<rparr>)"
proof -
  have n: "list_all (\<lambda>cb. \<not> special cb) news" "Client (CommitLoop True) \<notin> set news"
    using assms(2) by (auto simp: list_all_iff)
  then show ?thesis using assms(1)
    by (auto simp: inv_retry_def extends_def allowed_def unresolved_def window_def nonspecial_mem [OF n(1)])
qed

lemma retry_pop:
  assumes "inv_retry c k" "b_stack k = cb # r" "\<not> special cb"
  shows "inv_retry c (k\<lparr>b_stack := r\<rparr>)"
  using assms by (auto simp: inv_retry_def extends_def allowed_def unresolved_def window_def split: if_splits)

section \<open>A new instruction\<close>

definition b_push :: "PCState \<Rightarrow> buffer \<Rightarrow> buffer" where
  "b_push s k = k\<lparr>b_next := Suc (b_next k), b_stat := (b_stat k)(b_next k \<mapsto> (Fetching, False)),
     b_insts := b_insts k @ [b_next k],
     b_seq := (b_seq k)(b_next k := b_committed k + of_nat (length (b_insts k)) + 1),
     b_pc := (b_pc k)(b_next k := s), b_static := (b_static k)(b_next k := None), b_fault := (b_fault k)(b_next k := None)\<rparr>"

lemma stack_ok_cong:
  "stack_ok ctl s \<Longrightarrow> (\<And>p. Client (CompletedRest p) \<in> set s \<Longrightarrow> ctl' p = ctl p) \<Longrightarrow> stack_ok ctl' s"
  by (induction s) auto

lemma b_push_old:
  assumes "p < b_next k"
  shows "b_at P (b_push s k) p = b_at P k p" "b_live (b_push s k) p = b_live k p" "b_alive (b_push s k) p = b_alive k p"
    "b_ctl (b_push s k) p = b_ctl k p" "b_succ (b_push s k) p = b_succ k p" "allowed c (b_push s k) p x = allowed c k p x"
    "was_issued (b_push s k) p = was_issued k p" "b_static (b_push s k) p = b_static k p"
  using assms by (auto simp: b_push_def b_defs b_succ_def allowed_def unresolved_def)

lemma was_issued_push:
  assumes "was_issued k p"
  shows "was_issued (b_push s k) p" "b_ctl (b_push s k) p = b_ctl k p"
  using assms b_push_old [where p = p and k = k and s = s] by (simp_all add: was_issued_def [of k])

lemma b_push_new [simp]:
  "b_at P (b_push s k) (b_next k) = P Fetching" "b_live (b_push s k) (b_next k)" "b_alive (b_push s k) (b_next k)"
  "\<not> b_ctl (b_push s k) (b_next k)"
  by (simp_all add: b_push_def b_defs)

lemma b_push_fields [simp]:
  "b_insts (b_push s k) = b_insts k @ [b_next k]" "b_stack (b_push s k) = b_stack k" "b_reqs (b_push s k) = b_reqs k"
  "b_next (b_push s k) = Suc (b_next k)" "window (b_push s k) = window k" "b_tcpc (b_push s k) = b_tcpc k"
  "b_unpred (b_push s k) = b_unpred k" "b_uses (b_push s k) = b_uses k" "b_ser (b_push s k) = b_ser k"
  "b_bar (b_push s k) = b_bar k" "b_active (b_push s k) = b_active k" "b_retry (b_push s k) = b_retry k"
  by (simp_all add: b_push_def window_def fun_eq_iff)

lemma b_alive_live: "b_live k p \<Longrightarrow> b_alive k p" "b_at P k p \<Longrightarrow> b_alive k p"
  by (auto simp: b_defs split: option.splits)

lemma inv_ids_less: "inv_ids k \<Longrightarrow> p \<in> set (b_insts k) \<Longrightarrow> p < b_next k" "inv_ids k \<Longrightarrow> b_alive k p \<Longrightarrow> p < b_next k"
  by (auto simp: inv_ids_def)

lemma b_push_alive: "b_alive (b_push s k) p \<longleftrightarrow> p = b_next k \<or> b_alive k p"
  by (auto simp: b_push_def b_defs)

lemma b_push_inv:
  assumes inv: "buffer_inv c k" and w: "\<And>p. \<not> window k p" and e: "extends c k s" and a: "ActivateEvent \<notin> set (b_reqs k)"
  shows "buffer_inv c (b_push s k)"
proof -
  let ?k = "b_push s k" and ?n = "b_next k"
  note ids = buffer_inv_parts(1) [OF inv]
  note less = inv_ids_less [OF ids]
  have old: "\<And>p. p \<in> set (b_insts k) \<Longrightarrow> p < ?n" "\<And>p. b_alive k p \<Longrightarrow> p < ?n" using less by auto
  have lastn: "b_insts k \<noteq> [] \<Longrightarrow> last (b_insts k) < ?n" using old(1) by simp
  have l: "b_insts k \<noteq> [] \<Longrightarrow> b_live k (last (b_insts k)) \<and> b_issued k (last (b_insts k))" using e by (auto simp: extends_def)
  have cases: "p = ?n \<or> p < ?n \<and> b_alive k p" if "b_alive ?k p" for p using that old(2) by (auto simp: b_push_alive)
  have "inv_ids ?k" using ids old by (auto simp: inv_ids_def sorted_wrt_append b_push_alive less_Suc_eq)
  moreover have "inv_static ?k"
    using buffer_inv_parts(2) [OF inv] by (auto simp: inv_static_def b_push_def b_defs split: if_splits option.splits)
  moreover have "inv_stack ?k"
  proof -
    note st = buffer_inv_parts(3) [OF inv]
    have fr: "\<And>cb p. cb \<in> set (b_stack k) \<Longrightarrow> frame_inst cb = Some p \<Longrightarrow> p < ?n \<and> was_issued ?k p"
      using st b_push_old(7) unfolding inv_stack_def was_issued_def by blast
    then have cr: "\<And>p. Client (CompletedRest p) \<in> set (b_stack k) \<Longrightarrow> p < ?n" by fastforce
    have "stack_ok (b_ctl ?k) (b_stack ?k)"
      using st cr by (auto simp: inv_stack_def b_push_old intro: stack_ok_cong)
    then show ?thesis using st fr cr w old(1) by (auto simp: inv_stack_def b_push_old)
  qed
  moreover have "inv_seq ?k"
  proof -
    have "map (b_seq ?k) (b_insts k) = map (b_seq k) (b_insts k)"
      by (rule map_cong) (use old(1) in \<open>auto simp: b_push_def\<close>)
    moreover have "b_seq ?k ?n = b_committed k + of_nat (length (b_insts k)) + 1" "b_committed ?k = b_committed k"
      by (simp_all add: b_push_def)
    ultimately show ?thesis using buffer_inv_parts(4) [OF inv] w by (simp add: inv_seq_def del: map_eq_conv)
  qed
  moreover have "inv_issue ?k"
  proof -
    note iss = buffer_inv_parts(5) [OF inv]
    have "p = ?n" if "b_live ?k p" "\<not> b_issued ?k p" for p
      using that cases [OF b_alive_live(1) [OF that(1)]] iss l by (auto simp: inv_issue_def b_push_old)
    then have A: "b_insts ?k \<noteq> [] \<and> p = last (b_insts ?k) \<and> b_next ?k = Suc p" if "b_live ?k p" "\<not> b_issued ?k p" for p
      using that by force
    have L: "b_live k p" if "p \<in> set (b_insts k)" for p using iss l that unfolding inv_issue_def by (metis empty_iff list.set(1))
    have B: "b_live ?k p" if "p \<in> set (b_insts ?k)" for p using that old(1) L by (auto simp: b_push_old)
    have C: "b_at (\<lambda>s. s = Retired) ?k p \<or> b_at (\<lambda>s. s = Done) ?k p \<and> (\<exists>si. b_static ?k p = Some si \<and> isStore si)"
      if "b_live ?k p" "p \<notin> set (b_insts ?k)" for p
    proof -
      have pn: "p < ?n" using that(2) cases [OF b_alive_live(1) [OF that(1)]] by auto
      have "b_live k p" "p \<notin> set (b_insts k)" using that pn by (simp_all add: b_push_old)
      then show ?thesis using iss pn unfolding inv_issue_def by (simp add: b_push_old)
    qed
    have D: "b_fault ?k p = None" if "p \<in> set (b_insts ?k)" for p
    proof -
      have "\<And>p. p \<in> set (b_insts k) \<Longrightarrow> b_fault k p = None" using iss L unfolding inv_issue_def by blast
      then show ?thesis using that old(1) by (auto simp: b_push_def)
    qed
    show ?thesis unfolding inv_issue_def by (intro conjI) (use A in blast, use B in blast, use D in simp, use C in blast)
  qed
  moreover have "inv_requests c ?k"
  proof -
    note rq = buffer_inv_parts(6) [OF inv]
    have "inv_fetch ?k" using rq by (fastforce simp: inv_requests_def inv_fetch_def b_push_old)
    moreover have lt: "inv_late ?k" using rq b_push_old(7) unfolding inv_requests_def inv_late_def by (auto simp: was_issued_def)
    moreover have "inv_pred c ?k"
    proof -
      have "p < ?n" if "BranchPredictor p \<in> set (b_reqs k)" for p
        using rq that unfolding inv_requests_def inv_late_def was_issued_def by fastforce
      then show ?thesis using rq e
        by (fastforce simp: inv_requests_def inv_pred_def b_push_old extends_def)
    qed
    moreover have "inv_unpred c ?k" "inv_activate ?k"
      using rq a b_push_old(4,7) unfolding inv_requests_def inv_unpred_def inv_activate_def was_issued_def by auto
    ultimately show ?thesis by (simp add: inv_requests_def)
  qed
  moreover have "inv_refs ?k"
    using buffer_inv_parts(7) [OF inv] unfolding inv_refs_def by (simp add: was_issued_push)
  moreover have "inv_chain c ?k"
  proof -
    note ch = buffer_inv_parts(8) [OF inv]
    have pc: "b_pc ?k p = b_pc k p" if "p \<in> set (b_insts k)" for p using old(1) [OF that] by (simp add: b_push_def)
    have new: "b_pc ?k ?n = s" by (simp add: b_push_def)
    have "successively (\<lambda>p q. allowed c ?k p (b_pc ?k q)) (b_insts k)"
      using ch unfolding inv_chain_def
      by (auto intro: successively_mono [where P = "\<lambda>p q. allowed c k p (b_pc k q)"] simp: pc b_push_old old(1))
    then have "successively (\<lambda>p q. allowed c ?k p (b_pc ?k q)) (b_insts k @ [?n])"
      using e new lastn by (cases "b_insts k = []") (auto simp: successively_append_iff b_push_old extends_def)
    moreover have "location (b_pc ?k (hd (b_insts k @ [?n]))) = location (b_tcpc k)"
      using ch e w new pc by (cases "b_insts k") (auto simp: inv_chain_def extends_def)
    ultimately show ?thesis by (simp add: inv_chain_def)
  qed
  moreover have "inv_uses ?k"
  proof -
    have f: "filter (b_issued ?k) (b_insts ?k) = filter (b_issued k) (b_insts k)"
      using old(1) by (auto simp: b_push_old cong: filter_cong)
    have "youngest_writer (b_static ?k) r xs = youngest_writer (b_static k) r xs" if "set xs \<subseteq> {..<?n}" for r xs
      using that by (induction xs) (auto simp: b_push_def split: option.splits)
    moreover have "set (filter (b_issued k) (b_insts k)) \<subseteq> {..<?n}" using old(1) by auto
    ultimately show ?thesis using buffer_inv_parts(9) [OF inv] l unfolding inv_uses_def f by auto
  qed
  ultimately show ?thesis by (simp add: buffer_inv_def)
qed

end
