(* ===== verification/Flex_Buffer_Steps.thy ===== *)
theory Flex_Buffer_Steps
  imports Flex_Buffer
begin

text \<open>
  The elementary changes of the instruction buffer: decoding, issue, completion, the resolution of a
  branch, commit, removal, squashing and faults. Each lemma says that the change keeps the
  invariant of \<open>Flex_Buffer\<close>.
\<close>

lemma fetching_last:
  assumes "buffer_inv c k" "b_live k p" "\<not> b_issued k p"
  shows "b_insts k \<noteq> []" "p = last (b_insts k)" "b_next k = Suc p" "p \<in> set (b_insts k)" "\<not> was_issued k p"
    "\<not> (b_retry k \<and> b_active k) \<or> \<not> inv_retry c k"
proof -
  show l: "b_insts k \<noteq> []" "p = last (b_insts k)" "b_next k = Suc p"
    using buffer_inv_parts(5) [OF assms(1)] assms(2,3) by (auto simp: inv_issue_def)
  then show "p \<in> set (b_insts k)" by simp
  show "\<not> was_issued k p" using assms(2,3) b_alive_live(1) by (auto simp: was_issued_def)
  show "\<not> (b_retry k \<and> b_active k) \<or> \<not> inv_retry c k" using l assms(3) by (auto simp: inv_retry_def extends_def)
qed

lemma not_issued_nowhere:
  assumes inv: "buffer_inv c k" and p: "\<not> was_issued k p"
  shows "Client (CompletedRest p) \<notin> set (b_stack k)" "\<not> window k p" "BranchPredictor p \<notin> set (b_reqs k)"
    "b_unpred k \<noteq> Some p" "b_ser k \<noteq> Some p" "b_bar k \<noteq> Some p" "b_uses k r \<noteq> Some (p, n)"
proof -
  note st = buffer_inv_parts(3) [OF inv] and rq = buffer_inv_parts(6) [OF inv] and rf = buffer_inv_parts(7) [OF inv]
  have fr: "cb \<in> set (b_stack k) \<Longrightarrow> frame_inst cb \<noteq> Some p" for cb using st p by (auto simp: inv_stack_def)
  show "Client (CompletedRest p) \<notin> set (b_stack k)" "\<not> window k p"
    using fr [of "Client (CompletedRest p)"] fr [of "Client (CommitRest p)"] by (auto simp: window_def)
  have "r \<in> set (b_reqs k) \<Longrightarrow> request_inst r \<noteq> Some p" for r using rq p by (auto simp: inv_requests_def inv_late_def)
  from this [of "BranchPredictor p"] show "BranchPredictor p \<notin> set (b_reqs k)" by auto
  show "b_unpred k \<noteq> Some p" using rq p by (auto simp: inv_requests_def inv_unpred_def)
  show "b_ser k \<noteq> Some p" "b_bar k \<noteq> Some p" "b_uses k r \<noteq> Some (p, n)" using rf p unfolding inv_refs_def by blast+
qed

lemma sorted_le_last: "sorted_wrt (<) (xs :: nat list) \<Longrightarrow> x \<in> set xs \<Longrightarrow> x \<le> last xs"
  by (cases xs rule: rev_cases) (auto simp: sorted_wrt_append intro: less_imp_le)

text \<open>A relation between neighbours only looks at the elements of the list.\<close>

lemma successively_cong2:
  assumes "successively P xs" "sorted_wrt (<) (xs :: nat list)"
    and "\<And>x y. x \<in> set xs \<Longrightarrow> y \<in> set xs \<Longrightarrow> x < y \<Longrightarrow> P x y \<Longrightarrow> Q x y"
  shows "successively Q xs"
  using assms by (induction xs rule: induct_list012) auto

section \<open>Decoding\<close>

definition b_decode :: "inst_id \<Rightarrow> PCState \<Rightarrow> StaticInst option \<Rightarrow> buffer \<Rightarrow> buffer" where
  "b_decode p s si k = k\<lparr>b_pc := (b_pc k)(p := s), b_static := (b_static k)(p := si)\<rparr>"

lemma decode_inv:
  assumes inv: "buffer_inv c k" and p: "b_live k p" "\<not> b_issued k p" and s: "location s = location (b_pc k p)"
    and si: "\<And>x. si = Some x \<Longrightarrow> plain x"
  shows "buffer_inv c (b_decode p s si k)" "inv_retry c k \<Longrightarrow> inv_retry c (b_decode p s si k)"
proof -
  let ?k = "k\<lparr>b_pc := (b_pc k)(p := s), b_static := (b_static k)(p := si)\<rparr>"
  note lst = fetching_last [OF inv p]
  note no = not_issued_nowhere [OF inv lst(5)]
  have same: "b_at P ?k = b_at P k" "b_live ?k = b_live k" "b_alive ?k = b_alive k" "window ?k = window k"
    "was_issued ?k = was_issued k" for P
    by (simp_all add: b_defs fun_eq_iff)
  have other: "b_ctl ?k q = b_ctl k q" "b_succ ?k q = b_succ k q" "unresolved ?k q = unresolved k q"
    "allowed c ?k q x = allowed c k q x" if "q \<noteq> p" for q x
    using that by (auto simp: b_defs b_succ_def unresolved_def allowed_def)
  have pc: "location (b_pc ?k q) = location (b_pc k q)" for q using s by simp
  have al: "allowed c ?k q (b_pc ?k x) = allowed c k q (b_pc k x)" if "q \<noteq> p" for q x
    using other(4) [OF that] pc [of x] by (simp add: allowed_def)
  have srt: "sorted_wrt (<) (b_insts k)" using buffer_inv_parts(1) [OF inv] by (simp add: inv_ids_def)
  have "inv_ids ?k" "inv_seq ?k" using buffer_inv_parts(1,4) [OF inv] by (simp_all add: inv_ids_def inv_seq_def same)
  moreover have "inv_static ?k" using buffer_inv_parts(2) [OF inv] si p(2) by (auto simp: inv_static_def same)
  moreover have "inv_stack ?k"
  proof -
    note st = buffer_inv_parts(3) [OF inv]
    have ctl: "b_ctl ?k q = b_ctl k q" if "Client (CompletedRest q) \<in> set (b_stack k)" for q using that no(1) other(1) by metis
    have "stack_ok (b_ctl k) (b_stack k)" using st by (simp add: inv_stack_def)
    then have "stack_ok (b_ctl ?k) (b_stack k)" by (rule stack_ok_cong [OF _ ctl])
    moreover have "b_succ ?k q = b_succ k q" if "window k q" for q using that no(2) other(2) by metis
    ultimately show ?thesis using st ctl unfolding inv_stack_def same by (simp del: fun_upd_apply)
  qed
  moreover have "inv_issue ?k"
    using buffer_inv_parts(5) [OF inv] lst(4) unfolding inv_issue_def same by auto
  moreover have "inv_requests c ?k"
    using buffer_inv_parts(6) [OF inv] no(3,4) other(1) unfolding inv_requests_def req_defs same by (simp del: fun_upd_apply) metis
  moreover have "inv_refs ?k"
    using buffer_inv_parts(7) [OF inv] no(6) other(1) unfolding inv_refs_def same by (simp del: fun_upd_apply) metis
  moreover have "inv_chain c ?k"
  proof -
    have "x \<noteq> p" if "x \<in> set (b_insts k)" "y \<in> set (b_insts k)" "x < y" for x y
      using that srt lst(1,2) by (cases "b_insts k" rule: rev_cases) (auto simp: sorted_wrt_append)
    then have "successively (\<lambda>p q. allowed c ?k p (b_pc ?k q)) (b_insts k)"
      using buffer_inv_parts(8) [OF inv] al unfolding inv_chain_def by (blast intro: successively_cong2 [OF _ srt])
    then show ?thesis using buffer_inv_parts(8) [OF inv] pc unfolding inv_chain_def same by simp
  qed
  moreover have "inv_uses ?k"
  proof -
    have "youngest_writer (b_static ?k) r xs = youngest_writer (b_static k) r xs" if "p \<notin> set xs" for r xs
      using that by (induction xs) (auto split: option.splits)
    moreover have "p \<notin> set (filter (b_issued k) (b_insts k))" using p(2) by simp
    ultimately show ?thesis using buffer_inv_parts(9) [OF inv] unfolding inv_uses_def same by simp
  qed
  ultimately show "buffer_inv c (b_decode p s si k)" by (simp add: buffer_inv_def b_decode_def)
  show "inv_retry c (b_decode p s si k)" if "inv_retry c k" using lst(6) that by (auto simp: inv_retry_def b_decode_def)
qed

section \<open>Issue\<close>

definition b_issue :: "inst_id \<Rightarrow> inst_id option \<Rightarrow> inst_id option \<Rightarrow> (RegId \<Rightarrow> DataSource) \<Rightarrow> buffer \<Rightarrow> buffer" where
  "b_issue p ser bar u k = k\<lparr>b_stat := (b_stat k)(p \<mapsto> (Pending, False)), b_ser := ser, b_bar := bar, b_uses := u\<rparr>"

lemma youngest_writer_append:
  "youngest_writer f r (xs @ ys) = (case youngest_writer f r ys of Some d \<Rightarrow> Some d | None \<Rightarrow> youngest_writer f r xs)"
  by (induction xs) (auto split: option.splits)

lemma issue_inv:
  assumes inv: "buffer_inv c k" and p: "b_live k p" "\<not> b_issued k p" and si: "b_static k p = Some si"
    and nf: "\<And>r. r \<in> set (b_reqs k) \<Longrightarrow> \<not> fetch_request p r"
    and ser: "ser = b_ser k \<or> ser = Some p" and bar: "bar = b_bar k \<or> bar = Some p \<and> isMemBarrier si"
    and u: "\<And>r. u r = (case writes r 0 (destRegIdx si) of Some n \<Rightarrow> Some (p, n) | None \<Rightarrow> b_uses k r)"
  shows "buffer_inv c (b_issue p ser bar u k)" "inv_retry c k \<Longrightarrow> inv_retry c (b_issue p ser bar u k)"
proof -
  let ?k = "b_issue p ser bar u k"
  note lst = fetching_last [OF inv p]
  note no = not_issued_nowhere [OF inv lst(5)]
  note iss = buffer_inv_parts(5) [OF inv]
  have ph: "b_stat k p = Some (Fetching, False)" using p by (auto simp: b_defs split: option.splits prod.splits)
  have same: "b_live ?k = b_live k" "b_alive ?k = b_alive k" "window ?k = window k" "b_ctl ?k = b_ctl k" "b_succ ?k = b_succ k"
    "b_complete ?k = b_complete k" "b_at (\<lambda>s. s = Retired) ?k = b_at (\<lambda>s. s = Retired) k"
    "b_at (\<lambda>s. s = Done) ?k = b_at (\<lambda>s. s = Done) k"
    using ph by (auto simp: b_issue_def b_defs fun_eq_iff b_succ_def)
  have isd: "b_issued ?k q \<longleftrightarrow> q = p \<or> b_issued k q" for q using ph by (auto simp: b_issue_def b_defs)
  have fields: "b_insts ?k = b_insts k" "b_stack ?k = b_stack k" "b_reqs ?k = b_reqs k" "b_next ?k = b_next k" "b_pc ?k = b_pc k"
    "b_static ?k = b_static k" "b_tcpc ?k = b_tcpc k" "b_unpred ?k = b_unpred k" "b_fault ?k = b_fault k" "b_seq ?k = b_seq k"
    "b_committed ?k = b_committed k" "b_ser ?k = ser" "b_bar ?k = bar" "b_uses ?k = u"
    by (simp_all add: b_issue_def)
  have was: "was_issued k q \<Longrightarrow> was_issued ?k q" "was_issued ?k p" for q
    using isd same lst(3) by (auto simp: was_issued_def fields)
  have al: "allowed c ?k = allowed c k" by (intro ext) (simp only: allowed_def unresolved_def same fields)
  have "inv_ids ?k" "inv_seq ?k" "inv_chain c ?k"
    using buffer_inv_parts(1,4,8) [OF inv] by (simp_all add: inv_ids_def inv_seq_def inv_chain_def same fields al)
  moreover have "inv_static ?k" using buffer_inv_parts(2) [OF inv] si by (auto simp: inv_static_def isd fields)
  moreover have "inv_stack ?k"
  proof -
    have "b_stat ?k q = b_stat k q" if "window k q" for q using that no(2) by (auto simp: b_issue_def)
    then show ?thesis using buffer_inv_parts(3) [OF inv] was(1) unfolding inv_stack_def same fields by fastforce
  qed
  moreover have "inv_issue ?k" using iss unfolding inv_issue_def same fields isd by blast
  moreover have "inv_requests c ?k"
  proof -
    note rq = buffer_inv_parts(6) [OF inv]
    have "inv_fetch ?k" using rq nf unfolding inv_requests_def inv_fetch_def same fields isd by blast
    moreover have "inv_late ?k" using rq was(1) unfolding inv_requests_def inv_late_def fields by blast
    moreover have "inv_pred c ?k" using rq unfolding inv_requests_def inv_pred_def fields same by blast
    moreover have "inv_unpred c ?k" "inv_activate ?k"
      using rq was(1) unfolding inv_requests_def inv_unpred_def inv_activate_def fields same by blast+
    ultimately show ?thesis by (simp add: inv_requests_def)
  qed
  moreover have "inv_refs ?k"
  proof -
    note rf = buffer_inv_parts(7) [OF inv]
    have "plain si" using buffer_inv_parts(2) [OF inv] si by (simp add: inv_static_def)
    then have "isMemBarrier si \<Longrightarrow> \<not> b_ctl k p" using si by (auto simp: plain_def b_ctl_def)
    then have "bar = Some q \<Longrightarrow> was_issued ?k q \<and> \<not> b_ctl k q" "ser = Some q \<Longrightarrow> was_issued ?k q" for q
      using bar ser was rf by (auto simp: inv_refs_def)
    moreover have "was_issued ?k q" if "u r = Some (q, n)" for r q n
    proof (cases "writes r 0 (destRegIdx si)")
      case None
      then have "b_uses k r = Some (q, n)" using that by (simp add: u)
      then have "was_issued k q" using rf unfolding inv_refs_def by blast
      then show ?thesis by (rule was(1))
    next
      case (Some m)
      then show ?thesis using that was(2) by (simp add: u)
    qed
    ultimately show ?thesis unfolding inv_refs_def same fields by blast
  qed
  moreover have "inv_uses ?k"
  proof -
    obtain xs where xs: "b_insts k = xs @ [p]" using lst(1,2) by (metis append_butlast_last_id)
    have d: "p \<notin> set xs" using buffer_inv_parts(1) [OF inv] xs by (auto simp: inv_ids_def sorted_wrt_append)
    have f: "filter (b_issued ?k) (b_insts ?k) = filter (b_issued k) xs @ [p]" "filter (b_issued k) (b_insts k) = filter (b_issued k) xs"
      using d p(2) by (auto simp: xs fields isd intro!: filter_cong)
    have l: "b_insts k \<noteq> [] \<longrightarrow> b_live k (last (b_insts k))" using p lst(2) by simp
    have "b_uses ?k r = Some d" if "youngest_writer (b_static ?k) r (filter (b_issued ?k) (b_insts ?k)) = Some d" for r d
    proof -
      have old: "youngest_writer (b_static k) r (filter (b_issued k) xs) = Some d \<Longrightarrow> b_uses k r = Some d"
        using buffer_inv_parts(9) [OF inv] l unfolding f inv_uses_def by blast
      show ?thesis using that si unfolding f youngest_writer_append by (auto simp: fields u dest: old split: option.splits)
    qed
    then show ?thesis by (simp add: inv_uses_def)
  qed
  ultimately show "buffer_inv c ?k" by (simp add: buffer_inv_def)
  show "inv_retry c ?k" if "inv_retry c k" using lst(6) that by (auto simp: inv_retry_def b_issue_def)
qed

lemma pending_in_buffer:
  assumes "buffer_inv c k" "b_stat k p = Some (Pending, False)"
  shows "p \<in> set (b_insts k)" "b_live k p"
proof -
  have "b_live k p" "\<not> b_at (\<lambda>s. s = Retired) k p" "\<not> b_at (\<lambda>s. s = Done) k p" using assms(2) by (simp_all add: b_defs)
  then show "p \<in> set (b_insts k)" "b_live k p" using buffer_inv_parts(5) [OF assms(1)] unfolding inv_issue_def by blast+
qed

section \<open>Completion and the resolution of branches\<close>

definition b_done :: "inst_id \<Rightarrow> bool \<Rightarrow> frame callback list \<Rightarrow> buffer \<Rightarrow> buffer" where
  "b_done p sq news k = k\<lparr>b_stat := (b_stat k)(p \<mapsto> (Done, sq)), b_stack := news @ [Client (CompletedRest p)]\<rparr>"

lemma done_inv:
  assumes inv: "buffer_inv c k" and st: "b_stack k = []" and p: "b_stat k p = Some (ph, sq)" "ph \<noteq> Fetching"
    and news: "list_all (\<lambda>cb. \<not> special cb \<and> cb \<noteq> Client (CommitLoop True)) news"
      "\<And>cb q. cb \<in> set news \<Longrightarrow> frame_inst cb = Some q \<Longrightarrow> was_issued k q"
    and ctl: "b_ctl k p \<Longrightarrow> ph = Pending \<and> \<not> sq \<and> list_all exec_like news"
    and ret: "ph = Retired \<Longrightarrow> \<exists>si. b_static k p = Some si \<and> isStore si"
  shows "buffer_inv c (b_done p sq news k)" "inv_retry c k \<Longrightarrow> inv_retry c (b_done p sq news k)"
proof -
  let ?k = "b_done p sq news k"
  note iss = buffer_inv_parts(5) [OF inv]
  have nsp: "list_all (\<lambda>cb. \<not> special cb) news" using news(1) by (auto simp: list_all_iff)
  note ns = nonspecial_mem [OF nsp]
  have same: "b_live ?k = b_live k" "b_alive ?k = b_alive k" "b_ctl ?k = b_ctl k" "b_succ ?k = b_succ k" "b_issued ?k = b_issued k"
    "was_issued ?k = was_issued k"
    using p by (auto simp: b_done_def b_defs fun_eq_iff b_succ_def)
  have w: "window ?k = window k" "\<not> window k q" for q using ns st by (auto simp: window_def b_done_def)
  have fields: "b_insts ?k = b_insts k" "b_stack ?k = news @ [Client (CompletedRest p)]" "b_reqs ?k = b_reqs k" "b_next ?k = b_next k"
    "b_pc ?k = b_pc k" "b_static ?k = b_static k" "b_tcpc ?k = b_tcpc k" "b_unpred ?k = b_unpred k" "b_fault ?k = b_fault k"
    "b_seq ?k = b_seq k" "b_committed ?k = b_committed k" "b_ser ?k = b_ser k" "b_bar ?k = b_bar k" "b_uses ?k = b_uses k"
    "b_retry ?k = b_retry k" "b_active ?k = b_active k" "b_retryPC ?k = b_retryPC k"
    by (simp_all add: b_done_def)
  have cmp: "b_complete ?k q \<longleftrightarrow> q = p \<or> b_complete k q" for q by (auto simp: b_done_def b_defs)
  have pin: "b_ctl k p \<Longrightarrow> p \<in> set (b_insts k) \<and> b_live k p"
    using ctl p pending_in_buffer [OF inv] by auto
  have al: "allowed c ?k q x = allowed c k q x" for q x
  proof (cases "q = p")
    case True
    then show ?thesis using ctl p by (auto simp: allowed_def unresolved_def same fields b_defs)
  next
    case False
    then show ?thesis using st ns by (auto simp: allowed_def unresolved_def same fields cmp)
  qed
  have "inv_ids ?k" "inv_static ?k" "inv_seq ?k" "inv_refs ?k" "inv_uses ?k"
    using buffer_inv_parts(1,2,4,7,9) [OF inv]
    by (simp_all add: inv_ids_def inv_static_def inv_seq_def inv_refs_def inv_uses_def same fields w(1))
  moreover have "inv_chain c ?k" using buffer_inv_parts(8) [OF inv] by (simp add: inv_chain_def fields al w)
  moreover have "inv_stack ?k"
  proof -
    have "stack_ok (b_ctl k) (news @ [Client (CompletedRest p)])"
      by (rule stack_ok_append) (use nsp ctl in auto)
    moreover have wp: "was_issued k p" using p inv_ids_less(2) [OF buffer_inv_parts(1) [OF inv], of p] by (auto simp: was_issued_def b_defs)
    moreover have "q = p" if "b_at (\<lambda>s. s = Retired) ?k q" "q \<in> set (b_insts k)" for q
      using that buffer_inv_parts(3) [OF inv] w(2) by (auto simp: inv_stack_def b_done_def b_at_def split: if_splits)
    moreover have "\<not> b_at (\<lambda>s. s = Retired) ?k p" by (simp add: b_done_def b_at_def)
    ultimately show ?thesis using news(2) pin ns w(2) cmp unfolding inv_stack_def same fields w(1) by auto
  qed
  moreover have "inv_issue ?k"
  proof -
    have "b_at (\<lambda>s. s = Retired) ?k q \<or> b_at (\<lambda>s. s = Done) ?k q \<and> (\<exists>si. b_static k q = Some si \<and> isStore si)"
      if "b_live k q" "q \<notin> set (b_insts k)" for q
    proof (cases "q = p")
      case True
      then have "b_at (\<lambda>s. s = Retired) k p \<or> b_at (\<lambda>s. s = Done) k p \<and> (\<exists>si. b_static k p = Some si \<and> isStore si)"
        using that iss by (simp add: inv_issue_def)
      then show ?thesis using True p ret by (auto simp: b_done_def b_at_def)
    next
      case False
      then have "b_at P ?k q = b_at P k q" for P by (simp add: b_done_def b_at_def)
      then show ?thesis using that iss by (simp add: inv_issue_def)
    qed
    then show ?thesis using iss unfolding inv_issue_def same fields by blast
  qed
  moreover have "inv_requests c ?k"
    using buffer_inv_parts(6) [OF inv] unfolding inv_requests_def req_defs same fields cmp by blast
  ultimately show "buffer_inv c ?k" by (simp add: buffer_inv_def)
  show "inv_retry c ?k" if r: "inv_retry c k"
  proof -
    have "Client (CommitLoop True) \<notin> set (b_stack ?k)" using news(1) by (auto simp: fields list_all_iff)
    then show ?thesis using r w by (auto simp: inv_retry_def extends_def same fields al cmp)
  qed
qed

lemma stack_top_alone:
  assumes inv: "buffer_inv c k" and st: "b_stack k = cb # r" and cb: "\<And>p. \<not> above p cb" "\<not> exec_like cb"
  shows "Client (CommitRest p) \<notin> set r" "Client (CompletedRest p) \<in> set r \<Longrightarrow> \<not> b_ctl k p"
  using buffer_inv_parts(3) [OF inv] cb by (auto simp: inv_stack_def st)

lemma following_Cons:
  "following p (x # xs) = (if x = p then (case xs of [] \<Rightarrow> None | q # _ \<Rightarrow> Some q) else following p xs)"
  by (auto simp: following_def split: list.splits)

lemma following_in: "following p xs = Some q \<Longrightarrow> p \<in> set xs \<and> q \<in> set xs"
  by (induction xs) (auto simp: following_Cons following_def [of _ "[]"] split: if_splits list.splits)

text \<open>A branch is resolved once the instruction after it, if there is one, is its successor.\<close>

lemma resolve_inv:
  assumes inv: "buffer_inv c k" and st: "b_stack k = Client (CompletedRest p) # r"
    and nxt: "\<And>q. b_ctl k p \<Longrightarrow> q \<in> set (b_insts k) \<Longrightarrow> following p (b_insts k) = Some q \<Longrightarrow> location (b_pc k q) = location (b_succ k p)"
  shows "buffer_inv c (k\<lparr>b_stack := r\<rparr>)" "\<not> window (k\<lparr>b_stack := r\<rparr>) q" "\<not> branch_open (k\<lparr>b_stack := r\<rparr>)"
proof -
  let ?k = "k\<lparr>b_stack := r\<rparr>"
  note alone = stack_top_alone [OF inv st, simplified]
  note ids = buffer_inv_parts(1) [OF inv] and stk = buffer_inv_parts(3) [OF inv]
  show w: "\<not> window (k\<lparr>b_stack := r\<rparr>) q" for q using alone(1) by (simp add: window_def)
  have w': "\<not> window k q" for q using alone(1) by (simp add: window_def st)
  show "\<not> branch_open ?k" using alone(2) by (auto simp: branch_open_def)
  have "inv_stack ?k" using stk w w' unfolding inv_stack_def by (auto simp: st)
  moreover have "inv_seq ?k" using buffer_inv_parts(4) [OF inv] w w' by (simp add: inv_seq_def)
  moreover have "inv_chain c ?k"
  proof -
    have al: "allowed c ?k x (b_pc k y)" if "allowed c k x (b_pc k y)" "x \<noteq> p \<or> \<not> b_ctl k p" for x y
      using that by (cases "b_ctl k x") (auto simp: allowed_def unresolved_def st split: if_splits)
    have alp: "allowed c ?k p (b_pc k y)" if "b_ctl k p" "following p (b_insts k) = Some y" "y \<in> set (b_insts k)" for y
      using that nxt stk alone(2) by (auto simp: allowed_def unresolved_def inv_stack_def st)
    have "successively (\<lambda>x y. allowed c ?k x (b_pc k y)) xs"
      if "successively (\<lambda>x y. allowed c k x (b_pc k y)) xs" "sorted_wrt (<) xs"
        "\<And>y. b_ctl k p \<Longrightarrow> following p xs = Some y \<Longrightarrow> y \<in> set xs \<Longrightarrow> allowed c ?k p (b_pc k y)" for xs
      using that
    proof (induction xs rule: induct_list012)
      case (3 x y zs)
      have "allowed c ?k x (b_pc k y)"
        using 3(3) 3(5) [of y] al by (cases "x = p") (auto simp: following_Cons)
      moreover have "successively (\<lambda>x y. allowed c ?k x (b_pc k y)) (y # zs)"
      proof (rule 3(2))
        show "allowed c ?k p (b_pc k z)" if "b_ctl k p" "following p (y # zs) = Some z" for z
          using that following_in [OF that(2)] 3(4) 3(5) [of z] by (auto simp: following_Cons [of p x])
      qed (use 3(3,4) in auto)
      ultimately show ?case by simp
    qed auto
    then have "successively (\<lambda>x y. allowed c ?k x (b_pc k y)) (b_insts k)"
      using buffer_inv_parts(8) [OF inv] ids alp by (simp add: inv_chain_def inv_ids_def)
    then show ?thesis using buffer_inv_parts(8) [OF inv] w w' by (simp add: inv_chain_def)
  qed
  ultimately show "buffer_inv c ?k"
    using inv by (simp add: buffer_inv_def inv_ids_def inv_static_def inv_issue_def inv_requests_def req_defs inv_refs_def inv_uses_def)
qed

section \<open>Commit and removal\<close>

definition b_commit :: "inst_id \<Rightarrow> frame callback list \<Rightarrow> buffer \<Rightarrow> buffer" where
  "b_commit p news k = k\<lparr>b_stat := (b_stat k)(p \<mapsto> (Retired, False)), b_committed := b_seq k p, b_tcpc := b_succ k p,
     b_stack := news @ Client (CommitRest p) # b_stack k\<rparr>"

lemma commit_inv:
  assumes inv: "buffer_inv c k" and B: "b_insts k = p # ps" and p: "b_stat k p = Some (ph, False)"
    and ok: "ph = Done \<or> ph = Pending \<and> \<not> b_ctl k p" and w: "\<And>q. \<not> window k q" and br: "\<not> branch_open k"
    and news: "list_all (above p) news" "list_all (\<lambda>cb. \<not> special cb \<and> cb \<noteq> Client (CommitLoop True)) news"
      "\<And>cb q. cb \<in> set news \<Longrightarrow> frame_inst cb = Some q \<Longrightarrow> was_issued k q"
  shows "buffer_inv c (b_commit p news k)" "inv_retry c k \<Longrightarrow> inv_retry c (b_commit p news k)"
proof -
  let ?k = "b_commit p news k"
  note iss = buffer_inv_parts(5) [OF inv]
  have nsp: "list_all (\<lambda>cb. \<not> special cb) news" using news(2) by (auto simp: list_all_iff)
  note ns = nonspecial_mem [OF nsp]
  have same: "b_live ?k = b_live k" "b_alive ?k = b_alive k" "b_ctl ?k = b_ctl k" "b_succ ?k = b_succ k" "b_issued ?k = b_issued k"
    "was_issued ?k = was_issued k"
    using p ok by (auto simp: b_commit_def b_defs fun_eq_iff b_succ_def)
  have fields: "b_insts ?k = b_insts k" "b_stack ?k = news @ Client (CommitRest p) # b_stack k" "b_reqs ?k = b_reqs k" "b_next ?k = b_next k"
    "b_pc ?k = b_pc k" "b_static ?k = b_static k" "b_tcpc ?k = b_succ k p" "b_unpred ?k = b_unpred k" "b_fault ?k = b_fault k"
    "b_seq ?k = b_seq k" "b_committed ?k = b_seq k p" "b_ser ?k = b_ser k" "b_bar ?k = b_bar k" "b_uses ?k = b_uses k"
    "b_retry ?k = b_retry k" "b_active ?k = b_active k" "b_retryPC ?k = b_retryPC k"
    by (simp_all add: b_commit_def)
  have w': "window ?k q \<longleftrightarrow> q = p" for q using ns w by (auto simp: window_def fields)
  have cmp: "b_complete ?k q \<longleftrightarrow> q = p \<or> b_complete k q" for q by (auto simp: b_commit_def b_defs)
  have stp: "b_stat ?k p = Some (Retired, False)" "\<And>q. q \<noteq> p \<Longrightarrow> b_stat ?k q = b_stat k q" by (simp_all add: b_commit_def)
  have al: "allowed c ?k q x = allowed c k q x" for q x
  proof -
    have "b_ctl k p \<Longrightarrow> b_complete k p" using ok p by (auto simp: b_at_def)
    then have "b_ctl k q \<Longrightarrow> unresolved ?k q = unresolved k q" using ns br by (auto simp: unresolved_def fields cmp branch_open_def)
    then show ?thesis by (cases "b_ctl k q") (simp_all add: allowed_def same)
  qed
  have "inv_ids ?k" "inv_static ?k" "inv_refs ?k" "inv_uses ?k"
    using buffer_inv_parts(1,2,7,9) [OF inv]
    by (simp_all add: inv_ids_def inv_static_def inv_refs_def inv_uses_def same fields)
  moreover have "inv_chain c ?k" using buffer_inv_parts(8) [OF inv] by (auto simp: inv_chain_def fields al w')
  moreover have "inv_seq ?k"
  proof -
    have "b_seq k p = b_committed k + 1"
      using buffer_inv_parts(4) [OF inv] w by (simp add: inv_seq_def B upt_rec)
    then show ?thesis using buffer_inv_parts(4) [OF inv] w by (simp add: inv_seq_def fields w')
  qed
  moreover have "inv_stack ?k"
  proof -
    note stk = buffer_inv_parts(3) [OF inv]
    have "stack_ok (b_ctl k) (Client (CommitRest p) # b_stack k)"
      using stk w br by (auto simp: inv_stack_def window_def branch_open_def)
    then have "stack_ok (b_ctl k) (news @ Client (CommitRest p) # b_stack k)"
      by (rule stack_ok_append [OF _ nsp]) (use news(1) br w in \<open>auto simp: window_def branch_open_def\<close>)
    moreover have "was_issued k p"
      using p ok inv_ids_less(2) [OF buffer_inv_parts(1) [OF inv], of p] by (auto simp: was_issued_def b_defs)
    moreover have "q = p" if "b_at (\<lambda>s. s = Retired) ?k q" "q \<in> set (b_insts k)" for q
      using that stk w stp by (cases "q = p") (auto simp: inv_stack_def b_at_def)
    ultimately show ?thesis using stk news(3) ns br unfolding inv_stack_def same fields w'
      by (auto simp: B stp branch_open_def)
  qed
  moreover have "inv_issue ?k"
  proof -
    have "b_at P ?k q = b_at P k q" if "q \<notin> set (b_insts k)" for P q
      using that B by (auto simp: b_commit_def b_at_def)
    then show ?thesis using iss unfolding inv_issue_def same fields by simp
  qed
  moreover have "inv_requests c ?k"
    using buffer_inv_parts(6) [OF inv] unfolding inv_requests_def req_defs same fields cmp by blast
  ultimately show "buffer_inv c ?k" by (simp add: buffer_inv_def)
  show "inv_retry c ?k" if r: "inv_retry c k"
    using r B by (auto simp: inv_retry_def extends_def same fields al cmp)
qed

definition b_retire :: "inst_id list \<Rightarrow> frame callback list \<Rightarrow> buffer \<Rightarrow> buffer" where
  "b_retire ps r k = k\<lparr>b_insts := ps, b_stack := Client (CommitLoop True) # r\<rparr>"

lemma retire_inv:
  assumes inv: "buffer_inv c k" and st: "b_stack k = Client (CommitRest p) # r" and B: "b_insts k = q # ps"
  shows "q = p" "buffer_inv c (b_retire ps r k)" "inv_retry c k \<Longrightarrow> inv_retry c (b_retire ps r k)"
proof -
  let ?k = "b_retire ps r k"
  note alone = stack_top_alone [OF inv st, simplified]
  note stk = buffer_inv_parts(3) [OF inv] and iss = buffer_inv_parts(5) [OF inv]
  have wp: "window k p" by (simp add: window_def st)
  then show qp: "q = p" using stk B by (auto simp: inv_stack_def)
  have p: "b_stat k p = Some (Retired, False)" "location (b_tcpc k) = location (b_succ k p)"
    using stk wp B by (auto simp: inv_stack_def)
  have same: "b_live ?k = b_live k" "b_alive ?k = b_alive k" "b_ctl ?k = b_ctl k" "b_succ ?k = b_succ k" "b_at P ?k = b_at P k"
    "was_issued ?k = was_issued k" for P
    by (auto simp: b_retire_def b_defs fun_eq_iff b_succ_def)
  have fields: "b_insts ?k = ps" "b_stack ?k = Client (CommitLoop True) # r" "b_reqs ?k = b_reqs k" "b_next ?k = b_next k"
    "b_pc ?k = b_pc k" "b_static ?k = b_static k" "b_tcpc ?k = b_tcpc k" "b_unpred ?k = b_unpred k" "b_fault ?k = b_fault k"
    "b_seq ?k = b_seq k" "b_committed ?k = b_committed k" "b_ser ?k = b_ser k" "b_bar ?k = b_bar k" "b_uses ?k = b_uses k"
    "b_retry ?k = b_retry k" "b_active ?k = b_active k" "b_retryPC ?k = b_retryPC k" "b_stat ?k = b_stat k"
    by (simp_all add: b_retire_def)
  have w: "\<not> window ?k x" for x using alone(1) by (simp add: window_def fields)
  have srt: "sorted_wrt (<) (p # ps)" using buffer_inv_parts(1) [OF inv] B qp by (simp add: inv_ids_def)
  have pl: "b_live k p" "b_issued k p" "b_complete k p" using p(1) by (simp_all add: b_defs)
  have pr: "b_ctl k p \<Longrightarrow> \<not> unresolved k p" using alone(2) pl by (auto simp: unresolved_def st)
  have al: "allowed c ?k x s = allowed c k x s" for x s
    by (auto simp: allowed_def unresolved_def same fields st)
  have nxt: "allowed c k p s \<Longrightarrow> location s = location (b_tcpc k)" for s using pr p(2) by (auto simp: allowed_def)
  have "inv_ids ?k" "inv_static ?k" "inv_refs ?k"
    using buffer_inv_parts(1,2,7) [OF inv] B by (simp_all add: inv_ids_def inv_static_def inv_refs_def same fields)
  moreover have "inv_chain c ?k"
    using buffer_inv_parts(8) [OF inv] nxt qp unfolding inv_chain_def fields al B by (cases ps) auto
  moreover have "inv_seq ?k"
  proof -
    have "map (b_seq k) (p # ps) = map (\<lambda>i. b_committed k + of_nat i) [0..<length (p # ps)]"
      using buffer_inv_parts(4) [OF inv] wp qp by (auto simp: inv_seq_def B)
    then have "map (b_seq k) ps = map (\<lambda>i. b_committed k + of_nat (Suc i)) [0..<length ps]"
      by (simp add: map_upt_Suc del: upt_Suc map_eq_conv)
    then show ?thesis using w by (simp add: inv_seq_def fields add.assoc add.left_commute del: map_eq_conv)
  qed
  moreover have "inv_stack ?k"
    using stk alone w srt unfolding inv_stack_def same fields by (auto simp: B qp window_def st)
  moreover have "inv_issue ?k"
  proof -
    have E1: "ps \<noteq> [] \<and> x = last ps \<and> b_next k = Suc x" if "b_live k x" "\<not> b_issued k x" for x
    proof -
      have "x = last (q # ps) \<and> b_next k = Suc x" using that iss unfolding inv_issue_def B by blast
      then show ?thesis using that(2) pl(2) qp by (cases "ps = []") auto
    qed
    have E2: "x = last ps \<and> b_fault k x \<noteq> None" if "x \<in> set ps" "\<not> b_live k x" for x
    proof -
      have "x = last (q # ps) \<and> b_fault k x \<noteq> None" using that iss unfolding inv_issue_def B by (meson list.set_intros(2))
      then show ?thesis using that(1) by auto
    qed
    have E3: "b_at (\<lambda>s. s = Retired) k x \<or> b_at (\<lambda>s. s = Done) k x \<and> (\<exists>si. b_static k x = Some si \<and> isStore si)"
      if "b_live k x" "x \<notin> set ps" for x
    proof (cases "x = p")
      case True
      then show ?thesis using p(1) by (simp add: b_at_def)
    next
      case False
      then have "x \<notin> set (q # ps)" using that(2) qp by simp
      then show ?thesis using that(1) iss unfolding inv_issue_def B by blast
    qed
    show ?thesis unfolding inv_issue_def same fields
      by (intro conjI) (use E1 in blast, use E2 in blast, use iss B in \<open>simp add: inv_issue_def\<close>, use E3 in blast)
  qed
  moreover have "inv_requests c ?k"
  proof -
    note rq = buffer_inv_parts(6) [OF inv]
    have "inv_pred c ?k" using rq pl qp unfolding inv_requests_def inv_pred_def same fields B by (cases "ps = []") auto
    then show ?thesis using rq by (simp add: inv_requests_def inv_fetch_def inv_late_def inv_unpred_def inv_activate_def same fields B)
  qed
  moreover have "inv_uses ?k"
    using buffer_inv_parts(9) [OF inv] unfolding inv_uses_def same fields B
    by (cases "ps = []") (auto split: option.splits if_splits)
  ultimately show "buffer_inv c ?k" by (simp add: buffer_inv_def)
  show "inv_retry c ?k" if r: "inv_retry c k"
  proof (cases "ps = []")
    case True
    then show ?thesis using r nxt qp unfolding inv_retry_def extends_def same fields al B by auto
  next
    case False
    then show ?thesis using r unfolding inv_retry_def extends_def same fields al B by auto
  qed
qed

section \<open>Squashing and faults\<close>

definition b_squash :: "inst_id list \<Rightarrow> buffer \<Rightarrow> buffer" where
  "b_squash xs k = k\<lparr>b_insts := xs, b_stat := (\<lambda>q. if q \<in> set (b_insts k) \<and> q \<notin> set xs
     then map_option (\<lambda>(s, _). (s, True)) (b_stat k q) else b_stat k q)\<rparr>"

lemma squash_inv:
  assumes inv: "buffer_inv c k" and B: "b_insts k = xs @ ds"
    and cr: "\<And>q. Client (CompletedRest q) \<in> set (b_stack k) \<Longrightarrow> b_ctl k q \<Longrightarrow> q \<in> set xs"
  shows "order_inv c (b_squash xs k)"
proof -
  let ?k = "b_squash xs k"
  note stk = buffer_inv_parts(3) [OF inv] and iss = buffer_inv_parts(5) [OF inv]
  have srt: "sorted_wrt (<) (xs @ ds)" using buffer_inv_parts(1) [OF inv] B by (simp add: inv_ids_def)
  then have dis: "q \<in> set xs \<Longrightarrow> q \<notin> set ds" for q by (auto simp: sorted_wrt_append)
  have st: "b_stat ?k q = (if q \<in> set ds then map_option (\<lambda>(s, _). (s, True)) (b_stat k q) else b_stat k q)" for q
    using dis by (auto simp: b_squash_def B)
  have same: "b_alive ?k = b_alive k" "b_ctl ?k = b_ctl k" "b_succ ?k = b_succ k" "b_at P ?k = b_at P k"
    "was_issued ?k = was_issued k" "window ?k = window k" for P
    by (auto simp: b_squash_def b_defs fun_eq_iff b_succ_def split: option.splits)
  have live: "b_live ?k q \<longleftrightarrow> b_live k q \<and> q \<notin> set ds" for q using st [of q] by (auto simp: b_live_def split: option.splits)
  have fields: "b_insts ?k = xs" "b_stack ?k = b_stack k" "b_reqs ?k = b_reqs k" "b_next ?k = b_next k"
    "b_pc ?k = b_pc k" "b_static ?k = b_static k" "b_tcpc ?k = b_tcpc k" "b_unpred ?k = b_unpred k" "b_fault ?k = b_fault k"
    "b_seq ?k = b_seq k" "b_committed ?k = b_committed k" "b_ser ?k = b_ser k" "b_bar ?k = b_bar k" "b_uses ?k = b_uses k"
    by (simp_all add: b_squash_def)
  have al: "allowed c ?k x s = allowed c k x s" for x s by (simp only: allowed_def unresolved_def same fields)
  have lst: "ds = []" if "x = last (xs @ ds)" "x \<notin> set ds" for x using that by (metis last_appendR last_in_set)
  have "inv_ids ?k" "inv_static ?k" "inv_refs ?k"
    using buffer_inv_parts(1,2,7) [OF inv] srt B
    by (simp_all add: inv_ids_def inv_static_def inv_refs_def same fields sorted_wrt_append)
  moreover have "inv_chain c ?k"
    using buffer_inv_parts(8) [OF inv] unfolding inv_chain_def same fields al B successively_append_iff by (cases xs) auto
  moreover have "inv_seq ?k"
  proof -
    have "map f xs = map g [0..<length xs]" if "map f (xs @ ds) = map g [0..<length (xs @ ds)]" for f :: "inst_id \<Rightarrow> 64 word" and g
    proof -
      have "map f xs = take (length xs) (map f (xs @ ds))" by simp
      also have "\<dots> = take (length xs) (map g [0..<length (xs @ ds)])" by (simp only: that)
      also have "\<dots> = map g [0..<length xs]" by (simp add: take_map)
      finally show ?thesis .
    qed
    then show ?thesis using buffer_inv_parts(4) [OF inv] unfolding inv_seq_def same fields B by blast
  qed
  moreover have "inv_stack ?k"
  proof -
    have "xs = [] \<or> hd xs = q \<and> b_stat ?k q = Some (Retired, False) \<and> location (b_tcpc k) = location (b_succ k q)" if "window k q" for q
      using that stk dis st [of q] by (cases xs) (auto simp: inv_stack_def B)
    then show ?thesis using stk cr live dis unfolding inv_stack_def same fields by (auto simp: B)
  qed
  moreover have "inv_issue ?k"
  proof -
    have E1: "xs \<noteq> [] \<and> x = last xs \<and> b_next k = Suc x" if "b_live k x \<and> x \<notin> set ds" "\<not> b_issued k x" for x
    proof -
      have x: "x = last (xs @ ds)" "b_next k = Suc x" "xs @ ds \<noteq> []" using that iss unfolding inv_issue_def B by blast+
      then have "ds = []" using lst that(1) by blast
      then show ?thesis using x by simp
    qed
    have E2: "x = last xs \<and> b_fault k x \<noteq> None" if "x \<in> set xs" "\<not> (b_live k x \<and> x \<notin> set ds)" for x
    proof -
      have x: "x = last (xs @ ds)" "b_fault k x \<noteq> None"
        using that dis iss unfolding inv_issue_def B by (metis UnI1 set_append)+
      then have "ds = []" using lst that(1) dis by blast
      then show ?thesis using x by simp
    qed
    have E3: "b_at (\<lambda>s. s = Retired) k x \<or> b_at (\<lambda>s. s = Done) k x \<and> (\<exists>si. b_static k x = Some si \<and> isStore si)"
      if "b_live k x \<and> x \<notin> set ds" "x \<notin> set xs" for x
    proof -
      have "x \<notin> set (xs @ ds)" using that by simp
      then show ?thesis using that(1) iss unfolding inv_issue_def B by blast
    qed
    show ?thesis unfolding inv_issue_def same fields live
      by (intro conjI) (use E1 in blast, use E2 in blast, use iss B in \<open>simp add: inv_issue_def\<close>, use E3 in blast)
  qed
  moreover have "inv_requests c ?k"
  proof -
    note rq = buffer_inv_parts(6) [OF inv]
    have "inv_pred c ?k" unfolding inv_pred_def same fields live
    proof (intro conjI allI impI)
      fix p
      assume b: "BranchPredictor p \<in> set (b_reqs k)"
      show "hasBranchPredictor c" "b_ctl k p" using rq b by (auto simp: inv_requests_def inv_pred_def)
      assume l: "b_live k p \<and> p \<notin> set ds" "\<not> b_complete k p"
      have x: "p = last (xs @ ds)" "xs @ ds \<noteq> []" using rq b l unfolding inv_requests_def inv_pred_def B by blast+
      then have "ds = []" using lst l(1) by blast
      then show "xs \<noteq> []" "p = last xs" using x by simp_all
    qed (use rq in \<open>auto simp: inv_requests_def inv_pred_def\<close>)
    then show ?thesis using rq unfolding inv_requests_def inv_fetch_def inv_late_def inv_unpred_def inv_activate_def same fields live B by blast
  qed
  ultimately show ?thesis by (simp add: order_inv_def)
qed

definition b_faulty :: "inst_id \<Rightarrow> phase \<Rightarrow> fault \<Rightarrow> buffer \<Rightarrow> buffer" where
  "b_faulty p ph f k = k\<lparr>b_stat := (b_stat k)(p \<mapsto> (ph, True)), b_fault := (b_fault k)(p := Some f)\<rparr>"

lemma faulty_inv:
  assumes inv: "order_inv c k" and p: "b_stat k p = Some (ph, sq)" and lst: "b_insts k = [] \<or> p = last (b_insts k)"
    and w: "\<not> window k p" and br: "\<not> branch_open k"
  shows "buffer_inv c (b_faulty p ph f k)"
proof -
  let ?k = "b_faulty p ph f k"
  note stk = order_inv_parts(3) [OF inv] and iss = order_inv_parts(5) [OF inv]
  have same: "b_alive ?k = b_alive k" "b_ctl ?k = b_ctl k" "b_succ ?k = b_succ k" "b_at P ?k = b_at P k"
    "was_issued ?k = was_issued k" "window ?k = window k" for P
    using p by (auto simp: b_faulty_def b_defs fun_eq_iff b_succ_def)
  have live: "b_live ?k q \<longleftrightarrow> b_live k q \<and> q \<noteq> p" for q by (simp add: b_faulty_def b_live_def)
  have fields: "b_insts ?k = b_insts k" "b_stack ?k = b_stack k" "b_reqs ?k = b_reqs k" "b_next ?k = b_next k"
    "b_pc ?k = b_pc k" "b_static ?k = b_static k" "b_tcpc ?k = b_tcpc k" "b_unpred ?k = b_unpred k"
    "b_fault ?k q = (if q = p then Some f else b_fault k q)"
    "b_seq ?k = b_seq k" "b_committed ?k = b_committed k" "b_ser ?k = b_ser k" "b_bar ?k = b_bar k" "b_uses ?k = b_uses k" for q
    by (simp_all add: b_faulty_def)
  have al: "allowed c ?k x s = allowed c k x s" for x s by (simp only: allowed_def unresolved_def same fields)
  have "inv_ids ?k" "inv_static ?k" "inv_refs ?k" "inv_chain c ?k" "inv_seq ?k"
    using order_inv_parts(1,2,4,7,8) [OF inv]
    by (simp_all add: inv_ids_def inv_static_def inv_refs_def inv_chain_def inv_seq_def same fields al)
  moreover have "inv_uses ?k" using lst by (auto simp: inv_uses_def fields live)
  moreover have "inv_stack ?k"
  proof -
    have "b_stat ?k q = b_stat k q" if "window k q" for q using that w by (auto simp: b_faulty_def)
    moreover have "q \<noteq> p" if "Client (CompletedRest q) \<in> set (b_stack k)" "b_ctl k q" for q using that br by (auto simp: branch_open_def)
    ultimately show ?thesis using stk unfolding inv_stack_def same fields live by fastforce
  qed
  moreover have "inv_issue ?k"
  proof -
    have E1: "b_insts k \<noteq> [] \<and> x = last (b_insts k) \<and> b_next k = Suc x" if "b_live k x \<and> x \<noteq> p" "\<not> b_issued k x" for x
      using that iss unfolding inv_issue_def by blast
    have E2: "x = last (b_insts k) \<and> (if x = p then Some f else b_fault k x) \<noteq> None" if "x \<in> set (b_insts k)" "\<not> (b_live k x \<and> x \<noteq> p)" for x
    proof (cases "x = p")
      case True
      then have "b_insts k \<noteq> []" using that(1) by auto
      then show ?thesis using True lst by simp
    next
      case False
      then have "x = last (b_insts k) \<and> b_fault k x \<noteq> None" using that iss unfolding inv_issue_def by blast
      then show ?thesis using False by auto
    qed
    show ?thesis unfolding inv_issue_def same fields live
      by (intro conjI) (use E1 in blast, use E2 in blast, use iss in \<open>simp add: inv_issue_def\<close>, use iss in \<open>simp add: inv_issue_def\<close>)
  qed
  moreover have "inv_requests c ?k"
    using order_inv_parts(6) [OF inv] unfolding inv_requests_def req_defs same fields live by blast
  ultimately show ?thesis by (simp add: buffer_inv_def)
qed

text \<open>After a fault has been handled the buffer is empty and the committed state is what the handler left.\<close>

lemma clear_inv:
  assumes inv: "buffer_inv c k" and dead: "\<And>p. p \<in> set (b_insts k) \<Longrightarrow> \<not> b_live k p"
    and w: "\<And>p. \<not> window k p" and br: "\<not> branch_open k"
  shows "buffer_inv c (k\<lparr>b_insts := [], b_active := a, b_tcpc := s\<rparr>)"
proof -
  let ?k = "k\<lparr>b_insts := [], b_active := a, b_tcpc := s\<rparr>"
  have same: "b_alive ?k = b_alive k" "b_ctl ?k = b_ctl k" "b_at P ?k = b_at P k" "b_live ?k = b_live k"
    "was_issued ?k = was_issued k" "window ?k = window k" for P
    by (auto simp: b_defs fun_eq_iff)
  have iss: "b_at (\<lambda>s. s = Retired) k p \<or> b_at (\<lambda>s. s = Done) k p \<and> (\<exists>si. b_static k p = Some si \<and> isStore si)" "b_issued k p"
    if "b_live k p" for p
  proof -
    have n: "p \<notin> set (b_insts k)" using that dead by blast
    then show "b_at (\<lambda>s. s = Retired) k p \<or> b_at (\<lambda>s. s = Done) k p \<and> (\<exists>si. b_static k p = Some si \<and> isStore si)"
      using that buffer_inv_parts(5) [OF inv] unfolding inv_issue_def by blast
    then show "b_issued k p" by (auto simp: b_at_def split: option.splits)
  qed
  have "inv_ids ?k" "inv_static ?k" "inv_refs ?k" "inv_seq ?k" "inv_chain c ?k" "inv_uses ?k"
    using buffer_inv_parts(1,2,7) [OF inv]
    by (simp_all add: inv_ids_def inv_static_def inv_refs_def inv_seq_def inv_chain_def inv_uses_def same)
  moreover have "inv_issue ?k" using iss unfolding inv_issue_def same by auto
  moreover have "inv_stack ?k"
    using buffer_inv_parts(3) [OF inv] w br unfolding inv_stack_def same branch_open_def by auto
  moreover have "inv_requests c ?k"
  proof -
    note rq = buffer_inv_parts(6) [OF inv]
    have "b_complete k p" if "BranchPredictor p \<in> set (b_reqs k)" "b_live k p" for p
      using iss(1) [OF that(2)] by (auto simp: b_at_def split: option.splits)
    then have "inv_pred c ?k" using rq unfolding inv_requests_def inv_pred_def same by auto
    then show ?thesis using rq by (simp add: inv_requests_def inv_fetch_def inv_late_def inv_unpred_def inv_activate_def same)
  qed
  ultimately show ?thesis by (simp add: buffer_inv_def)
qed

text \<open>Executing an instruction keeps its address; only a branch may change its successor, and only while it is not resolved.\<close>

lemma setpc_inv:
  assumes inv: "buffer_inv c k" and s: "location s = location (b_pc k p)"
    and ctl: "b_ctl k p \<Longrightarrow> b_live k p \<Longrightarrow> unresolved k p"
    and nctl: "\<And>si. b_static k p = Some si \<Longrightarrow> \<not> isControl si \<Longrightarrow> location (advancePC si s) = location (b_succ k p)"
    and iss: "b_issued k p" and w: "\<not> window k p"
  shows "buffer_inv c (k\<lparr>b_pc := (b_pc k)(p := s)\<rparr>)" "inv_retry c k \<Longrightarrow> inv_retry c (k\<lparr>b_pc := (b_pc k)(p := s)\<rparr>)"
proof -
  let ?k = "k\<lparr>b_pc := (b_pc k)(p := s)\<rparr>"
  have same: "b_alive ?k = b_alive k" "b_ctl ?k = b_ctl k" "b_at P ?k = b_at P k" "b_live ?k = b_live k"
    "was_issued ?k = was_issued k" "window ?k = window k" "unresolved ?k = unresolved k" for P
    by (auto simp: b_defs fun_eq_iff unresolved_def)
  obtain si where si: "b_static k p = Some si" using buffer_inv_parts(2) [OF inv] iss by (auto simp: inv_static_def)
  have suc: "location (b_succ ?k q) = location (b_succ k q)" if "q \<noteq> p \<or> \<not> b_ctl k p" for q
    using that nctl si by (cases "q = p") (auto simp: b_succ_def b_ctl_def)
  have pc: "location (b_pc ?k q) = location (b_pc k q)" for q using s by simp
  have al: "allowed c ?k q x \<longleftrightarrow> allowed c k q y" if "q \<noteq> p \<or> b_live k q" "location x = location y" for q x y
    using that ctl suc [of q] by (cases "q = p") (auto simp: allowed_def same)
  have nl: "q < x \<Longrightarrow> x \<in> set (b_insts k) \<Longrightarrow> q \<in> set (b_insts k) \<Longrightarrow> b_live k q" for q x
    using buffer_inv_parts(1,5) [OF inv] sorted_le_last [of "b_insts k" x] unfolding inv_issue_def inv_ids_def by (metis leD)
  have "inv_ids ?k" "inv_static ?k" "inv_refs ?k" "inv_seq ?k" "inv_uses ?k" "inv_issue ?k" "inv_requests c ?k"
    using buffer_inv_parts(1,2,4,5,6,7,9) [OF inv]
    by (simp_all add: inv_ids_def inv_static_def inv_refs_def inv_seq_def inv_uses_def inv_issue_def inv_requests_def req_defs same)
  moreover have "inv_stack ?k"
  proof -
    have "location (b_succ ?k q) = location (b_succ k q)" if "window k q" for q using that w by (intro suc) auto
    then show ?thesis using buffer_inv_parts(3) [OF inv] unfolding inv_stack_def same by auto
  qed
  moreover have "inv_chain c ?k"
  proof -
    have srt: "sorted_wrt (<) (b_insts k)" using buffer_inv_parts(1) [OF inv] by (simp add: inv_ids_def)
    have "successively (\<lambda>x y. allowed c k x (b_pc k y)) (b_insts k)" using buffer_inv_parts(8) [OF inv] by (simp add: inv_chain_def)
    then have "successively (\<lambda>x y. allowed c ?k x (b_pc ?k y)) (b_insts k)"
      by (rule successively_cong2 [OF _ srt]) (use al nl pc in blast)
    then show ?thesis using buffer_inv_parts(8) [OF inv] pc unfolding inv_chain_def same by simp
  qed
  ultimately show "buffer_inv c ?k" by (simp add: buffer_inv_def)
  have "b_live k q \<Longrightarrow> allowed c ?k q x = allowed c k q x" for q x using al by blast
  then show "inv_retry c ?k" if "inv_retry c k"
    using that unfolding inv_retry_def extends_def same by auto
qed

text \<open>An object that nobody holds any more disappears.\<close>

lemma reap_inv:
  assumes inv: "buffer_inv c k" and p: "p \<notin> set (b_insts k)"
  shows "buffer_inv c (k\<lparr>b_stat := (b_stat k)(p := None)\<rparr>)" "inv_retry c k \<Longrightarrow> inv_retry c (k\<lparr>b_stat := (b_stat k)(p := None)\<rparr>)"
proof -
  let ?k = "k\<lparr>b_stat := (b_stat k)(p := None)\<rparr>"
  have same: "b_ctl ?k = b_ctl k" "window ?k = window k" "b_succ ?k = b_succ k" by (auto simp: b_defs fun_eq_iff b_succ_def)
  have fields: "b_ser ?k = b_ser k" "b_bar ?k = b_bar k" "b_uses ?k = b_uses k" "b_reqs ?k = b_reqs k" "b_next ?k = b_next k"
    "b_insts ?k = b_insts k" "b_unpred ?k = b_unpred k" "b_fault ?k = b_fault k" "b_static ?k = b_static k"
    by simp_all
  have at: "b_at P ?k q \<longleftrightarrow> b_at P k q \<and> q \<noteq> p" "b_live ?k q \<longleftrightarrow> b_live k q \<and> q \<noteq> p" "b_alive ?k q \<longleftrightarrow> b_alive k q \<and> q \<noteq> p" for P q
    by (auto simp: b_defs)
  have was: "was_issued k q \<Longrightarrow> was_issued ?k q" for q by (auto simp: was_issued_def at)
  have ne: "q \<in> set (b_insts k) \<Longrightarrow> q \<noteq> p" for q using p by blast
  have al: "allowed c ?k q x = allowed c k q x" if "q \<in> set (b_insts k)" for q x
    using ne [OF that] by (auto simp: allowed_def unresolved_def same at)
  have lst: "b_insts k \<noteq> [] \<Longrightarrow> last (b_insts k) \<in> set (b_insts k)" by simp
  have "inv_ids ?k" "inv_static ?k" "inv_seq ?k"
    using buffer_inv_parts(1,2,4) [OF inv] ne by (auto simp: inv_ids_def inv_static_def inv_seq_def same at)
  moreover have "inv_refs ?k" using buffer_inv_parts(7) [OF inv] was unfolding inv_refs_def same fields by blast
  moreover have "inv_stack ?k"
  proof -
    have "window k p \<Longrightarrow> b_insts k = []" using buffer_inv_parts(3) [OF inv] p by (cases "b_insts k") (auto simp: inv_stack_def)
    then show ?thesis using buffer_inv_parts(3) [OF inv] was ne unfolding inv_stack_def same at by auto
  qed
  moreover have "inv_issue ?k"
    using buffer_inv_parts(5) [OF inv] unfolding inv_issue_def at fields by (intro conjI) (blast, metis ne, blast, blast)
  moreover have "inv_requests c ?k"
    using buffer_inv_parts(6) [OF inv] was unfolding inv_requests_def req_defs same at fields by blast
  moreover have "inv_chain c ?k"
  proof -
    have "successively (\<lambda>x y. allowed c ?k x (b_pc k y)) xs" if "successively (\<lambda>x y. allowed c k x (b_pc k y)) xs" "set xs \<subseteq> set (b_insts k)" for xs
      using that al by (induction xs rule: induct_list012) auto
    then show ?thesis using buffer_inv_parts(8) [OF inv] by (simp add: inv_chain_def same)
  qed
  moreover have "inv_uses ?k"
  proof -
    have "filter (b_issued ?k) (b_insts k) = filter (b_issued k) (b_insts k)" using ne by (auto simp: at intro!: filter_cong)
    then show ?thesis using buffer_inv_parts(9) [OF inv] ne lst by (auto simp: inv_uses_def at)
  qed
  ultimately show "buffer_inv c ?k" by (simp add: buffer_inv_def)
  show "inv_retry c ?k" if "inv_retry c k"
    using that ne lst al by (auto simp: inv_retry_def extends_def same at)
qed

lemma refs_inv:
  assumes "order_inv c k" "inv_refs (k\<lparr>b_ser := x, b_bar := y, b_uses := u\<rparr>)" "inv_uses (k\<lparr>b_ser := x, b_bar := y, b_uses := u\<rparr>)"
  shows "buffer_inv c (k\<lparr>b_ser := x, b_bar := y, b_uses := u\<rparr>)"
proof -
  let ?k = "k\<lparr>b_ser := x, b_bar := y, b_uses := u\<rparr>"
  have same: "b_alive ?k = b_alive k" "b_ctl ?k = b_ctl k" "b_at P ?k = b_at P k" "b_live ?k = b_live k" "b_succ ?k = b_succ k"
    "was_issued ?k = was_issued k" "window ?k = window k" "allowed c ?k = allowed c k" for P
    by (auto simp: b_defs fun_eq_iff unresolved_def allowed_def b_succ_def)
  show ?thesis using assms
    by (simp add: buffer_inv_def order_inv_def inv_ids_def inv_static_def inv_stack_def inv_seq_def inv_issue_def
        inv_requests_def req_defs inv_chain_def same)
qed

end
