(* ===== verification/Flex_Thread_Inv.thy ===== *)
theory Flex_Thread_Inv
  imports Flex_Buffer_Steps
begin

text \<open>
  Every step of a FlexCPU thread keeps the invariant of its instruction buffer: the operations of \<open>Flex_Thread\<close>
  are the elementary changes of \<open>Flex_Buffer_Steps\<close> on the abstract state \<open>core t\<close>, and the callbacks
  stored in an instruction only concern younger ones.
\<close>

section \<open>The abstract state under the operations of an instruction\<close>

lemma phase_simps [simp]:
  "phase_of Empty = Fetching" "phase_of Decoded = Fetching" "phase_of Issued = Pending" "phase_of IssuedTid = Pending"
  "phase_of Executing = Pending" "phase_of EffAddred = Pending" "phase_of Memorying = Pending" "phase_of Complete = Done"
  "phase_of Committed = Retired"
  by (simp_all add: phase_of_def less_Status_def)

lemma phase_of_iff:
  "phase_of s = Fetching \<longleftrightarrow> s < Issued" "phase_of s = Retired \<longleftrightarrow> s = Committed" "phase_of s = Done \<longleftrightarrow> s = Complete"
  "phase_of s = Pending \<longleftrightarrow> Issued \<le> s \<and> s < Complete"
  by (cases s; simp add: phase_of_def less_Status_def less_eq_Status_def)+

lemma core_fields [simp]:
  "b_insts (core t) = inflightInsts t" "b_stack (core t) = agenda (sys t)" "b_reqs (core t) = requests t"
  "b_next (core t) = next_id (sys t)" "b_pc (core t) p = pcState (info t p)" "b_static (core t) p = staticInst (info t p)"
  "b_seq (core t) p = seqNum (info t p)" "b_fault (core t) p = inst_fault (info t p)"
  "b_tcpc (core t) = tc_pc (committedState t)" "b_active (core t) = (tc_status (committedState t) = Active)"
  "b_retry (core t) = advanceInstNeedsRetry t" "b_retryPC (core t) = advanceInstRetryPC t" "b_unpred (core t) = unpredictedBranch t"
  "b_committed (core t) = lastCommittedInstNum t" "b_ser (core t) = lastSerializingInstruction t" "b_bar (core t) = lastMemBarrier t"
  "b_uses (core t) = lastUses t" "b_stat (core t) p = stat_of (store (sys t) p)"
  by (simp_all add: core_def)

lemma core_preds:
  "b_live (core t) p = live t p" "b_alive (core t) p = alive t p" "b_complete (core t) p = holds isComplete t p"
  "b_issued (core t) p = holds (\<lambda>i. Issued \<le> i_status i) t p" "b_at (\<lambda>s. s = Retired) (core t) p = holds isCommitted t p"
proof -
  show "b_live (core t) p = live t p" "b_alive (core t) p = alive t p"
    by (auto simp: b_live_def live_def holds_def b_alive_def alive_def stat_of_def split: option.splits)
  have "phase_of s = Done \<or> phase_of s = Retired \<longleftrightarrow> Complete \<le> s" "phase_of s \<noteq> Fetching \<longleftrightarrow> Issued \<le> s"
    "phase_of s = Retired \<longleftrightarrow> Committed \<le> s" for s
    by (cases s; simp add: phase_of_def less_Status_def less_eq_Status_def)+
  then show "b_complete (core t) p = holds isComplete t p" "b_issued (core t) p = holds (\<lambda>i. Issued \<le> i_status i) t p"
    "b_at (\<lambda>s. s = Retired) (core t) p = holds isCommitted t p"
    by (auto simp: b_at_def holds_def stat_of_def isComplete_def isCommitted_def split: option.splits)
qed

lemma core_act:
  assumes "store (sys t) p = Some i"
  shows "core (on_sys (act p f cbs) t)
    = (core t)\<lparr>b_stat := (b_stat (core t))(p := stat_of (Some (f i))), b_stack := cbs i @ agenda (sys t)\<rparr>"
  using assms by (auto simp: core_def on_sys_def act_def fun_eq_iff)

lemma core_act_same:
  assumes "\<And>i. stat_of (Some (f i)) = stat_of (Some i)"
  shows "core (on_sys (act p f (\<lambda>_. [])) t) = core t"
  by (cases "store (sys t) p") (auto simp: core_def on_sys_def act_def fun_eq_iff assms)

lemma core_callbacks [simp]:
  "core (on_sys (addBeginExecCallback p cb) t) = core t" "core (on_sys (addCommitCallback p cb) t) = core t"
  "core (on_sys (addCompletionCallback p cb) t) = core t" "core (on_sys (addEffAddrCalculatedCallback p cb) t) = core t"
  "core (on_sys (addReadyCallback p k) t) = core t" "core (on_sys (addMemReadyCallback p k) t) = core t"
  "core (on_sys (addSquashCallback p k) t) = core t" "core (on_sys (increment m p) t) = core t"
  unfolding addBeginExecCallback_def addCommitCallback_def addCompletionCallback_def addEffAddrCalculatedCallback_def
    addReadyCallback_def addMemReadyCallback_def addSquashCallback_def increment_def
  by (rule core_act_same, simp add: stat_of_def split: counter.splits)+

lemma on_sys_comp: "on_sys f (on_sys g t) = on_sys (\<lambda>s. f (g s)) t"
  by (simp add: on_sys_def)

lemma core_dependency [simp]:
  "core (on_sys (addDependency p q) t) = core t" "core (on_sys (addBeginExecDependency p q) t) = core t"
  "core (on_sys (addCommitDependency p q) t) = core t" "core (on_sys (addMemDependency p q) t) = core t"
  "core (on_sys (addMemCommitDependency p q) t) = core t" "core (on_sys (addMemEffAddrDependency p q) t) = core t"
proof -
  have e: "on_sys (\<lambda>s. s) t = t" "on_sys (\<lambda>s. addBeginExecCallback q cb (increment m p s)) t = on_sys (addBeginExecCallback q cb) (on_sys (increment m p) t)"
    "on_sys (\<lambda>s. addCommitCallback q cb (increment m p s)) t = on_sys (addCommitCallback q cb) (on_sys (increment m p) t)"
    "on_sys (\<lambda>s. addCompletionCallback q cb (increment m p s)) t = on_sys (addCompletionCallback q cb) (on_sys (increment m p) t)"
    "on_sys (\<lambda>s. addEffAddrCalculatedCallback q cb (increment m p s)) t = on_sys (addEffAddrCalculatedCallback q cb) (on_sys (increment m p) t)"
    for cb m
    by (simp_all add: on_sys_def)
  have ifs: "core (on_sys (\<lambda>s. case store s q of None \<Rightarrow> s | Some j \<Rightarrow> if P j then s else g s) t) = core t"
    if "core (on_sys g t) = core t" for P g
    using that by (auto simp: on_sys_def split: option.splits)
  show "core (on_sys (addDependency p q) t) = core t" "core (on_sys (addBeginExecDependency p q) t) = core t"
    "core (on_sys (addCommitDependency p q) t) = core t" "core (on_sys (addMemDependency p q) t) = core t"
    "core (on_sys (addMemCommitDependency p q) t) = core t" "core (on_sys (addMemEffAddrDependency p q) t) = core t"
    unfolding addDependency_def addBeginExecDependency_def addCommitDependency_def addMemDependency_def addMemCommitDependency_def
      addMemEffAddrDependency_def
    by (rule ifs, simp add: e)+
qed

section \<open>The callbacks stored in instructions\<close>

text \<open>Release callbacks concern younger instructions, branches are waited for by executions only, and the lambdas of the
  thread are about the instruction that stores them.\<close>

definition releases :: "counter set \<Rightarrow> inst_id \<Rightarrow> inst_id \<Rightarrow> frame callback \<Rightarrow> bool" where
  "releases ks x n cb \<longleftrightarrow> (\<exists>k q. cb = Release k q \<and> k \<in> ks \<and> x < q \<and> q < n)"

fun overlap_pair :: "frame callback \<Rightarrow> (inst_id \<times> inst_id) option" where
  "overlap_pair (Client (OverlapKnown p q)) = Some (p, q)"
| "overlap_pair (Client (OverlapInst p q)) = Some (p, q)"
| "overlap_pair (Client (OverlapOther p q)) = Some (p, q)"
| "overlap_pair _ = None"

fun mem_frame :: "frame callback \<Rightarrow> inst_id option" where
  "mem_frame (Client (SendToMemory p a)) = Some p"
| "mem_frame (Client (EffAddrRest p a)) = Some p"
| "mem_frame _ = None"

fun mem_request :: "cpu_request \<Rightarrow> inst_id option" where
  "mem_request (DataAddrTranslation p r a h) = Some p"
| "mem_request (MemAccess p a) = Some p"
| "mem_request _ = None"

text \<open>An instruction that was issued and is not a branch.\<close>

definition mem_inst :: "buffer \<Rightarrow> inst_id option \<Rightarrow> bool" where
  "mem_inst k x \<longleftrightarrow> (\<forall>p. x = Some p \<longrightarrow> was_issued k p \<and> \<not> b_ctl k p)"

definition overlap_ok :: "buffer \<Rightarrow> frame callback \<Rightarrow> bool" where
  "overlap_ok k cb \<longleftrightarrow> (case overlap_pair cb of None \<Rightarrow> mem_inst k (mem_frame cb)
     | Some (p, q) \<Rightarrow> q < p \<and> p < b_next k \<and> \<not> b_ctl k q \<and> was_issued k q)"

definition inst_cbs :: "buffer \<Rightarrow> inst_id \<Rightarrow> frame inflight_inst \<Rightarrow> bool" where
  "inst_cbs k x i \<longleftrightarrow> list_all (releases {Exec} x (b_next k)) (beginExecCallbacks i)
     \<and> list_all (releases (if b_ctl k x then {Exec} else UNIV) x (b_next k)) (completionCallbacks i)
     \<and> list_all (releases UNIV x (b_next k)) (commitCallbacks i)
     \<and> list_all (\<lambda>cb. releases UNIV x (b_next k) cb \<or> overlap_pair cb \<noteq> None \<and> overlap_ok k cb) (effAddrCalculatedCallbacks i)
     \<and> list_all (\<lambda>f. f = ExecuteInstruction x) (readyCallbacks i) \<and> (readyCallbacks i \<noteq> [] \<longrightarrow> b_issued k x)
     \<and> list_all (\<lambda>f. \<exists>a. f = SendToMemory x a) (memReadyCallbacks i) \<and> (memReadyCallbacks i \<noteq> [] \<longrightarrow> b_issued k x \<and> \<not> b_ctl k x)"

definition cb_ok :: "thread \<Rightarrow> bool" where
  "cb_ok t \<longleftrightarrow> (\<forall>x i. store (sys t) x = Some i \<longrightarrow> inst_cbs (core t) x i) \<and> list_all (overlap_ok (core t)) (agenda (sys t))
     \<and> list_all (\<lambda>r. mem_inst (core t) (mem_request r)) (requests t)"

definition thread_inv :: "cpu \<Rightarrow> thread \<Rightarrow> bool" where
  "thread_inv c t \<longleftrightarrow> buffer_inv c (core t) \<and> inv_retry c (core t) \<and> cb_ok t"

text \<open>What the callbacks say stays true when the abstract state moves on.\<close>

definition later :: "buffer \<Rightarrow> buffer \<Rightarrow> bool" where
  "later k k' \<longleftrightarrow> b_next k \<le> b_next k' \<and> (\<forall>p. was_issued k p \<longrightarrow> was_issued k' p \<and> (b_ctl k' p \<longleftrightarrow> b_ctl k p))"

lemma later_refl [simp]: "later k k"
  by (simp add: later_def)

lemma later_trans: "later k k' \<Longrightarrow> later k' k'' \<Longrightarrow> later k k''"
  by (auto simp: later_def)

lemma releases_mono: "releases ks x n cb \<Longrightarrow> n \<le> m \<Longrightarrow> releases ks x m cb"
  by (auto simp: releases_def)

lemma mem_inst_later: "mem_inst k x \<Longrightarrow> later k k' \<Longrightarrow> mem_inst k' x"
  by (auto simp: mem_inst_def later_def)

lemma overlap_ok_simple: "overlap_pair cb = None \<Longrightarrow> mem_frame cb = None \<Longrightarrow> overlap_ok k cb"
  by (simp add: overlap_ok_def mem_inst_def)

lemma mem_inst_None [simp]: "mem_inst k None"
  by (simp add: mem_inst_def)

lemma overlap_ok_later: "overlap_ok k cb \<Longrightarrow> later k k' \<Longrightarrow> overlap_ok k' cb"
  by (auto simp: overlap_ok_def later_def mem_inst_def split: option.splits prod.splits)

lemma inst_cbs_later:
  assumes "inst_cbs k x i" "later k k'" "b_issued k x \<Longrightarrow> b_issued k' x" "b_ctl k' x = b_ctl k x \<or> b_next k = Suc x"
  shows "inst_cbs k' x i"
proof -
  have n: "b_next k \<le> b_next k'" using assms(2) by (simp add: later_def)
  note r = releases_mono [OF _ n]
  have "list_all (releases (if b_ctl k' x then {Exec} else UNIV) x (b_next k')) (completionCallbacks i)"
  proof (cases "b_ctl k' x = b_ctl k x")
    case True
    then show ?thesis using assms(1) r by (auto simp: inst_cbs_def list_all_iff)
  next
    case False
    then have "b_next k = Suc x" using assms(4) by blast
    then have "completionCallbacks i = []"
      using assms(1) by (cases "completionCallbacks i") (auto simp: inst_cbs_def releases_def)
    then show ?thesis by simp
  qed
  moreover have "\<not> b_ctl k' x" if "b_issued k x" "\<not> b_ctl k x"
    using that assms(2,4) by (auto simp: later_def was_issued_def)
  ultimately show ?thesis using assms(1,3) r overlap_ok_later [OF _ assms(2)] unfolding inst_cbs_def list_all_iff by blast
qed

text \<open>If the objects are the same, it is enough that the abstract state moved on.\<close>

lemma cb_ok_later:
  assumes "cb_ok t" "\<And>x i'. store (sys t') x = Some i' \<Longrightarrow> \<exists>i. store (sys t) x = Some i \<and> (inst_cbs (core t') x i \<longrightarrow> inst_cbs (core t') x i')"
    and "later (core t) (core t')" "\<And>x. b_issued (core t) x \<Longrightarrow> alive t' x \<Longrightarrow> b_issued (core t') x"
    and "\<And>x. alive t x \<Longrightarrow> b_ctl (core t') x = b_ctl (core t) x \<or> next_id (sys t) = Suc x"
    and "\<And>cb. cb \<in> set (agenda (sys t')) \<Longrightarrow> overlap_ok (core t') cb"
    and "\<And>r. r \<in> set (requests t') \<Longrightarrow> r \<in> set (requests t) \<or> mem_inst (core t) (mem_request r)"
  shows "cb_ok t'"
  unfolding cb_ok_def
proof (intro conjI allI impI)
  fix x i'
  assume x: "store (sys t') x = Some i'"
  then obtain i where i: "store (sys t) x = Some i" "inst_cbs (core t') x i \<longrightarrow> inst_cbs (core t') x i'" using assms(2) by blast
  then have "inst_cbs (core t) x i" using assms(1) by (simp add: cb_ok_def)
  then have "inst_cbs (core t') x i"
    by (rule inst_cbs_later) (use assms(3-5) x i in \<open>auto simp: alive_def\<close>)
  then show "inst_cbs (core t') x i'" using i(2) by blast
next
  show "list_all (\<lambda>r. mem_inst (core t') (mem_request r)) (requests t')"
    using assms(1,7) mem_inst_later [OF _ assms(3)] unfolding cb_ok_def list_all_iff by blast
qed (use assms(6) in \<open>simp add: list_all_iff\<close>)

lemma same_objects:
  assumes "b_next k' = b_next k" "b_stat k' = b_stat k" "b_static k' = b_static k"
  shows "later k k'" "b_ctl k' = b_ctl k" "b_at P k' = b_at P k" "was_issued k' = was_issued k" "b_live k' = b_live k" "b_alive k' = b_alive k"
  using assms by (auto simp: later_def b_defs fun_eq_iff)

lemma cb_ok_same:
  assumes "cb_ok t" "store (sys t') = store (sys t)" "next_id (sys t') = next_id (sys t)" "\<And>p. static t' p = static t p"
    and "\<And>cb. cb \<in> set (agenda (sys t')) \<Longrightarrow> cb \<in> set (agenda (sys t)) \<or> overlap_ok (core t) cb"
    and "\<And>r. r \<in> set (requests t') \<Longrightarrow> r \<in> set (requests t) \<or> mem_inst (core t) (mem_request r)"
  shows "cb_ok t'"
proof -
  have "b_stat (core t') = b_stat (core t)" "b_static (core t') = b_static (core t)" using assms(2,4) by (auto simp: core_def)
  note so = same_objects [OF _ this, simplified, OF assms(3)]
  show ?thesis
  proof (rule cb_ok_later [OF assms(1)])
    show "overlap_ok (core t') cb" if "cb \<in> set (agenda (sys t'))" for cb
    proof -
      have "overlap_ok (core t) cb" using assms(1) assms(5) [OF that] by (auto simp: cb_ok_def list_all_iff)
      then show ?thesis by (rule overlap_ok_later [OF _ so(1)])
    qed
  qed (use assms(2,6) so in auto)
qed

definition same_lists :: "frame inflight_inst \<Rightarrow> frame inflight_inst \<Rightarrow> bool" where
  "same_lists i i' \<longleftrightarrow> beginExecCallbacks i' = beginExecCallbacks i \<and> completionCallbacks i' = completionCallbacks i
     \<and> commitCallbacks i' = commitCallbacks i \<and> effAddrCalculatedCallbacks i' = effAddrCalculatedCallbacks i
     \<and> readyCallbacks i' = readyCallbacks i \<and> memReadyCallbacks i' = memReadyCallbacks i"

lemma inst_cbs_same: "same_lists i i' \<Longrightarrow> inst_cbs k x i' = inst_cbs k x i"
  by (simp add: same_lists_def inst_cbs_def)

lemma later_act:
  assumes "store (sys t) p = Some i" "Issued \<le> i_status i \<Longrightarrow> Issued \<le> i_status (f i)"
  shows "later (core t) (core (on_sys (act p f cbs) t))" "b_issued (core t) x \<Longrightarrow> b_issued (core (on_sys (act p f cbs) t)) x"
    "b_ctl (core (on_sys (act p f cbs) t)) = b_ctl (core t)"
proof -
  let ?t = "on_sys (act p f cbs) t"
  have st: "store (sys ?t) q = (if q = p then Some (f i) else store (sys t) q)" for q using assms(1) by (simp add: on_sys_def)
  have isd: "b_issued (core ?t) q \<longleftrightarrow> (if q = p then Issued \<le> i_status (f i) else b_issued (core t) q)" for q
    by (simp add: core_preds holds_def st)
  have al: "b_alive (core ?t) q = b_alive (core t) q" for q using assms(1) by (simp add: core_preds alive_def st)
  have n: "next_id (sys ?t) = next_id (sys t)" by (simp add: on_sys_def)
  show c: "b_ctl (core ?t) = b_ctl (core t)" by (simp add: fun_eq_iff b_ctl_def) (simp add: on_sys_def)
  show i: "b_issued (core t) x \<Longrightarrow> b_issued (core ?t) x" for x using assms isd [of x] by (auto simp: core_preds holds_def split: if_splits)
  show "later (core t) (core ?t)" using i al c n by (auto simp: later_def was_issued_def)
qed

lemma cb_ok_act:
  assumes "cb_ok t" "store (sys t) p = Some i" "same_lists i (f i)" "Issued \<le> i_status i \<Longrightarrow> Issued \<le> i_status (f i)"
    and "\<And>cb. cb \<in> set (cbs i) \<Longrightarrow> overlap_ok (core t) cb"
  shows "cb_ok (on_sys (act p f cbs) t)"
proof (rule cb_ok_later [OF assms(1)])
  note la = later_act [where f = f, OF assms(2,4)]
  show "\<exists>j. store (sys t) x = Some j \<and> (inst_cbs (core (on_sys (act p f cbs) t)) x j \<longrightarrow> inst_cbs (core (on_sys (act p f cbs) t)) x i')"
    if "store (sys (on_sys (act p f cbs) t)) x = Some i'" for x i'
    using that assms(2,3) by (auto simp: on_sys_def inst_cbs_same split: if_splits)
  show "later (core t) (core (on_sys (act p f cbs) t))" by (rule la(1))
  show "overlap_ok (core (on_sys (act p f cbs) t)) cb" if "cb \<in> set (agenda (sys (on_sys (act p f cbs) t)))" for cb
  proof -
    have "cb \<in> set (cbs i) \<or> cb \<in> set (agenda (sys t))" using that assms(2) by (auto simp: on_sys_def)
    then have "overlap_ok (core t) cb" using assms(1,5) by (auto simp: cb_ok_def list_all_iff)
    then show ?thesis by (rule overlap_ok_later [OF _ la(1)])
  qed
qed (use later_act [where f = f, OF assms(2,4)] in \<open>auto simp: on_sys_def\<close>)

lemma cb_ok_add:
  assumes "cb_ok t" "core (on_sys (act p f (\<lambda>_. [])) t) = core t" "\<And>i. store (sys t) p = Some i \<Longrightarrow> inst_cbs (core t) p i \<Longrightarrow> inst_cbs (core t) p (f i)"
  shows "cb_ok (on_sys (act p f (\<lambda>_. [])) t)"
  using assms unfolding cb_ok_def assms(2) by (auto simp: on_sys_def split: if_splits option.splits)

lemma cb_ok_callbacks:
  assumes "cb_ok t" "q < p" "p < next_id (sys t)"
  shows "cb_ok (on_sys (addBeginExecCallback q (Release Exec p)) t)" "cb_ok (on_sys (addCommitCallback q (Release k p)) t)"
    "k = Exec \<or> \<not> b_ctl (core t) q \<Longrightarrow> cb_ok (on_sys (addCompletionCallback q (Release k p)) t)"
    "cb_ok (on_sys (addEffAddrCalculatedCallback q (Release k p)) t)"
  unfolding addBeginExecCallback_def addCommitCallback_def addCompletionCallback_def addEffAddrCalculatedCallback_def
  by (rule cb_ok_add [OF assms(1)]; use assms(2,3) in \<open>auto intro!: core_act_same simp: inst_cbs_def releases_def stat_of_def\<close>)+

lemma cb_ok_increment: "cb_ok t \<Longrightarrow> cb_ok (on_sys (increment k p) t)"
  unfolding increment_def
  by (rule cb_ok_add; auto intro!: core_act_same simp: inst_cbs_def stat_of_def split: counter.splits)

lemma on_sys_fields [simp]:
  "inflightInsts (on_sys f t) = inflightInsts t" "info (on_sys f t) = info t" "requests (on_sys f t) = requests t"
  "sys (on_sys f t) = f (sys t)" "lastUses (on_sys f t) = lastUses t" "curTick (on_sys f t) = curTick t"
  "lastSerializingInstruction (on_sys f t) = lastSerializingInstruction t" "lastMemBarrier (on_sys f t) = lastMemBarrier t"
  by (simp_all add: on_sys_def)

lemma increment_next [simp]: "next_id (increment k p s) = next_id s"
  by (simp add: increment_def)

lemma cb_ok_dependency:
  assumes "cb_ok t" "q < p" "p < next_id (sys t)"
  shows "cb_ok (on_sys (addDependency p q) t)" "cb_ok (on_sys (addBeginExecDependency p q) t)"
    "cb_ok (on_sys (addCommitDependency p q) t)" "cb_ok (on_sys (addMemCommitDependency p q) t)"
    "cb_ok (on_sys (addMemEffAddrDependency p q) t)" "\<not> b_ctl (core t) q \<Longrightarrow> cb_ok (on_sys (addMemDependency p q) t)"
proof -
  have ifs: "cb_ok (on_sys (\<lambda>s. case store s q of None \<Rightarrow> s | Some j \<Rightarrow> if P j then s else g (increment k p s)) t)"
    if "cb_ok (on_sys g (on_sys (increment k p) t))" for P g k
    using that assms(1) by (auto simp: on_sys_def split: option.splits)
  note inc = cb_ok_increment [OF assms(1)]
  show "cb_ok (on_sys (addDependency p q) t)" "cb_ok (on_sys (addBeginExecDependency p q) t)"
    "cb_ok (on_sys (addCommitDependency p q) t)" "cb_ok (on_sys (addMemCommitDependency p q) t)"
    "cb_ok (on_sys (addMemEffAddrDependency p q) t)" "\<not> b_ctl (core t) q \<Longrightarrow> cb_ok (on_sys (addMemDependency p q) t)"
    unfolding addDependency_def addBeginExecDependency_def addCommitDependency_def addMemDependency_def addMemCommitDependency_def
      addMemEffAddrDependency_def
    by (rule ifs, rule cb_ok_callbacks, rule inc, use assms(2,3) in \<open>auto\<close>)+
qed

end
