(* ===== verification/Flex_Thread_Fetch.thy ===== *)
theory Flex_Thread_Fetch
  imports Flex_Thread_Inv
begin

text \<open>
  The fetch path of a FlexCPU thread keeps the invariant: fetching and decoding an instruction, extending the
  buffer, and the budget of the branch predictor.
\<close>

section \<open>Fetch\<close>

text \<open>What is assumed of the instruction set: branches are neither memory accesses nor barriers.\<close>

definition plain_cpu :: "cpu \<Rightarrow> bool" where
  "plain_cpu c \<longleftrightarrow> (\<forall>b. plain (decodeInst c b)) \<and> (\<forall>u m. plain (rom_fetchMicroop c u m)) \<and> (\<forall>m u. plain (fetchMicroop c m u))"

lemma core_request [simp]: "core (request r t) = (core t)\<lparr>b_reqs := requests t @ [r]\<rparr>"
  by (simp add: core_def request_def)

lemma request_fields [simp]:
  "sys (request r t) = sys t" "info (request r t) = info t" "inflightInsts (request r t) = inflightInsts t"
  "requests (request r t) = requests t @ [r]"
  by (simp_all add: request_def)

lemma cb_ok_fields:
  "cb_ok t \<Longrightarrow> sys t' = sys t \<Longrightarrow> (\<And>p. static t' p = static t p) \<Longrightarrow> requests t' = requests t \<Longrightarrow> cb_ok t'"
  by (rule cb_ok_same) auto

lemma cb_ok_request: "cb_ok t \<Longrightarrow> mem_inst (core t) (mem_request r) \<Longrightarrow> cb_ok (request r t)"
  by (rule cb_ok_same) auto

lemma thread_inv_core:
  assumes "thread_inv c t" "core t' = core t" "sys t' = sys t"
  shows "thread_inv c t'"
proof -
  have "requests t' = requests t" using arg_cong [OF assms(2), of b_reqs] by simp
  then show ?thesis using assms by (simp add: thread_inv_def cb_ok_def)
qed

lemma live_alive: "live t p \<Longrightarrow> alive t p"
  by (auto simp: live_def holds_def alive_def split: option.splits)

lemma alive_next: "thread_inv c t \<Longrightarrow> alive t p \<Longrightarrow> p < next_id (sys t)"
  by (simp add: thread_inv_def buffer_inv_def inv_ids_def core_preds)

lemma thread_inv_late:
  assumes "thread_inv c t" "request_inst r = Some p" "was_issued (core t) p" "\<And>q. r \<noteq> BranchPredictor q"
    and "mem_inst (core t) (mem_request r)"
  shows "thread_inv c (request r t)"
proof -
  have "inv_requests c ((core t)\<lparr>b_reqs := requests t @ [r]\<rparr>)"
    using inv_requests_late [of c "core t" r p] assms by (simp add: thread_inv_def buffer_inv_def)
  moreover have "inv_retry c ((core t)\<lparr>b_reqs := requests t @ [r]\<rparr>)"
    using assms by (intro retry_reqs) (auto simp: thread_inv_def)
  moreover have "cb_ok (request r t)" using assms(1,5) by (simp add: thread_inv_def cb_ok_request)
  ultimately show ?thesis using assms(1) request_inv by (simp add: thread_inv_def)
qed

lemma thread_inv_fetch:
  assumes "thread_inv c t" "fetch_request p r" "p < next_id (sys t)" "live t p \<Longrightarrow> \<not> b_issued (core t) p"
    and "\<And>r. r \<in> set (requests t) \<Longrightarrow> \<not> fetch_request p r"
  shows "thread_inv c (request r t)"
proof -
  have "inv_requests c ((core t)\<lparr>b_reqs := requests t @ [r]\<rparr>)"
    using inv_requests_fetch [of c "core t" p r] assms by (simp add: thread_inv_def buffer_inv_def core_preds(1))
  moreover have "inv_retry c ((core t)\<lparr>b_reqs := requests t @ [r]\<rparr>)"
    using assms by (intro retry_reqs) (auto simp: thread_inv_def)
  moreover have "mem_request r = None" using assms(2) by (cases r) auto
  then have "cb_ok (request r t)" using assms(1) by (simp add: thread_inv_def cb_ok_request)
  ultimately show ?thesis using assms(1) request_inv by (simp add: thread_inv_def)
qed

lemma set_info_fields [simp]:
  "sys (set_info p f t) = sys t" "inflightInsts (set_info p f t) = inflightInsts t" "requests (set_info p f t) = requests t"
  "info (set_info p f t) = (info t)(p := f (info t p))" "live (set_info p f t) = live t" "alive (set_info p f t) = alive t"
  "curTick (set_info p f t) = curTick t" "unpredictedBranch (set_info p f t) = unpredictedBranch t"
  "advanceInstNeedsRetry (set_info p f t) = advanceInstNeedsRetry t" "committedState (set_info p f t) = committedState t"
  by (simp_all add: set_info_def live_def alive_def holds_def fun_eq_iff)

lemma core_decode:
  assumes "seqNum (f (info t p)) = seqNum (info t p)" "inst_fault (f (info t p)) = inst_fault (info t p)"
  shows "core (set_info p f t) = b_decode p (pcState (f (info t p))) (staticInst (f (info t p))) (core t)"
  using assms by (auto simp: core_def b_decode_def set_info_def fun_eq_iff)

lemma thread_inv_decode:
  assumes inv: "thread_inv c t" and p: "live t p" "\<not> b_issued (core t) p"
    and f: "seqNum (f (info t p)) = seqNum (info t p)" "inst_fault (f (info t p)) = inst_fault (info t p)"
      "location (pcState (f (info t p))) = location (pcState (info t p))" "\<And>si. staticInst (f (info t p)) = Some si \<Longrightarrow> plain si"
  shows "thread_inv c (set_info p f t)"
proof -
  have bi: "buffer_inv c (core t)" and l: "b_live (core t) p" using inv p(1) by (simp_all add: thread_inv_def core_preds)
  note d = decode_inv [OF bi l p(2), of "pcState (f (info t p))" "staticInst (f (info t p))"]
  note lst = fetching_last [OF bi l p(2)]
  have "cb_ok (set_info p f t)"
  proof (rule cb_ok_later [where t = t])
    have o: "q \<noteq> p \<Longrightarrow> b_ctl (core (set_info p f t)) q = b_ctl (core t) q" for q by (simp add: b_ctl_def)
    have s: "b_at P (core (set_info p f t)) = b_at P (core t)" "b_alive (core (set_info p f t)) = b_alive (core t)" for P
      by (auto simp: b_at_def b_alive_def)
    have w: "was_issued (core (set_info p f t)) q = was_issued (core t) q" for q by (simp add: was_issued_def s)
    show l: "later (core t) (core (set_info p f t))" using o lst(5) unfolding later_def w by simp metis
    show "b_ctl (core (set_info p f t)) x = b_ctl (core t) x \<or> next_id (sys t) = Suc x" for x
      using o [of x] lst(3) by (cases "x = p") auto
    show "overlap_ok (core (set_info p f t)) cb" if "cb \<in> set (agenda (sys (set_info p f t)))" for cb
      using that inv l by (auto simp: thread_inv_def cb_ok_def list_all_iff intro: overlap_ok_later)
    show "b_issued (core (set_info p f t)) x" if "b_issued (core t) x" for x using that by (simp add: s)
  qed (use inv in \<open>auto simp: thread_inv_def\<close>)
  then show ?thesis using d f inv by (simp add: thread_inv_def core_decode)
qed

lemma thread_inv_decoded:
  assumes inv: "thread_inv c t" and p: "live t p" "\<not> b_issued (core t) p"
  shows "thread_inv c (on_sys (notifyDecoded n p) t)" "core (on_sys (notifyDecoded n p) t) = core t"
proof -
  obtain i where i: "store (sys t) p = Some i" using p(1) by (auto simp: live_def holds_def split: option.splits)
  have st: "i_status i < Issued" using p(2) i by (simp add: core_preds holds_def)
  show k: "core (on_sys (notifyDecoded n p) t) = core t"
    using i st by (simp add: notifyDecoded_def core_act stat_of_def phase_of_iff fun_upd_idem)
  have "cb_ok (on_sys (notifyDecoded n p) t)"
    unfolding notifyDecoded_def
    by (rule cb_ok_act [where i = i]) (use inv i st in \<open>auto simp: thread_inv_def same_lists_def\<close>)
  then show "thread_inv c (on_sys (notifyDecoded n p) t)" using inv k by (simp add: thread_inv_def)
qed

lemma core_fetch_state [simp]: "core (t\<lparr>decoder := d\<rparr>) = core t" "core (t\<lparr>fetchOffset := a\<rparr>) = core t"
  "core (t\<lparr>fetchBufBase := a\<rparr>) = core t" "core (t\<lparr>fetchBuf := bs\<rparr>) = core t"
  by (simp_all add: core_def)

lemma attemptFetch_inv:
  assumes pl: "plain_cpu c" and "thread_inv c t" "live t p" "\<not> b_issued (core t) p" "\<And>r. r \<in> set (requests t) \<Longrightarrow> \<not> fetch_request p r"
    and "attemptFetch c p t = Some t'"
  shows "thread_inv c t' \<and> agenda (sys t') = agenda (sys t)"
  using assms
proof (induction c p t rule: attemptFetch.induct)
  case (1 c p t)
  note inv = 1(3) and l = 1(4) and ni = 1(5) and nf = 1(6)
  have n: "p < next_id (sys t)" by (rule alive_next [OF inv live_alive [OF l]])
  show ?case
  proof (cases "fetch_hit p t")
    case False
    then have t': "t' = request (InstAddrTranslation p (req_vaddr p t AND fetchBufMask c)) t"
      using 1(7) by (subst (asm) attemptFetch.simps) simp
    show ?thesis unfolding t' by (intro conjI thread_inv_fetch [OF inv _ n ni nf]) auto
  next
    case hit: True
    obtain d where d: "moreBytes (pcState (info t p)) (fetch_word (fetchBuf t) (unat (req_vaddr p t - fetchBufBase t))) (decoder t) = Some d"
      using 1(7) hit l by (subst (asm) attemptFetch.simps) (auto split: option.splits)
    obtain r s d' where dec: "decode (decodeInst c) (pcState (info t p)) d = (r, s, d')" by (metis prod_cases3)
    note loc = location_decode [OF dec]
    show ?thesis
    proof (cases r)
      case None
      let ?t = "set_info p (pcState_update (\<lambda>_. s)) (t\<lparr>decoder := d', fetchOffset := fetchOffset t + 4\<rparr>)"
      have "thread_inv c (t\<lparr>decoder := d', fetchOffset := fetchOffset t + 4\<rparr>)" by (rule thread_inv_core [OF inv]) simp_all
      then have "thread_inv c ?t"
        by (rule thread_inv_decode) (use l ni loc inv in \<open>auto simp: live_def holds_def thread_inv_def buffer_inv_def inv_static_def\<close>)
      moreover have "attemptFetch c p ?t = Some t'" using 1(7) hit l d dec None by (subst (asm) attemptFetch.simps) simp
      moreover have "live ?t p" "\<not> b_issued (core ?t) p" using l ni by (auto simp: live_def holds_def b_at_def)
      ultimately show ?thesis using 1(1) [OF hit _ d dec [symmetric]] 1(2) l nf None by fastforce
    next
      case (Some si)
      let ?u = "set_info p (\<lambda>i. set_static si (i\<lparr>pcState := s\<rparr>)) (t\<lparr>decoder := d'\<rparr>)"
      let ?v = "on_sys (notifyDecoded (curTick t) p) ?u"
      have t': "t' = request (Issue p) ?v" using 1(7) hit l d dec Some by (subst (asm) attemptFetch.simps) (simp add: issueInstruction_def)
      have si: "plain si" using dec Some 1(2) by (auto simp: decode_def plain_cpu_def split: if_splits)
      have "thread_inv c (t\<lparr>decoder := d'\<rparr>)" by (rule thread_inv_core [OF inv]) simp_all
      then have u: "thread_inv c ?u"
        by (rule thread_inv_decode) (use l ni loc si in \<open>auto simp: live_def holds_def set_static_def\<close>)
      have lu: "live ?u p" "\<not> b_issued (core ?u) p" using l ni by (auto simp: live_def holds_def b_at_def)
      note v = thread_inv_decoded [OF u lu, of "curTick t"]
      have "thread_inv c (request (Issue p) ?v)"
        by (rule thread_inv_fetch [OF v(1)]) (use n lu v(2) nf in \<open>auto simp: notifyDecoded_def\<close>)
      then show ?thesis unfolding t' by (simp add: notifyDecoded_def act_def split: option.splits)
    qed
  qed
qed

text \<open>\<open>advanceInst\<close> only needs to be called at a place that extends the buffer.\<close>

lemma retry_preds [simp]:
  "b_at P (k\<lparr>b_retry := x\<rparr>) = b_at P k" "b_live (k\<lparr>b_retry := x\<rparr>) = b_live k" "b_alive (k\<lparr>b_retry := x\<rparr>) = b_alive k"
  "b_ctl (k\<lparr>b_retry := x\<rparr>) = b_ctl k" "b_succ (k\<lparr>b_retry := x\<rparr>) = b_succ k" "was_issued (k\<lparr>b_retry := x\<rparr>) = was_issued k"
  "window (k\<lparr>b_retry := x\<rparr>) = window k" "unresolved (k\<lparr>b_retry := x\<rparr>) = unresolved k"
  "b_at P (k\<lparr>b_retryPC := y\<rparr>) = b_at P k" "b_live (k\<lparr>b_retryPC := y\<rparr>) = b_live k" "b_alive (k\<lparr>b_retryPC := y\<rparr>) = b_alive k"
  "b_ctl (k\<lparr>b_retryPC := y\<rparr>) = b_ctl k" "b_succ (k\<lparr>b_retryPC := y\<rparr>) = b_succ k" "was_issued (k\<lparr>b_retryPC := y\<rparr>) = was_issued k"
  "window (k\<lparr>b_retryPC := y\<rparr>) = window k" "unresolved (k\<lparr>b_retryPC := y\<rparr>) = unresolved k"
  by (simp_all add: fun_eq_iff b_defs b_succ_def unresolved_def)

lemma retry_allowed [simp]: "allowed c (k\<lparr>b_retry := x\<rparr>) = allowed c k" "allowed c (k\<lparr>b_retryPC := y\<rparr>) = allowed c k"
  by (intro ext, simp only: allowed_def retry_preds)+

lemma retry_extends [simp]: "extends c (k\<lparr>b_retry := x\<rparr>) = extends c k" "extends c (k\<lparr>b_retryPC := y\<rparr>) = extends c k"
  by (simp_all add: extends_def fun_eq_iff)

lemma retry_field [simp]:
  "buffer_inv c (k\<lparr>b_retry := x\<rparr>) = buffer_inv c k" "buffer_inv c (k\<lparr>b_retryPC := y\<rparr>) = buffer_inv c k"
  by (simp_all add: buffer_inv_def inv_ids_def inv_static_def inv_stack_def inv_seq_def inv_issue_def inv_refs_def
      inv_chain_def inv_uses_def inv_requests_def req_defs)

lemma core_retry:
  "core (t\<lparr>advanceInstNeedsRetry := x, advanceInstRetryPC := y\<rparr>) = (core t)\<lparr>b_retry := x, b_retryPC := y\<rparr>"
  "core (t\<lparr>advanceInstNeedsRetry := x\<rparr>) = (core t)\<lparr>b_retry := x\<rparr>"
  by (simp_all add: core_def)

lemma core_push_inst: "core (push_inst s t) = b_push s (core t)"
  by (auto simp: core_def push_inst_def b_push_def Let_def create_def new_data_def new_inst_def stat_of_def fun_eq_iff)

lemma push_inst_fields [simp]:
  "agenda (sys (push_inst s t)) = agenda (sys t)" "requests (push_inst s t) = requests t"
  "next_id (sys (push_inst s t)) = Suc (next_id (sys t))" "curTick (push_inst s t) = curTick t"
  by (simp_all add: push_inst_def Let_def create_def)

lemma cb_ok_push:
  assumes cb: "cb_ok t" and inv: "buffer_inv c (core t)"
  shows "cb_ok (push_inst s t)"
proof -
  let ?k = "b_push s (core t)" and ?n = "next_id (sys t)"
  have l: "later (core t) ?k" unfolding later_def using was_issued_push by simp
  have st: "store (sys (push_inst s t)) x = (if x = ?n then Some (new_inst (curTick t)) else store (sys t) x)" for x
    by (simp add: push_inst_def create_def Let_def)
  have "inst_cbs ?k x i" if "store (sys (push_inst s t)) x = Some i" for x i
  proof (cases "x = ?n")
    case True
    then have "i = new_inst (curTick t)" using that by (simp add: st)
    then show ?thesis by (simp add: inst_cbs_def new_inst_def)
  next
    case False
    then have i: "store (sys t) x = Some i" using that by (simp add: st)
    then have x: "x < b_next (core t)" using inv by (simp add: buffer_inv_def inv_ids_def core_preds alive_def)
    have "inst_cbs (core t) x i" using cb i by (simp add: cb_ok_def)
    then show ?thesis by (rule inst_cbs_later [OF _ l]) (simp_all add: b_push_old [OF x])
  qed
  moreover have "list_all (overlap_ok ?k) (agenda (sys t))"
    using cb overlap_ok_later [OF _ l] by (auto simp: cb_ok_def list_all_iff)
  moreover have "list_all (\<lambda>r. mem_inst ?k (mem_request r)) (requests t)"
    using cb mem_inst_later [OF _ l] by (auto simp: cb_ok_def list_all_iff)
  ultimately show ?thesis by (simp add: cb_ok_def core_push_inst)
qed

text \<open>The state after \<open>push_inst\<close>: a new instruction that nothing refers to.\<close>

lemma push_inst_inv:
  assumes inv: "buffer_inv c (core t)" "cb_ok t" and w: "\<And>p. \<not> window (core t) p" and e: "extends c (core t) s"
    and a: "ActivateEvent \<notin> set (requests t)" and r: "\<not> advanceInstNeedsRetry t"
  shows "thread_inv c (push_inst s t)" "live (push_inst s t) (next_id (sys t))" "\<not> b_issued (core (push_inst s t)) (next_id (sys t))"
    "\<And>q. q \<in> set (requests (push_inst s t)) \<Longrightarrow> \<not> fetch_request (next_id (sys t)) q"
proof -
  have "buffer_inv c (core (push_inst s t))" unfolding core_push_inst by (rule b_push_inv [OF inv(1) w e]) (use a in simp)
  moreover have "inv_retry c (core (push_inst s t))" using r by (simp add: inv_retry_def core_push_inst)
  ultimately show "thread_inv c (push_inst s t)" using cb_ok_push [OF inv(2,1)] by (simp add: thread_inv_def)
  have "b_live (b_push s (core t)) (b_next (core t))" "\<not> b_issued (b_push s (core t)) (b_next (core t))"
    by (simp_all only: b_push_new not_not simp_thms)
  then show "live (push_inst s t) (next_id (sys t))" "\<not> b_issued (core (push_inst s t)) (next_id (sys t))"
    unfolding core_push_inst [symmetric] core_preds(1) core_fields by blast+
  show "\<not> fetch_request (next_id (sys t)) q" if "q \<in> set (requests (push_inst s t))" for q
    using that inv(1) by (auto simp: buffer_inv_def inv_requests_def inv_fetch_def)
qed

lemma push_microop_inv:
  assumes inv: "buffer_inv c (core t)" "cb_ok t" and w: "\<And>p. \<not> window (core t) p" and e: "extends c (core t) s"
    and a: "ActivateEvent \<notin> set (requests t)" and r: "\<not> advanceInstNeedsRetry t" and si: "plain si"
  shows "thread_inv c (push_microop si s t) \<and> agenda (sys (push_microop si s t)) = agenda (sys t)"
proof -
  let ?p = "next_id (sys t)" and ?t = "set_info (next_id (sys t)) (set_static si) (push_inst s t)"
  note pu = push_inst_inv [OF inv w e a r]
  have t: "thread_inv c ?t" by (rule thread_inv_decode [OF pu(1,2,3)]) (simp_all add: set_static_def si)
  have l: "live ?t ?p" "\<not> b_issued (core ?t) ?p" using pu(2,3) by (auto simp: live_def holds_def b_at_def)
  note v = thread_inv_decoded [OF t l, of "curTick t"]
  have "thread_inv c (request (Issue ?p) (on_sys (notifyDecoded (curTick t) ?p) ?t))"
    by (rule thread_inv_fetch [OF v(1)]) (use l v(2) pu(4) in \<open>auto simp: notifyDecoded_def\<close>)
  then show ?thesis by (simp add: push_microop_def Let_def issueInstruction_def notifyDecoded_def act_def split: option.splits)
qed

lemma advanceInst_inv:
  assumes pl: "plain_cpu c" and inv: "buffer_inv c (core t)" "cb_ok t" and w: "\<And>p. \<not> window (core t) p"
    and e: "tc_status (committedState t) = Active \<Longrightarrow> extends c (core t) s \<and> ActivateEvent \<notin> set (requests t)"
    and t': "advanceInst c s t = Some t'"
  shows "thread_inv c t' \<and> agenda (sys t') = agenda (sys t)"
proof (cases "tc_status (committedState t) = Active")
  case False
  then show ?thesis using t' inv by (auto simp: advanceInst_def thread_inv_def inv_retry_def)
next
  case act: True
  note e = e [OF act]
  show ?thesis
  proof (cases "buffer_full c t")
    case True
    then have "t' = t\<lparr>advanceInstNeedsRetry := True, advanceInstRetryPC := s\<rparr>" using t' act by (simp add: advanceInst_def)
    moreover have "cb_ok (t\<lparr>advanceInstNeedsRetry := True, advanceInstRetryPC := s\<rparr>)" by (rule cb_ok_fields [OF inv(2)]) simp_all
    ultimately show ?thesis using inv e by (simp add: thread_inv_def core_retry inv_retry_def)
  next
    case False
    let ?t = "t\<lparr>advanceInstNeedsRetry := False\<rparr>"
    have i: "buffer_inv c (core ?t)" "cb_ok ?t" using inv by (simp_all add: core_retry cb_ok_fields)
    have x: "\<not> window (core ?t) p" "extends c (core ?t) s" "ActivateEvent \<notin> set (requests ?t)" "\<not> advanceInstNeedsRetry ?t" for p
      using w e by (simp_all add: core_retry)
    note m = push_microop_inv [OF i x]
    let ?u = "(push_inst s ?t)\<lparr>fetchOffset := 0\<rparr>"
    have u: "thread_inv c ?u" "live ?u (next_id (sys t))" "\<not> b_issued (core ?u) (next_id (sys t))"
      "\<And>q. q \<in> set (requests ?u) \<Longrightarrow> \<not> fetch_request (next_id (sys t)) q"
      using push_inst_inv [OF i x] by (auto intro: thread_inv_core simp: live_def holds_def)
    show ?thesis using t' act False pl m attemptFetch_inv [OF pl u]
      by (auto simp: advanceInst_def plain_cpu_def Let_def split: if_splits option.splits)
  qed
qed

section \<open>The budget of the branch predictor\<close>

text \<open>\<open>freed D k k'\<close>: the branch that waited for a prediction was forgotten, or, when it is one of \<open>D\<close>, sent to the predictor.\<close>

definition freed :: "inst_id set \<Rightarrow> buffer \<Rightarrow> buffer \<Rightarrow> bool" where
  "freed D k k' \<longleftrightarrow> k' = k \<or> k' = k\<lparr>b_unpred := None\<rparr>
     \<or> (\<exists>q\<in>D. b_unpred k = Some q \<and> \<not> b_retry k \<and> k' = k\<lparr>b_unpred := None, b_reqs := b_reqs k @ [BranchPredictor q]\<rparr>)"

lemma freed_refl [simp]: "freed D k k"
  by (simp add: freed_def)

lemma freed_trans: "freed D k k' \<Longrightarrow> freed E k' k'' \<Longrightarrow> freed (D \<union> E) k k''"
  unfolding freed_def by (elim disjE bexE) auto

lemma freed_mono: "freed D k k' \<Longrightarrow> D \<subseteq> E \<Longrightarrow> freed E k k'"
  unfolding freed_def by blast

lemma freed_fields:
  assumes "freed D k k'"
  shows "b_insts k' = b_insts k" "b_stat k' = b_stat k" "b_next k' = b_next k" "b_stack k' = b_stack k" "b_static k' = b_static k"
    "b_pc k' = b_pc k" "b_retry k' = b_retry k" "b_retryPC k' = b_retryPC k" "b_active k' = b_active k" "b_tcpc k' = b_tcpc k"
    "b_ser k' = b_ser k" "b_bar k' = b_bar k" "b_uses k' = b_uses k"
    "BranchPredictor q \<in> set (b_reqs k') \<Longrightarrow> BranchPredictor q \<in> set (b_reqs k) \<or> q \<in> D \<and> \<not> b_retry k"
    "r \<in> set (b_reqs k') \<Longrightarrow> r \<in> set (b_reqs k) \<or> (\<exists>q\<in>D. r = BranchPredictor q)"
  using assms unfolding freed_def by auto

lemma freed_preds:
  assumes "freed D k k'"
  shows "b_live k' = b_live k" "b_at P k' = b_at P k" "window k' = window k" "allowed c k' = allowed c k" "b_succ k' = b_succ k"
    "b_ctl k' = b_ctl k" "was_issued k' = was_issued k"
  by (auto simp: fun_eq_iff b_defs b_succ_def unresolved_def allowed_def freed_fields [OF assms])

lemma freed_stack: "freed D k k' \<Longrightarrow> freed D (k\<lparr>b_stack := s\<rparr>) (k'\<lparr>b_stack := s\<rparr>)"
  unfolding freed_def by auto

lemma freed_squash:
  assumes "freed D k k'"
  shows "freed D (b_squash xs (k\<lparr>b_insts := ys\<rparr>)) (b_squash xs (k'\<lparr>b_insts := ys\<rparr>))"
proof -
  have "b_squash xs (k\<lparr>b_unpred := x, b_insts := ys\<rparr>) = (b_squash xs (k\<lparr>b_insts := ys\<rparr>))\<lparr>b_unpred := x\<rparr>"
    "b_squash xs (k\<lparr>b_unpred := x, b_reqs := rs, b_insts := ys\<rparr>) = (b_squash xs (k\<lparr>b_insts := ys\<rparr>))\<lparr>b_unpred := x, b_reqs := rs\<rparr>"
    for x rs
    by (cases k; simp add: b_squash_def cong: if_cong)+
  then show ?thesis using assms unfolding freed_def by (elim disjE bexE) (auto simp: b_squash_def)
qed

lemma unpred_preds [simp]:
  "b_at P (k\<lparr>b_unpred := x\<rparr>) = b_at P k" "b_live (k\<lparr>b_unpred := x\<rparr>) = b_live k" "b_alive (k\<lparr>b_unpred := x\<rparr>) = b_alive k"
  "b_ctl (k\<lparr>b_unpred := x\<rparr>) = b_ctl k" "b_succ (k\<lparr>b_unpred := x\<rparr>) = b_succ k" "was_issued (k\<lparr>b_unpred := x\<rparr>) = was_issued k"
  "window (k\<lparr>b_unpred := x\<rparr>) = window k" "unresolved (k\<lparr>b_unpred := x\<rparr>) = unresolved k"
  by (simp_all add: fun_eq_iff b_defs b_succ_def unresolved_def)

lemma unpred_allowed [simp]: "allowed c (k\<lparr>b_unpred := x\<rparr>) = allowed c k"
  by (intro ext, simp only: allowed_def unpred_preds)

lemma order_inv_requests:
  assumes "order_inv c k" "inv_requests c (k\<lparr>b_unpred := x, b_reqs := rs\<rparr>)"
  shows "order_inv c (k\<lparr>b_unpred := x, b_reqs := rs\<rparr>)"
  using assms by (simp add: order_inv_def inv_ids_def inv_static_def inv_stack_def inv_seq_def inv_issue_def inv_refs_def inv_chain_def)

lemma freed_uses: "freed D k k' \<Longrightarrow> inv_uses k' = inv_uses k"
  by (simp only: inv_uses_def freed_preds freed_fields(1-13))

lemma freed_order:
  assumes "order_inv c k" "freed D k k'" "\<And>q. q \<in> D \<Longrightarrow> b_live k q \<Longrightarrow> b_insts k \<noteq> [] \<and> q = last (b_insts k)"
  shows "order_inv c k'"
proof -
  note rq = order_inv_parts(6) [OF assms(1)]
  have u: "inv_requests c (k\<lparr>b_unpred := None\<rparr>)" using rq by (simp add: inv_requests_def req_defs)
  have "inv_requests c (k\<lparr>b_unpred := None, b_reqs := b_reqs k @ [BranchPredictor q]\<rparr>)" if "q \<in> D" "b_unpred k = Some q" for q
    using inv_requests_predictor [OF u, of q] that assms(3) [OF that(1)] rq by (auto simp: inv_requests_def inv_unpred_def)
  then show ?thesis using assms(1,2) u order_inv_requests [OF assms(1)] order_inv_requests [OF assms(1), where rs = "b_reqs k"]
    unfolding freed_def by auto
qed

lemma freed_buffer:
  assumes "buffer_inv c k" "freed {last (b_insts k)} k k'" "b_insts k \<noteq> [] \<or> k' = k \<or> k' = k\<lparr>b_unpred := None\<rparr>"
  shows "buffer_inv c k'" "inv_retry c k \<Longrightarrow> inv_retry c k'"
proof -
  have "freed (if b_insts k = [] then {} else {last (b_insts k)}) k k'" using assms(2,3) by (auto simp: freed_def)
  then have "order_inv c k'" using freed_order [where c = c] assms(1) by (auto simp: buffer_inv_order split: if_splits)
  then show "buffer_inv c k'" using assms(1) freed_uses [OF assms(2)] by (simp add: buffer_inv_order)
  note f = freed_fields [OF assms(2)]
  show "inv_retry c k'" if "inv_retry c k"
    using that f(14,15) unfolding inv_retry_def extends_def freed_preds [OF assms(2)] f(1,4,7,8,9,10) by (cases "b_insts k = []") auto
qed

lemma freeBranchPredDepth_core:
  assumes "freeBranchPredDepth t = Some t'"
  shows "freed {last (inflightInsts t)} (core t) (core t')" "cb_ok t \<Longrightarrow> cb_ok t'" "info t' = info t"
    "inflightInsts t \<noteq> [] \<or> core t' = core t \<or> core t' = (core t)\<lparr>b_unpred := None\<rparr>"
proof -
  have r: "core (t\<lparr>remainingBranchPredDepth := n\<rparr>) = core t"
    "core (t\<lparr>unpredictedBranch := None, remainingBranchPredDepth := n\<rparr>) = (core t)\<lparr>b_unpred := None\<rparr>"
    "core (t\<lparr>unpredictedBranch := None\<rparr>) = (core t)\<lparr>b_unpred := None\<rparr>" for n
    by (simp_all add: core_def)
  show "freed {last (inflightInsts t)} (core t) (core t')"
    "inflightInsts t \<noteq> [] \<or> core t' = core t \<or> core t' = (core t)\<lparr>b_unpred := None\<rparr>" "info t' = info t"
    using assms by (auto simp: freeBranchPredDepth_def predictCtrlInst_def Let_def freed_def r split: if_splits option.splits)
  show "cb_ok t'" if "cb_ok t"
  proof -
    have c: "cb_ok (t\<lparr>remainingBranchPredDepth := n\<rparr>)" "cb_ok (t\<lparr>unpredictedBranch := None, remainingBranchPredDepth := n\<rparr>)"
      "cb_ok (t\<lparr>unpredictedBranch := None\<rparr>)" for n
      using that by (rule cb_ok_fields; simp)+
    have "cb_ok (on_sys (addSquashCallback p f) u)" if "cb_ok u" for p f u
      unfolding addSquashCallback_def
      by (rule cb_ok_add [OF that]) (auto simp: inst_cbs_def stat_of_def intro!: core_act_same)
    then have "cb_ok (predictCtrlInst p (t\<lparr>unpredictedBranch := None\<rparr>))" for p
      unfolding predictCtrlInst_def by (intro cb_ok_request) (use c in auto)
    then show ?thesis using assms c by (auto simp: freeBranchPredDepth_def Let_def split: if_splits option.splits)
  qed
qed

end
