(* ===== verification/Flex_Thread_Squash.thy ===== *)
theory Flex_Thread_Squash
  imports Flex_Thread_Fetch
begin

text \<open>
  Squashing: \<open>squashUpTo\<close> takes the instructions younger than a given one from the buffer and marks them, and
  restores what the thread remembers of the last writer of each register, the last barrier and the last
  serializing instruction. Faults are marked by the same means.
\<close>

section \<open>One instruction\<close>

definition b_mark :: "inst_id \<Rightarrow> buffer \<Rightarrow> buffer" where
  "b_mark p k = k\<lparr>b_stat := (b_stat k)(p := map_option (\<lambda>(s, _). (s, True)) (b_stat k p))\<rparr>"

lemma unpred_idem: "(k\<lparr>b_unpred := x\<rparr>)\<lparr>b_unpred := y\<rparr> = k\<lparr>b_unpred := y\<rparr>"
  by simp

declare freed_refl [intro]

lemma run_squash_callback_core:
  assumes "run_squash_callback f t = Some t'"
  shows "freed {last (inflightInsts t)} (core t) (core t')" "cb_ok t \<Longrightarrow> cb_ok t'" "info t' = info t"
    "inflightInsts t \<noteq> [] \<or> core t' = core t \<or> core t' = (core t)\<lparr>b_unpred := None\<rparr>"
proof -
  have p: "core (t\<lparr>predictor_calls := x\<rparr>) = core t" for x by (simp add: core_def)
  have "freed {last (inflightInsts t)} (core t) (core t') \<and> (cb_ok t \<longrightarrow> cb_ok t') \<and> info t' = info t
    \<and> (inflightInsts t \<noteq> [] \<or> core t' = core t \<or> core t' = (core t)\<lparr>b_unpred := None\<rparr>)"
  proof (cases f)
    case (PredictorSquash n)
    then have t': "t' = t\<lparr>predictor_calls := predictor_calls t @ [Squash n]\<rparr>" using assms by simp
    have c: "cb_ok t \<Longrightarrow> cb_ok t'" unfolding t' by (rule cb_ok_fields) simp_all
    have k: "core t' = core t" "info t' = info t" unfolding t' by (rule p, simp)
    show ?thesis unfolding k using c by blast
  next
    case (FreeUnlessComplete q)
    have "t' = t \<or> freeBranchPredDepth t = Some t'"
      using assms unfolding FreeUnlessComplete by (cases "holds isComplete t q") simp_all
    then show ?thesis using freeBranchPredDepth_core [of t t'] by blast
  qed (use assms in auto)
  then show "freed {last (inflightInsts t)} (core t) (core t')" "cb_ok t \<Longrightarrow> cb_ok t'" "info t' = info t"
    "inflightInsts t \<noteq> [] \<or> core t' = core t \<or> core t' = (core t)\<lparr>b_unpred := None\<rparr>"
    by blast+
qed

lemma run_squash_callbacks_core:
  assumes "fold_opt run_squash_callback fs t = Some t'"
  shows "freed {last (inflightInsts t)} (core t) (core t') \<and> (cb_ok t \<longrightarrow> cb_ok t') \<and> info t' = info t
    \<and> (inflightInsts t \<noteq> [] \<or> core t' = core t \<or> core t' = (core t)\<lparr>b_unpred := None\<rparr>)"
  using assms
proof (induction fs arbitrary: t)
  case (Cons f fs)
  obtain u where u: "run_squash_callback f t = Some u" "fold_opt run_squash_callback fs u = Some t'"
    using Cons.prems by (auto split: bind_splits)
  note r = run_squash_callback_core [OF u(1)] and ih = Cons.IH [OF u(2)]
  have "inflightInsts u = inflightInsts t" using freed_fields(1) [OF r(1)] by simp
  then have "freed {last (inflightInsts t)} (core t) (core t')" using freed_trans [OF r(1), of "{last (inflightInsts t)}"] ih by simp
  moreover have "inflightInsts t \<noteq> [] \<or> core t' = core t \<or> core t' = (core t)\<lparr>b_unpred := None\<rparr>"
    using ih r(4) \<open>inflightInsts u = inflightInsts t\<close> unpred_idem [where k = "core t"] by metis
  ultimately show ?case using ih r(2,3) by metis
qed simp

lemma squash_inst_core:
  assumes "squash_inst p t = Some t'"
  shows "freed {last (inflightInsts t)} (b_mark p (core t)) (core t')" "cb_ok t \<Longrightarrow> cb_ok t'" "info t' = info t" "alive t p"
    "inflightInsts t \<noteq> [] \<or> core t' = b_mark p (core t) \<or> core t' = (b_mark p (core t))\<lparr>b_unpred := None\<rparr>"
proof -
  obtain i where i: "store (sys t) p = Some i" using assms by (auto simp: squash_inst_def split: option.splits)
  then show "alive t p" by (simp add: alive_def)
  have "freed {last (inflightInsts t)} (b_mark p (core t)) (core t') \<and> (cb_ok t \<longrightarrow> cb_ok t') \<and> info t' = info t
    \<and> (inflightInsts t \<noteq> [] \<or> core t' = b_mark p (core t) \<or> core t' = (b_mark p (core t))\<lparr>b_unpred := None\<rparr>)"
  proof (cases "i_squashed i")
    case True
    then have "b_mark p (core t) = core t" using i by (auto simp: b_mark_def stat_of_def fun_upd_idem)
    then show ?thesis using assms True i by (simp add: squash_inst_def)
  next
    case False
    let ?f = "\<lambda>i :: frame inflight_inst. i\<lparr>i_timing := (i_timing i)\<lparr>squashTick := Some (curTick t)\<rparr>, i_squashed := True\<rparr>"
    let ?u = "on_sys (act p ?f (\<lambda>_. [])) t"
    have u: "on_sys (\<lambda>s. (notifySquashed (curTick t) p s)\<lparr>agenda := agenda s\<rparr>) t = ?u"
      using i False by (simp add: on_sys_def notifySquashed_def act_def)
    have k: "core ?u = b_mark p (core t)" using i by (simp add: core_act b_mark_def stat_of_def)
    have "cb_ok ?u" if "cb_ok t" by (rule cb_ok_act [OF that i]) (simp_all add: same_lists_def)
    moreover have "fold_opt run_squash_callback (squashCallbacks i) ?u = Some t'"
      using assms i False by (simp add: squash_inst_def u)
    ultimately show ?thesis using run_squash_callbacks_core [of "squashCallbacks i" ?u t'] by (simp add: k)
  qed
  then show "freed {last (inflightInsts t)} (b_mark p (core t)) (core t')" "cb_ok t \<Longrightarrow> cb_ok t'" "info t' = info t"
    "inflightInsts t \<noteq> [] \<or> core t' = b_mark p (core t) \<or> core t' = (b_mark p (core t))\<lparr>b_unpred := None\<rparr>"
    by blast+
qed

section \<open>The loop\<close>

lemma b_squash_self: "b_insts k = xs \<Longrightarrow> b_squash xs k = k"
  by (cases k) (auto simp: b_squash_def)

lemma b_squash_step:
  assumes "b_insts k = xs @ ds @ [q]" "distinct (xs @ ds @ [q])"
  shows "b_squash xs ((b_mark q k)\<lparr>b_insts := xs @ ds\<rparr>) = b_squash xs k"
proof -
  have "(if r \<in> set (xs @ ds) \<and> r \<notin> set xs then map_option (\<lambda>(s, _). (s, True)) (b_stat (b_mark q k) r) else b_stat (b_mark q k) r)
    = (if r \<in> set (b_insts k) \<and> r \<notin> set xs then map_option (\<lambda>(s, _). (s, True)) (b_stat k r) else b_stat k r)" for r
    using assms by (auto simp: b_mark_def)
  then show ?thesis by (intro buffer.equality) (use assms in \<open>auto simp: b_squash_def b_mark_def fun_eq_iff\<close>)
qed

lemma squash_loop_core:
  assumes "inflightInsts t = xs @ ds" "distinct (xs @ ds)" "p \<notin> set ds" "rest = [] \<or> hd rest = p"
    and "squash_loop (rev ds @ rest) p ser bar so bo t = Some (so', bo', t')"
  shows "freed (set ds) (b_squash xs (core t)) (core t') \<and> (cb_ok t \<longrightarrow> cb_ok t') \<and> info t' = info t
    \<and> so' = (so \<and> ser \<notin> Some ` set ds) \<and> bo' = (bo \<and> bar \<notin> Some ` set ds)"
  using assms
proof (induction ds arbitrary: t so bo rule: rev_induct)
  case Nil
  then show ?case by (cases rest) (auto simp: b_squash_self)
next
  case (snoc q ds)
  obtain u where u: "squash_inst q t = Some u"
    "squash_loop (rev ds @ rest) p ser bar (so \<and> ser \<noteq> Some q) (bo \<and> bar \<noteq> Some q) (u\<lparr>inflightInsts := butlast (inflightInsts u)\<rparr>)
       = Some (so', bo', t')"
    using snoc.prems by (auto split: bind_splits if_splits)
  let ?v = "u\<lparr>inflightInsts := butlast (inflightInsts u)\<rparr>"
  note s = squash_inst_core [OF u(1)]
  have l: "last (inflightInsts t) = q" and B: "inflightInsts u = xs @ ds @ [q]"
    using snoc.prems(1) freed_fields(1) [OF s(1)] by (simp_all add: b_mark_def)
  have k: "core ?v = (core u)\<lparr>b_insts := xs @ ds\<rparr>" by (simp add: core_def B butlast_append)
  have ih: "freed (set ds) (b_squash xs (core ?v)) (core t') \<and> (cb_ok ?v \<longrightarrow> cb_ok t') \<and> info t' = info ?v
    \<and> so' = ((so \<and> ser \<noteq> Some q) \<and> ser \<notin> Some ` set ds) \<and> bo' = ((bo \<and> bar \<noteq> Some q) \<and> bar \<notin> Some ` set ds)"
    by (rule snoc.IH [OF _ _ _ snoc.prems(4) u(2)]) (use snoc.prems B in \<open>auto simp: butlast_append\<close>)
  have "freed {q} (b_squash xs (core t)) (b_squash xs (core ?v))"
    using freed_squash [OF s(1), of xs "xs @ ds"] snoc.prems(1,2) unfolding k l
    by (subst (asm) b_squash_step) auto
  then have "freed ({q} \<union> set ds) (b_squash xs (core t)) (core t')" using ih by (blast intro: freed_trans)
  moreover have "cb_ok u \<Longrightarrow> cb_ok ?v" by (rule cb_ok_fields) simp_all
  ultimately show ?case using ih s(2,3) by auto
qed

definition up_to :: "inst_id \<Rightarrow> inst_id list \<Rightarrow> inst_id list" where
  "up_to p B = (if p \<in> set B then takeWhile (\<lambda>q. q \<noteq> p) B @ [p] else [])"

lemma up_to_split:
  assumes "distinct B"
  obtains ds where "B = up_to p B @ ds" "p \<notin> set ds" "p \<in> set B \<Longrightarrow> last (up_to p B) = p"
    "\<exists>rest. rev B = rev ds @ rest \<and> (rest = [] \<or> hd rest = p)"
proof (cases "p \<in> set B")
  case True
  then have "dropWhile (\<lambda>q. q \<noteq> p) B \<noteq> []" by auto
  then obtain ds where "dropWhile (\<lambda>q. q \<noteq> p) B = p # ds" 
    using hd_dropWhile [of "\<lambda>q. q \<noteq> p" B] by (cases "dropWhile (\<lambda>q. q \<noteq> p) B") auto
  then have B: "B = takeWhile (\<lambda>q. q \<noteq> p) B @ p # ds" by (metis takeWhile_dropWhile_id)
  have x: "up_to p B @ ds = B" using True B by (simp add: up_to_def)
  have "p \<notin> set ds" using assms B by (metis distinct.simps(2) distinct_append)
  moreover have "rev B = rev ds @ p # rev (takeWhile (\<lambda>q. q \<noteq> p) B)" using B by (metis append.assoc rev.simps(2) rev_append append_Cons append_Nil)
  ultimately show ?thesis using that [of ds] x True by (auto simp: up_to_def)
next
  case False
  then show ?thesis using that [of B] by (simp add: up_to_def)
qed

section \<open>The last writers, barriers and serializing instructions\<close>

lemma fold_writes:
  "fold (\<lambda>(k, r) u. u(flattenRegId r := Some (p, k))) (enumerate n ds) u r = (case writes r n ds of Some m \<Rightarrow> Some (p, m) | None \<Rightarrow> u r)"
  by (induction ds arbitrary: n u) (auto split: option.splits)

lemma populateUses_eq:
  "populateUses p t = (case static t p of None \<Rightarrow> None
     | Some si \<Rightarrow> Some (t\<lparr>lastUses := \<lambda>r. case writes r 0 (destRegIdx si) of Some n \<Rightarrow> Some (p, n) | None \<Rightarrow> lastUses t r\<rparr>))"
  by (auto simp: populateUses_def fun_eq_iff fold_writes split: option.splits)

lemma fold_populateUses:
  assumes "fold_opt populateUses xs t = Some t'"
  shows "t' = t\<lparr>lastUses := \<lambda>r. case youngest_writer (static t) r xs of Some d \<Rightarrow> Some d | None \<Rightarrow> lastUses t r\<rparr>"
  using assms
proof (induction xs arbitrary: t)
  case (Cons p xs)
  obtain si where si: "static t p = Some si" using Cons.prems by (auto simp: populateUses_eq split: option.splits)
  let ?u = "t\<lparr>lastUses := \<lambda>r. case writes r 0 (destRegIdx si) of Some n \<Rightarrow> Some (p, n) | None \<Rightarrow> lastUses t r\<rparr>"
  have "fold_opt populateUses xs ?u = Some t'" using Cons.prems populateUses_eq [of p t] si by simp
  from Cons.IH [OF this] show ?case using si by (auto simp: fun_eq_iff split: option.splits)
qed simp

lemma rebuild_scan_result:
  assumes "rebuild_scan c qs so bo t = Some t'"
  shows "\<exists>x y. t' = t\<lparr>lastSerializingInstruction := x, lastMemBarrier := y\<rparr>
    \<and> (x = lastSerializingInstruction t \<or> x \<in> Some ` set qs)
    \<and> (y = lastMemBarrier t \<or> (\<exists>q\<in>set qs. y = Some q \<and> (\<exists>si. static t q = Some si \<and> isMemBarrier si)))"
  using assms
proof (induction qs arbitrary: so bo t)
  case (Cons q qs)
  show ?case
  proof (cases "so \<and> bo")
    case True
    then have "t' = t" using Cons.prems by simp
    then show ?thesis by (intro exI [of _ "lastSerializingInstruction t"] exI [of _ "lastMemBarrier t"]) simp
  next
    case False
    obtain si where si: "static t q = Some si" using Cons.prems False by (auto split: bind_splits)
    define ser where "ser \<longleftrightarrow> \<not> so \<and> (if strictSerialize c then isSerializing si else isSerializeAfter si)"
    define bar where "bar \<longleftrightarrow> \<not> bo \<and> isMemBarrier si"
    let ?u = "t\<lparr>lastSerializingInstruction := (if ser then Some q else lastSerializingInstruction t),
            lastMemBarrier := (if bar then Some q else lastMemBarrier t)\<rparr>"
    have "rebuild_scan c qs (so \<or> ser) (bo \<or> bar) ?u = Some t'"
      using Cons.prems False si by (simp add: ser_def bar_def Let_def)
    from Cons.IH [OF this] obtain x y where t': "t' = ?u\<lparr>lastSerializingInstruction := x, lastMemBarrier := y\<rparr>"
      and x: "x = lastSerializingInstruction ?u \<or> x \<in> Some ` set qs"
      and y: "y = lastMemBarrier ?u \<or> (\<exists>q\<in>set qs. y = Some q \<and> (\<exists>si. static ?u q = Some si \<and> isMemBarrier si))"
      by blast
    have "t' = t\<lparr>lastSerializingInstruction := x, lastMemBarrier := y\<rparr>" unfolding t' by simp
    moreover have "x = lastSerializingInstruction t \<or> x \<in> Some ` set (q # qs)" using x by (auto split: if_splits)
    moreover have "y = lastMemBarrier t \<or> (\<exists>q\<in>set (q # qs). y = Some q \<and> (\<exists>si. static t q = Some si \<and> isMemBarrier si))"
      using y si by (auto simp: bar_def split: if_splits)
    ultimately show ?thesis by blast
  qed
next
  case Nil
  then show ?case by (intro exI [of _ "lastSerializingInstruction t"] exI [of _ "lastMemBarrier t"]) simp
qed

text \<open>What \<open>squashUpTo\<close> does to the abstract state.\<close>

definition rebuilt :: "inst_id list \<Rightarrow> buffer \<Rightarrow> buffer \<Rightarrow> bool" where
  "rebuilt xs k k' \<longleftrightarrow> (\<exists>x y. k' = k\<lparr>b_ser := x, b_bar := y,
       b_uses := \<lambda>r. case youngest_writer (b_static k) r xs of Some d \<Rightarrow> Some d | None \<Rightarrow> b_uses k r\<rparr>
     \<and> (x = b_ser k \<or> x \<in> Some ` set xs)
     \<and> (y = b_bar k \<or> (\<exists>q\<in>set xs. y = Some q \<and> (\<exists>si. b_static k q = Some si \<and> isMemBarrier si))))"

lemma squashUpTo_core:
  assumes "squashUpTo c p b t = Some t'" "distinct (inflightInsts t)"
  shows "\<exists>k. freed (set (inflightInsts t) - set (up_to p (inflightInsts t))) (b_squash (up_to p (inflightInsts t)) (core t)) k
    \<and> (if b then rebuilt (up_to p (inflightInsts t)) k (core t') else core t' = k)" "cb_ok t \<Longrightarrow> cb_ok t'" "info t' = info t"
proof -
  let ?xs = "up_to p (inflightInsts t)"
  obtain ds rest where ds: "inflightInsts t = ?xs @ ds" "p \<notin> set ds" "rev (inflightInsts t) = rev ds @ rest" "rest = [] \<or> hd rest = p"
    using up_to_split [OF assms(2), of p] by metis
  have dis: "distinct (?xs @ ds)" using assms(2) unfolding ds(1) [symmetric] .
  then have "set (?xs @ ds) - set ?xs = set ds" by auto
  then have D: "set (inflightInsts t) - set ?xs = set ds" unfolding ds(1) [symmetric] .
  obtain so bo u v where u: "squash_loop (rev ds @ rest) p (lock t (lastSerializingInstruction t)) (lock t (lastMemBarrier t)) True True t
      = Some (so, bo, u)"
    and v: "if b then \<exists>w. fold_opt populateUses (inflightInsts u) u = Some w \<and> rebuild_scan c (rev (inflightInsts w)) so bo w = Some v
      else v = u" and t': "t' = v\<lparr>decoder := decoder_reset, curMacroOp := None\<rparr>"
    using assms(1) unfolding squashUpTo_def ds(3) by (auto split: bind_splits if_splits)
  have sl: "freed (set ds) (b_squash ?xs (core t)) (core u) \<and> (cb_ok t \<longrightarrow> cb_ok u) \<and> info u = info t"
    using squash_loop_core [OF ds(1) dis ds(2,4) u] by blast
  then have B: "inflightInsts u = ?xs" using freed_fields(1) [of "set ds" "b_squash ?xs (core t)" "core u"] by (simp add: b_squash_def)
  have kt': "core t' = core v" unfolding t' by (simp add: core_def)
  have "(if b then rebuilt ?xs (core u) (core v) else core v = core u) \<and> sys v = sys u \<and> info v = info u \<and> requests v = requests u"
  proof (cases b)
    case True
    obtain w where w: "fold_opt populateUses ?xs u = Some w" "rebuild_scan c (rev (inflightInsts w)) so bo w = Some v"
      using v True B by auto
    note w1 = fold_populateUses [OF w(1)]
    have w2: "inflightInsts w = ?xs" "info w = info u" "sys w = sys u" "requests w = requests u" "lastMemBarrier w = lastMemBarrier u"
      "lastSerializingInstruction w = lastSerializingInstruction u" by (simp_all add: w1 B)
    obtain x y where xy: "v = w\<lparr>lastSerializingInstruction := x, lastMemBarrier := y\<rparr>"
      "x = lastSerializingInstruction w \<or> x \<in> Some ` set ?xs"
      "y = lastMemBarrier w \<or> (\<exists>q\<in>set ?xs. y = Some q \<and> (\<exists>si. static w q = Some si \<and> isMemBarrier si))"
      using rebuild_scan_result [OF w(2)] w2 by auto
    have st: "b_static (core u) = static u" by (simp add: fun_eq_iff)
    have "core v = (core u)\<lparr>b_ser := x, b_bar := y,
       b_uses := \<lambda>r. case youngest_writer (b_static (core u)) r ?xs of Some d \<Rightarrow> Some d | None \<Rightarrow> b_uses (core u) r\<rparr>"
      unfolding xy(1) w1 st by (simp add: core_def cong: option.case_cong)
    then have "rebuilt ?xs (core u) (core v)" using xy(2,3) w2 unfolding rebuilt_def by auto
    then show ?thesis using True w2 xy(1) by simp
  qed (use v in simp)
  then show "\<exists>k. freed (set (inflightInsts t) - set ?xs) (b_squash ?xs (core t)) k
    \<and> (if b then rebuilt ?xs k (core t') else core t' = k)" "cb_ok t \<Longrightarrow> cb_ok t'" "info t' = info t"
    unfolding D kt' using sl t' cb_ok_fields [of u t'] by auto
qed

section \<open>Faults\<close>

lemma call_fields [simp]:
  "agenda (sys (call fr t)) = Client fr # agenda (sys t)" "store (sys (call fr t)) = store (sys t)" "requests (call fr t) = requests t"
  "next_id (sys (call fr t)) = next_id (sys t)" "info (call fr t) = info t" "inflightInsts (call fr t) = inflightInsts t"
  "curTick (call fr t) = curTick t" "committedState (call fr t) = committedState t" "advanceInstNeedsRetry (call fr t) = advanceInstNeedsRetry t"
  by (simp_all add: call_def on_sys_def)

lemma core_call [simp]: "core (call fr t) = (core t)\<lparr>b_stack := Client fr # agenda (sys t)\<rparr>"
  by (simp add: core_def call_def on_sys_def)

lemma cb_ok_call: "cb_ok t \<Longrightarrow> overlap_ok (core t) (Client fr) \<Longrightarrow> cb_ok (call fr t)"
  by (rule cb_ok_same) auto

lemma thread_inv_commit_call:
  assumes "thread_inv c t" "\<not> branch_open (core t)"
  shows "thread_inv c (commitAllAvailableInstructions t)"
proof -
  have "buffer_inv c ((core t)\<lparr>b_stack := [Client (CommitLoop False)] @ b_stack (core t)\<rparr>)"
    using assms by (intro stack_push) (auto simp: thread_inv_def)
  moreover have "inv_retry c ((core t)\<lparr>b_stack := [Client (CommitLoop False)] @ b_stack (core t)\<rparr>)"
    using assms(1) by (intro retry_push) (auto simp: thread_inv_def)
  ultimately show ?thesis using assms(1) by (simp add: thread_inv_def commitAllAvailableInstructions_def cb_ok_call overlap_ok_simple)
qed

lemma squash_dead: "q \<in> set (b_insts k) \<Longrightarrow> q \<notin> set xs \<Longrightarrow> \<not> b_live (b_squash xs k) q"
  by (auto simp: b_squash_def b_live_def split: option.splits)

lemma b_squash_stat: "q \<in> set xs \<or> q \<notin> set (b_insts k) \<Longrightarrow> b_stat (b_squash xs k) q = b_stat k q"
  by (auto simp: b_squash_def)

lemma up_to_mem: "q \<in> set (up_to p B) \<Longrightarrow> q \<in> set B" "p \<in> set (up_to p B) \<longleftrightarrow> p \<in> set B"
  "up_to p B = [] \<or> last (up_to p B) = p"
  by (auto simp: up_to_def dest: set_takeWhileD)

text \<open>The abstract effect of \<open>markFault\<close> before it calls \<open>commitAllAvailableInstructions\<close>.\<close>

lemma markFault_core:
  assumes t': "markFault c p f t = Some t'" and d: "distinct (inflightInsts t)"
  shows "\<exists>ph sq k u. b_stat (core t) p = Some (ph, sq) \<and> t' = commitAllAvailableInstructions (u\<lparr>advanceInstNeedsRetry := False\<rparr>)
    \<and> core u = k \<and> (cb_ok t \<longrightarrow> cb_ok u)
    \<and> freed (set (inflightInsts t) - set (up_to p (inflightInsts t)) \<union> {p}) (b_faulty p ph f (b_squash (up_to p (inflightInsts t)) (core t))) k"
proof -
  let ?xs = "up_to p (inflightInsts t)" and ?D = "set (inflightInsts t) - set (up_to p (inflightInsts t))"
  let ?t = "set_info p (inst_fault_update (\<lambda>_. Some f)) t"
  obtain v u where v: "squashUpTo c p False ?t = Some v" and u: "squash_inst p v = Some u"
    and t': "t' = commitAllAvailableInstructions (u\<lparr>advanceInstNeedsRetry := False\<rparr>)"
    using t' by (auto simp: markFault_def split: bind_splits)
  have kt: "core ?t = (core t)\<lparr>b_fault := (b_fault (core t))(p := Some f)\<rparr>" by (auto simp: core_def set_info_def fun_eq_iff)
  have fv: "freed ?D (b_squash ?xs (core ?t)) (core v)" and cv: "cb_ok ?t \<Longrightarrow> cb_ok v"
    using squashUpTo_core [OF v] d by auto
  note su = squash_inst_core [OF u]
  have B: "inflightInsts v = ?xs" and st: "b_stat (core v) = b_stat (b_squash ?xs (core ?t))"
    using freed_fields(1,2) [OF fv] by (simp_all add: b_squash_def)
  have "b_stat (core v) p \<noteq> None" using su(4) by (simp add: alive_def stat_of_def)
  moreover have "b_stat (core v) p = b_stat (core t) p"
    unfolding st by (subst b_squash_stat) (use up_to_mem(2) [of p "inflightInsts t"] in \<open>auto simp: kt\<close>)
  ultimately obtain ph sq where ph: "b_stat (core t) p = Some (ph, sq)" "b_stat (core v) p = Some (ph, sq)" by auto
  have "freed {p} (b_mark p (core v)) (core u)"
    using su(1,5) up_to_mem(3) [of p "inflightInsts t"] unfolding B by (auto simp: freed_def)
  moreover have "freed ?D (b_faulty p ph f (b_squash ?xs (core t))) (b_mark p (core v))"
  proof -
    have e: "b_faulty p ph f (b_squash ?xs (core t)) = b_mark p (b_squash ?xs (core ?t))"
      using ph(2) unfolding st kt by (intro buffer.equality) (auto simp: b_faulty_def b_mark_def b_squash_def)
    show ?thesis unfolding e using fv unfolding freed_def by (elim disjE bexE) (auto simp: b_mark_def)
  qed
  ultimately have "freed (?D \<union> {p}) (b_faulty p ph f (b_squash ?xs (core t))) (core u)" by (rule freed_trans [rotated])
  moreover have "cb_ok t \<longrightarrow> cb_ok u" using cv su(2) cb_ok_fields [of t ?t] by simp
  ultimately show ?thesis using ph(1) t' by blast
qed

lemma markFault_inv:
  assumes inv: "buffer_inv c (core t)" "cb_ok t" and w: "\<not> window (core t) p" and br: "\<not> branch_open (core t)"
    and t': "markFault c p f t = Some t'"
  shows "thread_inv c t'" "agenda (sys t') = Client (CommitLoop False) # agenda (sys t)"
proof -
  let ?B = "inflightInsts t" and ?xs = "up_to p (inflightInsts t)"
  have d: "distinct ?B" using inv(1) by (auto simp: buffer_inv_def inv_ids_def strict_sorted_iff)
  obtain ph sq u where ph: "b_stat (core t) p = Some (ph, sq)" and t': "t' = commitAllAvailableInstructions (u\<lparr>advanceInstNeedsRetry := False\<rparr>)"
    and cb: "cb_ok u" and fr: "freed (set ?B - set ?xs \<union> {p}) (b_faulty p ph f (b_squash ?xs (core t))) (core u)"
    using markFault_core [OF t' d] inv(2) by blast
  obtain ds where ds: "?B = ?xs @ ds" using up_to_split [OF d, of p] by metis
  let ?k = "b_squash ?xs (core t)" and ?f = "b_faulty p ph f (b_squash ?xs (core t))"
  have "order_inv c ?k" by (rule squash_inv [OF inv(1)]) (use ds br in \<open>auto simp: branch_open_def\<close>)
  moreover have "b_stat ?k p = Some (ph, sq)" using ph up_to_mem(2) [of p ?B] by (subst b_squash_stat) auto
  moreover have s: "window ?k = window (core t)" "branch_open ?k = branch_open (core t)" "b_insts ?k = ?xs"
    by (auto simp: b_squash_def window_def branch_open_def b_ctl_def fun_eq_iff)
  ultimately have bf: "buffer_inv c ?f" using faulty_inv [of c ?k p ph sq f] w br up_to_mem(3) [of p ?B] by auto
  have dead: "\<not> b_live ?f q" if "q \<in> set ?B - set ?xs \<union> {p}" for q
    using that squash_dead [of q "core t" ?xs] by (auto simp: b_faulty_def b_live_def)
  have bu: "buffer_inv c (core u)"
    using freed_order [OF _ fr] bf dead freed_uses [OF fr] unfolding buffer_inv_order by blast
  let ?u = "u\<lparr>advanceInstNeedsRetry := False\<rparr>"
  have "thread_inv c ?u" using bu cb_ok_fields [OF cb, of ?u] by (simp add: thread_inv_def core_retry inv_retry_def)
  moreover have "\<not> branch_open (core ?u)" using br freed_fields(4) [OF fr] freed_preds(6) [OF fr]
    by (simp add: core_retry branch_open_def b_faulty_def b_squash_def b_ctl_def)
  ultimately show "thread_inv c t'" unfolding t' by (rule thread_inv_commit_call)
  show "agenda (sys t') = Client (CommitLoop False) # agenda (sys t)"
    using freed_fields(4) [OF fr] by (simp add: t' commitAllAvailableInstructions_def b_faulty_def b_squash_def)
qed

end
