(* ===== verification/Flex_Thread_Branch.thy ===== *)
theory Flex_Thread_Branch
  imports Flex_Thread_Squash
begin

text \<open>
  The resolution of a branch: the continuation of \<open>onExecutionCompleted\<close> keeps the invariant, whether the prediction was
  right, wrong, or has not been made, and so does the answer of the branch predictor.
\<close>

section \<open>The instruction after a branch\<close>

lemma following_None: "p \<in> set xs \<Longrightarrow> following p xs = None \<Longrightarrow> last xs = p"
  by (induction xs) (auto simp: following_Cons split: if_splits list.splits)

lemma following_last: "distinct xs \<Longrightarrow> following p xs = Some q \<Longrightarrow> last xs \<noteq> p"
  by (induction xs) (auto simp: following_Cons following_def [of _ "[]"] split: if_splits list.splits)

lemma following_up_to: "distinct xs \<Longrightarrow> following p (up_to p xs) = None"
proof (induction xs)
  case (Cons x xs)
  then show ?case by (cases "x = p") (auto simp: up_to_def following_Cons following_def [of _ "[]"])
qed (simp add: up_to_def following_def)

lemma following_chain: "successively R xs \<Longrightarrow> following p xs = Some q \<Longrightarrow> R p q"
  by (induction xs rule: induct_list012) (auto simp: following_Cons following_def [of _ "[]"] split: if_splits)

lemma resolve_retry:
  assumes "inv_retry c k" "b_stack k = [Client (CompletedRest p)]"
    and "b_ctl k p \<Longrightarrow> b_retry k \<Longrightarrow> b_insts k \<noteq> [] \<Longrightarrow> last (b_insts k) = p \<Longrightarrow> location (b_retryPC k) = location (b_succ k p)"
  shows "inv_retry c (k\<lparr>b_stack := []\<rparr>)"
proof -
  have "extends c (k\<lparr>b_stack := []\<rparr>) s" if "extends c k s" "b_insts k \<noteq> []" "last (b_insts k) = p \<longrightarrow> b_ctl k p \<longrightarrow> location s = location (b_succ k p)" for s
    using that assms(2) by (auto simp: extends_def allowed_def unresolved_def split: if_splits)
  then show ?thesis using assms by (auto simp: inv_retry_def window_def)
qed

text \<open>The buffer may be extended with the successor of an instruction that is not an unresolved branch.\<close>

lemma extends_succ:
  assumes "b_insts k \<noteq> []" "last (b_insts k) = p" "b_live k p" "b_complete k p" "Client (CompletedRest p) \<notin> set (b_stack k)"
  shows "extends c k (b_succ k p)"
  using assms by (auto simp: extends_def allowed_def unresolved_def b_at_def split: option.splits)

lemma completed_stack:
  assumes "buffer_inv c k" "b_stack k = Client (CompletedRest p) # r"
  shows "r = []" "b_ctl k p \<Longrightarrow> p \<in> set (b_insts k) \<and> b_live k p \<and> b_complete k p" "was_issued k p"
  using buffer_inv_parts(3) [OF assms(1)] by (auto simp: inv_stack_def assms(2))

section \<open>Squashing the wrong path\<close>

lemma rebuilt_fields:
  assumes "rebuilt xs k k'"
  shows "b_insts k' = b_insts k" "b_stat k' = b_stat k" "b_next k' = b_next k" "b_stack k' = b_stack k" "b_static k' = b_static k"
    "b_pc k' = b_pc k" "b_reqs k' = b_reqs k" "b_active k' = b_active k"
  using assms unfolding rebuilt_def by auto

lemma rebuilt_stack:
  assumes "rebuilt xs k k'"
  shows "rebuilt xs (k\<lparr>b_stack := s\<rparr>) (k'\<lparr>b_stack := s\<rparr>)"
proof -
  let ?u = "\<lambda>r. case youngest_writer (b_static k) r xs of Some d \<Rightarrow> Some d | None \<Rightarrow> b_uses k r"
  obtain x y where k': "k' = k\<lparr>b_ser := x, b_bar := y, b_uses := ?u\<rparr>" and x: "x = b_ser k \<or> x \<in> Some ` set xs"
    and y: "y = b_bar k \<or> (\<exists>q\<in>set xs. y = Some q \<and> (\<exists>si. b_static k q = Some si \<and> isMemBarrier si))"
    using assms unfolding rebuilt_def by blast
  have e: "k'\<lparr>b_stack := s\<rparr> = (k\<lparr>b_stack := s\<rparr>)\<lparr>b_ser := x, b_bar := y, b_uses := ?u\<rparr>"
    unfolding k' by (intro buffer.equality) simp_all
  show ?thesis unfolding rebuilt_def
    by (rule exI [where x = x], rule exI [where x = y]) (use e x y in \<open>simp cong: option.case_cong\<close>)
qed

lemma rebuilt_inv:
  assumes inv: "order_inv c k" and r: "rebuilt (b_insts k) k k'" and B: "\<And>q. q \<in> set (b_insts k) \<Longrightarrow> b_issued k q"
  shows "buffer_inv c k'"
proof -
  let ?u = "\<lambda>r. case youngest_writer (b_static k) r (b_insts k) of Some d \<Rightarrow> Some d | None \<Rightarrow> b_uses k r"
  obtain x y where k': "k' = k\<lparr>b_ser := x, b_bar := y, b_uses := ?u\<rparr>" and x: "x = b_ser k \<or> x \<in> Some ` set (b_insts k)"
    and y: "y = b_bar k \<or> (\<exists>q\<in>set (b_insts k). y = Some q \<and> (\<exists>si. b_static k q = Some si \<and> isMemBarrier si))"
    using r unfolding rebuilt_def by blast
  let ?k = "k\<lparr>b_ser := x, b_bar := y, b_uses := ?u\<rparr>"
  note ids = order_inv_parts(1) [OF inv] and rf = order_inv_parts(7) [OF inv]
  have w: "was_issued k q" if "q \<in> set (b_insts k)" for q using that B ids by (auto simp: was_issued_def inv_ids_def)
  have ctl: "\<not> b_ctl k q" if "b_static k q = Some si" "isMemBarrier si" for q si
    using that order_inv_parts(2) [OF inv] by (auto simp: inv_static_def plain_def b_ctl_def)
  have yw: "p \<in> set xs" if "youngest_writer f r xs = Some (p, n)" for p n f r xs
    using that by (induction xs) (auto split: option.splits)
  have same: "was_issued ?k = was_issued k" "b_ctl ?k = b_ctl k" "b_issued ?k = b_issued k" "b_live ?k = b_live k"
    by (simp_all add: b_defs fun_eq_iff)
  have "was_issued k p" if "?u r = Some (p, n)" for r p n
  proof (cases "youngest_writer (b_static k) r (b_insts k)")
    case None
    then have "b_uses k r = Some (p, n)" using that by simp
    then show ?thesis using rf unfolding inv_refs_def by blast
  next
    case (Some d)
    then show ?thesis using that by (auto intro: w yw)
  qed
  moreover have "was_issued k p" if "x = Some p" for p using that x rf w by (auto simp: inv_refs_def)
  moreover have "was_issued k p \<and> \<not> b_ctl k p" if "y = Some p" for p using that y rf w ctl by (auto simp: inv_refs_def)
  ultimately have "inv_refs ?k" unfolding inv_refs_def same by simp
  moreover have "filter (b_issued k) (b_insts k) = b_insts k" using B by (simp add: filter_id_conv)
  then have "inv_uses ?k" unfolding inv_uses_def same by simp
  ultimately show ?thesis unfolding k' by (rule refs_inv [OF inv])
qed

text \<open>The wrong path is squashed while the branch is still open; then the branch is the last instruction.\<close>

lemma squash_wrong_path:
  assumes inv: "buffer_inv c (core t\<lparr>b_stack := [Client (CompletedRest p)]\<rparr>)" and cb: "cb_ok t" and st: "agenda (sys t) = []"
    and p: "p \<in> set (inflightInsts t)" "live t p" "holds isComplete t p" and t': "squashUpTo c p True t = Some t'"
  shows "buffer_inv c (core t')" "cb_ok t'" "info t' = info t" "agenda (sys t') = []" "inflightInsts t' = up_to p (inflightInsts t)"
    "live t' p" "holds isComplete t' p" "\<And>q. \<not> window (core t') q"
proof -
  let ?S = "[Client (CompletedRest p)]" and ?xs = "up_to p (inflightInsts t)" and ?k = "core t\<lparr>b_stack := [Client (CompletedRest p)]\<rparr>"
  have d: "distinct (inflightInsts t)" using buffer_inv_parts(1) [OF inv] by (auto simp: inv_ids_def strict_sorted_iff)
  obtain k where fr: "freed (set (inflightInsts t) - set ?xs) (b_squash ?xs (core t)) k" and rb: "rebuilt ?xs k (core t')"
    using squashUpTo_core [OF t' d] by auto
  show "cb_ok t'" "info t' = info t" using squashUpTo_core [OF t' d] cb by blast+
  obtain ds where ds: "inflightInsts t = ?xs @ ds" using up_to_split [OF d, of p] by metis
  have ord: "order_inv c (b_squash ?xs ?k)" by (rule squash_inv [OF inv, where ds = ds]) (use ds p(1) up_to_mem(2) in auto)
  have e: "(b_squash ?xs (core t))\<lparr>b_stack := ?S\<rparr> = b_squash ?xs ?k"
    by (intro buffer.equality) (simp_all add: b_squash_def fun_eq_iff)
  have fr': "freed (set (inflightInsts t) - set ?xs) (b_squash ?xs ?k) (k\<lparr>b_stack := ?S\<rparr>)" using freed_stack [OF fr, of ?S] unfolding e .
  have dead: "\<not> b_live (b_squash ?xs ?k) q" if "q \<in> set (inflightInsts t) - set ?xs" for q using that by (intro squash_dead) auto
  have ok: "order_inv c (k\<lparr>b_stack := ?S\<rparr>)" using freed_order [OF ord fr'] dead by blast
  have kB: "b_insts k = ?xs" and kst: "b_stat k = b_stat (b_squash ?xs (core t))" using freed_fields(1,2) [OF fr] by (simp_all add: b_squash_def)
  note rf = rebuilt_fields [OF rb]
  show B: "inflightInsts t' = ?xs" using rf(1) kB by simp
  have keep: "b_stat (core t') q = b_stat (core t) q" if "q \<in> set ?xs" for q using that rf(2) kst by (simp add: b_squash_stat)
  have px: "p \<in> set ?xs" using p(1) up_to_mem(2) by simp
  have "b_live (core t') p = b_live (core t) p" "b_complete (core t') p = b_complete (core t) p"
    using keep [OF px] by (simp_all add: b_live_def b_at_def)
  then show l: "live t' p" "holds isComplete t' p" using p by (simp_all add: core_preds)
  have iss: "b_issued (core t) q" if q: "q \<in> set ?xs" for q
  proof (rule ccontr)
    assume n: "\<not> b_issued (core t) q"
    have np: "q \<noteq> p" using n p(3) by (auto simp: core_preds holds_def isComplete_def less_eq_Status_def split: option.splits)
    have qb: "q \<in> set (inflightInsts t)" using q up_to_mem(1) by blast
    have srt: "sorted_wrt (<) (inflightInsts t)" using buffer_inv_parts(1) [OF inv] by (simp add: inv_ids_def)
    have lastx: "last ?xs = p" "?xs \<noteq> []" using px up_to_mem(3) [of p "inflightInsts t"] by auto
    have "q < p" using q np srt lastx ds by (metis append_butlast_last_id in_set_conv_decomp_last last_appendR less_irrefl
        list.distinct(1) order_less_le sorted_le_last sorted_wrt_append)
    then have "q \<noteq> last (inflightInsts t)" using sorted_le_last [OF srt p(1)] by auto
    then show False using buffer_inv_parts(5) [OF inv] n qb by (auto simp: inv_issue_def)
  qed
  have "b_issued (k\<lparr>b_stack := ?S\<rparr>) q" if "q \<in> set ?xs" for q
    using iss [OF that] kst that by (simp add: b_at_def b_squash_stat)
  then have bi: "buffer_inv c ((core t')\<lparr>b_stack := ?S\<rparr>)" using rebuilt_inv [OF ok, of "(core t')\<lparr>b_stack := ?S\<rparr>"] rebuilt_stack [OF rb, of ?S] kB by simp
  have "(core t')\<lparr>b_stack := ?S, b_stack := []\<rparr> = core t'" using st rf(4) freed_fields(4) [OF fr] by (intro buffer.equality) (simp_all add: b_squash_def)
  then show "buffer_inv c (core t')" "\<not> window (core t') q" for q
    using resolve_inv(1,2) [OF bi, of p "[]"] following_up_to [OF d, of p] B by simp_all
  show "agenda (sys t') = []" using st rf(4) freed_fields(4) [OF fr] by (simp add: b_squash_def)
qed

section \<open>The end of an execution\<close>

lemma getNextPC_succ:
  assumes "getNextPC t = Some s" "inflightInsts t \<noteq> []"
  shows "s = b_succ (core t) (last (inflightInsts t))"
  using assms by (auto simp: getNextPC_def b_succ_def split: option.splits if_splits)

lemma activate_late: "buffer_inv c (core t) \<Longrightarrow> inflightInsts t \<noteq> [] \<Longrightarrow> ActivateEvent \<notin> set (requests t)"
  by (auto simp: buffer_inv_def inv_requests_def inv_activate_def)

text \<open>The next instruction may be fetched when the branch is the last instruction and is no longer open.\<close>

lemma advance_after_branch:
  assumes pl: "plain_cpu c" and inv: "buffer_inv c (core t)" "cb_ok t" and w: "\<And>q. \<not> window (core t) q" and st: "agenda (sys t) = []"
    and p: "inflightInsts t \<noteq> []" "last (inflightInsts t) = p" "live t p" "holds isComplete t p"
    and t': "advanceInst c (b_succ (core t) p) t = Some t'"
  shows "thread_inv c t' \<and> agenda (sys t') = []"
proof -
  have "extends c (core t) (b_succ (core t) p)" by (rule extends_succ) (use p st in \<open>simp_all add: core_preds\<close>)
  then show ?thesis using advanceInst_inv [OF pl inv w _ t'] activate_late [OF inv(1) p(1)] st by simp
qed

lemma completed_pop:
  assumes "agenda (sys t) = Client (CompletedRest p) # r" "t0 = on_sys (agenda_update (\<lambda>_. r)) t"
  shows "core t = core t0\<lparr>b_stack := Client (CompletedRest p) # r\<rparr>" "agenda (sys t0) = r" "cb_ok t \<Longrightarrow> cb_ok t0"
proof -
  show "core t = core t0\<lparr>b_stack := Client (CompletedRest p) # r\<rparr>" using assms by (simp add: core_def on_sys_def)
  show "agenda (sys t0) = r" using assms by (simp add: on_sys_def)
  show "cb_ok t \<Longrightarrow> cb_ok t0" by (rule cb_ok_same) (use assms in \<open>auto simp: on_sys_def\<close>)
qed

lemma resolve_branch_inv:
  assumes pl: "plain_cpu c" and inv: "buffer_inv c (core t\<lparr>b_stack := [Client (CompletedRest p)]\<rparr>)"
    "inv_retry c (core t\<lparr>b_stack := [Client (CompletedRest p)]\<rparr>)" and cb: "cb_ok t" and st: "agenda (sys t) = []"
    and si: "static t p = Some si" "isControl si" and t': "resolve_branch c p si t = Some t'"
  shows "thread_inv c t' \<and> agenda (sys t') = []"
proof -
  let ?S = "[Client (CompletedRest p)]" and ?B = "inflightInsts t"
  have ctl: "b_ctl (core t\<lparr>b_stack := ?S\<rparr>) p" using si by (simp add: b_ctl_def)
  have p: "p \<in> set ?B" "live t p" "holds isComplete t p"
    using completed_stack(2) [OF inv(1), of p "[]"] ctl by (simp_all add: core_preds)
  have d: "distinct ?B" using buffer_inv_parts(1) [OF inv(1)] by (auto simp: inv_ids_def strict_sorted_iff)
  have pop: "core u\<lparr>b_stack := []\<rparr> = core u" if "agenda (sys u) = []" for u
    using that by (intro buffer.equality) simp_all
  have ne: "?B \<noteq> []" using p(1) by auto
  show ?thesis
  proof (cases "hasBranchPredictor c \<and> (following p ?B \<noteq> None \<or> advanceInstNeedsRetry t)")
    case False
    have "following p ?B = None"
    proof (cases "hasBranchPredictor c")
      case no: False
      show ?thesis
      proof (rule ccontr)
        assume "following p ?B \<noteq> None"
        then obtain q where "following p ?B = Some q" by auto
        then have "allowed c (core t\<lparr>b_stack := ?S\<rparr>) p (pcState (info t q))"
          using following_chain [of _ ?B p q] buffer_inv_parts(8) [OF inv(1)] by (auto simp: inv_chain_def)
        then show False using ctl no by (simp add: allowed_def unresolved_def)
      qed
    qed (use False in simp)
    then have l: "last ?B = p" and n: "following p (b_insts (core t\<lparr>b_stack := ?S\<rparr>)) = None" using following_None [OF p(1)] by simp_all
    note rs = resolve_inv [OF inv(1), of p "[]", simplified, unfolded pop [OF st]]
    have b: "buffer_inv c (core t)" "\<And>q. \<not> window (core t) q" using rs n by simp_all
    obtain s where s: "getNextPC t = Some s" "advanceInst c s t = Some t'"
      using t' False p(1) by (auto simp: resolve_branch_def split: bind_splits if_splits)
    have "s = b_succ (core t) p" using getNextPC_succ [OF s(1) ne] l by simp
    then show ?thesis using advance_after_branch [OF pl b(1) cb b(2) st ne l p(2,3)] s(2) by simp
  next
    case True
    obtain t1 where t1: "freeBranchPredDepth t = Some t1"
      using t' True p(1) by (auto simp: resolve_branch_def Let_def split: bind_splits if_splits)
    note fr = freeBranchPredDepth_core [OF t1]
    note ff = freed_fields [OF fr(1), simplified]
    have st1: "agenda (sys t1) = []" and B1: "inflightInsts t1 = ?B" using ff(1,4) st by simp_all
    have k1: "buffer_inv c (core t1\<lparr>b_stack := ?S\<rparr>)" "inv_retry c (core t1\<lparr>b_stack := ?S\<rparr>)"
      using freed_buffer [OF inv(1), of "core t1\<lparr>b_stack := ?S\<rparr>"] freed_stack [OF fr(1), of ?S] inv(2) ne by simp_all
    have p1: "p \<in> set (inflightInsts t1)" "live t1 p" "holds isComplete t1 p"
      using p B1 freed_preds(1,2) [OF fr(1)] by (simp_all add: core_preds [symmetric])
    have si1: "static t1 p = Some si" using si(1) fr(3) by simp
    let ?correct = "advancePC si (pcState (info t1 p))"
    let ?pred = "case following p ?B of Some q \<Rightarrow> pcState (info t1 q) | None \<Rightarrow> advanceInstRetryPC t1"
    have cor: "?correct = b_succ (core t1) p" using si1 by (simp add: b_succ_def)
    show ?thesis
    proof (cases "s_pc ?correct = s_pc ?pred \<and> s_upc ?correct = s_upc ?pred")
      case ok: True
      then have "t' = t1" using t' True p(1) t1 by (simp add: resolve_branch_def Let_def)
      have loc: "location ?pred = location (b_succ (core t1) p)" using ok cor by (simp add: location_def)
      note rs = resolve_inv [OF k1(1), of p "[]", simplified, unfolded pop [OF st1]]
      have "buffer_inv c (core t1)" by (rule rs(1)) (use loc B1 in simp)
      moreover have "inv_retry c (core t1\<lparr>b_stack := ?S, b_stack := []\<rparr>)"
      proof (rule resolve_retry [OF k1(2), where p = p])
        assume "last (b_insts (core t1\<lparr>b_stack := ?S\<rparr>)) = p"
        then have "following p ?B = None" using following_last [OF d] B1 by (cases "following p ?B") auto
        then show "location (b_retryPC (core t1\<lparr>b_stack := ?S\<rparr>)) = location (b_succ (core t1\<lparr>b_stack := ?S\<rparr>) p)" using loc by simp
      qed simp
      ultimately show ?thesis using \<open>t' = t1\<close> fr(2) [OF cb] st1 by (simp add: thread_inv_def pop [OF st1])
    next
      case wrong: False
      obtain t2 x where t2: "squashUpTo c p True t1 = Some t2" "advanceInst c ?correct (t2\<lparr>predictor_calls := x\<rparr>) = Some t'"
        using t' True p(1) t1 wrong by (auto simp: resolve_branch_def Let_def split: bind_splits)
      note sw = squash_wrong_path [OF k1(1) fr(2) [OF cb] st1 p1 t2(1)]
      let ?u = "t2\<lparr>predictor_calls := x\<rparr>"
      have u: "core ?u = core t2" "cb_ok ?u" "agenda (sys ?u) = []" "inflightInsts ?u = up_to p ?B" "live ?u p" "holds isComplete ?u p"
        using sw B1 cb_ok_fields [of t2 ?u] by (simp_all add: core_def live_def holds_def)
      have l: "up_to p ?B \<noteq> []" "last (up_to p ?B) = p" using up_to_mem(2,3) [of p ?B] p(1) by auto
      have cu: "?correct = b_succ (core ?u) p" using cor u(1) sw(3) by (simp add: b_succ_def)
      have "buffer_inv c (core ?u)" "\<And>q. \<not> window (core ?u) q" using sw(1,8) u(1) by simp_all
      from advance_after_branch [OF pl this(1) u(2) this(2) u(3) _ _ u(5,6) t2(2) [unfolded cu]] show ?thesis using u(4) l by simp
    qed
  qed
qed

lemma completed_rest_inv:
  assumes pl: "plain_cpu c" and inv: "thread_inv c t" and st: "agenda (sys t) = Client (CompletedRest p) # r"
    and t': "completed_rest c p (on_sys (agenda_update (\<lambda>_. r)) t) = Some t'"
  shows "thread_inv c t'"
proof -
  let ?t = "on_sys (agenda_update (\<lambda>_. r)) t"
  have bi: "buffer_inv c (core t)" "inv_retry c (core t)" and cb: "cb_ok t" using inv by (simp_all add: thread_inv_def)
  have r: "r = []" using completed_stack(1) [OF bi(1), of p r] st by simp
  note pop = completed_pop [OF st refl, unfolded r]
  obtain si u where si: "static ?t p = Some si" and u: "if isControl si then resolve_branch c p si ?t = Some u else u = ?t"
    and tu: "t' = commitAllAvailableInstructions u"
    using t' by (auto simp: completed_rest_def split: bind_splits if_splits)
  have "thread_inv c u \<and> agenda (sys u) = []"
  proof (cases "isControl si")
    case True
    have i: "buffer_inv c (core ?t\<lparr>b_stack := [Client (CompletedRest p)]\<rparr>)" "inv_retry c (core ?t\<lparr>b_stack := [Client (CompletedRest p)]\<rparr>)"
      using bi pop(1) r by simp_all
    show ?thesis using resolve_branch_inv [OF pl i _ _ si True] u True pop(2,3) cb r by simp
  next
    case False
    then have n: "\<not> b_ctl (core t) p" using si by (simp add: b_ctl_def)
    have k: "core ?t = (core t)\<lparr>b_stack := []\<rparr>" using r by (simp add: core_def on_sys_def)
    have "buffer_inv c (core ?t)" unfolding k by (rule resolve_inv(1) [OF bi(1), of p]) (use st r n in auto)
    moreover have "inv_retry c (core ?t)" unfolding k by (rule resolve_retry [OF bi(2), of p]) (use st r n in auto)
    ultimately show ?thesis using u False pop(2,3) cb r by (simp add: thread_inv_def)
  qed
  then show ?thesis unfolding tu by (intro thread_inv_commit_call) (auto simp: branch_open_def)
qed

end
