(* ===== verification/Flex_Thread_Issue.thy ===== *)
theory Flex_Thread_Issue
  imports Flex_Thread_Branch
begin

text \<open>
  The issue of an instruction: \<open>populateDependencies\<close> only makes it wait for older instructions, \<open>populateUses\<close> makes
  it the last writer of its registers, and the next instruction is fetched if its address is known.
\<close>

section \<open>Dependencies\<close>

text \<open>\<open>fresh p k\<close>: the youngest instruction, which is being issued.\<close>

definition fresh :: "inst_id \<Rightarrow> buffer \<Rightarrow> bool" where
  "fresh p k \<longleftrightarrow> b_next k = Suc p \<and> b_insts k \<noteq> [] \<and> last (b_insts k) = p \<and> sorted_wrt (<) (b_insts k)
     \<and> (\<forall>q\<in>set (b_insts k). q \<noteq> p \<longrightarrow> was_issued k q) \<and> (\<forall>q si. b_static k q = Some si \<longrightarrow> plain si)
     \<and> (\<forall>r q n. b_uses k r = Some (q, n) \<longrightarrow> b_alive k q \<longrightarrow> q < p)"

definition dep_change :: "inst_id \<Rightarrow> StaticInst \<Rightarrow> thread \<Rightarrow> thread \<Rightarrow> bool" where
  "dep_change p si t t' \<longleftrightarrow> cb_ok t' \<and> (\<exists>x y. core t' = core t\<lparr>b_ser := x, b_bar := y\<rparr>
     \<and> (x = lastSerializingInstruction t \<or> x = Some p) \<and> (y = lastMemBarrier t \<or> y = Some p \<and> isMemBarrier si))"

lemma refs_preds [simp]:
  "b_ctl (k\<lparr>b_ser := x, b_bar := y\<rparr>) = b_ctl k" "was_issued (k\<lparr>b_ser := x, b_bar := y\<rparr>) = was_issued k"
  "b_alive (k\<lparr>b_ser := x, b_bar := y\<rparr>) = b_alive k" "fresh p (k\<lparr>b_ser := x, b_bar := y\<rparr>) = fresh p k"
  by (simp_all add: b_defs fun_eq_iff fresh_def)

lemma dep_change_refl: "cb_ok t \<Longrightarrow> core t' = core t \<Longrightarrow> cb_ok t' \<Longrightarrow> dep_change p si t t'"
  unfolding dep_change_def by (intro conjI exI [of _ "lastSerializingInstruction t"] exI [of _ "lastMemBarrier t"]) simp_all

lemma dep_change_trans:
  assumes "dep_change p si t u" "dep_change p si u v"
  shows "dep_change p si t v"
proof -
  obtain x y where u: "core u = core t\<lparr>b_ser := x, b_bar := y\<rparr>" "x = lastSerializingInstruction t \<or> x = Some p"
    "y = lastMemBarrier t \<or> y = Some p \<and> isMemBarrier si"
    using assms(1) unfolding dep_change_def by blast
  obtain x' y' where v: "core v = core u\<lparr>b_ser := x', b_bar := y'\<rparr>" "x' = lastSerializingInstruction u \<or> x' = Some p"
    "y' = lastMemBarrier u \<or> y' = Some p \<and> isMemBarrier si"
    using assms(2) unfolding dep_change_def by blast
  have "lastSerializingInstruction u = x" "lastMemBarrier u = y"
    using arg_cong [OF u(1), of b_ser] arg_cong [OF u(1), of b_bar] by simp_all
  moreover have "core v = core t\<lparr>b_ser := x', b_bar := y'\<rparr>" unfolding v(1) u(1) by simp
  ultimately show ?thesis using assms(2) u(2,3) v(2,3) unfolding dep_change_def by blast
qed

lemma dep_change_fields:
  assumes "dep_change p si t t'"
  shows "fresh p (core t') = fresh p (core t)" "inflightInsts t' = inflightInsts t" "static t' = static t" "alive t' = alive t"
    "b_ctl (core t') = b_ctl (core t)" "cb_ok t'" "lastUses t' = lastUses t" "pcState (info t' q) = pcState (info t q)"
    "next_id (sys t') = next_id (sys t)"
proof -
  obtain x y where k: "core t' = core t\<lparr>b_ser := x, b_bar := y\<rparr>" using assms unfolding dep_change_def by blast
  show "fresh p (core t') = fresh p (core t)" "b_ctl (core t') = b_ctl (core t)" by (simp_all add: k)
  show "inflightInsts t' = inflightInsts t" using arg_cong [OF k, of b_insts] by simp
  show "static t' = static t" using arg_cong [OF k, of b_static] by (simp add: fun_eq_iff core_def)
  show "alive t' = alive t" using arg_cong [OF k, of b_alive] by (simp add: fun_eq_iff core_preds)
  show "lastUses t' = lastUses t" using arg_cong [OF k, of b_uses] by simp
  show "pcState (info t' q) = pcState (info t q)" using arg_cong [OF k, of "\<lambda>k. b_pc k q"] by simp
  show "next_id (sys t') = next_id (sys t)" using arg_cong [OF k, of b_next] by simp
  show "cb_ok t'" using assms by (simp add: dep_change_def)
qed

lemma dep_change_lock: "dep_change p si t t' \<Longrightarrow> lock t' x = lock t x"
  using dep_change_fields(4) [of p si t t'] by (cases x) (simp_all add: lock_def)

lemma fresh_older: "fresh p k \<Longrightarrow> q \<in> set (b_insts k) \<Longrightarrow> q \<noteq> p \<Longrightarrow> q < p"
  using sorted_le_last [of "b_insts k" q] by (force simp: fresh_def)

lemma fresh_previous: "fresh p (core t) \<Longrightarrow> previous t = Some q \<Longrightarrow> q < p"
proof -
  assume f: "fresh p (core t)" and q: "previous t = Some q"
  obtain xs where xs: "inflightInsts t = xs @ [p]" using f by (metis append_butlast_last_id fresh_def core_fields(1))
  have "xs \<noteq> []" "q = last xs" using q xs by (auto simp: previous_def butlast_append split: if_splits)
  then show "q < p" using f xs by (auto simp: fresh_def sorted_wrt_append)
qed

text \<open>A dependency on an older instruction.\<close>

lemma dep_change_add:
  assumes "cb_ok t" "fresh p (core t)" "q < p"
  shows "dep_change p si t (on_sys (addDependency p q) t)" "dep_change p si t (on_sys (addBeginExecDependency p q) t)"
    "dep_change p si t (on_sys (addCommitDependency p q) t)" "dep_change p si t (on_sys (addMemCommitDependency p q) t)"
    "dep_change p si t (on_sys (addMemEffAddrDependency p q) t)"
    "\<not> b_ctl (core t) q \<Longrightarrow> dep_change p si t (on_sys (addMemDependency p q) t)"
  using assms cb_ok_dependency [OF assms(1,3)] by (auto simp: fresh_def intro!: dep_change_refl)

lemma dep_change_overlap:
  assumes cb: "cb_ok t" and k: "overlap_pair cb \<noteq> None" "overlap_ok (core t) cb"
  shows "dep_change p si t (on_sys (addEffAddrCalculatedCallback q cb) t)"
proof -
  have "cb_ok (on_sys (addEffAddrCalculatedCallback q cb) t)"
    unfolding addEffAddrCalculatedCallback_def
    by (rule cb_ok_add [OF cb]) (use k in \<open>auto intro!: core_act_same simp: inst_cbs_def stat_of_def\<close>)
  then show ?thesis using cb by (intro dep_change_refl) auto
qed

lemma fold_opt_dep:
  assumes "fold_opt f xs t = Some t'" "cb_ok t" "fresh p (core t)"
    and "\<And>q u v. q \<in> set xs \<Longrightarrow> cb_ok u \<Longrightarrow> fresh p (core u) \<Longrightarrow> inflightInsts u = inflightInsts t \<Longrightarrow> f q u = Some v \<Longrightarrow> dep_change p si u v"
  shows "dep_change p si t t'"
  using assms
proof (induction xs arbitrary: t)
  case (Cons x xs)
  obtain u where u: "f x t = Some u" "fold_opt f xs u = Some t'" using Cons.prems(1) by (auto split: bind_splits)
  have d: "dep_change p si t u" using Cons.prems u(1) by auto
  note df = dep_change_fields [OF d]
  have "dep_change p si u t'" by (rule Cons.IH [OF u(2)]) (use Cons.prems df in auto)
  then show ?case by (rule dep_change_trans [OF d])
qed (auto intro: dep_change_refl)

section \<open>The rules of populateDependencies\<close>

lemma dep_in_order_change:
  assumes "cb_ok t" "fresh p (core t)"
  shows "dep_change p si t (dep_in_order c p t)"
proof (cases "previous t")
  case None
  then show ?thesis using assms(1) by (simp add: dep_in_order_def dep_change_refl)
next
  case (Some q)
  note qp = fresh_previous [OF assms(2) Some]
  let ?u = "if inOrderExecute c \<and> \<not> (holds isComplete t q \<or> holds i_squashed t q) then on_sys (addDependency p q) t else t"
  have u: "dep_change p si t ?u" using dep_change_add(1) [OF assms qp] dep_change_refl [OF assms(1) refl assms(1)] by simp
  note uf = dep_change_fields [OF u]
  have "dep_change p si ?u (dep_in_order c p t)"
    unfolding dep_in_order_def Some
    using dep_change_add(2) [OF uf(6) _ qp] assms(2) uf(1) dep_change_refl [OF uf(6) refl uf(6)] by (simp add: Let_def)
  then show ?thesis by (rule dep_change_trans [OF u])
qed

lemma dep_change_ser: "cb_ok t \<Longrightarrow> dep_change p si t (t\<lparr>lastSerializingInstruction := Some p\<rparr>)"
  unfolding dep_change_def
  by (intro conjI exI [of _ "Some p"] exI [of _ "lastMemBarrier t"])
    (auto intro: cb_ok_fields simp: core_def)

text \<open>A rule that may or may not apply: \<open>dep_if\<close> composes its effect.\<close>

lemma dep_if:
  assumes "dep_change p si t u" "b \<Longrightarrow> cb_ok u \<Longrightarrow> fresh p (core u) = fresh p (core t) \<Longrightarrow> dep_change p si u v"
  shows "dep_change p si t (if b then v else u)"
  using assms dep_change_fields [OF assms(1)] by (auto intro: dep_change_trans)

lemma dep_serialize_change:
  assumes cb: "cb_ok t" and f: "fresh p (core t)" and ser: "\<And>q. lock t (lastSerializingInstruction t) = Some q \<Longrightarrow> q < p"
  shows "dep_change p si t (dep_serialize c p si t)"
proof -
  let ?u = "case lock t (lastSerializingInstruction t) of
      Some q \<Rightarrow> if \<not> (holds isCommitted t q \<or> holds i_squashed t q) then on_sys (addCommitDependency p q) t else t
    | None \<Rightarrow> t"
  have u: "dep_change p si t ?u"
    using dep_change_refl [OF cb refl cb] dep_change_add(3) [OF cb f] ser by (auto split: option.splits)
  note uf = dep_change_fields [OF u]
  have fu: "fresh p (core ?u)" using uf(1) f by simp
  have r: "dep_change p si ?u ?u" by (rule dep_change_refl) (use uf(6) in simp_all)
  have "dep_change p si ?u (dep_serialize c p si t)"
  proof (cases "strictSerialize c")
    case True
    show ?thesis
    proof (cases "previous ?u")
      case None
      then show ?thesis using True r unfolding dep_serialize_def by (simp add: Let_def)
    next
      case (Some q)
      let ?v = "if \<not> (holds isCommitted ?u q \<or> holds i_squashed ?u q) then on_sys (addCommitDependency p q) ?u else ?u"
      have v: "dep_change p si ?u ?v" by (rule dep_if [OF r]) (use dep_change_add(3) [OF uf(6) fu fresh_previous [OF fu Some]] in blast)
      have "dep_serialize c p si t = (if isSerializing si then ?v\<lparr>lastSerializingInstruction := Some p\<rparr> else ?u)"
        using True Some unfolding dep_serialize_def by (simp add: Let_def)
      then show ?thesis using r dep_change_trans [OF v dep_change_ser] dep_change_fields(6) [OF v] by simp
    qed
  next
    case False
    let ?v = "case previous ?u of Some q \<Rightarrow> if isSerializeBefore si then on_sys (addCommitDependency p q) ?u else ?u | None \<Rightarrow> ?u"
    have v: "dep_change p si ?u ?v"
      using r dep_change_add(3) [OF uf(6) fu] fresh_previous [OF fu] by (auto split: option.splits)
    have "dep_serialize c p si t = (if isSerializeAfter si then ?v\<lparr>lastSerializingInstruction := Some p\<rparr> else ?v)"
      using False unfolding dep_serialize_def Let_def by simp
    then show ?thesis using v dep_change_trans [OF v dep_change_ser] dep_change_fields(6) [OF v] by simp
  qed
  then show ?thesis by (rule dep_change_trans [OF u])
qed

lemma dep_serialize_bar: "lastMemBarrier (dep_serialize c p si t) = lastMemBarrier t"
proof -
  have o: "lastMemBarrier (case x of Some q \<Rightarrow> if b q then on_sys (f q) u else u | None \<Rightarrow> u) = lastMemBarrier u" for x b f u
    by (cases x) simp_all
  show ?thesis unfolding dep_serialize_def Let_def by (simp add: o split: option.split)
qed

lemma dep_change_bar: "cb_ok t \<Longrightarrow> isMemBarrier si \<Longrightarrow> dep_change p si t (t\<lparr>lastMemBarrier := Some p\<rparr>)"
  unfolding dep_change_def
  by (intro conjI exI [of _ "lastSerializingInstruction t"] exI [of _ "Some p"])
    (auto intro: cb_ok_fields simp: core_def)

lemma plain_mem: "plain si \<Longrightarrow> isMemRef si \<or> isStore si \<or> isMemBarrier si \<Longrightarrow> \<not> isControl si"
  by (auto simp: plain_def)

lemma barrier_waits_change:
  assumes "cb_ok t" "fresh p (core t)" "q \<in> set (inflightInsts t)" "barrier_waits p si q t = Some t'"
  shows "dep_change p si t t'"
proof -
  have r: "dep_change p si t t" by (rule dep_change_refl) (use assms in simp_all)
  show ?thesis
  proof (cases "q = p \<or> holds isComplete t q \<or> holds i_squashed t q")
    case True
    then show ?thesis using assms(4) r by (simp add: barrier_waits_def)
  next
    case False
    obtain osi where o: "static t q = Some osi" using False assms(4) by (auto simp: barrier_waits_def split: bind_splits)
    have qp: "q < p" using fresh_older [OF assms(2)] assms(3) False by simp
    have "isMemBarrier osi \<or> isMemRef osi \<Longrightarrow> \<not> b_ctl (core t) q"
      using assms(2) o plain_mem [of osi] by (auto simp: fresh_def b_ctl_def)
    then show ?thesis using False o assms(4) r dep_change_add(1,6) [OF assms(1,2) qp]
      by (auto simp: barrier_waits_def split: if_splits)
  qed
qed

lemma dep_barrier_change:
  assumes cb: "cb_ok t" and f: "fresh p (core t)"
    and bar: "\<And>q. lock t (lastMemBarrier t) = Some q \<Longrightarrow> q < p \<and> \<not> b_ctl (core t) q" and t': "dep_barrier p si t = Some t'"
  shows "dep_change p si t t'"
proof -
  let ?u = "if isMemRef si then (case lock t (lastMemBarrier t) of Some q \<Rightarrow> on_sys (addMemDependency p q) t | None \<Rightarrow> t) else t"
  have u: "dep_change p si t ?u"
    using dep_change_refl [OF cb refl cb] dep_change_add(6) [OF cb f] bar by (auto split: option.splits)
  note uf = dep_change_fields [OF u]
  show ?thesis
  proof (cases "isMemBarrier si")
    case False
    then show ?thesis using t' u unfolding dep_barrier_def by (simp add: Let_def)
  next
    case True
    let ?v = "?u\<lparr>lastMemBarrier := Some p\<rparr>"
    have v: "dep_change p si ?u ?v" by (rule dep_change_bar) (use uf(6) True in simp_all)
    note vf = dep_change_fields [OF v]
    have b: "inflightInsts ?v = inflightInsts ?u" by simp
    have "fold_opt (barrier_waits p si) (rev (inflightInsts ?u)) ?v = Some t'"
      using t' True unfolding dep_barrier_def by (simp add: Let_def)
    then have "dep_change p si ?v t'"
      by (rule fold_opt_dep) (use vf(1,6) uf(1) f b barrier_waits_change in \<open>auto\<close>)
    then show ?thesis using dep_change_trans [OF u dep_change_trans [OF v]] by blast
  qed
qed

lemma dep_non_speculative_change:
  assumes "cb_ok t" "fresh p (core t)"
  shows "dep_change p si t (dep_non_speculative p si t)" "dep_change p si t (dep_store_at_commit p si t)"
  using dep_change_refl [OF assms(1) refl assms(1)] dep_change_add(3,4) [OF assms] fresh_previous [OF assms(2)]
  by (auto simp: dep_non_speculative_def dep_store_at_commit_def split: option.splits)

lemma overlap_waits_change:
  assumes cb: "cb_ok t" and f: "fresh p (core t)" and q: "q \<in> set (inflightInsts t)" "q \<noteq> p" and t': "overlap_waits p q t = Some t'"
  shows "dep_change p si t t'"
proof -
  obtain osi where o: "static t q = Some osi" using t' by (auto simp: overlap_waits_def split: bind_splits)
  have r: "dep_change p si t t" by (rule dep_change_refl) (use cb in simp_all)
  show ?thesis
  proof (cases "isStore osi")
    case False
    then show ?thesis using t' o r by (simp add: overlap_waits_def)
  next
    case True
    have "plain osi" using f o by (auto simp: fresh_def)
    then have n: "\<not> b_ctl (core t) q" using True o plain_mem [of osi] by (auto simp: b_ctl_def)
    have qp: "q < p" using fresh_older [OF f] q by simp
    have ok: "overlap_ok k cb" if "overlap_pair cb = Some (p, q)" "k = core t" for cb k
      using that f q n qp by (simp add: overlap_ok_def fresh_def)
    let ?a = "on_sys (addEffAddrCalculatedCallback p (Client (OverlapInst p q))) t"
    let ?b = "on_sys (addEffAddrCalculatedCallback q (Client (OverlapOther p q))) ?a"
    have a: "dep_change p si t ?a" by (rule dep_change_overlap) (use cb ok in auto)
    note af = dep_change_fields [OF a]
    have b: "dep_change p si ?a ?b" by (rule dep_change_overlap [OF af(6)]) (use ok in auto)
    note bf = dep_change_fields [OF b]
    have "dep_change p si ?b (on_sys (addMemEffAddrDependency p q) ?b)" using dep_change_add(5) [OF bf(6) _ qp] f af(1) bf(1) by simp
    then have c: "dep_change p si t (on_sys (addMemEffAddrDependency p q) ?b)" by (rule dep_change_trans [OF a dep_change_trans [OF b]])
    have d: "dep_change p si t (on_sys (addEffAddrCalculatedCallback p (Client (OverlapKnown p q))) t)"
      by (rule dep_change_overlap) (use cb ok in auto)
    show ?thesis using t' o True c d by (auto simp: overlap_waits_def split: if_splits)
  qed
qed

lemma dep_memory_order_change:
  assumes "cb_ok t" "fresh p (core t)" "dep_memory_order p si t = Some t'"
  shows "dep_change p si t t'"
proof (cases "isMemRef si")
  case True
  then have "fold_opt (overlap_waits p) (takeWhile (\<lambda>q. q \<noteq> p) (inflightInsts t)) t = Some t'" using assms(3) by (simp add: dep_memory_order_def)
  then show ?thesis by (rule fold_opt_dep) (use assms overlap_waits_change in \<open>auto dest: set_takeWhileD\<close>)
next
  case False
  then show ?thesis using assms by (simp add: dep_memory_order_def dep_change_refl)
qed

lemma data_source_change:
  assumes "cb_ok t" "fresh p (core t)"
  shows "dep_change p si t (data_source p kr t)"
proof -
  obtain k r where kr: "kr = (k, r)" by (cases kr)
  have r: "dep_change p si t t" by (rule dep_change_refl) (use assms in simp_all)
  let ?u = "case lastUses t (flattenRegId r) of Some (q, _) \<Rightarrow> if alive t q then on_sys (addDependency p q) t else t | None \<Rightarrow> t"
  have u: "dep_change p si t ?u"
    using r dep_change_add(1) [OF assms] assms(2) by (auto simp: fresh_def core_preds split: option.splits)
  note uf = dep_change_fields [OF u]
  let ?v = "set_info p (\<lambda>d. d\<lparr>sources := (sources d)[k := lastUses t (flattenRegId r)]\<rparr>) ?u"
  have v: "core ?v = core ?u" "cb_ok ?v" using uf(6) cb_ok_fields [of ?u ?v] by (auto simp: core_def set_info_def fun_eq_iff)
  have "dep_change p si ?u ?v" by (rule dep_change_refl) (use v uf(6) in simp_all)
  then show ?thesis using r dep_change_trans [OF u] by (simp add: data_source_def kr Let_def)
qed

lemma dep_data_change:
  assumes "cb_ok t" "fresh p (core t)"
  shows "dep_change p si t (dep_data p si t)"
proof -
  have "dep_change p si t (fold (data_source p) xs t)" for xs
    using assms
  proof (induction xs arbitrary: t)
    case (Cons x xs)
    note d = data_source_change [OF Cons.prems, of si x]
    note df = dep_change_fields [OF d]
    show ?case using dep_change_trans [OF d] Cons.IH [OF df(6)] df(1) Cons.prems(2) by simp
  qed (simp add: dep_change_refl)
  then show ?thesis by (simp add: dep_data_def)
qed

lemma populateDependencies_change:
  assumes cb: "cb_ok t" and f: "fresh p (core t)" and si: "static t p = Some si"
    and ser: "\<And>q. lock t (lastSerializingInstruction t) = Some q \<Longrightarrow> q < p"
    and bar: "\<And>q. lock t (lastMemBarrier t) = Some q \<Longrightarrow> q < p \<and> \<not> b_ctl (core t) q" and t': "populateDependencies c p t = Some t'"
  shows "dep_change p si t t'"
proof -
  let ?a = "dep_in_order c p t"
  have ka: "core ?a = core t" by (simp add: dep_in_order_def Let_def split: option.splits)
  note a = dep_in_order_change [OF cb f, of si c]
  note af = dep_change_fields [OF a]
  have sb: "lock ?a x = lock t x" "lastSerializingInstruction ?a = lastSerializingInstruction t" "lastMemBarrier ?a = lastMemBarrier t" for x
    using dep_change_lock [OF a] arg_cong [OF ka, of b_ser] arg_cong [OF ka, of b_bar] by simp_all
  have b: "dep_change p si ?a (dep_serialize c p si ?a)" by (rule dep_serialize_change [OF af(6)]) (use af f sb ser in auto)
  let ?b = "dep_serialize c p si ?a"
  note bf = dep_change_fields [OF b]
  have bb: "lock ?b x = lock t x" "lastMemBarrier ?b = lastMemBarrier t" for x
    using dep_change_lock [OF b] sb(1,3) dep_serialize_bar by simp_all
  obtain u v where u: "dep_barrier p si ?b = Some u" and v: "dep_memory_order p si (dep_non_speculative p si u) = Some v"
    and t': "t' = dep_data p si (dep_store_at_commit p si v)"
    using t' fun_cong [OF af(3), of p] si by (auto simp: populateDependencies_def Let_def split: bind_splits)
  have u': "dep_change p si ?b u" by (rule dep_barrier_change [OF bf(6) _ _ u]) (use af bf f bb bar in auto)
  note uf = dep_change_fields [OF u']
  have fu: "fresh p (core u)" using uf(1) bf(1) af(1) f by simp
  note n = dep_non_speculative_change(1) [OF uf(6) fu, of si]
  note nf = dep_change_fields [OF n]
  have v': "dep_change p si (dep_non_speculative p si u) v" by (rule dep_memory_order_change [OF nf(6) _ v]) (use nf(1) fu in simp)
  note vf = dep_change_fields [OF v']
  have fv: "fresh p (core v)" using vf(1) nf(1) fu by simp
  note w = dep_non_speculative_change(2) [OF vf(6) fv, of si]
  note wf = dep_change_fields [OF w]
  have "dep_change p si (dep_store_at_commit p si v) t'" unfolding t' by (rule dep_data_change [OF wf(6)]) (use wf(1) fv in simp)
  then show ?thesis
    using dep_change_trans [OF a dep_change_trans [OF b dep_change_trans [OF u' dep_change_trans [OF n dep_change_trans [OF v' dep_change_trans [OF w]]]]]]
    by blast
qed

section \<open>Issue\<close>

lemma issue_fresh:
  assumes inv: "buffer_inv c k" and p: "b_live k p" "\<not> b_issued k p"
  shows "fresh p k" "\<And>q. b_ser k = Some q \<Longrightarrow> b_alive k q \<Longrightarrow> q < p" "\<And>q. b_bar k = Some q \<Longrightarrow> b_alive k q \<Longrightarrow> q < p \<and> \<not> b_ctl k q"
proof -
  note lst = fetching_last [OF inv p] and rf = buffer_inv_parts(7) [OF inv]
  have old: "q < p" if "was_issued k q" for q
    using that lst(3,5) by (cases "q = p") (auto simp: was_issued_def)
  show "\<And>q. b_ser k = Some q \<Longrightarrow> b_alive k q \<Longrightarrow> q < p" "\<And>q. b_bar k = Some q \<Longrightarrow> b_alive k q \<Longrightarrow> q < p \<and> \<not> b_ctl k q"
    using rf old unfolding inv_refs_def by blast+
  have iss: "was_issued k q" if "q \<in> set (b_insts k)" "q \<noteq> p" for q
  proof -
    have "b_live k q \<or> q = p" using buffer_inv_parts(5) [OF inv] that(1) lst(2) unfolding inv_issue_def by blast
    then have "b_issued k q" using that(2) buffer_inv_parts(5) [OF inv] lst(2) unfolding inv_issue_def by blast
    then show ?thesis using that(1) buffer_inv_parts(1) [OF inv] by (simp add: was_issued_def inv_ids_def)
  qed
  have "q < p" if "b_uses k r = Some (q, n)" for r q n using that rf old unfolding inv_refs_def by blast
  then show "fresh p k" using lst iss buffer_inv_parts(1,2) [OF inv] by (auto simp: fresh_def inv_ids_def inv_static_def)
qed

text \<open>The abstract state after the dependencies and uses have been recorded.\<close>

lemma issue_core:
  assumes inv: "thread_inv c t" and p: "live t p" "\<not> b_issued (core t) p" and nf: "\<And>r. r \<in> set (requests t) \<Longrightarrow> \<not> fetch_request p r"
    and si: "static t p = Some si" and u: "populateDependencies c p t = Some u" and v: "populateUses p u = Some v"
  shows "thread_inv c (request (IssueTid p) (on_sys (notifyIssued n p) v))"
    "inflightInsts v = inflightInsts t" "static v = static t" "agenda (sys v) = agenda (sys t)" "requests v = requests t"
    "unpredictedBranch v = unpredictedBranch t" "advanceInstNeedsRetry v = advanceInstNeedsRetry t"
    "b_stat (core (on_sys (notifyIssued n p) v)) p = Some (Pending, False)" "b_active (core v) = b_active (core t)"
proof -
  have bi: "buffer_inv c (core t)" "inv_retry c (core t)" "cb_ok t" using inv by (simp_all add: thread_inv_def)
  have l: "b_live (core t) p" using p(1) by (simp add: core_preds)
  note fr = issue_fresh [OF bi(1) l p(2)]
  have "dep_change p si t u"
    by (rule populateDependencies_change [OF bi(3) fr(1) si _ _ u])
      (use fr(2,3) in \<open>auto simp: lock_def core_preds split: option.splits if_splits\<close>)
  then obtain x y where k: "core u = core t\<lparr>b_ser := x, b_bar := y\<rparr>" and cb: "cb_ok u" and xs: "x = b_ser (core t) \<or> x = Some p"
    and ys: "y = b_bar (core t) \<or> y = Some p \<and> isMemBarrier si"
    unfolding dep_change_def by auto
  have su: "static u = static t" using arg_cong [OF k, of b_static] by (simp add: fun_eq_iff core_def)
  have lu: "lastUses u = lastUses t" using arg_cong [OF k, of b_uses] by simp
  let ?u = "\<lambda>r. case writes r 0 (destRegIdx si) of Some n \<Rightarrow> Some (p, n) | None \<Rightarrow> lastUses t r"
  have v': "v = u\<lparr>lastUses := ?u\<rparr>" unfolding lu [symmetric] using v si fun_cong [OF su, of p] by (simp add: populateUses_eq)
  have kv: "core v = core t\<lparr>b_ser := x, b_bar := y, b_uses := ?u\<rparr>"
  proof -
    have "core v = (core u)\<lparr>b_uses := ?u\<rparr>" unfolding v' by (simp add: core_def)
    then show ?thesis unfolding k by simp
  qed
  obtain i where i: "store (sys t) p = Some i" "\<not> i_squashed i" using p(1) by (auto simp: live_def holds_def split: option.splits)
  have "b_stat (core v) p = stat_of (Some i)" using kv i by simp
  then obtain j where j: "store (sys v) p = Some j" "i_squashed j = i_squashed i" by (auto simp: stat_of_def)
  let ?w = "on_sys (notifyIssued n p) v"
  have kw: "core ?w = b_issue p x y ?u (core t)"
    unfolding notifyIssued_def core_act [where f = "\<lambda>i. _ i" , OF j(1)]
    by (intro buffer.equality) (simp_all add: kv b_issue_def stat_of_def j(2) i(2) arg_cong [OF kv, of b_stack, simplified])
  have "buffer_inv c (core ?w)" "inv_retry c (core ?w)"
    unfolding kw by (rule issue_inv [OF bi(1) l p(2), of si]; use si nf xs ys bi(2) in \<open>simp cong: option.case_cong\<close>)+
  moreover have "cb_ok v" unfolding v' by (rule cb_ok_fields [OF cb]) simp_all
  then have "cb_ok ?w" unfolding notifyIssued_def by (rule cb_ok_act [OF _ j(1)]) (simp_all add: same_lists_def)
  ultimately have w: "thread_inv c ?w" by (simp add: thread_inv_def)
  show st: "b_stat (core ?w) p = Some (Pending, False)" unfolding kw by (simp add: b_issue_def)
  have "p < b_next (core ?w)" using fetching_last(3) [OF bi(1) l p(2)] unfolding kw by (simp add: b_issue_def)
  then have "was_issued (core ?w) p" using st unfolding was_issued_def b_at_def by (simp del: core_fields)
  then show "thread_inv c (request (IssueTid p) ?w)" by (intro thread_inv_late [OF w]) simp_all
  show "inflightInsts v = inflightInsts t" "agenda (sys v) = agenda (sys t)" "requests v = requests t" "static v = static t"
    "unpredictedBranch v = unpredictedBranch t" "advanceInstNeedsRetry v = advanceInstNeedsRetry t" "b_active (core v) = b_active (core t)"
    using arg_cong [OF kv, of b_insts] arg_cong [OF kv, of b_stack] arg_cong [OF kv, of b_reqs] arg_cong [OF kv, of b_unpred]
      arg_cong [OF kv, of b_retry] arg_cong [OF kv, of b_static] arg_cong [OF kv, of b_active] su v' by simp_all
qed

lemma thread_inv_predictor:
  assumes inv: "thread_inv c t" and p: "was_issued (core t) p" "hasBranchPredictor c" "b_ctl (core t) p"
    "BranchPredictor p \<notin> set (requests t)" "inflightInsts t \<noteq> []" "p = last (inflightInsts t)" "unpredictedBranch t \<noteq> Some p"
    and r: "\<not> (b_retry (core t) \<and> b_active (core t))"
  shows "thread_inv c (predictCtrlInst p t)"
proof -
  let ?u = "on_sys (addSquashCallback p (PredictorSquash (issueSeqNum (info t p)))) t"
  have k: "core (predictCtrlInst p t) = core t\<lparr>b_reqs := b_reqs (core t) @ [BranchPredictor p]\<rparr>" by (simp add: predictCtrlInst_def)
  have "cb_ok ?u" unfolding addSquashCallback_def
    by (rule cb_ok_add) (use inv in \<open>auto simp: thread_inv_def inst_cbs_def stat_of_def intro!: core_act_same\<close>)
  then have "cb_ok (predictCtrlInst p t)" unfolding predictCtrlInst_def by (rule cb_ok_request) simp
  moreover have "inv_requests c (core t\<lparr>b_reqs := b_reqs (core t) @ [BranchPredictor p]\<rparr>)"
    by (rule inv_requests_predictor) (use inv p in \<open>auto simp: thread_inv_def buffer_inv_def\<close>)
  then have "buffer_inv c (core (predictCtrlInst p t))" unfolding k using inv by (intro request_inv) (simp_all add: thread_inv_def)
  moreover have "inv_retry c (core (predictCtrlInst p t))" unfolding k using r by (auto simp: inv_retry_def)
  ultimately show ?thesis by (simp add: thread_inv_def)
qed

lemma thread_inv_unpred:
  assumes inv: "thread_inv c t" and p: "was_issued (core t) p" "hasBranchPredictor c" "b_ctl (core t) p" "BranchPredictor p \<notin> set (requests t)"
    and r: "\<not> (b_retry (core t) \<and> b_active (core t))"
  shows "thread_inv c (t\<lparr>unpredictedBranch := Some p\<rparr>)"
proof -
  let ?t = "t\<lparr>unpredictedBranch := Some p\<rparr>"
  have k: "core ?t = core t\<lparr>b_unpred := Some p, b_reqs := b_reqs (core t)\<rparr>" by (simp add: core_def)
  have bi: "order_inv c (core t)" "inv_uses (core t)" using inv by (simp_all add: thread_inv_def buffer_inv_order)
  have "inv_requests c (core t\<lparr>b_unpred := Some p, b_reqs := b_reqs (core t)\<rparr>)"
    using order_inv_parts(6) [OF bi(1)] p by (simp add: inv_requests_def req_defs)
  then have "order_inv c (core ?t)" unfolding k by (rule order_inv_requests [OF bi(1)])
  moreover have "inv_uses (core ?t)" using bi(2) unfolding k by (simp add: inv_uses_def)
  moreover have "inv_retry c (core ?t)" using r by (auto simp: inv_retry_def)
  moreover have "cb_ok ?t" by (rule cb_ok_fields [of t]) (use inv in \<open>simp_all add: thread_inv_def\<close>)
  ultimately show ?thesis by (simp add: thread_inv_def buffer_inv_order)
qed

lemma onIssueAccessed_inv:
  assumes pl: "plain_cpu c" and inv: "thread_inv c t" and st: "agenda (sys t) = []"
    and ni: "live t p \<Longrightarrow> \<not> b_issued (core t) p" and nf: "\<And>r. r \<in> set (requests t) \<Longrightarrow> \<not> fetch_request p r"
    and t': "onIssueAccessed c p t = Some t'"
  shows "thread_inv c t'"
proof (cases "live t p")
  case False
  then show ?thesis using t' inv by (simp add: onIssueAccessed_def)
next
  case l: True
  note ni = ni [OF l]
  let ?t = "(set_info p (issueSeqNum_update (\<lambda>_. nextIssueNum t)) t)\<lparr>nextIssueNum := nextIssueNum t + 1\<rparr>"
  have kt: "core ?t = core t" by (auto simp: core_def set_info_def fun_eq_iff)
  have it: "thread_inv c ?t" by (rule thread_inv_core [OF inv kt]) simp
  have lt: "live ?t p" "\<not> b_issued (core ?t) p" using l ni unfolding kt by (simp_all add: live_def holds_def)
  obtain u v where u: "populateDependencies c p ?t = Some u" and v: "populateUses p u = Some v"
    using t' l by (auto simp: onIssueAccessed_def Let_def split: bind_splits)
  obtain si where "static (dep_in_order c p ?t) p = Some si" using u by (auto simp: populateDependencies_def Let_def split: bind_splits)
  moreover have "core (dep_in_order c p ?t) = core ?t" by (simp add: dep_in_order_def Let_def split: option.splits)
  then have "b_static (core (dep_in_order c p ?t)) p = b_static (core ?t) p" by (rule arg_cong)
  ultimately have si: "static ?t p = Some si" unfolding core_fields by (simp only:)
  define w where "w = request (IssueTid p) (on_sys (notifyIssued (curTick v) p) v)"
  define w' where "w' = (if isLastMicroop si then w\<lparr>curMacroOp := None\<rparr> else w)"
  note ic = issue_core [OF it lt _ si u v]
  have nft: "r \<in> set (requests ?t) \<Longrightarrow> \<not> fetch_request p r" for r using nf by simp
  have bt: "buffer_inv c (core t)" and lb: "b_live (core t) p" using inv l by (simp_all add: thread_inv_def core_preds)
  note lst = fetching_last [OF bt lb ni]
  note no = not_issued_nowhere [OF bt lst(5)]
  have kw: "core w' = core w" "sys w' = sys w" by (simp_all add: w'_def core_def)
  have iw: "thread_inv c w'" using thread_inv_core [OF ic(1) [OF nft]] kw unfolding w_def by simp
  have stw: "b_stat (core w') p = Some (Pending, False)" using ic(8) [OF nft] unfolding kw w_def by simp
  have fields: "inflightInsts w' = inflightInsts t" "static w' p = Some si" "requests w' = requests t @ [IssueTid p]" "agenda (sys w') = []"
    "unpredictedBranch w' = unpredictedBranch t" "b_retry (core w') = b_retry (core t)" "b_active (core w') = b_active (core t)"
    using ic(2-7,9) [OF nft] si st fun_cong [OF ic(3) [OF nft], of p]
    by (simp_all add: w'_def w_def request_def notifyIssued_def act_def on_sys_def core_def split: option.splits)
  have lp: "inflightInsts w' \<noteq> []" "last (inflightInsts w') = p" using lst(1,2) fields(1) by simp_all
  have live: "b_live (core w') p" "b_issued (core w') p" "\<not> b_complete (core w') p"
    using stw unfolding b_live_def b_at_def by (simp_all del: core_fields)
  have nc: "\<not> holds isComplete w' p" using live(3) by (simp add: core_preds)
  have bp: "BranchPredictor p \<notin> set (requests w')" using no(3) fields(3) by simp
  have w: "\<not> window (core w') q" for q using fields(4) by (simp add: window_def)
  have bw: "buffer_inv c (core w')" "cb_ok w'" using iw by (simp_all add: thread_inv_def)
  have ret: "\<not> (b_retry (core w') \<and> b_active (core w'))"
    using lst(6) inv fields(6,7) by (simp add: thread_inv_def)
  have was: "was_issued (core w') p" using live(2) bw(1) b_alive_live(1) [OF live(1)] by (auto simp: was_issued_def buffer_inv_def inv_ids_def)
  have sw: "static (request (IssueTid p) (on_sys (notifyIssued (curTick v) p) v)) p = Some si"
    using fields(2) by (simp add: w'_def w_def split: if_splits)
  have r: "do { b \<leftarrow> hasNextPC w'; if b then do { next_pc \<leftarrow> getNextPC w'; advanceInst c next_pc w' }
       else if hasBranchPredictor c then
         if remainingBranchPredDepth w' = 0 then Some (w'\<lparr>unpredictedBranch := Some p\<rparr>)
         else Some (predictCtrlInst p (w'\<lparr>remainingBranchPredDepth := remainingBranchPredDepth w' - 1\<rparr>))
       else Some w' } = Some t'"
    using t' l u v sw unfolding w'_def w_def by (simp add: onIssueAccessed_def Let_def)
  have hn: "hasNextPC w' = Some (\<not> isControl si)" using lp fields(2) nc by (simp add: hasNextPC_def)
  show ?thesis
  proof (cases "isControl si")
    case False
    then have g: "getNextPC w' = Some (b_succ (core w') p)" using lp fields(2) nc by (simp add: getNextPC_def b_succ_def)
    have "extends c (core w') (b_succ (core w') p)"
      using lp live bp False fields(2) by (auto simp: extends_def allowed_def b_ctl_def)
    then show ?thesis using advanceInst_inv [OF pl bw w, of "b_succ (core w') p" t'] activate_late [OF bw(1) lp(1)] r hn g False by simp
  next
    case True
    then have ctl: "b_ctl (core w') p" using fields(2) by (simp add: b_ctl_def)
    let ?d = "w'\<lparr>remainingBranchPredDepth := remainingBranchPredDepth w' - 1\<rparr>"
    have kd: "core ?d = core w'" by (simp add: core_def)
    have "thread_inv c ?d" by (rule thread_inv_core [OF iw kd]) simp
    then have "hasBranchPredictor c \<Longrightarrow> thread_inv c (predictCtrlInst p ?d)"
      by (rule thread_inv_predictor) (use was ctl bp lp fields(5) no(4) ret in \<open>simp_all add: kd\<close>)
    then show ?thesis using r hn True thread_inv_unpred [OF iw was _ ctl bp ret] iw by (auto split: if_splits)
  qed
qed

end
