(* ===== verification/Flex_Thread_Exec.thy ===== *)
theory Flex_Thread_Exec
  imports Flex_Thread_Issue
begin

text \<open>
  Execution, memory accesses and the callbacks on the stack: each of them keeps the invariant. The contract \<open>forward\<close>
  of the step relation says that a status is not taken back; it keeps an instruction pending until it completes.
\<close>

section \<open>The top of the stack\<close>

definition popped :: "thread \<Rightarrow> thread" where
  "popped t = on_sys (agenda_update (\<lambda>_. tl (agenda (sys t)))) t"

lemma popped_fields [simp]:
  "store (sys (popped t)) = store (sys t)" "agenda (sys (popped t)) = tl (agenda (sys t))" "next_id (sys (popped t)) = next_id (sys t)"
  "live (popped t) = live t" "holds P (popped t) = holds P t" "alive (popped t) = alive t" "info (popped t) = info t"
  "core (popped t) = core t\<lparr>b_stack := tl (agenda (sys t))\<rparr>" "inflightInsts (popped t) = inflightInsts t"
  "requests (popped t) = requests t" "committedState (popped t) = committedState t"
  by (simp_all add: popped_def on_sys_def live_def holds_def alive_def fun_eq_iff core_def)

lemma mem_inst_same [simp]: "mem_inst (k\<lparr>b_stack := s\<rparr>) = mem_inst k" "mem_inst (k\<lparr>b_reqs := rs\<rparr>) = mem_inst k"
  by (simp_all add: fun_eq_iff mem_inst_def)

lemma overlap_ok_stack [simp]: "overlap_ok (k\<lparr>b_stack := s\<rparr>) = overlap_ok k"
  by (simp add: fun_eq_iff overlap_ok_def mem_inst_def split: option.splits)

lemma popped_inv:
  assumes inv: "thread_inv c t" and st: "agenda (sys t) = cb # r" and ns: "\<not> special cb"
  shows "thread_inv c (popped t)" "window (core (popped t)) = window (core t)" "branch_open (core (popped t)) = branch_open (core t)"
    "window (core t) p \<Longrightarrow> above p cb" "branch_open (core t) \<Longrightarrow> exec_like cb" "overlap_ok (core (popped t)) cb"
    "frame_inst cb = Some q \<Longrightarrow> was_issued (core t) q"
proof -
  have bi: "buffer_inv c (core t)" "inv_retry c (core t)" "cb_ok t" and s: "b_stack (core t) = cb # r" using inv st by (simp_all add: thread_inv_def)
  note sp = stack_pop [OF bi(1) s ns]
  show "window (core (popped t)) = window (core t)" "branch_open (core (popped t)) = branch_open (core t)"
    "window (core t) p \<Longrightarrow> above p cb" "branch_open (core t) \<Longrightarrow> exec_like cb"
    using sp(2,3) sp(4) [of p] sp(5) st by simp_all
  have "cb_ok (popped t)" by (rule cb_ok_same [OF bi(3)]) (use st in \<open>auto simp: popped_def\<close>)
  then show "thread_inv c (popped t)" using sp(1) retry_pop [OF bi(2) s ns] st by (simp add: thread_inv_def)
  have "overlap_ok (core t) cb" using bi(3) st by (simp add: cb_ok_def)
  then show "overlap_ok (core (popped t)) cb" by simp
  show "frame_inst cb = Some q \<Longrightarrow> was_issued (core t) q" using bi(1) st by (simp add: buffer_inv_def inv_stack_def)
qed

text \<open>Callbacks may be pushed on the stack if they fit to what is open there.\<close>

definition fits :: "buffer \<Rightarrow> frame callback \<Rightarrow> bool" where
  "fits k cb \<longleftrightarrow> \<not> special cb \<and> cb \<noteq> Client (CommitLoop True) \<and> (\<forall>p. window k p \<longrightarrow> above p cb) \<and> (branch_open k \<longrightarrow> exec_like cb)
     \<and> (\<forall>q. frame_inst cb = Some q \<longrightarrow> was_issued k q)"

lemma push_inv:
  assumes "buffer_inv c k" "inv_retry c k" "list_all (fits k) news"
  shows "buffer_inv c (k\<lparr>b_stack := news @ b_stack k\<rparr>)" "inv_retry c (k\<lparr>b_stack := news @ b_stack k\<rparr>)"
proof -
  show "buffer_inv c (k\<lparr>b_stack := news @ b_stack k\<rparr>)"
    by (rule stack_push [OF assms(1)]) (use assms(3) in \<open>auto simp: list_all_iff fits_def\<close>)
  show "inv_retry c (k\<lparr>b_stack := news @ b_stack k\<rparr>)"
    by (rule retry_push [OF assms(2)]) (use assms(3) in \<open>auto simp: list_all_iff fits_def\<close>)
qed

lemma act_inv:
  assumes inv: "thread_inv c t" and i: "store (sys t) p = Some i" and f: "stat_of (Some (f i)) = stat_of (Some i)" "same_lists i (f i)"
    and cbs: "list_all (fits (core t)) (cbs i)" "list_all (overlap_ok (core t)) (cbs i)"
  shows "thread_inv c (on_sys (act p f cbs) t)"
proof -
  have k: "core (on_sys (act p f cbs) t) = core t\<lparr>b_stack := cbs i @ b_stack (core t)\<rparr>"
    unfolding core_act [OF i] by (intro buffer.equality) (use i f in auto)
  have "phase_of (i_status (f i)) = phase_of (i_status i)" using f(1) by (simp add: stat_of_def)
  then have "Issued \<le> i_status i \<Longrightarrow> Issued \<le> i_status (f i)" using phase_of_iff(1) [of "i_status i"] phase_of_iff(1) [of "i_status (f i)"] by force
  then have "cb_ok (on_sys (act p f cbs) t)"
    by (intro cb_ok_act [where f = f, OF _ i f(2)]) (use inv cbs(2) in \<open>auto simp: thread_inv_def list_all_iff\<close>)
  then show ?thesis using inv push_inv [OF _ _ cbs(1)] unfolding thread_inv_def k by blast
qed

lemma call_inv:
  assumes "thread_inv c t" "fits (core t) (Client fr)" "overlap_ok (core t) (Client fr)"
  shows "thread_inv c (call fr t)"
proof -
  have "cb_ok (call fr t)" using assms by (simp add: thread_inv_def cb_ok_call)
  then show ?thesis using push_inv [of c "core t" "[Client fr]"] assms by (simp add: thread_inv_def)
qed

lemma fits_call: "fits (core t) cb \<Longrightarrow> special (Client fr) = False \<Longrightarrow> fits (core (call fr t)) cb"
  by (auto simp: fits_def window_def branch_open_def)

section \<open>Execution\<close>

text \<open>\<open>pending t p\<close>: the instruction is gone, or between its issue and its completion.\<close>

definition pending :: "thread \<Rightarrow> inst_id \<Rightarrow> bool" where
  "pending t p \<longleftrightarrow> (\<forall>i. store (sys t) p = Some i \<longrightarrow> phase_of (i_status i) = Pending)"

lemma forward_pending:
  assumes "forward t t'" "was_issued (core t) p" "pending t' p" "store (sys t') p = None \<Longrightarrow> store (sys t) p = None"
  shows "pending t p"
  unfolding pending_def
proof (intro allI impI)
  fix i
  assume i: "store (sys t) p = Some i"
  then obtain i' where i': "store (sys t') p = Some i'" using assms(4) by (cases "store (sys t') p") auto
  then have "Issued \<le> i_status i'" "i_status i' < Complete" using assms(3) by (auto simp: pending_def phase_of_iff)
  moreover have "i_status i \<le> i_status i'" using assms(1) i i' \<open>i_status i' < Complete\<close> by (fastforce simp: forward_def)
  moreover have "Issued \<le> i_status i" using assms(2) i by (simp add: was_issued_def core_preds alive_def holds_def)
  ultimately show "phase_of (i_status i) = Pending" by (simp add: phase_of_iff)
qed

lemma releases_fit:
  assumes "list_all (releases ks x n) cbs" "\<And>q. window k q \<Longrightarrow> q < x \<or> q = x" "branch_open k \<Longrightarrow> ks = {Exec}"
  shows "list_all (fits k) cbs" "list_all (overlap_ok k) cbs"
  using assms by (fastforce simp: list_all_iff releases_def fits_def overlap_ok_def)+

lemma notifyExecuting_inv:
  assumes inv: "thread_inv c t" and p: "pending t p" and w: "\<And>q. window (core t) q \<Longrightarrow> q < p"
  shows "thread_inv c (on_sys (notifyExecuting n p) t)"
proof (cases "store (sys t) p")
  case None
  then show ?thesis using inv by (simp add: notifyExecuting_def act_def on_sys_def)
next
  case (Some i)
  have "inst_cbs (core t) p i" using inv Some by (simp add: thread_inv_def cb_ok_def)
  then have "list_all (releases {Exec} p (next_id (sys t))) (beginExecCallbacks i)" by (simp add: inst_cbs_def)
  note rf = releases_fit [OF this, of "core t"]
  show ?thesis unfolding notifyExecuting_def
    by (rule act_inv [OF inv Some]) (use p Some w rf in \<open>auto simp: stat_of_def pending_def same_lists_def\<close>)
qed

lemma executeInstruction_begin_inv:
  assumes inv: "thread_inv c t" and p: "pending t p" "was_issued (core t) p" and w: "\<And>q. window (core t) q \<Longrightarrow> q < p"
    and t': "executeInstruction_begin p t = Some t'"
  shows "thread_inv c t'"
proof -
  have t'': "t' = on_sys (notifyExecuting (curTick t) p) (call (ExecuteRest p) t)"
    using t' by (auto simp: executeInstruction_begin_def split: bind_splits)
  have f: "fits (core t) (Client (ExecuteRest p))" using p(2) w by (simp add: fits_def)
  have "thread_inv c (call (ExecuteRest p) t)" by (rule call_inv [OF inv f]) (simp add: overlap_ok_simple)
  then show ?thesis unfolding t''
    by (rule notifyExecuting_inv) (use p w in \<open>auto simp: pending_def window_def\<close>)
qed

lemma executeInstruction_rest_inv:
  assumes inv: "thread_inv c t" and p: "pending t p" "was_issued (core t) p" and w: "\<And>q. window (core t) q \<Longrightarrow> q < p"
  shows "thread_inv c (executeInstruction_rest p t)"
proof -
  have "thread_inv c (request (Execution p) t)" by (rule thread_inv_late [OF inv]) (use p(2) in simp_all)
  then show ?thesis unfolding executeInstruction_rest_def
    by (rule notifyExecuting_inv) (use p w in \<open>auto simp: pending_def\<close>)
qed

section \<open>Releases\<close>

lemma release_core:
  assumes "store (sys t) p = Some i"
  shows "\<exists>f. on_sys (release k p) t = on_sys (act p f (\<lambda>i. if remaining k (f i) = 0 then map Client (case k of Exec \<Rightarrow> readyCallbacks i | Mem \<Rightarrow> memReadyCallbacks i) else [])) t
    \<and> (\<forall>i. stat_of (Some (f i)) = stat_of (Some i) \<and> same_lists i (f i))"
proof -
  let ?f = "\<lambda>i. case k of
      Exec \<Rightarrow> i\<lparr>remainingDependencies := remainingDependencies i - 1\<rparr>
    | Mem \<Rightarrow> i\<lparr>remainingMemDependencies := remainingMemDependencies i - 1\<rparr>"
  show ?thesis
    by (rule exI [of _ ?f], cases k)
      (use assms in \<open>auto simp: release_def act_def on_sys_def notifyReady_def notifyMemReady_def remaining_def stat_of_def same_lists_def Let_def\<close>)
qed

lemma release_inv:
  assumes inv: "thread_inv c t" and w: "\<And>q. window (core t) q \<Longrightarrow> q < p" and br: "branch_open (core t) \<Longrightarrow> k = Exec"
  shows "thread_inv c (on_sys (release k p) t)"
proof (cases "store (sys t) p")
  case None
  then show ?thesis using inv by (simp add: release_def on_sys_def)
next
  case (Some i)
  obtain f where f: "on_sys (release k p) t = on_sys (act p f (\<lambda>i. if remaining k (f i) = 0 then map Client (case k of Exec \<Rightarrow> readyCallbacks i | Mem \<Rightarrow> memReadyCallbacks i) else [])) t"
    "\<And>i. stat_of (Some (f i)) = stat_of (Some i) \<and> same_lists i (f i)"
    using release_core [OF Some] by blast
  have ic: "inst_cbs (core t) p i" using inv Some by (simp add: thread_inv_def cb_ok_def)
  have n: "p < next_id (sys t)" by (rule alive_next [OF inv]) (simp add: alive_def Some)
  have cb: "fits (core t) (Client fr) \<and> overlap_ok (core t) (Client fr)" if "fr \<in> set (case k of Exec \<Rightarrow> readyCallbacks i | Mem \<Rightarrow> memReadyCallbacks i)" for fr
  proof (cases k)
    case Exec
    then have "fr = ExecuteInstruction p" "b_issued (core t) p" using that ic by (auto simp: inst_cbs_def list_all_iff)
    then show ?thesis using w n by (auto simp: fits_def was_issued_def overlap_ok_simple)
  next
    case Mem
    then have fr: "fr \<in> set (memReadyCallbacks i)" using that by simp
    then have m: "b_issued (core t) p" "\<not> b_ctl (core t) p" "\<exists>a. fr = SendToMemory p a"
      using ic by (auto simp: inst_cbs_def list_all_iff)
    then obtain a where "fr = SendToMemory p a" by blast
    then show ?thesis using m(1,2) w n br Mem by (auto simp: fits_def was_issued_def overlap_ok_def mem_inst_def)
  qed
  show ?thesis unfolding f(1)
    by (rule act_inv [OF inv Some]) (use f(2) cb in \<open>auto simp: list_all_iff\<close>)
qed

section \<open>Memory\<close>

lemma pending_core: "pending t p \<longleftrightarrow> (\<forall>s. b_stat (core t) p = Some s \<longrightarrow> fst s = Pending)"
  by (auto simp: pending_def stat_of_def)

lemma markFault_stat:
  assumes "markFault c p f t = Some t'" "distinct (inflightInsts t)"
  shows "\<exists>ph sq. b_stat (core t) p = Some (ph, sq) \<and> b_stat (core t') p = Some (ph, True)"
proof -
  obtain ph sq k u where u: "b_stat (core t) p = Some (ph, sq)" "t' = commitAllAvailableInstructions (u\<lparr>advanceInstNeedsRetry := False\<rparr>)"
    "core u = k" "freed (set (inflightInsts t) - set (up_to p (inflightInsts t)) \<union> {p}) (b_faulty p ph f (b_squash (up_to p (inflightInsts t)) (core t))) k"
    using markFault_core [OF assms] by blast
  have "b_stat (core u) p = Some (ph, True)" using freed_fields(2) [OF u(4)] unfolding u(3) by (simp add: b_faulty_def)
  then show ?thesis using u(1,2) by (simp add: commitAllAvailableInstructions_def)
qed

lemma core_results [simp]:
  "core (set_info p (\<lambda>d. d\<lparr>results := rs, resultValid := vs\<rparr>) t) = core t"
  by (auto simp: core_def set_info_def fun_eq_iff)

lemma markFault_thread_inv:
  assumes "thread_inv c t" "\<not> window (core t) p" "\<not> branch_open (core t)" "markFault c p f t = Some t'"
  shows "thread_inv c t'"
  using markFault_inv [OF _ _ assms(2-4)] assms(1) by (simp add: thread_inv_def)

lemma thread_distinct: "thread_inv c t \<Longrightarrow> distinct (inflightInsts t)"
  by (auto simp: thread_inv_def buffer_inv_def inv_ids_def strict_sorted_iff)

text \<open>The state in which \<open>sendToMemory\<close> continues after \<open>notifyMemorying\<close>.\<close>

lemma sendToMemory_pending:
  assumes "sendToMemory c p a t = Some t'" "distinct (inflightInsts t)"
  shows "pending t' p" "store (sys t') p = None \<Longrightarrow> store (sys t) p = None"
proof -
  let ?t = "on_sys (notifyMemorying (curTick t) p) t"
  have d: "distinct (inflightInsts ?t)" using assms(2) by simp
  have p: "b_stat (core ?t) p = (case store (sys t) p of None \<Rightarrow> None | Some i \<Rightarrow> Some (Pending, i_squashed i))"
    by (simp add: notifyMemorying_def act_def stat_of_def split: option.splits)
  have "(\<exists>ph sq. b_stat (core ?t) p = Some (ph, sq) \<and> b_stat (core t') p = Some (ph, True)) \<or> b_stat (core t') p = b_stat (core ?t) p"
  proof (cases "ma_write a")
    case True
    then obtain si where si: "static ?t p = Some si" using assms(1) by (auto simp: sendToMemory_def Let_def split: bind_splits)
    obtain f rs vs where ca: "completeAcc c si a (info ?t p) = (f, rs, vs)" by (metis prod_cases3)
    let ?u = "set_info p (\<lambda>d. d\<lparr>results := rs, resultValid := vs\<rparr>) ?t"
    have du: "distinct (inflightInsts ?u)" using d by simp
    show ?thesis
    proof (cases f)
      case (Some flt)
      then have "markFault c p flt ?u = Some t'" using assms(1) True si ca by (simp add: sendToMemory_def Let_def)
      from markFault_stat [OF this du] show ?thesis unfolding core_results by blast
    next
      case None
      then have "t' = commitAllAvailableInstructions (request (MemAccess p a) ?u)"
        using assms(1) True si ca by (auto simp: sendToMemory_def Let_def split: bind_splits)
      then show ?thesis unfolding commitAllAvailableInstructions_def by simp
    qed
  next
    case False
    then have "t' = request (MemAccess p a) ?t" using assms(1) by (auto simp: sendToMemory_def Let_def split: bind_splits)
    then show ?thesis by simp
  qed
  then have "\<forall>s. b_stat (core t') p = Some s \<longrightarrow> fst s = Pending" "b_stat (core t') p = None \<longrightarrow> store (sys t) p = None"
    unfolding p by (auto split: option.splits)
  then show "pending t' p" "store (sys t') p = None \<Longrightarrow> store (sys t) p = None"
    unfolding pending_core by (auto simp: stat_of_def)
qed

lemma sendToMemory_inv:
  assumes inv: "thread_inv c t" and p: "pending t p" "mem_inst (core t) (Some p)" and w: "\<not> window (core t) p" "\<not> branch_open (core t)"
    and t': "sendToMemory c p a t = Some t'"
  shows "thread_inv c t'"
proof -
  let ?t = "on_sys (notifyMemorying (curTick t) p) t"
  have k: "core ?t = core t"
  proof (cases "store (sys t) p")
    case (Some i)
    show ?thesis unfolding notifyMemorying_def core_act [OF Some]
      by (intro buffer.equality) (use p(1) Some in \<open>auto simp: pending_def stat_of_def\<close>)
  qed (simp add: notifyMemorying_def act_def on_sys_def)
  have it: "thread_inv c ?t"
  proof (cases "store (sys t) p")
    case (Some i)
    show ?thesis unfolding notifyMemorying_def
      by (rule act_inv [OF inv Some]) (use p(1) Some in \<open>auto simp: pending_def stat_of_def same_lists_def\<close>)
  qed (use inv in \<open>simp add: notifyMemorying_def act_def on_sys_def\<close>)
  have was: "was_issued (core t) p" using p(2) by (simp add: mem_inst_def)
  show ?thesis
  proof (cases "ma_write a")
    case True
    then obtain si where si: "static ?t p = Some si" using t' by (auto simp: sendToMemory_def Let_def split: bind_splits)
    obtain f rs vs where ca: "completeAcc c si a (info ?t p) = (f, rs, vs)" by (metis prod_cases3)
    let ?u = "set_info p (\<lambda>d. d\<lparr>results := rs, resultValid := vs\<rparr>) ?t"
    have iu: "thread_inv c ?u" by (rule thread_inv_core [OF it]) simp_all
    have ku: "core ?u = core t" using k by simp
    show ?thesis
    proof (cases f)
      case (Some flt)
      then have "markFault c p flt ?u = Some t'" using t' True si ca by (simp add: sendToMemory_def Let_def)
      then show ?thesis by (intro markFault_thread_inv [OF iu]) (use w k in simp_all)
    next
      case None
      then have t'': "t' = commitAllAvailableInstructions (request (MemAccess p a) ?u)"
        using t' True si ca by (auto simp: sendToMemory_def Let_def split: bind_splits)
      have "thread_inv c (request (MemAccess p a) ?u)"
        by (rule thread_inv_late [OF iu, where p = p]) (use was p(2) k in simp_all)
      then show ?thesis unfolding t'' by (rule thread_inv_commit_call) (use w ku in \<open>simp add: branch_open_def\<close>)
    qed
  next
    case False
    then have "t' = request (MemAccess p a) ?t" using t' by (auto simp: sendToMemory_def Let_def split: bind_splits)
    moreover have "thread_inv c (request (MemAccess p a) ?t)"
      by (rule thread_inv_late [OF it, where p = p]) (use was p(2) k in simp_all)
    ultimately show ?thesis by simp
  qed
qed

lemma eff_addr_rest_inv:
  assumes inv: "thread_inv c t" and fw: "holds isMemReady t p \<Longrightarrow> pending t p" and p: "mem_inst (core t) (Some p)" and w: "\<not> window (core t) p" "\<not> branch_open (core t)"
    and t': "eff_addr_rest c p a t = Some t'"
  shows "thread_inv c t'"
proof (cases "holds isMemReady t p")
  case True
  then show ?thesis using sendToMemory_inv [OF inv fw [OF True] p w] t' by (simp add: eff_addr_rest_def)
next
  case False
  have "thread_inv c (on_sys (addMemReadyCallback p (SendToMemory p a)) t)"
  proof -
    have iss: "b_issued (core t) p \<and> \<not> b_ctl (core t) p" if "store (sys t) p = Some i" for i
      using p that by (simp add: mem_inst_def was_issued_def core_preds alive_def)
    have "cb_ok (on_sys (addMemReadyCallback p (SendToMemory p a)) t)"
      unfolding addMemReadyCallback_def
      by (rule cb_ok_add) (use inv iss in \<open>auto simp: thread_inv_def inst_cbs_def stat_of_def intro!: core_act_same\<close>)
    then show ?thesis using inv by (simp add: thread_inv_def)
  qed
  then show ?thesis using t' False by (simp add: eff_addr_rest_def)
qed

lemma overlap_inv:
  assumes "thread_inv c t" "q < p" "p < next_id (sys t)" "\<not> b_ctl (core t) q" "overlap p q t = Some t'"
  shows "thread_inv c t'"
proof -
  have "t' = t \<or> t' = on_sys (addMemDependency p q) t" using assms(5) by (auto simp: overlap_def split: bind_splits if_splits)
  moreover have "thread_inv c (on_sys (addMemDependency p q) t)"
    using assms(1-4) cb_ok_dependency(6) [of t q p] by (simp add: thread_inv_def)
  ultimately show ?thesis using assms(1) by blast
qed

lemma set_range_inv:
  assumes inv: "thread_inv c t" and f: "f = effPAddrRange \<or> f = effPAddrRangeHigh" and t': "set_range f req p t = Some t'"
  shows "thread_inv c t'" "core t' = core t" "\<And>P. P = effAddrCalculatedCallbacks \<Longrightarrow> map_option P (store (sys t') p) = map_option P (store (sys t) p)"
proof -
  obtain r i j where i: "store (sys t) p = Some i" and j: "f r i = Some j" and t': "t' = on_sys (act p (\<lambda>_. j) (\<lambda>_. [])) t"
    using t' by (auto simp: set_range_def split: bind_splits)
  have s: "stat_of (Some j) = stat_of (Some i)" "same_lists i j"
    using f j by (auto simp: effPAddrRange_def effPAddrRangeHigh_def stat_of_def same_lists_def split: bind_splits)
  show "thread_inv c t'" unfolding t' by (rule act_inv [OF inv i]) (use s in simp_all)
  show "core t' = core t" unfolding t' core_act [OF i] by (intro buffer.equality) (use i s in auto)
  show "map_option P (store (sys t') p) = map_option P (store (sys t) p)" if "P = effAddrCalculatedCallbacks" for P
    using s(2) i that by (simp add: t' same_lists_def)
qed

lemma notifyEffAddr_inv:
  assumes inv: "thread_inv c t" and p: "pending t p" "mem_inst (core t) (Some p)" and st: "agenda (sys t) = []"
  shows "thread_inv c (on_sys (notifyEffAddrCalculated n p) (call (EffAddrRest p a) t))"
proof -
  let ?u = "call (EffAddrRest p a) t"
  have f: "fits (core t) (Client (EffAddrRest p a))" using p(2) st by (simp add: fits_def mem_inst_def window_def branch_open_def)
  have iu: "thread_inv c ?u" by (rule call_inv [OF inv f]) (use p(2) in \<open>simp add: overlap_ok_def\<close>)
  have no: "\<not> window (core ?u) q" "\<not> branch_open (core ?u)" for q using st by (simp_all add: window_def branch_open_def)
  show ?thesis
  proof (cases "store (sys ?u) p")
    case None
    then show ?thesis using iu by (simp add: notifyEffAddrCalculated_def act_def on_sys_def)
  next
    case (Some i)
    have "inst_cbs (core ?u) p i" using iu Some by (simp only: thread_inv_def cb_ok_def)
    then have e: "\<And>cb. cb \<in> set (effAddrCalculatedCallbacks i) \<Longrightarrow> releases UNIV p (next_id (sys t)) cb \<or> overlap_pair cb \<noteq> None \<and> overlap_ok (core ?u) cb"
      by (auto simp: inst_cbs_def list_all_iff)
    have "fits (core ?u) cb \<and> overlap_ok (core ?u) cb" if "cb \<in> set (effAddrCalculatedCallbacks i)" for cb
    proof -
      have "fits (core ?u) cb" if "overlap_pair cb \<noteq> None"
        using that no by (cases cb rule: overlap_pair.cases) (simp_all add: fits_def)
      then show ?thesis using e [OF that] no by (auto simp: releases_def fits_def overlap_ok_simple)
    qed
    then show ?thesis unfolding notifyEffAddrCalculated_def
      by (intro act_inv [OF iu Some]) (use p(1) Some in \<open>auto simp: list_all_iff pending_def stat_of_def same_lists_def\<close>)
  qed
qed

lemma onDataAddrTranslated_pending:
  assumes "onDataAddrTranslated c p fault req a high t = Some t'" "live t p" "fault = None"
  shows "(\<exists>u f b. f \<in> {effPAddrRange, effPAddrRangeHigh} \<and> set_range f (req) p (t\<lparr>splitRequests := b\<rparr>) = Some u
      \<and> (t' = u \<or> t' = on_sys (notifyEffAddrCalculated (curTick u) p) (call (EffAddrRest p (a\<lparr>ma_req := req\<rparr>)) u)))"
proof (cases "ma_split a")
  case None
  have e: "t\<lparr>splitRequests := splitRequests t\<rparr> = t" by simp
  show ?thesis using assms None
    by (auto simp: onDataAddrTranslated_def split: bind_splits)
      (metis e)
next
  case (Some k)
  show ?thesis using assms Some by (auto simp: onDataAddrTranslated_def Let_def split: bind_splits if_splits)
qed

lemma onDataAddrTranslated_inv:
  assumes inv: "thread_inv c t" and st: "agenda (sys t) = []" and p: "mem_inst (core t) (Some p)"
    and t': "onDataAddrTranslated c p fault req a high t = Some t'" and fw: "forward t t'"
  shows "thread_inv c t'"
proof (cases "live t p")
  case False
  then show ?thesis using t' inv by (simp add: onDataAddrTranslated_def)
next
  case l: True
  show ?thesis
  proof (cases fault)
    case (Some f)
    then have "markFault c p f t = Some t'" using t' l by (simp add: onDataAddrTranslated_def)
    then show ?thesis by (intro markFault_thread_inv [OF inv]) (use st in \<open>auto simp: window_def branch_open_def\<close>)
  next
    case None
    obtain u f b where f: "f = effPAddrRange \<or> f = effPAddrRangeHigh" and u: "set_range f req p (t\<lparr>splitRequests := b\<rparr>) = Some u"
      and t'': "t' = u \<or> t' = on_sys (notifyEffAddrCalculated (curTick u) p) (call (EffAddrRest p (a\<lparr>ma_req := req\<rparr>)) u)"
      using onDataAddrTranslated_pending [OF t' l None] by auto
    let ?b = "t\<lparr>splitRequests := b\<rparr>"
    have kb: "core ?b = core t" by (simp add: core_def)
    have "thread_inv c ?b" by (rule thread_inv_core [OF inv kb]) simp
    note sr = set_range_inv [OF this f u]
    have ku: "core u = core t" using sr(2) kb by simp
    have stu: "agenda (sys u) = []" using arg_cong [OF ku, of b_stack] st by simp
    show ?thesis
    proof (cases "t' = u")
      case True
      then show ?thesis using sr(1) by simp
    next
      case False
      then have t'': "t' = on_sys (notifyEffAddrCalculated (curTick u) p) (call (EffAddrRest p (a\<lparr>ma_req := req\<rparr>)) u)" using t'' by blast
      obtain i where i: "store (sys t) p = Some i" using l by (auto simp: live_def holds_def split: option.splits)
      have "b_stat (core u) p = b_stat (core t) p" unfolding ku ..
      then obtain j where j: "store (sys u) p = Some j" using i by (auto simp: stat_of_def)
      have "pending t' p" "store (sys t') p \<noteq> None" using j by (simp_all add: t'' notifyEffAddrCalculated_def pending_def)
      then have "pending t p" by (intro forward_pending [OF fw]) (use p in \<open>auto simp: mem_inst_def\<close>)
      then have pu: "pending u p" unfolding pending_core ku .
      show ?thesis unfolding t'' by (rule notifyEffAddr_inv [OF sr(1) pu]) (use p ku stu in simp_all)
    qed
  qed
qed

lemma access_memory_inv:
  assumes inv: "thread_inv c t" and p: "mem_inst (core t) (Some p)" and t': "access_memory c p req wr data t = Some t'"
  shows "thread_inv c t'" "core t' = core t\<lparr>b_reqs := requests t'\<rparr>" "agenda (sys t') = agenda (sys t)"
proof -
  have was: "was_issued (core t) p" using p by (simp add: mem_inst_def)
  have late: "thread_inv c (request (DataAddrTranslation p r a h) u)" if "thread_inv c u" "core u = core t\<lparr>b_reqs := requests u\<rparr>" for u r a h
    by (rule thread_inv_late [OF that(1), where p = p]) (use that(2) was p in \<open>auto simp: mem_inst_def\<close>)
  let ?s = "on_sys (act p (isSplitMemReq_update (\<lambda>_. True)) (\<lambda>_. [])) t"
  have ks: "core ?s = core t" by (rule core_act_same) (simp add: stat_of_def)
  have inv_s: "thread_inv c ?s"
  proof (cases "store (sys t) p")
    case (Some i)
    show ?thesis by (rule act_inv [OF inv Some]) (simp_all add: stat_of_def same_lists_def)
  qed (use inv in \<open>simp add: act_def on_sys_def\<close>)
  have kr: "core t\<lparr>b_reqs := requests t\<rparr> = core t" by simp
  have "thread_inv c t' \<and> core t' = core t\<lparr>b_reqs := requests t'\<rparr>"
  proof (cases "roundDown (r_vaddr req + of_nat (r_size req) - 1) (cacheLineSize c) > r_vaddr req")
    case False
    then have t'': "t' = request (DataAddrTranslation p req \<lparr>ma_req = req, ma_write = wr, ma_data = data, ma_split = None\<rparr> False) t"
      using t' by (simp add: access_memory_def Let_def)
    show ?thesis unfolding t'' using late [OF inv] by simp
  next
    case True
    obtain req1 req2 b a where t'': "t' = request (DataAddrTranslation p req2 a True) (request (DataAddrTranslation p req1 a False) (?s\<lparr>splitRequests := b\<rparr>))"
      using t' True by (auto simp: access_memory_def Let_def split: bind_splits)
    let ?b = "?s\<lparr>splitRequests := b\<rparr>"
    have kb: "core ?b = core t" using ks by (simp add: core_def)
    have ib: "thread_inv c ?b" by (rule thread_inv_core [OF inv_s]) (simp_all add: core_def)
    have rb: "requests ?b = requests t" by simp
    have "thread_inv c (request (DataAddrTranslation p req1 a False) ?b)" by (rule late [OF ib]) (simp add: kb)
    then have "thread_inv c t'" unfolding t'' by (rule late) (simp add: kb)
    then show ?thesis unfolding t'' by (simp add: kb)
  qed
  then show "thread_inv c t'" and k: "core t' = core t\<lparr>b_reqs := requests t'\<rparr>" by blast+
  show "agenda (sys t') = agenda (sys t)" using arg_cong [OF k, of b_stack] by simp
qed

section \<open>Completion\<close>

lemma completed_gone:
  assumes inv: "buffer_inv c k" and st: "b_stack k = []" and p: "\<not> b_ctl k p" "was_issued k p"
  shows "buffer_inv c (k\<lparr>b_stack := [Client (CompletedRest p)]\<rparr>)" "inv_retry c k \<Longrightarrow> inv_retry c (k\<lparr>b_stack := [Client (CompletedRest p)]\<rparr>)"
proof -
  let ?k = "k\<lparr>b_stack := [Client (CompletedRest p)]\<rparr>"
  have w: "window ?k = window k" "\<not> window k q" for q by (simp_all add: window_def st fun_eq_iff)
  have al: "allowed c ?k = allowed c k" using p(1) by (intro ext) (auto simp: allowed_def unresolved_def st)
  have "inv_stack ?k" using buffer_inv_parts(3) [OF inv] p w(2) unfolding inv_stack_def w(1) by (simp add: st)
  then show "buffer_inv c ?k" using inv
    by (simp add: buffer_inv_def inv_ids_def inv_static_def inv_seq_def inv_issue_def inv_requests_def req_defs inv_refs_def
        inv_chain_def inv_uses_def w al)
  show "inv_retry c ?k" if "inv_retry c k" using that by (simp add: inv_retry_def extends_def w al st)
qed

lemma onExecutionCompleted_inv:
  assumes inv: "thread_inv c t" and st: "agenda (sys t) = []" and p: "was_issued (core t) p"
    and ctl: "b_ctl (core t) p \<Longrightarrow> b_stat (core t) p = Some (Pending, False)"
    and ret: "fault = None \<Longrightarrow> b_at (\<lambda>s. s = Retired) (core t) p \<Longrightarrow> \<exists>si. static t p = Some si \<and> isStore si"
    and t': "onExecutionCompleted c p fault t = Some t'"
  shows "thread_inv c t'"
proof (cases fault)
  case (Some f)
  then have "markFault c p f t = Some t'" using t' by (simp add: onExecutionCompleted_def)
  then show ?thesis by (intro markFault_thread_inv [OF inv]) (use st in \<open>auto simp: window_def branch_open_def\<close>)
next
  case None
  let ?u = "call (CompletedRest p) t"
  have t'': "t' = on_sys (notifyComplete (curTick t) p) ?u" using t' None by (simp add: onExecutionCompleted_def)
  have bi: "buffer_inv c (core t)" "inv_retry c (core t)" "cb_ok t" using inv by (simp_all add: thread_inv_def)
  have cu: "cb_ok ?u" by (rule cb_ok_call [OF bi(3)]) (simp add: overlap_ok_simple)
  show ?thesis
  proof (cases "store (sys t) p")
    case None
    then have "t' = ?u" by (simp add: t'' notifyComplete_def act_def on_sys_def)
    moreover have "\<not> b_ctl (core t) p" using ctl None by (auto simp: stat_of_def)
    ultimately show ?thesis using completed_gone [OF bi(1), of p] bi(2) cu st p by (simp add: thread_inv_def)
  next
    case (Some i)
    have iu: "store (sys ?u) p = Some i" using Some by simp
    have ic: "inst_cbs (core t) p i" using bi(3) Some by (simp add: cb_ok_def)
    let ?ph = "phase_of (i_status i)" and ?sq = "i_squashed i" and ?news = "completionCallbacks i"
    have k: "core t' = b_done p ?sq ?news (core t)"
      unfolding t'' notifyComplete_def core_act [OF iu]
      by (intro buffer.equality) (simp_all add: b_done_def stat_of_def st)
    have stat: "b_stat (core t) p = Some (?ph, ?sq)" using Some by (simp add: stat_of_def)
    have nf: "?ph \<noteq> Fetching" using p Some by (simp add: was_issued_def b_at_def stat_of_def b_alive_def)
    have rel: "\<And>cb. cb \<in> set ?news \<Longrightarrow> releases (if b_ctl (core t) p then {Exec} else UNIV) p (next_id (sys t)) cb"
      using ic by (auto simp: inst_cbs_def list_all_iff)
    have news: "list_all (\<lambda>cb. \<not> special cb \<and> cb \<noteq> Client (CommitLoop True)) ?news" "\<And>cb q. cb \<in> set ?news \<Longrightarrow> frame_inst cb \<noteq> Some q"
      "b_ctl (core t) p \<Longrightarrow> list_all exec_like ?news" "list_all (overlap_ok (core ?u)) ?news"
      using rel by (fastforce simp: list_all_iff releases_def overlap_ok_simple split: if_splits)+
    have "?ph = Retired \<Longrightarrow> \<exists>si. b_static (core t) p = Some si \<and> isStore si"
      using ret [OF \<open>fault = None\<close>] stat by (simp add: b_at_def)
    then have "buffer_inv c (core t')" "inv_retry c (core t')"
      unfolding k using done_inv [OF bi(1) _ stat nf news(1)] news(2,3) ctl stat bi(2) st by auto
    moreover have "cb_ok t'" unfolding t'' notifyComplete_def
      by (rule cb_ok_act [OF cu iu]) (use news(4) in \<open>auto simp: same_lists_def list_all_iff less_eq_Status_def\<close>)
    ultimately show ?thesis by (simp add: thread_inv_def)
  qed
qed

end
