(* ===== verification/Flex_Thread_Steps.thy ===== *)
theory Flex_Thread_Steps
  imports Flex_Thread_Exec
begin

text \<open>
  Commit, the events, and the theorem that every step of a FlexCPU thread keeps the invariant.
\<close>

section \<open>Commit\<close>

lemma commit_reg_fields [simp]: "tc_pc (commit_reg c r v tc) = tc_pc tc" "tc_status (commit_reg c r v tc) = tc_status tc"
  by (simp_all add: commit_reg_def split: RegClass.splits)

lemma commitToTC_fields [simp]:
  "tc_pc (commitToTC c d si tc) = advancePC si (pcState d)" "tc_status (commitToTC c d si tc) = tc_status tc"
proof -
  have a: "tc_status (fold (\<lambda>(k, r). commit_reg c r (results d ! k)) xs tc) = tc_status tc" for xs tc
    by (induction xs arbitrary: tc) auto
  have b: "tc_pc (fold (\<lambda>(k, v) tc. tc\<lparr>tc_misc := setMiscReg c k v (tc_misc tc)\<rparr>) xs tc) = tc_pc tc"
    "tc_status (fold (\<lambda>(k, v) tc. tc\<lparr>tc_misc := setMiscReg c k v (tc_misc tc)\<rparr>) xs tc) = tc_status tc" for xs tc
    by (induction xs arbitrary: tc) auto
  show "tc_pc (commitToTC c d si tc) = advancePC si (pcState d)" "tc_status (commitToTC c d si tc) = tc_status tc"
    by (simp_all add: commitToTC_def Let_def a b)
qed

lemma commitInstruction_eq:
  assumes "commitInstruction c p t = Some t'"
  shows "\<exists>si x n. static t p = Some si \<and> t' = t\<lparr>committedState := commitToTC c (info t p) si (committedState t), predictor_calls := x,
    numInsts := n, numOps := numOps t + 1, lastCommittedInstNum := seqNum (info t p),
    trace := trace t @ [\<lparr>tr_seq = seqNum (info t p), tr_issue = issueSeqNum (info t p), tr_pc = pcState (info t p), tr_inst = si\<rparr>]\<rparr>"
proof -
  obtain si where si: "static t p = Some si" using assms by (auto simp: commitInstruction_def split: bind_splits)
  let ?x = "if hasBranchPredictor c \<and> isControl si then predictor_calls t @ [Update (issueSeqNum (info t p))] else predictor_calls t"
  let ?n = "if \<not> isMicroop si \<or> isLastMicroop si then numInsts t + 1 else numInsts t"
  show ?thesis
    by (rule exI [of _ si], rule exI [of _ ?x], rule exI [of _ ?n])
      (use assms si in \<open>cases "hasBranchPredictor c \<and> isControl si"; cases "\<not> isMicroop si \<or> isLastMicroop si"; auto simp: commitInstruction_def Let_def\<close>)
qed

lemma commitInstruction_core:
  assumes "commitInstruction c p t = Some t'"
  shows "core t' = core t\<lparr>b_committed := b_seq (core t) p, b_tcpc := b_succ (core t) p\<rparr>" "sys t' = sys t" "requests t' = requests t" "info t' = info t"
  using commitInstruction_eq [OF assms] by (auto simp: core_def b_succ_def)

lemma extends_popped:
  assumes "agenda (sys t) = cb # r" "\<not> special cb"
  shows "extends c (core (popped t)) = extends c (core t)"
proof -
  have "Client (CompletedRest p) \<in> set r \<longleftrightarrow> Client (CompletedRest p) \<in> set (agenda (sys t))" for p using assms by auto
  then have "allowed c (core (popped t)) = allowed c (core t)" using assms by (auto simp: allowed_def unresolved_def fun_eq_iff)
  then show ?thesis by (auto simp: extends_def fun_eq_iff)
qed

lemma commit_end_inv:
  assumes pl: "plain_cpu c" and inv: "thread_inv c t" and st: "agenda (sys t) = Client (CommitLoop b) # r"
    and t': "commit_end c b (popped t) = Some t'"
  shows "thread_inv c t'"
proof -
  note pop = popped_inv [OF inv st, simplified]
  have pf: "advanceInstNeedsRetry (popped t) = advanceInstNeedsRetry t" "advanceInstRetryPC (popped t) = advanceInstRetryPC t"
    "requests (popped t) = requests t" "committedState (popped t) = committedState t" by (simp_all add: popped_def on_sys_def)
  show ?thesis
  proof (cases "b \<and> advanceInstNeedsRetry t")
    case False
    then show ?thesis using t' pop(1) pf by (auto simp: commit_end_def split: if_splits)
  next
    case True
    have bi: "buffer_inv c (core (popped t))" "cb_ok (popped t)" using pop(1) by (simp_all add: thread_inv_def)
    have w: "\<not> window (core (popped t)) q" for q using pop(2,4) True by auto
    have "inv_retry c (core t)" using inv by (simp add: thread_inv_def)
    then have "tc_status (committedState t) = Active \<Longrightarrow> extends c (core t) (advanceInstRetryPC t) \<and> ActivateEvent \<notin> set (requests t)"
      using True st by (auto simp: inv_retry_def)
    then show ?thesis using advanceInst_inv [OF pl bi w, of "advanceInstRetryPC t" t'] t' True extends_popped [OF st] pf
      by (simp add: commit_end_def)
  qed
qed

lemma canCommit_phase:
  assumes "canCommit t p = Some True"
  shows "b_at (\<lambda>s. s = Done) (core t) p \<or> (b_at (\<lambda>s. s = Pending) (core t) p \<and> (\<exists>si. static t p = Some si \<and> isStore si))"
proof -
  obtain i where i: "store (sys t) p = Some i"
    using assms by (cases "store (sys t) p") (simp_all add: canCommit_def holds_def)
  show ?thesis using assms i
    by (cases "i_status i")
      (auto simp: canCommit_def holds_def isCommitted_def isComplete_def isMemorying_def b_at_def stat_of_def less_eq_Status_def)
qed

lemma commit_one_inv:
  assumes inv: "thread_inv c u" and B: "inflightInsts u = p # ps" and p: "live u p" "canCommit u p = Some True"
    and w: "\<And>q. \<not> window (core u) q" and br: "\<not> branch_open (core u)" and v: "commitInstruction c p u = Some v"
  shows "thread_inv c (on_sys (notifyCommitted n p) (call (CommitRest p) v))"
proof -
  let ?c = "call (CommitRest p) v" and ?t = "on_sys (notifyCommitted n p) (call (CommitRest p) v)"
  note cv = commitInstruction_core [OF v]
  have bi: "buffer_inv c (core u)" "inv_retry c (core u)" "cb_ok u" using inv by (simp_all add: thread_inv_def)
  obtain i where i: "store (sys u) p = Some i" "\<not> i_squashed i" using p(1) by (auto simp: live_def holds_def split: option.splits)
  have iv: "store (sys ?c) p = Some i" using i cv(2) by simp
  let ?news = "commitCallbacks i"
  have k: "core ?t = b_commit p ?news (core u)"
    unfolding notifyCommitted_def core_act [OF iv]
    by (intro buffer.equality) (simp_all add: cv b_commit_def stat_of_def i)
  have stat: "b_stat (core u) p = Some (phase_of (i_status i), False)" using i by (simp add: stat_of_def)
  have ok: "phase_of (i_status i) = Done \<or> phase_of (i_status i) = Pending \<and> \<not> b_ctl (core u) p"
  proof -
    have "\<not> b_ctl (core u) p" if "static u p = Some si" "isStore si" for si
      using that buffer_inv_parts(2) [OF bi(1)] plain_mem [of si] by (auto simp: inv_static_def b_ctl_def)
    then show ?thesis using canCommit_phase [OF p(2)] stat by (auto simp: b_at_def)
  qed
  have "inst_cbs (core u) p i" using bi(3) i by (simp add: cb_ok_def)
  then have rel: "\<And>cb. cb \<in> set ?news \<Longrightarrow> releases UNIV p (next_id (sys u)) cb" by (auto simp: inst_cbs_def list_all_iff)
  have news: "list_all (above p) ?news" "list_all (\<lambda>cb. \<not> special cb \<and> cb \<noteq> Client (CommitLoop True)) ?news"
    "\<And>cb q. cb \<in> set ?news \<Longrightarrow> frame_inst cb = Some q \<Longrightarrow> was_issued (core u) q" "\<And>k. list_all (overlap_ok k) ?news"
    using rel by (fastforce simp: list_all_iff releases_def overlap_ok_simple)+
  have "buffer_inv c (core ?t)" "inv_retry c (core ?t)"
    unfolding k using commit_inv [OF bi(1) _ stat ok w br news(1,2,3)] B bi(2) by simp_all
  moreover have "cb_ok v" by (rule cb_ok_fields [OF bi(3)]) (use cv in simp_all)
  then have "cb_ok ?c" by (rule cb_ok_call) (simp add: overlap_ok_simple)
  then have "cb_ok ?t" unfolding notifyCommitted_def
    by (rule cb_ok_act [OF _ iv]) (use news(4) in \<open>auto simp: same_lists_def list_all_iff less_eq_Status_def\<close>)
  ultimately show ?thesis by (simp add: thread_inv_def)
qed

text \<open>A fault at the head of the buffer: it is the only instruction there, and the buffer is cleared.\<close>

lemma handleFault_inv:
  assumes pl: "plain_cpu c" and inv: "thread_inv c u" and B: "inflightInsts u = p # ps" and f: "inst_fault (info u p) \<noteq> None"
    and w: "\<And>q. \<not> window (core u) q" and br: "\<not> branch_open (core u)" and t': "handleFault c p u = Some t'"
  shows "thread_inv c t'"
proof -
  obtain flt where flt: "inst_fault (info u p) = Some flt" using f by blast
  have bi: "buffer_inv c (core u)" "cb_ok u" using inv by (simp_all add: thread_inv_def)
  define v where "v = bufferInstructionData 0 [] (u\<lparr>inflightInsts := []\<rparr>)"
  define x where "x = v\<lparr>committedState := fault_invoke c flt (static v p) (committedState v)\<rparr>"
  have vf: "sys v = sys u" "info v = info u" "requests v = requests u" "inflightInsts v = []"
    by (simp_all add: v_def bufferInstructionData_def Let_def)
  have kx: "core x = core u\<lparr>b_insts := [], b_active := (tc_status (committedState x) = Active), b_tcpc := tc_pc (committedState x)\<rparr>"
    unfolding x_def v_def by (simp add: core_def bufferInstructionData_def Let_def)
  have dead: "\<not> b_live (core u) p" using buffer_inv_parts(5) [OF bi(1)] B flt by (auto simp: inv_issue_def)
  then have "p = last (p # ps)" using buffer_inv_parts(5) [OF bi(1)] B by (auto simp: inv_issue_def)
  then have "ps = []" using buffer_inv_parts(1) [OF bi(1)] B by (cases ps rule: rev_cases) (auto simp: inv_ids_def)
  then have ix: "buffer_inv c (core x)" unfolding kx by (intro clear_inv [OF bi(1) _ w br]) (use B dead in auto)
  have cx: "cb_ok x" by (rule cb_ok_fields [OF bi(2)]) (use vf in \<open>simp_all add: x_def\<close>)
  have wx: "\<not> window (core x) q" for q using w [of q] by (simp add: window_def x_def vf)
  have na: "ActivateEvent \<notin> set (requests x)" using activate_late [OF bi(1)] B vf by (simp add: x_def)
  have "advanceInst c (tc_pc (committedState x)) x = Some t'"
    using t' flt unfolding handleFault_def v_def [symmetric] by (simp add: Let_def getNextPC_def vf x_def)
  then show ?thesis using advanceInst_inv [OF pl ix cx wx, of "tc_pc (committedState x)" t'] na
    by (simp add: extends_def) (simp add: x_def vf)
qed

text \<open>An instruction that may leave the buffer is not already leaving it.\<close>

lemma commit_no_window:
  assumes bi: "buffer_inv c (core u)" and B: "inflightInsts u = p # ps" and ok: "canCommit u p = Some ok" "ok \<or> holds i_squashed u p"
  shows "\<not> window (core u) q"
proof
  assume "window (core u) q"
  then have "b_stat (core u) p = Some (Retired, False)"
    using buffer_inv_parts(3) [OF bi] B unfolding inv_stack_def by (metis core_fields(1) list.distinct(1) list.sel(1))
  then have "holds isCommitted u p" "\<not> holds i_squashed u p"
    by (auto simp: stat_of_def holds_def isCommitted_def phase_of_iff)
  then show False using ok by (simp add: canCommit_def)
qed

lemma commit_loop_inv:
  assumes pl: "plain_cpu c" and inv: "thread_inv c t" and st: "agenda (sys t) = Client (CommitLoop b) # r"
    and t': "commit_loop c b (popped t) = Some t'"
  shows "thread_inv c t'"
proof -
  let ?u = "popped t"
  note pop = popped_inv [OF inv st, simplified]
  have br: "\<not> branch_open (core ?u)" using pop(3,5) by auto
  have bi: "buffer_inv c (core ?u)" using pop(1) by (simp add: thread_inv_def)
  show ?thesis
  proof (cases "inflightInsts ?u")
    case Nil
    then show ?thesis using commit_end_inv [OF pl inv st] t' by (simp add: commit_loop_def)
  next
    case (Cons p ps)
    obtain ok where ok: "canCommit ?u p = Some ok" using t' Cons by (auto simp: commit_loop_def split: bind_splits)
    show ?thesis
    proof (cases "ok \<or> holds i_squashed ?u p")
      case False
      then show ?thesis using commit_end_inv [OF pl inv st] t' Cons ok by (simp add: commit_loop_def)
    next
      case True
      note w = commit_no_window [OF bi Cons ok True]
      show ?thesis
      proof (cases "inst_fault (info ?u p)")
        case (Some f)
        then show ?thesis using handleFault_inv [OF pl pop(1) Cons _ w br] t' Cons ok True by (auto simp: commit_loop_def)
      next
        case None
        then have l: "live ?u p" using buffer_inv_parts(5) [OF bi] Cons by (auto simp: inv_issue_def core_preds)
        then have ns: "\<not> holds i_squashed ?u p" by (auto simp: live_def holds_def split: option.splits)
        obtain v where v: "commitInstruction c p ?u = Some v" "t' = on_sys (notifyCommitted (curTick v) p) (call (CommitRest p) v)"
          using t' Cons ok True None ns by (auto simp: commit_loop_def split: bind_splits)
        show ?thesis unfolding v(2) by (rule commit_one_inv [OF pop(1) Cons l _ w br v(1)]) (use ok True ns in simp)
      qed
    qed
  qed
qed

lemma commit_rest_inv:
  assumes inv: "thread_inv c t" and st: "agenda (sys t) = Client (CommitRest p) # r" and t': "commit_rest (popped t) = Some t'"
  shows "thread_inv c t'"
proof -
  let ?u = "popped t"
  have bi: "buffer_inv c (core t)" "inv_retry c (core t)" "cb_ok t" using inv by (simp_all add: thread_inv_def)
  obtain q ps where B: "inflightInsts ?u = q # ps" and t'': "t' = call (CommitLoop True) (?u\<lparr>inflightInsts := ps\<rparr>)"
    using t' by (auto simp: commit_rest_def split: list.splits bind_splits)
  have Bt: "b_insts (core t) = q # ps" using B by (simp add: popped_def)
  note rt = retire_inv [OF bi(1) _ Bt, of p r]
  have k: "core t' = b_retire ps r (core t)" unfolding t'' using st
    by (intro buffer.equality) (simp_all add: b_retire_def popped_def on_sys_def call_def core_def)
  have "cb_ok ?u" by (rule cb_ok_same [OF bi(3)]) (use st in \<open>auto simp: popped_def\<close>)
  then have "cb_ok (?u\<lparr>inflightInsts := ps\<rparr>)" by (rule cb_ok_fields) simp_all
  then have "cb_ok t'" unfolding t'' by (rule cb_ok_call) (simp add: overlap_ok_simple)
  then show ?thesis using rt(2,3) st bi(2) by (simp add: thread_inv_def k)
qed

end
