(* ===== verification/Flex_Thread_Events.thy ===== *)
theory Flex_Thread_Events
  imports Flex_Thread_Steps
begin

text \<open>
  The calls on the stack and the events that the rest of the system sends to a FlexCPU thread: all of them keep the
  invariant, so it holds in every state that a thread reaches.
\<close>

section \<open>Calls\<close>

lemma forward_popped: "forward (popped t) t' = forward t t'"
  by (simp add: forward_def)

lemma pending_popped [simp]: "pending (popped t) p = pending t p"
  by (simp add: pending_def)

lemma popped_pending:
  assumes "forward t t'" "was_issued (core t) p" "pending t' p" "store (sys t') p = None \<Longrightarrow> store (sys (popped t)) p = None"
  shows "pending (popped t) p"
  using forward_pending [OF assms(1-3)] assms(4) by simp

lemma notifyExecuting_pending:
  "pending (on_sys (notifyExecuting n p) t) p" "store (sys (on_sys (notifyExecuting n p) t)) p = None \<Longrightarrow> store (sys t) p = None"
  by (auto simp: pending_def notifyExecuting_def act_def split: option.splits)

lemma exec_ExecuteInstruction:
  assumes inv: "thread_inv c t" and st: "agenda (sys t) = Client (ExecuteInstruction p) # r" and fw: "forward t t'"
    and t': "executeInstruction_weak p (popped t) = Some t'"
  shows "thread_inv c t'"
proof (cases "live t p")
  case False
  then show ?thesis using t' popped_inv(1) [OF inv st] by (simp add: executeInstruction_weak_def)
next
  case True
  note pop = popped_inv [OF inv st, simplified]
  have b: "executeInstruction_begin p (popped t) = Some t'" using t' True by (simp add: executeInstruction_weak_def)
  then have t'': "t' = on_sys (notifyExecuting (curTick (popped t)) p) (call (ExecuteRest p) (popped t))"
    by (auto simp: executeInstruction_begin_def split: bind_splits)
  have "pending (popped t) p"
    by (rule popped_pending [OF fw pop(7)]) (use notifyExecuting_pending [of "curTick (popped t)" p "call (ExecuteRest p) (popped t)"] in \<open>simp_all add: t''\<close>)
  then show ?thesis by (intro executeInstruction_begin_inv [OF pop(1) _ _ _ b]) (use pop(2,4,7) in auto)
qed

lemma exec_ExecuteRest:
  assumes inv: "thread_inv c t" and st: "agenda (sys t) = Client (ExecuteRest p) # r" and fw: "forward t t'"
    and t': "executeInstruction_rest p (popped t) = t'"
  shows "thread_inv c t'"
proof -
  note pop = popped_inv [OF inv st, simplified]
  have "pending (popped t) p"
    by (rule popped_pending [OF fw pop(7)])
      (use notifyExecuting_pending [of "curTick (popped t)" p "request (Execution p) (popped t)"] in \<open>simp_all add: t' [symmetric] executeInstruction_rest_def\<close>)
  then show ?thesis unfolding t' [symmetric] by (intro executeInstruction_rest_inv [OF pop(1)]) (use pop(2,4,7) in auto)
qed

lemma exec_memory:
  assumes inv: "thread_inv c t" and st: "agenda (sys t) = cb # r" and cb: "cb = Client (SendToMemory p a) \<or> cb = Client (EffAddrRest p a)"
    and fw: "forward t t'" and t': "sendToMemory c p a (popped t) = Some t'"
  shows "thread_inv c t'"
proof -
  have ns: "\<not> special cb" "frame_inst cb = Some p" "mem_frame cb = Some p" "overlap_pair cb = None" "\<not> exec_like cb" "\<not> above p cb"
    using cb by auto
  note pop = popped_inv [OF inv st ns(1)]
  have m: "mem_inst (core (popped t)) (Some p)" using pop(6) ns(3,4) by (simp add: overlap_ok_def)
  have "distinct (inflightInsts (popped t))" by (rule thread_distinct [OF pop(1)])
  note sp = sendToMemory_pending [OF t' this]
  have pd: "pending (popped t) p" by (rule popped_pending [OF fw pop(7) [OF ns(2)] sp])
  show ?thesis by (rule sendToMemory_inv [OF pop(1) pd m _ _ t']) (use pop(2,3,4,5) ns in auto)
qed

lemma exec_EffAddrRest:
  assumes inv: "thread_inv c t" and st: "agenda (sys t) = Client (EffAddrRest p a) # r" and fw: "forward t t'"
    and t': "eff_addr_rest c p a (popped t) = Some t'"
  shows "thread_inv c t'"
proof (cases "holds isMemReady (popped t) p")
  case True
  then show ?thesis using exec_memory [OF inv st _ fw, of p a] t' by (simp add: eff_addr_rest_def)
next
  case False
  note pop = popped_inv [OF inv st, simplified]
  have m: "mem_inst (core (popped t)) (Some p)" using pop(6) by (simp add: overlap_ok_def)
  show ?thesis by (rule eff_addr_rest_inv [OF pop(1) _ m _ _ t']) (use pop(2-5) False in auto)
qed

lemma exec_overlap:
  assumes inv: "thread_inv c t" and st: "agenda (sys t) = cb # r" and cb: "overlap_pair cb = Some (p, q)"
    and t': "overlap p q (popped t) = Some t'"
  shows "thread_inv c t'"
proof -
  have "\<not> special cb" using cb by (cases cb rule: overlap_pair.cases) auto
  note pop = popped_inv [OF inv st this]
  show ?thesis by (rule overlap_inv [OF pop(1) _ _ _ t']) (use pop(6) cb in \<open>auto simp: overlap_ok_def\<close>)
qed

lemma run_squash_callback_inv:
  assumes inv: "thread_inv c t" and t': "run_squash_callback f t = Some t'"
  shows "thread_inv c t'"
  using freed_buffer [of c "core t" "core t'"] run_squash_callback_core [OF t'] inv by (simp add: thread_inv_def)

lemma exec_frame_inv:
  assumes pl: "plain_cpu c" and inv: "thread_inv c t" and st: "agenda (sys t) = Client fr # r" and fw: "forward t t'"
    and t': "exec_frame c fr (popped t) = Some t'"
  shows "thread_inv c t'"
proof (cases fr)
  case (ExecuteInstruction p)
  show ?thesis by (rule exec_ExecuteInstruction [OF inv _ fw]) (use st t' ExecuteInstruction in simp_all)
next
  case (ExecuteRest p)
  show ?thesis by (rule exec_ExecuteRest [OF inv _ fw]) (use st t' ExecuteRest in simp_all)
next
  case (SendToMemory p a)
  show ?thesis
  proof (cases "live t p")
    case True
    then show ?thesis using exec_memory [OF inv st _ fw, of p a] t' SendToMemory by (simp add: sendToMemory_weak_def)
  next
    case False
    then show ?thesis using popped_inv(1) [OF inv st] t' SendToMemory by (simp add: sendToMemory_weak_def)
  qed
next
  case (EffAddrRest p a)
  show ?thesis by (rule exec_EffAddrRest [OF inv _ fw]) (use st t' EffAddrRest in simp_all)
next
  case (CompletedRest p)
  have "popped t = on_sys (agenda_update (\<lambda>_. r)) t" using st by (simp add: popped_def)
  then show ?thesis using completed_rest_inv [OF pl inv, of p r t'] st t' CompletedRest by simp
next
  case (CommitLoop b)
  show ?thesis by (rule commit_loop_inv [OF pl inv]) (use st t' CommitLoop in simp_all)
next
  case (CommitRest p)
  show ?thesis by (rule commit_rest_inv [OF inv]) (use st t' CommitRest in simp_all)
next
  case (OverlapKnown p q)
  have "t' = popped t \<or> overlap p q (popped t) = Some t'" using t' OverlapKnown by (auto split: if_splits)
  then show ?thesis using popped_inv(1) [OF inv st] exec_overlap [OF inv st, of p q t'] OverlapKnown by auto
next
  case (OverlapInst p q)
  have "t' = popped t \<or> overlap p q (popped t) = Some t'" using t' OverlapInst by (auto split: if_splits)
  then show ?thesis using popped_inv(1) [OF inv st] exec_overlap [OF inv st, of p q t'] OverlapInst by auto
next
  case (OverlapOther p q)
  have "t' = popped t \<or> overlap p q (popped t) = Some t'" using t' OverlapOther by (auto split: if_splits)
  then show ?thesis using popped_inv(1) [OF inv st] exec_overlap [OF inv st, of p q t'] OverlapOther by auto
next
  case (PredictorSquash n)
  have "thread_inv c (popped t)" by (rule popped_inv(1) [OF inv st]) (simp add: PredictorSquash)
  then show ?thesis by (rule run_squash_callback_inv [where f = fr]) (use t' PredictorSquash in simp)
next
  case (FreeUnlessComplete p)
  have "thread_inv c (popped t)" by (rule popped_inv(1) [OF inv st]) (simp add: FreeUnlessComplete)
  then show ?thesis by (rule run_squash_callback_inv [where f = fr]) (use t' FreeUnlessComplete in simp)
qed

lemma exec_inv:
  assumes pl: "plain_cpu c" and inv: "thread_inv c t" and t': "exec c t = Some t'" and fw: "forward t t'"
  shows "thread_inv c t'"
proof (cases "agenda (sys t)")
  case Nil
  then show ?thesis using t' by (simp add: exec_def)
next
  case (Cons cb r)
  have u: "on_sys (agenda_update (\<lambda>_. r)) t = popped t" using Cons by (simp add: popped_def)
  show ?thesis
  proof (cases cb)
    case (Release k p)
    then have t'': "t' = on_sys (release k p) (popped t)" using t' Cons u by (simp add: exec_def Let_def)
    note pop = popped_inv [OF inv Cons, unfolded Release, simplified]
    show ?thesis unfolding t'' by (rule release_inv [OF pop(1)]) (use pop(2-5) in auto)
  next
    case (Client fr)
    then have "exec_frame c fr (popped t) = Some t'" using t' Cons u by (simp add: exec_def Let_def)
    then show ?thesis by (intro exec_frame_inv [OF pl inv _ fw]) (use Cons Client in auto)
  qed
qed

section \<open>Events\<close>

text \<open>The state in which an event is handled: its request has been taken from the list.\<close>

lemma answer_fields [simp]:
  "sys (answer e t) = sys t" "info (answer e t) = info t" "inflightInsts (answer e t) = inflightInsts t"
  "committedState (answer e t) = committedState t" "live (answer e t) = live t" "alive (answer e t) = alive t" "holds P (answer e t) = holds P t"
  by (simp_all add: answer_def live_def holds_def alive_def fun_eq_iff split: option.splits)

lemma core_answer: "core (answer e t) = core t\<lparr>b_reqs := requests (answer e t)\<rparr>"
  by (simp add: answer_def core_def split: option.splits)

lemma core_reqs_same [simp]: "core t\<lparr>b_reqs := requests t\<rparr> = core t"
  by simp

lemma answer_requests: "set (requests (answer e t)) \<subseteq> set (requests t)"
  by (auto simp: answer_def dest: subsetD [OF set_remove1_subset] split: option.splits)

lemma answer_inv:
  assumes "thread_inv c t"
  shows "thread_inv c (answer e t)"
proof -
  have b: "buffer_inv c (core t)" "inv_retry c (core t)" "cb_ok t" using assms by (simp_all add: thread_inv_def)
  have "inv_requests c (core t\<lparr>b_reqs := requests (answer e t)\<rparr>)"
  proof (cases "answered e")
    case (Some r)
    then show ?thesis using inv_requests_remove1 [of c "core t" r] b(1) by (simp add: buffer_inv_def answer_def)
  qed (use b(1) in \<open>simp add: buffer_inv_def answer_def\<close>)
  then have "buffer_inv c (core (answer e t))" unfolding core_answer [of e t] by (rule request_inv [OF _ b(1)])
  moreover have "inv_retry c (core (answer e t))" unfolding core_answer [of e t]
    by (rule retry_reqs [OF b(2)]) (use answer_requests [of e t] in auto)
  moreover have "cb_ok (answer e t)" by (rule cb_ok_same [OF b(3)]) (use answer_requests [of e t] in auto)
  ultimately show ?thesis by (simp add: thread_inv_def)
qed

lemma tick_inv: "thread_inv c t \<Longrightarrow> thread_inv c (t\<lparr>curTick := n\<rparr>)"
  by (rule thread_inv_core) (simp_all add: core_def)

lemma remove1_single:
  assumes "length (filter P xs) \<le> 1" "r \<in> set xs" "P r" "x \<in> set (remove1 r xs)"
  shows "\<not> P x"
  using assms by (induction xs) (auto simp: filter_empty_conv split: if_splits)

lemma answer_fetch:
  assumes inv: "thread_inv c t" and e: "answered e = Some r" "r \<in> set (requests t)" "fetch_request p r"
  shows "\<And>q. q \<in> set (requests (answer e t)) \<Longrightarrow> \<not> fetch_request p q" "live t p \<Longrightarrow> \<not> b_issued (core t) p" "p < next_id (sys t)"
proof -
  have f: "inv_fetch (core t)" using inv by (simp add: thread_inv_def buffer_inv_def inv_requests_def)
  show "\<not> fetch_request p q" if "q \<in> set (requests (answer e t))" for q
    using f that e remove1_single [of "fetch_request p" "requests t" r q] by (simp add: inv_fetch_def answer_def)
  show "live t p \<Longrightarrow> \<not> b_issued (core t) p" "p < next_id (sys t)" using f e unfolding inv_fetch_def by (auto simp: core_preds(1))
qed

lemma answer_late:
  assumes inv: "thread_inv c t" and r: "r \<in> set (requests t)"
  shows "request_inst r = Some p \<Longrightarrow> was_issued (core t) p" "mem_request r = Some p \<Longrightarrow> mem_inst (core t) (Some p)"
proof -
  show "request_inst r = Some p \<Longrightarrow> was_issued (core t) p"
    using inv r by (auto simp: thread_inv_def buffer_inv_def inv_requests_def inv_late_def)
  show "mem_request r = Some p \<Longrightarrow> mem_inst (core t) (Some p)"
    using inv r by (auto simp: thread_inv_def cb_ok_def list_all_iff)
qed

lemma count_remove1: "count_list xs r \<le> 1 \<Longrightarrow> r \<notin> set (remove1 r xs)"
  by (induction xs) (auto simp: count_list_0_iff)

lemma active_preds [simp]:
  "b_at P (k\<lparr>b_active := x\<rparr>) = b_at P k" "b_live (k\<lparr>b_active := x\<rparr>) = b_live k" "b_alive (k\<lparr>b_active := x\<rparr>) = b_alive k"
  "b_ctl (k\<lparr>b_active := x\<rparr>) = b_ctl k" "b_succ (k\<lparr>b_active := x\<rparr>) = b_succ k" "was_issued (k\<lparr>b_active := x\<rparr>) = was_issued k"
  "window (k\<lparr>b_active := x\<rparr>) = window k" "unresolved (k\<lparr>b_active := x\<rparr>) = unresolved k"
  by (simp_all add: fun_eq_iff b_defs b_succ_def unresolved_def)

lemma active_allowed [simp]: "allowed c (k\<lparr>b_active := x\<rparr>) = allowed c k"
  by (intro ext, simp only: allowed_def active_preds)

lemma active_buffer [simp]: "buffer_inv c (k\<lparr>b_active := x\<rparr>) = buffer_inv c k"
  by (simp add: buffer_inv_def inv_ids_def inv_static_def inv_stack_def inv_seq_def inv_issue_def inv_requests_def req_defs
      inv_refs_def inv_chain_def inv_uses_def)

lemma status_event_inv:
  assumes "thread_inv c t" "st \<noteq> Active"
  shows "thread_inv c (status_event st t)"
proof -
  let ?t = "status_event st t"
  have k: "core ?t = core t\<lparr>b_active := False\<rparr>" using assms(2) by (simp add: status_event_def core_def)
  have "buffer_inv c (core ?t)" using assms(1) unfolding k by (simp add: thread_inv_def)
  moreover have "inv_retry c (core ?t)" unfolding k by (simp add: inv_retry_def)
  moreover have "cb_ok ?t" by (rule cb_ok_fields [of t]) (use assms(1) in \<open>simp_all add: thread_inv_def status_event_def\<close>)
  ultimately show ?thesis by (simp add: thread_inv_def)
qed

lemma activate_inv:
  assumes inv: "thread_inv c t" and t: "inflightInsts t = []" "ActivateEvent \<notin> set (requests t)" "agenda (sys t) = []"
  shows "thread_inv c (activate t)"
proof -
  let ?t = "activate t" and ?k = "core t\<lparr>b_active := True, b_reqs := requests t @ [ActivateEvent]\<rparr>"
  have k: "core ?t = ?k" by (simp add: activate_def status_event_def) (simp add: core_def)
  have bi: "buffer_inv c (core t\<lparr>b_active := True\<rparr>)" using inv by (simp add: thread_inv_def)
  have "inv_requests c ?k"
    using buffer_inv_parts(6) [OF bi] t unfolding inv_requests_def req_defs by (simp add: count_list_append count_list_0_iff)
  then have "buffer_inv c (core ?t)" unfolding k by (rule request_inv [OF _ bi])
  moreover have "inv_retry c (core ?t)" unfolding k using t by (simp add: inv_retry_def window_def)
  moreover have "cb_ok ?t" by (rule cb_ok_same [of t]) (use inv in \<open>auto simp: thread_inv_def activate_def status_event_def\<close>)
  ultimately show ?thesis by (simp add: thread_inv_def)
qed

lemma advance_next_inv:
  assumes pl: "plain_cpu c" and inv: "thread_inv c t" and t: "inflightInsts t = []" "ActivateEvent \<notin> set (requests t)" "agenda (sys t) = []"
    and t': "advance_next c t = Some t'"
  shows "thread_inv c t'"
proof -
  have "advanceInst c (tc_pc (committedState t)) t = Some t'" using t' t(1) by (simp add: advance_next_def getNextPC_def)
  then show ?thesis using advanceInst_inv [OF pl, of t "tc_pc (committedState t)" t'] inv t
    by (simp add: thread_inv_def extends_def window_def)
qed

lemma onPCTranslated_inv:
  assumes inv: "thread_inv c t" and st: "agenda (sys t) = []" and p: "live t p \<Longrightarrow> \<not> b_issued (core t) p" "p < next_id (sys t)"
    and nf: "\<And>q. q \<in> set (requests t) \<Longrightarrow> \<not> fetch_request p q" and t': "onPCTranslated c p fault v t = Some t'"
  shows "thread_inv c t'"
proof -
  show ?thesis
  proof (cases "live t p")
    case False
    then show ?thesis using t' inv by (simp add: onPCTranslated_def)
  next
    case l: True
    show ?thesis
    proof (cases fault)
      case (Some f)
      then have "markFault c p f t = Some t'" using t' l by (simp add: onPCTranslated_def)
      then show ?thesis by (intro markFault_thread_inv [OF inv]) (use st in \<open>auto simp: window_def branch_open_def\<close>)
    next
      case None
      then have "t' = request (InstructionData p v) t" using t' l by (simp add: onPCTranslated_def)
      then show ?thesis using thread_inv_fetch [OF inv _ p(2,1) nf, of "InstructionData p v"] by simp
    qed
  qed
qed

lemma attemptFetch_weak_inv:
  assumes pl: "plain_cpu c" and inv: "thread_inv c t" and p: "live t p \<Longrightarrow> \<not> b_issued (core t) p"
    and nf: "\<And>q. q \<in> set (requests t) \<Longrightarrow> \<not> fetch_request p q" and t': "attemptFetch_weak c p (bufferInstructionData v bs t) = Some t'"
  shows "thread_inv c t'"
proof -
  let ?t = "bufferInstructionData v bs t"
  have k: "core ?t = core t" "sys ?t = sys t" "requests ?t = requests t" by (simp_all add: bufferInstructionData_def Let_def)
  have i: "thread_inv c ?t" by (rule thread_inv_core [OF inv k(1,2)])
  have l: "live ?t p = live t p" by (simp add: live_def holds_def k)
  show ?thesis
  proof (cases "live t p")
    case True
    then show ?thesis using attemptFetch_inv [OF pl i, of p t'] t' p nf k l by (simp add: attemptFetch_weak_def)
  qed (use t' i l in \<open>simp add: attemptFetch_weak_def\<close>)
qed

lemma onIssueTidAccessed_inv:
  assumes inv: "thread_inv c t" and st: "agenda (sys t) = []" and p: "was_issued (core t) p"
    and t': "onIssueTidAccessed p t = Some t'" and fw: "forward t t'"
  shows "thread_inv c t'"
proof (cases "live t p")
  case False
  then show ?thesis using t' inv by (simp add: onIssueTidAccessed_def)
next
  case True
  let ?u = "on_sys (notifyIssuedTid (curTick t) p) t"
  obtain i where i: "store (sys t) p = Some i" using True by (auto simp: live_def holds_def split: option.splits)
  have su: "\<exists>j. store (sys ?u) p = Some j \<and> i_status j = IssuedTid" using i by (simp add: notifyIssuedTid_def)
  consider "holds isReady ?u p" "executeInstruction_begin p ?u = Some t'" | "t' = on_sys (addReadyCallback p (ExecuteInstruction p)) ?u"
    using t' True by (auto simp: onIssueTidAccessed_def Let_def split: if_splits)
  note cs = this
  have "pending t' p \<and> store (sys t') p \<noteq> None"
    using cs
  proof cases
    case 1
    then have "t' = on_sys (notifyExecuting (curTick ?u) p) (call (ExecuteRest p) ?u)" by (auto simp: executeInstruction_begin_def split: bind_splits)
    then show ?thesis using su by (auto simp: notifyExecuting_def pending_def)
  next
    case 2
    then show ?thesis using su by (auto simp: addReadyCallback_def pending_def)
  qed
  then have pd: "pending t p" by (intro forward_pending [OF fw p]) auto
  have iu: "thread_inv c ?u" unfolding notifyIssuedTid_def
    by (rule act_inv [OF inv i]) (use pd i in \<open>auto simp: pending_def stat_of_def same_lists_def\<close>)
  have ku: "core ?u = core t" unfolding notifyIssuedTid_def core_act [OF i]
    by (intro buffer.equality) (use pd i in \<open>auto simp: pending_def stat_of_def\<close>)
  have pu: "pending ?u p" using pd unfolding pending_core ku .
  show ?thesis
    using cs
  proof cases
    case 1
    show ?thesis by (rule executeInstruction_begin_inv [OF iu pu _ _ 1(2)]) (use p st ku in \<open>auto simp: window_def\<close>)
  next
    case 2
    have iss: "b_issued (core ?u) p" unfolding ku using p i by (simp add: was_issued_def core_preds alive_def)
    have "cb_ok t'" unfolding 2 addReadyCallback_def
      by (rule cb_ok_add) (use iu iss in \<open>auto simp: thread_inv_def inst_cbs_def stat_of_def intro!: core_act_same\<close>)
    then show ?thesis using iu by (simp add: 2 thread_inv_def)
  qed
qed

lemma onBranchPredictorAccessed_inv:
  assumes pl: "plain_cpu c" and inv: "thread_inv c t" and st: "agenda (sys t) = []" and p: "was_issued (core t) p"
    and bp: "hasBranchPredictor c" "b_ctl (core t) p" "BranchPredictor p \<notin> set (requests t)"
      "live t p \<Longrightarrow> \<not> holds isComplete t p \<Longrightarrow> inflightInsts t \<noteq> [] \<and> p = last (inflightInsts t)"
    and t': "onBranchPredictorAccessed c p taken s t = Some t'"
  shows "thread_inv c t'"
proof -
  let ?u = "on_sys (addSquashCallback p (FreeUnlessComplete p)) t"
  have bi: "buffer_inv c (core t)" "cb_ok t" using inv by (simp_all add: thread_inv_def)
  have free: "freeBranchPredDepth t = Some t' \<Longrightarrow> thread_inv c t'"
    using run_squash_callback_inv [OF inv, of "FreeUnlessComplete p"] freed_buffer [OF bi(1), of "core t'"] freeBranchPredDepth_core [of t t'] inv
    by (simp add: thread_inv_def)
  show ?thesis
  proof (cases "\<not> alive t p \<or> holds isCommitted t p \<or> holds i_squashed t p \<or> holds isComplete t p")
    case True
    then show ?thesis using t' free by (simp add: onBranchPredictorAccessed_def)
  next
    case False
    then have l: "live t p" and nc: "\<not> holds isComplete t p" by (auto simp: live_def holds_def alive_def split: option.splits)
    note lst = bp(4) [OF l nc]
    have cu: "cb_ok ?u" unfolding addSquashCallback_def
      by (rule cb_ok_add [OF bi(2)]) (auto simp: inst_cbs_def stat_of_def intro!: core_act_same)
    have e: "extends c (core ?u) s"
    proof -
      have "b_live (core t) p" "b_issued (core t) p" "\<not> b_complete (core t) p"
        using l nc p live_alive [OF l] by (simp_all add: core_preds was_issued_def)
      then show ?thesis using lst bp(1-3) by (auto simp: extends_def allowed_def unresolved_def)
    qed
    have adv: "advanceInst c s ?u = Some t' \<Longrightarrow> thread_inv c t'"
      using advanceInst_inv [OF pl _ cu, of s t'] bi(1) e activate_late [OF bi(1)] lst st by (simp add: window_def)
    obtain si where "static t p = Some si" using t' False by (auto simp: onBranchPredictorAccessed_def split: bind_splits)
    then show ?thesis using t' False free adv by (auto simp: onBranchPredictorAccessed_def split: if_splits)
  qed
qed

lemma executed_mem_inv:
  assumes inv: "thread_inv c t" and st: "agenda (sys t) = []" and p: "mem_inst (core t) (Some p)"
    and si: "static t p = Some si" "isMemRef si" "alive t p" and t': "executed c p out t = Some t'"
  shows "thread_inv c t'"
proof -
  obtain u where u: "(case out_access out of None \<Rightarrow> Some t | Some (Read req) \<Rightarrow> initiateMemRead c p req t
      | Some (Write req data res) \<Rightarrow> writeMem c p data req res t) = Some u"
    and t'': "(if \<not> live u p then Some u else case out_fault out of None \<Rightarrow> Some u | Some f \<Rightarrow> markFault c p f u) = Some t'"
    using t' si by (auto simp: executed_def split: bind_splits)
  have "u = t \<or> (\<exists>req wr data. access_memory c p req wr data t = Some u)"
    using u by (auto simp: initiateMemRead_def writeMem_def split: option.splits access.splits if_splits bind_splits)
  then have "thread_inv c u \<and> agenda (sys u) = []" using access_memory_inv [OF inv p] inv st by fastforce
  then have iu: "thread_inv c u" and su: "agenda (sys u) = []" by simp_all
  have "markFault c p f u = Some t' \<Longrightarrow> thread_inv c t'" for f
    by (rule markFault_thread_inv [OF iu]) (use su in \<open>auto simp: window_def branch_open_def\<close>)
  then show ?thesis using t'' iu by (auto split: if_splits option.splits)
qed

lemma forward_store:
  assumes "forward t t'" "store (sys t) p = Some i" "i_status i = Committed" "store (sys t') p = Some i'" "i_status i' = Complete"
  shows "\<exists>si. static t p = Some si \<and> isStore si"
proof -
  have "\<not> i_status i \<le> i_status i'" using assms by (simp add: less_eq_Status_def)
  then show ?thesis using assms(1,2,4) unfolding forward_def by blast
qed

lemma completed_store:
  assumes fw: "forward t t'" and t': "onExecutionCompleted c p None u = Some t'" and u: "store (sys u) = store (sys t)" "static u p = static t p"
    and r: "b_at (\<lambda>s. s = Retired) (core u) p"
  shows "\<exists>si. static u p = Some si \<and> isStore si"
proof -
  obtain i where i: "store (sys u) p = Some i" "i_status i = Committed"
    using r by (auto simp: b_at_def stat_of_def phase_of_iff split: option.splits)
  have "t' = on_sys (notifyComplete (curTick u) p) (call (CompletedRest p) u)" using t' by (simp add: onExecutionCompleted_def)
  then obtain i' where "store (sys t') p = Some i'" "i_status i' = Complete" using i by (auto simp: notifyComplete_def)
  then show ?thesis using forward_store [OF fw] i u by auto
qed

lemma executed_inv:
  assumes inv: "thread_inv c t" and st: "agenda (sys t) = []" and p: "was_issued (core t) p" and fw: "forward t t'"
    and pe: "live t p \<Longrightarrow> \<not> holds isComplete t p" "location (out_pc out) = location (pcState (info t p))"
      "\<And>si. static t p = Some si \<Longrightarrow> isControl si \<or> location (advancePC si (out_pc out)) = location (advancePC si (pcState (info t p)))"
    and t': "executed c p out t = Some t'"
  shows "thread_inv c t'"
proof (cases "alive t p")
  case False
  then show ?thesis using t' inv by (simp add: executed_def)
next
  case al: True
  obtain si where si: "static t p = Some si" using t' al by (auto simp: executed_def split: bind_splits)
  have bi: "buffer_inv c (core t)" "inv_retry c (core t)" "cb_ok t" using inv by (simp_all add: thread_inv_def)
  have pl: "plain si" using buffer_inv_parts(2) [OF bi(1)] si by (simp add: inv_static_def)
  show ?thesis
  proof (cases "isMemRef si")
    case True
    then have "mem_inst (core t) (Some p)" using p si plain_mem [OF pl] by (simp add: mem_inst_def b_ctl_def)
    then show ?thesis by (rule executed_mem_inv [OF inv st _ si True al t'])
  next
    case False
    let ?f = "\<lambda>d. d\<lparr>pcState := out_pc out, results := out_results out, resultValid := out_valid out, miscResults := out_misc out\<rparr>"
    let ?u = "set_info p ?f t"
    have ku: "core ?u = core t\<lparr>b_pc := (b_pc (core t))(p := out_pc out)\<rparr>" by (auto simp: core_def set_info_def fun_eq_iff)
    have iss: "b_issued (core t) p" using p al by (simp add: was_issued_def core_preds)
    have w: "\<not> window (core t) p" using st by (simp add: window_def)
    have unr: "b_live (core t) p \<Longrightarrow> unresolved (core t) p" using pe(1) by (simp add: core_preds unresolved_def)
    have n: "b_static (core t) p = Some x \<Longrightarrow> \<not> isControl x \<Longrightarrow> location (advancePC x (out_pc out)) = location (b_succ (core t) p)" for x
      using pe(3) by (auto simp: b_succ_def)
    have loc: "location (out_pc out) = location (b_pc (core t) p)" using pe(2) by simp
    note sp = setpc_inv [OF bi(1) loc unr n iss w]
    have "cb_ok ?u" by (rule cb_ok_fields [OF bi(3)]) simp_all
    then have iu: "thread_inv c ?u" using sp bi(2) by (simp add: thread_inv_def ku)
    show ?thesis
    proof (cases "live t p")
      case dead: False
      then show ?thesis using t' al si False iu by (simp add: executed_def onExecutionCompleted_weak_def)
    next
      case True
      have t'': "onExecutionCompleted c p (out_fault out) ?u = Some t'"
        using t' al si False True by (simp add: executed_def onExecutionCompleted_weak_def)
      have ctl: "b_stat (core t) p = Some (Pending, False)"
      proof -
        obtain i where i: "store (sys t) p = Some i" "\<not> i_squashed i" using True by (auto simp: live_def holds_def split: option.splits)
        then show ?thesis using pe(1) [OF True] iss
          by (simp add: core_preds holds_def stat_of_def phase_of_iff isComplete_def not_le)
      qed
      show ?thesis
      proof (rule onExecutionCompleted_inv [OF iu _ _ _ _ t''])
        show "agenda (sys ?u) = []" using st by simp
        show "was_issued (core ?u) p" using p unfolding ku by (simp add: b_defs)
        show "b_stat (core ?u) p = Some (Pending, False)" using ctl unfolding ku by simp
        show "\<exists>si. static ?u p = Some si \<and> isStore si" if "b_at (\<lambda>s. s = Retired) (core ?u) p"
          using that ctl unfolding ku by (simp add: b_at_def)
      qed
    qed
  qed
qed

lemma completeMemAccess_inv:
  assumes inv: "thread_inv c t" and st: "agenda (sys t) = []" and p: "mem_inst (core t) (Some p)" and fw: "forward t t'"
    and t': "completeMemAccess c p a fault rs vs t = Some t'"
  shows "thread_inv c t'"
proof -
  obtain si where si: "static t p = Some si" using t' by (auto simp: completeMemAccess_def split: bind_splits)
  let ?f = "if alive t p \<and> \<not> isStore si then fault else None"
  let ?u = "if alive t p \<and> \<not> isStore si then set_info p (\<lambda>d. d\<lparr>results := rs, resultValid := vs\<rparr>) t else t"
  have ku: "core ?u = core t" and su: "sys ?u = sys t" and sti: "static ?u p = static t p" by simp_all
  have iu: "thread_inv c ?u" by (rule thread_inv_core [OF inv ku su])
  have t'': "(if ma_write a then onExecutionCompleted c p ?f ?u else onExecutionCompleted_weak c p ?f ?u) = Some t'"
    using t' si by (auto simp: completeMemAccess_def Let_def split: if_splits)
  show ?thesis
  proof (cases "ma_write a \<or> live ?u p")
    case False
    then show ?thesis using t'' iu by (simp add: onExecutionCompleted_weak_def)
  next
    case True
    then have oc: "onExecutionCompleted c p ?f ?u = Some t'" using t'' by (auto simp: onExecutionCompleted_weak_def split: if_splits)
    show ?thesis
    proof (rule onExecutionCompleted_inv [OF iu _ _ _ _ oc])
      show "agenda (sys ?u) = []" using st su by simp
      show "was_issued (core ?u) p" using p unfolding ku by (simp add: mem_inst_def)
      show "b_stat (core ?u) p = Some (Pending, False)" if "b_ctl (core ?u) p" using p that unfolding ku by (simp add: mem_inst_def)
      show "\<exists>si. static ?u p = Some si \<and> isStore si" if "?f = None" "b_at (\<lambda>s. s = Retired) (core ?u) p"
        by (rule completed_store [OF fw _ _ sti that(2)]) (use oc that(1) su in auto)
    qed
  qed
qed

section \<open>Steps\<close>

lemma forward_answer: "forward (answer e t) t' = forward t t'" "forward (t\<lparr>curTick := n\<rparr>) t' = forward t t'"
  by (simp_all add: forward_def)

lemma permitted_tick: "permitted_event e (t\<lparr>curTick := n\<rparr>) = permitted_event e t"
  by (cases e) (simp_all add: live_def holds_def cong: option.case_cong)

lemma event_inv:
  assumes pl: "plain_cpu c" and inv: "thread_inv c t" and st: "agenda (sys t) = []" and pe: "permitted_event e t"
    and t': "handle c e (answer e t) = Some t'" and fw: "forward t t'"
  shows "thread_inv c t'"
proof -
  let ?t = "answer e t"
  note it = answer_inv [OF inv, of e]
  have st': "agenda (sys ?t) = []" and fw': "forward ?t t'" using st fw by (simp_all add: forward_answer)
  have late: "request_inst r = Some p \<Longrightarrow> was_issued (core ?t) p" "mem_request r = Some p \<Longrightarrow> mem_inst (core ?t) (Some p)"
    if "r \<in> set (requests t)" for r p
    unfolding core_answer [of e t] using answer_late [OF inv that] by simp_all
  have iss: "b_issued (core ?t) p = b_issued (core t) p" for p unfolding core_answer [of e t] by simp
  have req: "inv_requests c (core t)" using inv by (simp add: thread_inv_def buffer_inv_def)
  show ?thesis
  proof (cases e)
    case (SetStatus s)
    have "thread_inv c (status_event s ?t)" by (rule status_event_inv [OF it]) (use pe SetStatus in simp)
    then show ?thesis using t' SetStatus by simp
  next
    case Activate
    have "thread_inv c (activate ?t)" by (rule activate_inv [OF it]) (use pe Activate st answer_requests [of e t] in auto)
    then show ?thesis using t' Activate by simp
  next
    case Advance
    have r: "ActivateEvent \<in> set (requests t)" using pe Advance by simp
    then have "inflightInsts t = []" "count_list (requests t) ActivateEvent \<le> 1" using req by (auto simp: inv_requests_def inv_activate_def)
    moreover from this have "ActivateEvent \<notin> set (requests ?t)" using count_remove1 by (simp add: answer_def Advance)
    ultimately show ?thesis by (intro advance_next_inv [OF pl it]) (use st t' Advance in simp_all)
  next
    case (PCTranslated p v f)
    have r: "InstAddrTranslation p v \<in> set (requests t)" using pe PCTranslated by simp
    note af = answer_fetch [OF inv, of e, unfolded PCTranslated answered.simps, OF refl r, of p, simplified]
    show ?thesis by (rule onPCTranslated_inv [OF it st', where p = p]) (use af iss t' PCTranslated in auto)
  next
    case (InstData p v bs)
    have r: "InstructionData p v \<in> set (requests t)" using pe InstData by simp
    note af = answer_fetch [OF inv, of e, unfolded InstData answered.simps, OF refl r, of p, simplified]
    show ?thesis by (rule attemptFetch_weak_inv [OF pl it, where p = p]) (use af iss t' InstData in auto)
  next
    case (IssueGranted p)
    have r: "Issue p \<in> set (requests t)" using pe IssueGranted by simp
    note af = answer_fetch [OF inv, of e, unfolded IssueGranted answered.simps, OF refl r, of p, simplified]
    show ?thesis by (rule onIssueAccessed_inv [OF pl it st', where p = p]) (use af iss t' IssueGranted in auto)
  next
    case (IssueTidGranted p)
    have r: "IssueTid p \<in> set (requests t)" using pe IssueTidGranted by simp
    show ?thesis by (rule onIssueTidAccessed_inv [OF it st' _ _ fw']) (use late(1) [OF r] t' IssueTidGranted in auto)
  next
    case (Predicted p taken s)
    have r: "BranchPredictor p \<in> set (requests t)" using pe Predicted by simp
    have ip: "inv_pred c (core t)" using req by (simp add: inv_requests_def)
    show ?thesis
    proof (rule onBranchPredictorAccessed_inv [OF pl it st', of p])
      show "was_issued (core ?t) p" using late(1) [OF r] by simp
      show "hasBranchPredictor c" "b_ctl (core ?t) p" using ip r unfolding inv_pred_def core_answer [of e t] by simp_all
      have "count_list (requests t) (BranchPredictor p) \<le> 1" using ip by (simp add: inv_pred_def)
      then show "BranchPredictor p \<notin> set (requests ?t)" using count_remove1 by (simp add: answer_def Predicted)
      show "inflightInsts ?t \<noteq> [] \<and> p = last (inflightInsts ?t)" if "live ?t p" "\<not> holds isComplete ?t p"
        using ip r that by (auto simp: inv_pred_def core_preds)
      show "onBranchPredictorAccessed c p taken s ?t = Some t'" using t' Predicted by simp
    qed
  next
    case (Executed p out)
    have r: "Execution p \<in> set (requests t)" using pe Executed by simp
    show ?thesis by (rule executed_inv [OF it st' _ fw', of p out]) (use late(1) [OF r] pe t' Executed in auto)
  next
    case (DataTranslated p req a high f pa)
    have r: "DataAddrTranslation p req a high \<in> set (requests t)" using pe DataTranslated by simp
    show ?thesis by (rule onDataAddrTranslated_inv [OF it st' _ _ fw', of p]) (use late(2) [OF r] t' DataTranslated in auto)
  next
    case (MemDone p a f rs vs)
    have r: "MemAccess p a \<in> set (requests t)" using pe MemDone by simp
    show ?thesis by (rule completeMemAccess_inv [OF it st' _ fw', of p]) (use late(2) [OF r] t' MemDone in auto)
  qed
qed

lemma reap_thread_inv:
  assumes inv: "thread_inv c t" and p: "p \<notin> set (inflightInsts t)"
  shows "thread_inv c (on_sys (destroy p) t)"
proof -
  let ?t = "on_sys (destroy p) t"
  have bi: "buffer_inv c (core t)" "inv_retry c (core t)" "cb_ok t" using inv by (simp_all add: thread_inv_def)
  have k: "core ?t = core t\<lparr>b_stat := (b_stat (core t))(p := None)\<rparr>"
    by (auto simp: core_def on_sys_def destroy_def fun_eq_iff stat_of_def)
  have "later (core t) (core ?t)" unfolding k later_def by (auto simp: b_defs)
  moreover have "b_ctl (core ?t) = b_ctl (core t)" unfolding k by (simp add: b_ctl_def fun_eq_iff)
  moreover have "b_issued (core ?t) x" if "b_issued (core t) x" "alive ?t x" for x
    using that by (auto simp: core_preds holds_def alive_def destroy_def split: if_splits)
  ultimately have "cb_ok ?t"
    by (intro cb_ok_later [OF bi(3)])
      (use bi(3) overlap_ok_later in \<open>auto simp: destroy_def cb_ok_def list_all_iff split: if_splits\<close>)
  then show ?thesis using reap_inv [OF bi(1), of p] bi(2) p by (simp add: thread_inv_def k)
qed

theorem tstep_inv:
  assumes "plain_cpu c" "tstep c t t'" "thread_inv c t"
  shows "thread_inv c t'"
  using assms(2,1,3)
proof cases
  case call_top
  then show ?thesis using assms exec_inv by blast
next
  case (event e now)
  have "thread_inv c (t\<lparr>curTick := now\<rparr>)" by (rule tick_inv [OF assms(3)])
  then show ?thesis by (rule event_inv [OF assms(1)]) (use event in \<open>auto simp: permitted_tick forward_answer\<close>)
next
  case (reap p)
  then show ?thesis using reap_thread_inv [OF assms(3)] by simp
qed

lemma new_thread_inv:
  assumes "new_thread c tc = Some t"
  shows "thread_inv c t"
proof -
  have t: "sys t = empty_system" "inflightInsts t = []" "requests t = []" "unpredictedBranch t = None" "lastSerializingInstruction t = None"
    "lastMemBarrier t = None" "lastUses t = (\<lambda>_. None)" "advanceInstNeedsRetry t = False" "\<And>p. static t p = None"
    using assms by (auto simp: new_thread_def split: if_splits)
  have e: "store (sys t) = Map.empty" "next_id (sys t) = 0" "agenda (sys t) = []" by (simp_all add: t empty_system_def)
  have no: "\<not> b_alive (core t) p" "\<not> b_at P (core t) p" "\<not> b_live (core t) p" "\<not> window (core t) p" for p P
    using e by (simp_all add: b_alive_def b_at_def b_live_def window_def stat_of_def)
  have "buffer_inv c (core t)"
    by (simp add: buffer_inv_def inv_ids_def inv_static_def inv_stack_def inv_seq_def inv_issue_def inv_requests_def req_defs
        inv_refs_def inv_chain_def inv_uses_def no e t(2-))
  then show ?thesis by (simp add: thread_inv_def inv_retry_def cb_ok_def e t(2-))
qed

theorem reachable_inv:
  assumes "plain_cpu c" "reachable c t"
  shows "thread_inv c t"
proof -
  obtain tc t0 where t0: "new_thread c tc = Some t0" "(tstep c)\<^sup>*\<^sup>* t0 t" using assms(2) by (auto simp: reachable_def)
  from t0(2) show ?thesis
    by (induction rule: rtranclp_induct) (use new_thread_inv [OF t0(1)] tstep_inv [OF assms(1)] in auto)
qed

end
