(* ===== verification/Step_Systems.thy ===== *)
theory Step_Systems
  imports Main
begin

text \<open>
  Systems of steps: an invariant that holds initially and is kept by every step holds in every state that is reached,
  and a system whose steps are steps of an abstract one, or no steps there, only does what the abstract
  one allows.
\<close>

locale invariant_system =
  fixes init :: "'s \<Rightarrow> bool" and step :: "'s \<Rightarrow> 's \<Rightarrow> bool" and inv :: "'s \<Rightarrow> bool"
  assumes init_inv: "init s \<Longrightarrow> inv s"
    and step_inv: "inv s \<Longrightarrow> step s s' \<Longrightarrow> inv s'"
begin

lemma steps_inv: "step\<^sup>*\<^sup>* s s' \<Longrightarrow> inv s \<Longrightarrow> inv s'"
  by (induction rule: rtranclp_induct) (auto intro: step_inv)

lemma reached_inv: "init s \<Longrightarrow> step\<^sup>*\<^sup>* s s' \<Longrightarrow> inv s'"
  by (blast intro: steps_inv init_inv)

end

locale simulation = invariant_system +
  fixes view :: "'s \<Rightarrow> 'v" and vstep :: "'v \<Rightarrow> 'v \<Rightarrow> bool"
  assumes step_view: "inv s \<Longrightarrow> step s s' \<Longrightarrow> view s' = view s \<or> vstep (view s) (view s')"
begin

lemma steps_view: "step\<^sup>*\<^sup>* s s' \<Longrightarrow> inv s \<Longrightarrow> vstep\<^sup>*\<^sup>* (view s) (view s')"
proof (induction rule: rtranclp_induct)
  case (step y z)
  have "inv y" using step by (blast intro: steps_inv)
  then show ?case using step_view [of y z] step by (auto intro: rtranclp.rtrancl_into_rtrancl)
qed simp

lemma reached_view: "init s \<Longrightarrow> step\<^sup>*\<^sup>* s s' \<Longrightarrow> vstep\<^sup>*\<^sup>* (view s) (view s')"
  by (blast intro: steps_view init_inv)

end

end
