(* ===== verification/Flex_Thread_Arch.thy ===== *)
theory Flex_Thread_Arch
  imports Flex_Thread_Events Step_Systems
begin

text \<open>
  The architectural state of a FlexCPU thread: the committed context, the number of the last instruction that was
  committed and the trace of committed instructions. Only commit, faults and the status of the
  thread change it, and they do so as a machine that executes one instruction after the other.
\<close>

section \<open>What does not change the architectural state\<close>

definition arch :: "thread \<Rightarrow> thread_context \<times> 64 word \<times> trace_record list" where
  "arch t = (committedState t, lastCommittedInstNum t, trace t)"

lemma arch_same [simp]:
  "arch (on_sys f t) = arch t" "arch (set_info p g t) = arch t" "arch (request r t) = arch t" "arch (call fr t) = arch t"
  "arch (t\<lparr>decoder := d\<rparr>) = arch t" "arch (t\<lparr>fetchOffset := a\<rparr>) = arch t" "arch (t\<lparr>inflightInsts := B\<rparr>) = arch t"
  "arch (t\<lparr>advanceInstNeedsRetry := b\<rparr>) = arch t" "arch (t\<lparr>advanceInstRetryPC := s\<rparr>) = arch t"
  "arch (t\<lparr>remainingBranchPredDepth := n\<rparr>) = arch t" "arch (t\<lparr>unpredictedBranch := x\<rparr>) = arch t"
  "arch (t\<lparr>predictor_calls := cs\<rparr>) = arch t" "arch (t\<lparr>lastUses := u\<rparr>) = arch t" "arch (t\<lparr>lastSerializingInstruction := x\<rparr>) = arch t"
  "arch (t\<lparr>lastMemBarrier := x\<rparr>) = arch t" "arch (t\<lparr>curMacroOp := m\<rparr>) = arch t" "arch (t\<lparr>splitRequests := ss\<rparr>) = arch t"
  "arch (t\<lparr>nextIssueNum := n'\<rparr>) = arch t" "arch (push_inst s t) = arch t" "arch (t\<lparr>curTick := k\<rparr>) = arch t"
  "arch (bufferInstructionData v bs t) = arch t" "arch (t\<lparr>requests := rs\<rparr>) = arch t" "arch (commitAllAvailableInstructions t) = arch t"
  "arch (answer e t) = arch t" "arch (popped t) = arch t"
  by (simp_all add: arch_def on_sys_def set_info_def request_def call_def push_inst_def Let_def bufferInstructionData_def
      commitAllAvailableInstructions_def answer_def popped_def split: option.splits)

lemma fold_opt_arch:
  assumes "\<And>x t t'. f x t = Some t' \<Longrightarrow> arch t' = arch t" "fold_opt f xs t = Some t'"
  shows "arch t' = arch t"
  using assms(2)
proof (induction xs arbitrary: t)
  case (Cons x xs)
  then show ?case using assms(1) by (fastforce split: bind_splits)
qed simp

lemma attemptFetch_arch: "attemptFetch c p t = Some t' \<Longrightarrow> arch t' = arch t"
proof (induction c p t rule: attemptFetch.induct)
  case (1 c p t)
  note ih = 1(1) and t' = 1(2)
  show ?case
  proof (cases "fetch_hit p t \<and> live t p")
    case False
    then show ?thesis using t' by (subst (asm) attemptFetch.simps) (auto split: if_splits)
  next
    case True
    obtain d where d: "moreBytes (pcState (info t p)) (fetch_word (fetchBuf t) (unat (req_vaddr p t - fetchBufBase t))) (decoder t) = Some d"
      using t' True by (subst (asm) attemptFetch.simps) (auto split: option.splits)
    obtain r s d' where dec: "decode (decodeInst c) (pcState (info t p)) d = (r, s, d')" by (metis prod_cases3)
    show ?thesis
    proof (cases r)
      case None
      then have "attemptFetch c p (set_info p (pcState_update (\<lambda>_. s)) (t\<lparr>decoder := d', fetchOffset := fetchOffset t + 4\<rparr>)) = Some t'"
        using t' True d dec by (subst (asm) attemptFetch.simps) simp
      then show ?thesis using ih [OF _ _ d dec [symmetric]] True None by fastforce
    next
      case (Some si)
      then show ?thesis using t' True d dec by (subst (asm) attemptFetch.simps) (auto simp: issueInstruction_def)
    qed
  qed
qed

lemma advanceInst_arch: "advanceInst c s t = Some t' \<Longrightarrow> arch t' = arch t"
  by (auto simp: advanceInst_def Let_def push_microop_def issueInstruction_def dest!: attemptFetch_arch split: if_splits option.splits)

lemma freeBranchPredDepth_arch: "freeBranchPredDepth t = Some t' \<Longrightarrow> arch t' = arch t"
  by (auto simp: freeBranchPredDepth_def predictCtrlInst_def Let_def split: if_splits option.splits)

lemma run_squash_callback_arch: "run_squash_callback f t = Some t' \<Longrightarrow> arch t' = arch t"
  by (cases f) (auto dest: freeBranchPredDepth_arch split: if_splits)

lemma squash_inst_arch: "squash_inst p t = Some t' \<Longrightarrow> arch t' = arch t"
  by (auto simp: squash_inst_def dest!: fold_opt_arch [where f = run_squash_callback, rotated] dest: run_squash_callback_arch
      split: option.splits if_splits)

lemma squash_loop_arch: "squash_loop qs p ser bar so bo t = Some (so', bo', t') \<Longrightarrow> arch t' = arch t"
proof (induction qs arbitrary: so bo t)
  case (Cons q qs)
  then show ?case by (fastforce dest: squash_inst_arch split: if_splits bind_splits)
qed simp

lemma squashUpTo_arch: "squashUpTo c p b t = Some t' \<Longrightarrow> arch t' = arch t"
proof -
  assume a: "squashUpTo c p b t = Some t'"
  obtain so bo u v where u: "squash_loop (rev (inflightInsts t)) p (lock t (lastSerializingInstruction t)) (lock t (lastMemBarrier t)) True True t
      = Some (so, bo, u)"
    and v: "if b then \<exists>w. fold_opt populateUses (inflightInsts u) u = Some w \<and> rebuild_scan c (rev (inflightInsts w)) so bo w = Some v
      else v = u" and t': "t' = v\<lparr>decoder := decoder_reset, curMacroOp := None\<rparr>"
    using a unfolding squashUpTo_def by (auto split: bind_splits if_splits)
  have "arch v = arch u"
  proof (cases b)
    case True
    then obtain w where w: "fold_opt populateUses (inflightInsts u) u = Some w" "rebuild_scan c (rev (inflightInsts w)) so bo w = Some v"
      using v by auto
    have "arch w = arch u" using fold_populateUses [OF w(1)] by simp
    then show ?thesis using rebuild_scan_result [OF w(2)] by auto
  qed (use v in simp)
  then show ?thesis using squash_loop_arch [OF u] t' by simp
qed

lemma markFault_arch: "markFault c p f t = Some t' \<Longrightarrow> arch t' = arch t"
  by (auto simp: markFault_def dest!: squashUpTo_arch squash_inst_arch split: bind_splits)

lemma populateDependencies_arch: "populateDependencies c p t = Some t' \<Longrightarrow> arch t' = arch t"
proof -
  have a: "arch (dep_in_order c p t) = arch t" "arch (dep_serialize c p si t) = arch t" "arch (dep_non_speculative p si t) = arch t"
    "arch (dep_store_at_commit p si t) = arch t" for si t
    by (simp_all add: dep_in_order_def dep_serialize_def dep_non_speculative_def dep_store_at_commit_def Let_def split: option.split)
  have b: "barrier_waits p si q t = Some t' \<Longrightarrow> arch t' = arch t" "overlap_waits p q t = Some t' \<Longrightarrow> arch t' = arch t" for si q t t'
    by (auto simp: barrier_waits_def overlap_waits_def split: if_splits bind_splits)
  have d: "arch (dep_data p si t) = arch t" for si t
  proof -
    have "arch (data_source p x t) = arch t" for x t
      by (simp add: data_source_def Let_def split: prod.split option.split)
    then have "arch (fold (data_source p) xs t) = arch t" for xs t by (induction xs arbitrary: t) simp_all
    then show ?thesis by (simp add: dep_data_def)
  qed
  have e: "dep_barrier p si t = Some t' \<Longrightarrow> arch t' = arch t" "dep_memory_order p si t = Some t' \<Longrightarrow> arch t' = arch t" for si t t'
    by (auto simp: dep_barrier_def dep_memory_order_def Let_def dest!: fold_opt_arch [rotated] b split: if_splits option.splits)
  show "populateDependencies c p t = Some t' \<Longrightarrow> arch t' = arch t"
    by (auto simp: populateDependencies_def Let_def a d dest!: e split: bind_splits)
qed

section \<open>The sequential machine\<close>

text \<open>One instruction after the other: the instruction at the program counter is committed with the next number, or it
  raises a fault whose handler is invoked in the state before it. The number and the trace only grow by
  the former.\<close>

inductive seq_step :: "cpu \<Rightarrow> thread_context \<times> 64 word \<times> trace_record list \<Rightarrow> thread_context \<times> 64 word \<times> trace_record list \<Rightarrow> bool"
  for c where
  execute: "location (pcState (d :: inst_data)) = location (tc_pc tc) \<Longrightarrow> staticInst d = Some si \<Longrightarrow> seqNum d = n + 1 \<Longrightarrow>
    seq_step c (tc, n, tr) (commitToTC c d si tc, n + 1,
      tr @ [\<lparr>tr_seq = n + 1, tr_issue = issueSeqNum d, tr_pc = pcState d, tr_inst = si\<rparr>])"
| trap: "location (pcState (d :: inst_data)) = location (tc_pc tc) \<Longrightarrow> inst_fault d = Some f \<Longrightarrow>
    seq_step c (tc, n, tr) (fault_invoke c f (staticInst d) tc, n, tr)"
| status: "seq_step c (tc, n, tr) (tc\<lparr>tc_status := st\<rparr>, n, tr)"

inductive_cases seq_stepE: "seq_step c (tc, n, tr) v"

lemma head_next:
  assumes "buffer_inv c k" "b_insts k = p # ps" "\<And>q. \<not> window k q"
  shows "b_seq k p = b_committed k + 1" "location (b_pc k p) = location (b_tcpc k)"
proof -
  have "map (b_seq k) (b_insts k) ! 0 = map (\<lambda>i. b_committed k + 1 + of_nat i) [0..<length (b_insts k)] ! 0"
    using buffer_inv_parts(4) [OF assms(1)] assms(3) by (simp only: inv_seq_def) simp
  then show "b_seq k p = b_committed k + 1" by (simp add: assms(2) nth_append)
  show "location (b_pc k p) = location (b_tcpc k)"
    using buffer_inv_parts(8) [OF assms(1)] assms(2,3) by (simp add: inv_chain_def)
qed

lemma commit_end_arch: "commit_end c b t = Some t' \<Longrightarrow> arch t' = arch t"
  by (auto simp: commit_end_def dest: advanceInst_arch split: if_splits)

lemma handleFault_seq:
  assumes "handleFault c p t = Some t'" "location (pcState (info t p)) = location (tc_pc (committedState t))"
  shows "seq_step c (arch t) (arch t')"
proof -
  obtain f where f: "inst_fault (info t p) = Some f" using assms(1) by (auto simp: handleFault_def split: option.splits)
  define v where "v = bufferInstructionData 0 [] (t\<lparr>inflightInsts := []\<rparr>)"
  have v: "info v = info t" "arch v = arch t" by (simp_all add: v_def bufferInstructionData_def Let_def arch_def)
  obtain s where "advanceInst c s (v\<lparr>committedState := fault_invoke c f (static v p) (committedState v)\<rparr>) = Some t'"
    using assms(1) f unfolding handleFault_def v_def [symmetric] by (auto simp: Let_def split: bind_splits)
  from advanceInst_arch [OF this] have "arch t' = (fault_invoke c f (static t p) (committedState t), lastCommittedInstNum t, trace t)"
    using v by (simp add: arch_def)
  then show ?thesis using seq_step.trap [OF assms(2) f, of c "lastCommittedInstNum t" "trace t"] by (simp add: arch_def)
qed

lemma commitInstruction_seq:
  assumes "commitInstruction c p t = Some t'" "location (pcState (info t p)) = location (tc_pc (committedState t))"
    and "seqNum (info t p) = lastCommittedInstNum t + 1"
  shows "seq_step c (arch t) (arch t')"
proof -
  obtain si x n where "static t p = Some si" "t' = t\<lparr>committedState := commitToTC c (info t p) si (committedState t), predictor_calls := x,
    numInsts := n, numOps := numOps t + 1, lastCommittedInstNum := seqNum (info t p),
    trace := trace t @ [\<lparr>tr_seq = seqNum (info t p), tr_issue = issueSeqNum (info t p), tr_pc = pcState (info t p), tr_inst = si\<rparr>]\<rparr>"
    using commitInstruction_eq [OF assms(1)] by blast
  then show ?thesis using seq_step.execute [OF assms(2) _ assms(3), of si c "trace t"] assms(3) by (simp add: arch_def)
qed

lemma commit_loop_seq:
  assumes inv: "thread_inv c u" and t': "commit_loop c b u = Some t'"
  shows "arch t' = arch u \<or> seq_step c (arch u) (arch t')"
proof (cases "inflightInsts u")
  case Nil
  then show ?thesis using t' commit_end_arch by (simp add: commit_loop_def)
next
  case (Cons p ps)
  have bi: "buffer_inv c (core u)" using inv by (simp add: thread_inv_def)
  obtain ok where ok: "canCommit u p = Some ok" using t' Cons by (auto simp: commit_loop_def split: bind_splits)
  show ?thesis
  proof (cases "ok \<or> holds i_squashed u p")
    case False
    then show ?thesis using t' Cons ok commit_end_arch by (simp add: commit_loop_def)
  next
    case True
    note hd = head_next [OF bi, of p ps, OF _ commit_no_window [OF bi Cons ok True]]
    have n: "seqNum (info u p) = lastCommittedInstNum u + 1" and l: "location (pcState (info u p)) = location (tc_pc (committedState u))"
      using hd Cons by simp_all
    show ?thesis
    proof (cases "inst_fault (info u p)")
      case (Some f)
      then show ?thesis using handleFault_seq [OF _ l] t' Cons ok True by (auto simp: commit_loop_def)
    next
      case None
      show ?thesis
      proof (cases "holds i_squashed u p")
        case sq: True
        then have "t' = call (CommitLoop True) (u\<lparr>inflightInsts := ps\<rparr>)" using t' Cons ok True None by (auto simp: commit_loop_def split: bind_splits)
        then show ?thesis by simp
      next
        case False
        obtain v where v: "commitInstruction c p u = Some v" "t' = on_sys (notifyCommitted (curTick v) p) (call (CommitRest p) v)"
          using t' Cons ok True None False by (auto simp: commit_loop_def split: bind_splits)
        then show ?thesis using commitInstruction_seq [OF v(1) l n] by simp
      qed
    qed
  qed
qed

section \<open>The other operations\<close>

lemma execute_arch:
  "executeInstruction_begin p t = Some t' \<Longrightarrow> arch t' = arch t" "arch (executeInstruction_rest p t) = arch t"
  "executeInstruction_weak p t = Some t' \<Longrightarrow> arch t' = arch t"
  by (auto simp: executeInstruction_begin_def executeInstruction_rest_def executeInstruction_weak_def split: bind_splits if_splits)

lemma onExecutionCompleted_arch:
  "onExecutionCompleted c p f t = Some t' \<Longrightarrow> arch t' = arch t" "onExecutionCompleted_weak c p f t = Some t' \<Longrightarrow> arch t' = arch t"
  by (auto simp: onExecutionCompleted_def onExecutionCompleted_weak_def dest: markFault_arch split: option.splits if_splits)

lemma resolve_branch_arch: "resolve_branch c p si t = Some t' \<Longrightarrow> arch t' = arch t"
  by (auto simp: resolve_branch_def Let_def dest!: advanceInst_arch squashUpTo_arch freeBranchPredDepth_arch split: if_splits bind_splits)

lemma completed_rest_arch: "completed_rest c p t = Some t' \<Longrightarrow> arch t' = arch t"
  by (auto simp: completed_rest_def dest: resolve_branch_arch split: bind_splits if_splits)

lemma sendToMemory_arch: "sendToMemory c p a t = Some t' \<Longrightarrow> arch t' = arch t" "sendToMemory_weak c p a t = Some t' \<Longrightarrow> arch t' = arch t"
proof -
  show s: "sendToMemory c p a t = Some t' \<Longrightarrow> arch t' = arch t"
    by (auto simp: sendToMemory_def Let_def dest!: markFault_arch split: if_splits bind_splits prod.splits option.splits)
  then show "sendToMemory_weak c p a t = Some t' \<Longrightarrow> arch t' = arch t" by (auto simp: sendToMemory_weak_def split: if_splits)
qed

lemma eff_addr_rest_arch: "eff_addr_rest c p a t = Some t' \<Longrightarrow> arch t' = arch t"
  by (auto simp: eff_addr_rest_def dest: sendToMemory_arch split: if_splits)

lemma overlap_arch: "overlap p q t = Some t' \<Longrightarrow> arch t' = arch t"
  by (auto simp: overlap_def split: bind_splits if_splits)

lemma set_range_arch: "set_range f r p t = Some t' \<Longrightarrow> arch t' = arch t"
  by (auto simp: set_range_def split: bind_splits)

lemma onDataAddrTranslated_arch: "onDataAddrTranslated c p f req a high t = Some t' \<Longrightarrow> arch t' = arch t"
  by (auto simp: onDataAddrTranslated_def Let_def dest!: markFault_arch set_range_arch split: if_splits option.splits bind_splits)

lemma executed_arch: "executed c p out t = Some t' \<Longrightarrow> arch t' = arch t"
proof -
  have a: "access_memory c p req w data t = Some t' \<Longrightarrow> arch t' = arch t" for req w data t t'
    by (auto simp: access_memory_def Let_def split: if_splits bind_splits)
  show "executed c p out t = Some t' \<Longrightarrow> arch t' = arch t"
    by (auto simp: executed_def initiateMemRead_def writeMem_def dest!: a markFault_arch onExecutionCompleted_arch
        split: if_splits bind_splits option.splits access.splits)
qed

lemma onIssueAccessed_arch: "onIssueAccessed c p t = Some t' \<Longrightarrow> arch t' = arch t"
proof -
  have u: "populateUses p t = Some t' \<Longrightarrow> arch t' = arch t" for t t' by (auto simp: populateUses_eq split: option.splits)
  show "onIssueAccessed c p t = Some t' \<Longrightarrow> arch t' = arch t"
    by (auto simp: onIssueAccessed_def Let_def predictCtrlInst_def dest!: populateDependencies_arch u advanceInst_arch split: if_splits bind_splits)
qed

lemma onIssueTidAccessed_arch: "onIssueTidAccessed p t = Some t' \<Longrightarrow> arch t' = arch t"
  by (auto simp: onIssueTidAccessed_def Let_def dest: execute_arch(1,3) split: if_splits)

lemma onBranchPredictorAccessed_arch: "onBranchPredictorAccessed c p taken s t = Some t' \<Longrightarrow> arch t' = arch t"
  by (auto simp: onBranchPredictorAccessed_def dest!: freeBranchPredDepth_arch advanceInst_arch split: if_splits bind_splits)

lemma completeMemAccess_arch: "completeMemAccess c p a f rs vs t = Some t' \<Longrightarrow> arch t' = arch t"
  by (auto simp: completeMemAccess_def Let_def dest!: onExecutionCompleted_arch split: if_splits bind_splits)

section \<open>Refinement\<close>

lemma exec_seq:
  assumes inv: "thread_inv c t" and t': "exec c t = Some t'"
  shows "arch t' = arch t \<or> seq_step c (arch t) (arch t')"
proof (cases "agenda (sys t)")
  case Nil
  then show ?thesis using t' by (simp add: exec_def)
next
  case (Cons cb r)
  have u: "on_sys (agenda_update (\<lambda>_. r)) t = popped t" using Cons by (simp add: popped_def)
  show ?thesis
  proof (cases cb)
    case (Release k p)
    then show ?thesis using t' Cons by (auto simp: exec_def Let_def)
  next
    case (Client fr)
    then have e: "exec_frame c fr (popped t) = Some t'" using t' Cons u by (simp add: exec_def Let_def)
    show ?thesis
    proof (cases "\<exists>b. fr = CommitLoop b")
      case True
      then obtain b where b: "fr = CommitLoop b" by blast
      have "thread_inv c (popped t)" by (rule popped_inv(1) [OF inv Cons]) (simp add: Client b)
      then show ?thesis using commit_loop_seq [of c "popped t" b t'] e b by simp
    next
      case False
      have "arch t' = arch (popped t)"
        using e False
        by (cases fr) (auto dest: execute_arch(1,3) sendToMemory_arch eff_addr_rest_arch completed_rest_arch overlap_arch freeBranchPredDepth_arch
            simp: execute_arch(2) commit_rest_def split: if_splits list.splits bind_splits)
      then show ?thesis by simp
    qed
  qed
qed

lemma handle_seq:
  assumes t': "handle c e t = Some t'"
  shows "arch t' = arch t \<or> seq_step c (arch t) (arch t')"
proof -
  have st: "seq_step c (arch t) (arch (status_event s t))" for s
    using seq_step.status [of c "committedState t" "lastCommittedInstNum t" "trace t" s] by (simp add: arch_def status_event_def)
  show ?thesis
    using t' st
    by (cases e) (auto simp: activate_def advance_next_def onPCTranslated_def attemptFetch_weak_def
        dest!: advanceInst_arch markFault_arch attemptFetch_arch onIssueAccessed_arch onIssueTidAccessed_arch onBranchPredictorAccessed_arch
          executed_arch onDataAddrTranslated_arch completeMemAccess_arch split: if_splits option.splits bind_splits)
qed

lemma tstep_seq:
  assumes "tstep c t t'" "thread_inv c t"
  shows "arch t' = arch t \<or> seq_step c (arch t) (arch t')"
  using assms(1)
proof cases
  case call_top
  then show ?thesis using exec_seq [OF assms(2)] by blast
next
  case (event e now)
  then show ?thesis using handle_seq [of c e "answer e (t\<lparr>curTick := now\<rparr>)" t'] by simp
qed simp

interpretation flex_thread: simulation "\<lambda>t. plain_cpu c \<and> (\<exists>tc. new_thread c tc = Some t)" "tstep c" "\<lambda>t. plain_cpu c \<and> thread_inv c t"
    arch "seq_step c" for c
  by unfold_locales (use new_thread_inv tstep_inv tstep_seq in \<open>blast+\<close>)

text \<open>The trace of the sequential machine numbers the instructions without gaps.\<close>

lemma seq_run_numbers:
  assumes "(seq_step c)\<^sup>*\<^sup>* (tc, 0, []) (tc', n, tr)"
  shows "n = of_nat (length tr) \<and> (\<forall>i < length tr. tr_seq (tr ! i) = of_nat (Suc i))"
proof -
  have "fst (snd v) = of_nat (length (snd (snd v))) \<and> (\<forall>i < length (snd (snd v)). tr_seq (snd (snd v) ! i) = of_nat (Suc i))"
    if "(seq_step c)\<^sup>*\<^sup>* (tc, 0, []) v" for v
    using that
  proof (induction rule: rtranclp_induct)
    case (step v w)
    from step.hyps(2) step.IH show ?case by (cases rule: seq_step.cases) (auto simp: nth_append less_Suc_eq add.commute)
  qed simp
  from this [OF assms] show ?thesis by simp
qed

end
