(* ===== verification/Flex_Thread_Room.thy ===== *)
theory Flex_Thread_Room
  imports Flex_Thread_Arch
begin

text \<open>
  The size of the instruction buffer: no step of a FlexCPU thread takes it beyond the configured limit.
\<close>

definition room :: "cpu \<Rightarrow> thread \<Rightarrow> bool" where
  "room c t \<longleftrightarrow> inflightInstsMaxSize c = 0 \<or> length (inflightInsts t) \<le> unat (inflightInstsMaxSize c)"

lemma room_mono: "room c t \<Longrightarrow> length (inflightInsts t') \<le> length (inflightInsts t) \<Longrightarrow> room c t'"
  by (auto simp: room_def)

lemma insts_same [simp]:
  "inflightInsts (t\<lparr>decoder := d\<rparr>) = inflightInsts t" "inflightInsts (bufferInstructionData v bs t) = inflightInsts t"
  "inflightInsts (commitAllAvailableInstructions t) = inflightInsts t" "inflightInsts (predictCtrlInst p t) = inflightInsts t"
  "inflightInsts (issueInstruction p t) = inflightInsts t" "inflightInsts (status_event st t) = inflightInsts t"
  by (simp_all add: bufferInstructionData_def Let_def commitAllAvailableInstructions_def predictCtrlInst_def issueInstruction_def status_event_def)

lemma attemptFetch_insts: "attemptFetch c p t = Some t' \<Longrightarrow> inflightInsts t' = inflightInsts t"
proof (induction c p t rule: attemptFetch.induct)
  case (1 c p t)
  note ih = 1(1) and t' = 1(2)
  show ?case
  proof (cases "fetch_hit p t \<and> live t p")
    case False
    then show ?thesis using t' by (subst (asm) attemptFetch.simps) (auto split: if_splits)
  next
    case True
    obtain d where d: "moreBytes (pcState (info t p)) (fetch_word (fetchBuf t) (unat (req_vaddr p t - fetchBufBase t))) (decoder t) = Some d"
      using t' True by (subst (asm) attemptFetch.simps) (auto split: option.splits)
    obtain r s d' where dec: "decode (decodeInst c) (pcState (info t p)) d = (r, s, d')" by (metis prod_cases3)
    show ?thesis
    proof (cases r)
      case None
      then have "attemptFetch c p (set_info p (pcState_update (\<lambda>_. s)) (t\<lparr>decoder := d', fetchOffset := fetchOffset t + 4\<rparr>)) = Some t'"
        using t' True d dec by (subst (asm) attemptFetch.simps) simp
      then show ?thesis using ih [OF _ _ d dec [symmetric]] True None by fastforce
    next
      case (Some si)
      then show ?thesis using t' True d dec by (subst (asm) attemptFetch.simps) auto
    qed
  qed
qed

lemma advanceInst_room:
  assumes "advanceInst c s t = Some t'" "room c t"
  shows "room c t'"
proof (cases "tc_status (committedState t) = Active \<and> \<not> buffer_full c t")
  case False
  then have "inflightInsts t' = inflightInsts t" using assms(1) by (auto simp: advanceInst_def split: if_splits)
  then show ?thesis using assms(2) by (simp add: room_def)
next
  case True
  have p: "length (inflightInsts (push_inst s u)) = Suc (length (inflightInsts u))" for u by (simp add: push_inst_def Let_def)
  have "length (inflightInsts t') = Suc (length (inflightInsts t))"
    using assms(1) True by (auto simp: advanceInst_def Let_def push_microop_def p dest!: attemptFetch_insts split: if_splits option.splits)
  then show ?thesis using True by (auto simp: buffer_full_def room_def)
qed

lemma freeBranchPredDepth_insts: "freeBranchPredDepth t = Some t' \<Longrightarrow> inflightInsts t' = inflightInsts t"
  using freed_fields(1) [OF freeBranchPredDepth_core(1), of t t'] by simp

lemma squash_inst_insts: "squash_inst p t = Some t' \<Longrightarrow> inflightInsts t' = inflightInsts t"
  using freed_fields(1) [OF squash_inst_core(1), of p t t'] by (simp add: b_mark_def)

lemma squash_loop_length: "squash_loop qs p ser bar so bo t = Some (so', bo', t') \<Longrightarrow> length (inflightInsts t') \<le> length (inflightInsts t)"
proof (induction qs arbitrary: so bo t)
  case (Cons q qs)
  then show ?case by (fastforce dest: squash_inst_insts split: if_splits bind_splits)
qed simp

lemma squashUpTo_length: "squashUpTo c p b t = Some t' \<Longrightarrow> length (inflightInsts t') \<le> length (inflightInsts t)"
proof -
  have s: "rebuild_scan c qs so bo u = Some v \<Longrightarrow> inflightInsts v = inflightInsts u" for qs so bo u v
    by (drule rebuild_scan_result) auto
  have f: "fold_opt populateUses xs u = Some v \<Longrightarrow> inflightInsts v = inflightInsts u" for xs u v
    by (drule fold_populateUses) simp
  show "squashUpTo c p b t = Some t' \<Longrightarrow> length (inflightInsts t') \<le> length (inflightInsts t)"
    by (auto simp: squashUpTo_def dest!: squash_loop_length s f split: bind_splits if_splits)
qed

lemma markFault_length: "markFault c p f t = Some t' \<Longrightarrow> length (inflightInsts t') \<le> length (inflightInsts t)"
  by (auto simp: markFault_def dest!: squashUpTo_length squash_inst_insts split: bind_splits)

lemma populateDependencies_insts: "populateDependencies c p t = Some t' \<Longrightarrow> inflightInsts t' = inflightInsts t"
proof -
  have a: "inflightInsts (dep_in_order c p t) = inflightInsts t" "inflightInsts (dep_serialize c p si t) = inflightInsts t"
    "inflightInsts (dep_non_speculative p si t) = inflightInsts t" "inflightInsts (dep_store_at_commit p si t) = inflightInsts t" for si t
    by (simp_all add: dep_in_order_def dep_serialize_def dep_non_speculative_def dep_store_at_commit_def Let_def split: option.split)
  have b: "barrier_waits p si q t = Some t' \<Longrightarrow> inflightInsts t' = inflightInsts t"
    "overlap_waits p q t = Some t' \<Longrightarrow> inflightInsts t' = inflightInsts t" for si q t t'
    by (auto simp: barrier_waits_def overlap_waits_def split: if_splits bind_splits)
  have f: "fold_opt g xs t = Some t' \<Longrightarrow> (\<And>x t t'. g x t = Some t' \<Longrightarrow> inflightInsts t' = inflightInsts t) \<Longrightarrow> inflightInsts t' = inflightInsts t"
    for g :: "'a \<Rightarrow> thread \<Rightarrow> thread option" and xs t t'
    by (induction xs arbitrary: t) (fastforce split: bind_splits)+
  have d: "inflightInsts (dep_data p si t) = inflightInsts t" for si t
  proof -
    have "inflightInsts (data_source p x t) = inflightInsts t" for x t
      by (simp add: data_source_def Let_def split: prod.split option.split)
    then have "inflightInsts (fold (data_source p) xs t) = inflightInsts t" for xs t by (induction xs arbitrary: t) simp_all
    then show ?thesis by (simp add: dep_data_def)
  qed
  have e: "dep_barrier p si t = Some t' \<Longrightarrow> inflightInsts t' = inflightInsts t" "dep_memory_order p si t = Some t' \<Longrightarrow> inflightInsts t' = inflightInsts t"
    for si t t'
    by (auto simp: dep_barrier_def dep_memory_order_def Let_def dest!: f b split: if_splits option.splits)
  show "populateDependencies c p t = Some t' \<Longrightarrow> inflightInsts t' = inflightInsts t"
    by (auto simp: populateDependencies_def Let_def a d dest!: e split: bind_splits)
qed

lemma resolve_branch_room: "resolve_branch c p si t = Some t' \<Longrightarrow> room c t \<Longrightarrow> room c t'"
proof -
  assume a: "resolve_branch c p si t = Some t'" "room c t"
  have r: "room c (u\<lparr>predictor_calls := x\<rparr>) = room c u" for u x by (simp add: room_def)
  have f: "freeBranchPredDepth t = Some u \<Longrightarrow> room c u" for u using a(2) freeBranchPredDepth_insts by (simp add: room_def)
  have s: "squashUpTo c p True u = Some v \<Longrightarrow> room c u \<Longrightarrow> room c v" for u v using squashUpTo_length room_mono by blast
  have adv: "squashUpTo c p True u = Some v \<Longrightarrow> advanceInst c q (v\<lparr>predictor_calls := x\<rparr>) = Some t' \<Longrightarrow> room c u \<Longrightarrow> room c t'" for u v q x
    using advanceInst_room [of c q "v\<lparr>predictor_calls := x\<rparr>" t'] s r by simp
  show "room c t'" using a by (auto simp: resolve_branch_def Let_def split: if_splits bind_splits dest!: f intro: advanceInst_room adv)
qed

lemma sendToMemory_length:
  "sendToMemory c p a t = Some t' \<Longrightarrow> length (inflightInsts t') \<le> length (inflightInsts t)"
  by (auto simp: sendToMemory_def Let_def dest!: markFault_length split: if_splits bind_splits prod.splits option.splits)

lemma exec_frame_room:
  assumes "exec_frame c fr t = Some t'" "room c t"
  shows "room c t'"
proof -
  have same: "room c t'" if "length (inflightInsts t') \<le> length (inflightInsts t)" using room_mono assms(2) that by blast
  have begin_same: "executeInstruction_begin p t = Some t' \<Longrightarrow> inflightInsts t' = inflightInsts t" for p
    by (auto simp: executeInstruction_begin_def split: bind_splits)
  have ov: "overlap p q t = Some t' \<Longrightarrow> inflightInsts t' = inflightInsts t" for p q
    by (auto simp: overlap_def split: bind_splits if_splits)
  show ?thesis
  proof (cases fr)
    case (CompletedRest p)
    have r: "room c (commitAllAvailableInstructions u) = room c u" for u by (simp add: room_def)
    show ?thesis using assms CompletedRest by (auto simp: completed_rest_def r dest: resolve_branch_room split: bind_splits if_splits)
  next
    case (CommitLoop b)
    have ce: "commit_end c b t = Some t' \<Longrightarrow> room c t'" using assms(2) advanceInst_room by (auto simp: commit_end_def split: if_splits)
    show ?thesis
    proof (cases "inflightInsts t")
      case Nil
      then show ?thesis using assms(1) CommitLoop ce by (simp add: commit_loop_def)
    next
      case (Cons p ps)
      have hf: "handleFault c p t = Some t' \<Longrightarrow> room c t'"
        by (auto simp: handleFault_def Let_def room_def split: option.splits bind_splits dest!: advanceInst_room)
      have ci: "commitInstruction c p t = Some v \<Longrightarrow> inflightInsts v = inflightInsts t" for v using commitInstruction_eq by fastforce
      have ps: "room c (u\<lparr>inflightInsts := ps\<rparr>)" for u using assms(2) Cons by (auto simp: room_def)
      have call: "room c (call fr u) = room c u" "room c (on_sys f u) = room c u" for fr f u by (simp_all add: room_def)
      have "commitInstruction c p t = Some v \<Longrightarrow> room c v" for v using ci assms(2) by (simp add: room_def)
      then show ?thesis using assms(1) CommitLoop Cons ce hf ps
        by (auto simp: commit_loop_def call split: bind_splits if_splits)
    qed
  next
    case (CommitRest p)
    then show ?thesis using assms(1) by (intro same) (auto simp: commit_rest_def split: list.splits bind_splits)
  next
    case (FreeUnlessComplete p)
    then show ?thesis using assms(1) by (intro same) (auto dest: freeBranchPredDepth_insts split: if_splits)
  next
    case (ExecuteInstruction p)
    then show ?thesis using assms(1) by (intro same) (auto simp: executeInstruction_weak_def dest: begin_same split: if_splits)
  next
    case (SendToMemory p a)
    then show ?thesis using assms(1) by (intro same) (auto simp: sendToMemory_weak_def dest: sendToMemory_length split: if_splits)
  next
    case (EffAddrRest p a)
    then show ?thesis using assms(1) by (intro same) (auto simp: eff_addr_rest_def dest: sendToMemory_length split: if_splits)
  next
    case (ExecuteRest p)
    then show ?thesis using assms(1) by (intro same) (auto simp: executeInstruction_rest_def)
  qed (use assms(1) in \<open>intro same; auto dest: ov split: if_splits\<close>)+
qed

lemma handle_room:
  assumes "handle c e t = Some t'" "room c t"
  shows "room c t'"
proof -
  have same: "room c t'" if "length (inflightInsts t') \<le> length (inflightInsts t)" using room_mono assms(2) that by blast
  have oc: "onExecutionCompleted c p f u = Some t' \<Longrightarrow> length (inflightInsts t') \<le> length (inflightInsts u)"
    "onExecutionCompleted_weak c p f u = Some t' \<Longrightarrow> length (inflightInsts t') \<le> length (inflightInsts u)" for p f u
    by (auto simp: onExecutionCompleted_def onExecutionCompleted_weak_def dest: markFault_length split: option.splits if_splits)
  have am: "access_memory c p req w data u = Some v \<Longrightarrow> inflightInsts v = inflightInsts u" for p req w data u v
    by (auto simp: access_memory_def Let_def split: if_splits bind_splits)
  have sr: "set_range f r p u = Some v \<Longrightarrow> inflightInsts v = inflightInsts u" for f r p u v
    by (auto simp: set_range_def split: bind_splits)
  show ?thesis
  proof (cases e)
    case (IssueGranted p)
    have pu: "populateUses p u = Some v \<Longrightarrow> inflightInsts v = inflightInsts u" for u v by (auto simp: populateUses_eq split: option.splits)
    have adv: "advanceInst c s u = Some t' \<Longrightarrow> inflightInsts u = inflightInsts t \<Longrightarrow> room c t'" for s u
      using advanceInst_room [of c s u t'] assms(2) by (simp add: room_def)
    have "room c t' \<or> inflightInsts t' = inflightInsts t"
      using assms(1) IssueGranted
      by (auto simp: onIssueAccessed_def Let_def dest!: populateDependencies_insts pu split: if_splits bind_splits intro: adv)
    then show ?thesis using same by auto
  next
    case (Predicted p taken s)
    have "advanceInst c s (on_sys f t) = Some t' \<Longrightarrow> room c t'" for f s
      using advanceInst_room [of c s "on_sys f t" t'] assms(2) by (simp add: room_def)
    moreover have "freeBranchPredDepth t = Some t' \<Longrightarrow> room c t'" using same by (auto dest: freeBranchPredDepth_insts)
    ultimately show ?thesis using assms(1) Predicted by (auto simp: onBranchPredictorAccessed_def split: if_splits bind_splits)
  next
    case (Executed p out)
    have "length (inflightInsts t') \<le> length (inflightInsts t)" using assms(1) Executed
      by (auto simp: executed_def initiateMemRead_def writeMem_def dest!: am markFault_length oc split: if_splits bind_splits option.splits access.splits)
    then show ?thesis by (rule same)
  next
    case (DataTranslated p req a high f pa)
    have "length (inflightInsts t') \<le> length (inflightInsts t)" using assms(1) DataTranslated
      by (auto simp: onDataAddrTranslated_def Let_def dest!: sr markFault_length split: if_splits bind_splits option.splits)
    then show ?thesis by (rule same)
  next
    case (MemDone p a f rs vs)
    have "length (inflightInsts t') \<le> length (inflightInsts t)" using assms(1) MemDone
      by (auto simp: completeMemAccess_def Let_def dest!: oc split: if_splits bind_splits)
    then show ?thesis by (rule same)
  next
    case Advance
    then show ?thesis using assms by (auto simp: advance_next_def dest: advanceInst_room split: bind_splits)
  next
    case (PCTranslated p v f)
    then show ?thesis using assms(1) by (intro same) (auto simp: onPCTranslated_def dest: markFault_length split: if_splits option.splits)
  next
    case (InstData p v bs)
    then show ?thesis using assms(1) by (intro same) (auto simp: attemptFetch_weak_def dest: attemptFetch_insts split: if_splits)
  next
    case (IssueTidGranted p)
    then show ?thesis using assms(1)
      by (intro same) (auto simp: onIssueTidAccessed_def Let_def executeInstruction_begin_def split: if_splits bind_splits)
  qed (use assms(1) in \<open>intro same; auto simp: activate_def\<close>)+
qed

lemma tstep_room:
  assumes "tstep c t t'" "room c t"
  shows "room c t'"
  using assms(1)
proof cases
  case call_top
  have sys_same: "room c (on_sys f u) = room c u" for f u by (simp add: room_def)
  show ?thesis using call_top(1) assms(2)
    by (auto simp: exec_def Let_def sys_same split: list.splits callback.splits intro: exec_frame_room)
next
  case (event e now)
  have "room c (answer e (t\<lparr>curTick := now\<rparr>))" using assms(2) by (simp add: room_def)
  then show ?thesis using event handle_room by blast
qed (use assms(2) in \<open>simp add: room_def\<close>)

interpretation flex_room: invariant_system "\<lambda>t. \<exists>tc. new_thread c tc = Some t" "tstep c" "room c" for c
  by unfold_locales (use tstep_room in \<open>auto simp: new_thread_def room_def split: if_splits\<close>)

end
