(* ===== verification/Flex_Thread_Spec.thy ===== *)
theory Flex_Thread_Spec
  imports Flex_Thread_Room
begin

text \<open>
  What the instruction buffer of a FlexCPU thread guarantees, over the definitions of \<open>Flex_Thread\<close>: the order in which
  instructions are committed, the shape of the buffer between two events, and the operands that an
  instruction is given when it is issued.
\<close>

section \<open>The invariant between two events\<close>

lemma quiet_window: "agenda (sys t) = [] \<Longrightarrow> \<not> window (core t) p"
  by (simp add: window_def)

lemma quiet_unresolved: "agenda (sys t) = [] \<Longrightarrow> unresolved (core t) p \<longleftrightarrow> \<not> holds isComplete t p"
  by (simp add: unresolved_def core_preds)

lemma quiet_numbers:
  assumes "thread_inv c t" "agenda (sys t) = []" "i < length (inflightInsts t)"
  shows "seqNum (info t (inflightInsts t ! i)) = lastCommittedInstNum t + of_nat (Suc i)"
proof -
  have "map (b_seq (core t)) (b_insts (core t)) ! i
      = map (\<lambda>i. b_committed (core t) + 1 + of_nat i) [0..<length (b_insts (core t))] ! i"
    using buffer_inv_parts(4) [of c "core t"] assms(1) quiet_window [OF assms(2)] by (simp add: thread_inv_def inv_seq_def)
  then show ?thesis using assms(3) by simp
qed

text \<open>An instruction before the last one has been issued and is not squashed.\<close>

lemma inner_issued:
  assumes "thread_inv c t" "Suc i < length (inflightInsts t)"
  shows "live t (inflightInsts t ! i)" "holds (\<lambda>j. Issued \<le> i_status j) t (inflightInsts t ! i)"
    "\<exists>si. static t (inflightInsts t ! i) = Some si"
proof -
  let ?p = "inflightInsts t ! i"
  note inv = buffer_inv_parts [of c "core t"] and ids = buffer_inv_parts(1) [of c "core t"]
  have b: "buffer_inv c (core t)" using assms(1) by (simp add: thread_inv_def)
  have "distinct (inflightInsts t)" using inv(1) [OF b] by (auto simp: inv_ids_def strict_sorted_iff)
  moreover have "last (inflightInsts t) = inflightInsts t ! (length (inflightInsts t) - 1)"
    using assms(2) by (intro last_conv_nth) auto
  ultimately have l: "?p \<noteq> last (inflightInsts t)" "?p \<in> set (inflightInsts t)"
    using assms(2) by (simp_all add: nth_eq_iff_index_eq)
  then have "b_live (core t) ?p" using inv(5) [OF b] by (auto simp: inv_issue_def)
  moreover from this have "b_issued (core t) ?p" using inv(5) [OF b] l(1) by (auto simp: inv_issue_def)
  moreover from this have "b_static (core t) ?p \<noteq> None" using inv(2) [OF b] by (auto simp: inv_static_def)
  ultimately show "live t ?p" "holds (\<lambda>j. Issued \<le> i_status j) t ?p" "\<exists>si. static t ?p = Some si"
    by (auto simp: core_preds)
qed

lemma quiet_chain:
  assumes "thread_inv c t" "agenda (sys t) = []" "Suc i < length (inflightInsts t)" "static t (inflightInsts t ! i) = Some si"
  shows "if isControl si \<and> \<not> holds isComplete t (inflightInsts t ! i) then hasBranchPredictor c
    else location (pcState (info t (inflightInsts t ! Suc i))) = location (advancePC si (pcState (info t (inflightInsts t ! i))))"
proof -
  let ?k = "core t" and ?p = "inflightInsts t ! i"
  have b: "buffer_inv c ?k" using assms(1) by (simp add: thread_inv_def)
  have "allowed c ?k ?p (b_pc ?k (inflightInsts t ! Suc i))"
    using buffer_inv_parts(8) [OF b] assms(3) by (auto simp: inv_chain_def successively_conv_nth)
  then show ?thesis
    using assms(4) by (simp add: allowed_def b_ctl_def b_succ_def quiet_unresolved [OF assms(2)])
qed

lemma quiet_head:
  assumes "thread_inv c t" "agenda (sys t) = []" "inflightInsts t \<noteq> []"
  shows "location (pcState (info t (hd (inflightInsts t)))) = location (tc_pc (committedState t))"
proof -
  obtain p ps where p: "inflightInsts t = p # ps" using assms(3) by (cases "inflightInsts t") auto
  have "buffer_inv c (core t)" using assms(1) by (simp add: thread_inv_def)
  from head_next(2) [OF this _ quiet_window [OF assms(2)], of p ps] show ?thesis by (simp add: p)
qed

section \<open>Operands\<close>

text \<open>Giving an instruction its sources changes nothing but its own list of them.\<close>

lemma data_source_fields [simp]:
  "lastUses (data_source p kr t) = lastUses t" "inflightInsts (data_source p kr t) = inflightInsts t"
  "static (data_source p kr t) q = static t q"
  by (auto simp: data_source_def set_info_def Let_def on_sys_def split: prod.splits option.splits)

lemma data_source_sources:
  "sources (info (data_source p (k, r) t) p) = (if isZeroReg (flattenRegId r) then sources (info t p)
     else (sources (info t p))[k := lastUses t (flattenRegId r)])"
  by (auto simp: data_source_def set_info_def Let_def on_sys_def split: option.splits)

lemma dep_data_sources:
  "sources (info (fold (data_source p) (enumerate n rs) t) p) = map (\<lambda>k. if n \<le> k \<and> k < n + length rs
       \<and> \<not> isZeroReg (flattenRegId (rs ! (k - n))) then lastUses t (flattenRegId (rs ! (k - n))) else sources (info t p) ! k)
     [0..<length (sources (info t p))]"
proof (induction rs arbitrary: n t)
  case Nil
  show ?case by (rule nth_equalityI) auto
next
  case (Cons r rs)
  show ?case
    by (simp add: Cons.IH data_source_sources) (auto simp: nth_list_update nth_Cons' intro!: nth_equalityI)
qed

text \<open>The other rules of \<open>populateDependencies\<close> change neither the instructions nor the table of last uses.\<close>

definition quietly :: "thread \<Rightarrow> thread \<Rightarrow> bool" where
  "quietly t t' \<longleftrightarrow> info t' = info t \<and> lastUses t' = lastUses t \<and> inflightInsts t' = inflightInsts t
     \<and> b_stat (core t') = b_stat (core t) \<and> next_id (sys t') = next_id (sys t)"

lemma quietly_refl [simp]: "quietly t t"
  by (simp add: quietly_def)

lemma quietly_trans: "quietly t u \<Longrightarrow> quietly u v \<Longrightarrow> quietly t v"
  by (simp add: quietly_def)

lemma next_id_core: "core t' = core t \<Longrightarrow> next_id (sys t') = next_id (sys t)"
  by (metis core_fields(4))

lemma quietly_sys: "core (on_sys f t) = core t \<Longrightarrow> quietly t (on_sys f t)"
  using next_id_core [of "on_sys f t" t] by (simp add: quietly_def)

lemma quietly_dependency [simp]:
  "quietly t (on_sys (addDependency p q) t)" "quietly t (on_sys (addBeginExecDependency p q) t)"
  "quietly t (on_sys (addCommitDependency p q) t)" "quietly t (on_sys (addMemDependency p q) t)"
  "quietly t (on_sys (addMemCommitDependency p q) t)" "quietly t (on_sys (addMemEffAddrDependency p q) t)"
  "quietly t (on_sys (addEffAddrCalculatedCallback p cb) t)"
  by (rule quietly_sys, simp)+

lemma quietly_refs [simp]:
  "quietly u (t\<lparr>lastSerializingInstruction := x\<rparr>) = quietly u t" "quietly u (t\<lparr>lastMemBarrier := x\<rparr>) = quietly u t"
  "quietly (t\<lparr>lastMemBarrier := x\<rparr>) u = quietly t u"
  by (simp_all add: quietly_def core_def)

lemma quietly_if: "(b \<Longrightarrow> quietly t u) \<Longrightarrow> (\<not> b \<Longrightarrow> quietly t v) \<Longrightarrow> quietly t (if b then u else v)"
  by simp

lemma fold_opt_quietly:
  assumes "fold_opt f xs t = Some t'" "\<And>x u v. f x u = Some v \<Longrightarrow> quietly u v"
  shows "quietly t t'"
  using assms(1) by (induction xs arbitrary: t) (auto dest!: assms(2) dest: quietly_trans split: bind_splits)

lemma dep_quietly:
  "quietly t (dep_in_order c p t)" "quietly t (dep_serialize c p si t)" "quietly t (dep_non_speculative p si t)"
  "quietly t (dep_store_at_commit p si t)"
proof -
  show "quietly t (dep_in_order c p t)"
    by (auto simp: dep_in_order_def Let_def split: option.split intro: quietly_trans [OF quietly_dependency(1) quietly_dependency(2)])
  have ser: "quietly u (if strictSerialize c then
       (case previous u of
          Some q \<Rightarrow> if isSerializing si then
              (if \<not> (holds isCommitted u q \<or> holds i_squashed u q) then on_sys (addCommitDependency p q) u else u)
                \<lparr>lastSerializingInstruction := Some p\<rparr>
            else u
        | None \<Rightarrow> u)
     else
       let t = (case previous u of
                  Some q \<Rightarrow> if isSerializeBefore si then on_sys (addCommitDependency p q) u else u
                | None \<Rightarrow> u) in
       if isSerializeAfter si then t\<lparr>lastSerializingInstruction := Some p\<rparr> else t)" for u
    by (auto simp: Let_def split: option.split)
  have "quietly t (case lock t (lastSerializingInstruction t) of
      Some q \<Rightarrow> if \<not> (holds isCommitted t q \<or> holds i_squashed t q) then on_sys (addCommitDependency p q) t else t | None \<Rightarrow> t)"
    by (simp split: option.split)
  from quietly_trans [OF this ser] show "quietly t (dep_serialize c p si t)" unfolding dep_serialize_def Let_def .
  show "quietly t (dep_non_speculative p si t)" "quietly t (dep_store_at_commit p si t)"
    by (simp_all add: dep_non_speculative_def dep_store_at_commit_def split: option.split)
qed

lemma dep_opt_quietly:
  "dep_barrier p si t = Some t' \<Longrightarrow> quietly t t'" "dep_memory_order p si t = Some t' \<Longrightarrow> quietly t t'"
proof -
  have b: "quietly u v" if "barrier_waits p si q u = Some v" for q u v
    using that by (auto simp: barrier_waits_def split: if_splits bind_splits)
  have m: "quietly t (if isMemRef si then (case lock t (lastMemBarrier t) of Some q \<Rightarrow> on_sys (addMemDependency p q) t | None \<Rightarrow> t) else t)"
    by (simp split: option.split)
  show "quietly t t'" if t': "dep_barrier p si t = Some t'"
  proof -
    define u where "u = (if isMemRef si then (case lock t (lastMemBarrier t) of Some q \<Rightarrow> on_sys (addMemDependency p q) t | None \<Rightarrow> t) else t)"
    have "quietly u t'"
    proof (cases "isMemBarrier si")
      case True
      then have "fold_opt (barrier_waits p si) (rev (inflightInsts u)) (u\<lparr>lastMemBarrier := Some p\<rparr>) = Some t'"
        using t' by (simp add: dep_barrier_def u_def Let_def)
      from fold_opt_quietly [OF this b] show ?thesis by simp
    qed (use t' in \<open>simp add: dep_barrier_def u_def Let_def\<close>)
    then show ?thesis using quietly_trans m unfolding u_def by blast
  qed
  have o: "quietly u v" if "overlap_waits p q u = Some v" for q u v
    using that by (auto simp: overlap_waits_def split: if_splits bind_splits intro!: quietly_trans [OF _ quietly_dependency(6)]
        quietly_trans [OF quietly_dependency(7) quietly_dependency(7)])
  show "quietly t t'" if "dep_memory_order p si t = Some t'"
    using that by (auto simp: dep_memory_order_def dest: fold_opt_quietly [OF _ o] split: if_splits)
qed

text \<open>The instruction is made to wait for the instructions that its operands come from: they keep the callback that
  will release it.\<close>

lemma data_source_quiet:
  "b_stat (core (data_source p kr t)) = b_stat (core t)" "next_id (sys (data_source p kr t)) = next_id (sys t)"
proof -
  obtain k r where kr: "kr = (k, r)" by (cases kr)
  let ?u = "case lastUses t (flattenRegId r) of Some (q, _) \<Rightarrow> if alive t q then on_sys (addDependency p q) t else t | None \<Rightarrow> t"
  have u: "quietly t ?u" by (auto split: option.split)
  have set: "b_stat (core (set_info p (\<lambda>d. d\<lparr>sources := f d\<rparr>) x)) = b_stat (core x)" for f x by (simp add: core_def)
  show "b_stat (core (data_source p kr t)) = b_stat (core t)" "next_id (sys (data_source p kr t)) = next_id (sys t)"
    using u by (simp_all add: data_source_def kr Let_def set quietly_def)
qed

definition kept :: "inst_id \<Rightarrow> Status \<Rightarrow> frame callback \<Rightarrow> frame system \<Rightarrow> bool" where
  "kept q st cb s \<longleftrightarrow> store s q \<noteq> None \<and> keeps q st cb s"

lemma alive_ops:
  "store (addDependency p q s) x = None \<longleftrightarrow> store s x = None" "store (notifyDecoded n p s) x = None \<longleftrightarrow> store s x = None"
  "store (notifyIssued n p s) x = None \<longleftrightarrow> store s x = None" "store (addSquashCallback p k s) x = None \<longleftrightarrow> store s x = None"
  by (auto simp: addDependency_def addCompletionCallback_def increment_def notifyDecoded_def notifyIssued_def addSquashCallback_def
      split: option.splits)

lemma kept_ops:
  assumes "kept q st cb s"
  shows "kept q st cb (addDependency p x s)" "kept q st cb (notifyDecoded n p s)" "kept q st cb (notifyIssued n p s)"
    "kept q st cb (addSquashCallback p k s)" "kept q st cb (create n s)"
  using assms keeps_dependency(3) [of q st cb s p x] keeps_notify(1,2) [of q st cb s n p] keeps_add(7) [of q st cb s p k]
  by (auto simp: kept_def alive_ops) (auto simp: keeps_def create_def)

lemma data_source_keeps: "kept q st cb (sys t) \<Longrightarrow> kept q st cb (sys (data_source p kr t))"
  by (cases kr) (auto simp: data_source_def Let_def intro: kept_ops split: option.split)

lemma data_source_waits:
  assumes "lastUses t (flattenRegId r) = Some (q, n)" "\<not> isZeroReg (flattenRegId r)"
    and "live t q" "\<not> holds isComplete t q" "q < next_id (sys t)"
  shows "kept q Complete (Release Exec p) (sys (data_source p (k, r) t))"
proof -
  obtain j where j: "store (sys t) q = Some j" "\<not> i_squashed j" "\<not> isComplete j"
    using assms(3,4) by (auto simp: live_def holds_def split: option.splits)
  then have "kept q Complete (Release Exec p) (addDependency p q (sys t))"
    using assms(5)
    by (auto simp: kept_def alive_ops) (auto simp: keeps_def addDependency_def addCompletionCallback_def increment_def stage_callbacks_def)
  then show ?thesis using assms(1,2) j(1) by (simp add: data_source_def Let_def alive_def)
qed

lemma live_stat: "b_stat (core t') = b_stat (core t) \<Longrightarrow> live t' q = live t q"
    "b_stat (core t') = b_stat (core t) \<Longrightarrow> holds isComplete t' q = holds isComplete t q"
  using core_preds(1,3) [of t' q] core_preds(1,3) [of t q] by (simp_all add: b_live_def b_at_def del: core_fields)

lemma dep_data_waits:
  assumes "(k, r) \<in> set xs" "lastUses t (flattenRegId r) = Some (q, n)" "\<not> isZeroReg (flattenRegId r)"
    and "live t q" "\<not> holds isComplete t q" "q < next_id (sys t)"
  shows "kept q Complete (Release Exec p) (sys (fold (data_source p) xs t))"
  using assms
proof (induction xs arbitrary: t)
  case (Cons x xs)
  have later: "kept q st cb (sys u) \<Longrightarrow> kept q st cb (sys (fold (data_source p) ys u))" for st cb ys u
    by (induction ys arbitrary: u) (auto intro: data_source_keeps)
  show ?case
  proof (cases "x = (k, r)")
    case True
    show ?thesis
      using later [OF data_source_waits [OF Cons.prems(2-6)], where ys = xs] True by simp
  next
    case False
    have "kept q Complete (Release Exec p) (sys (fold (data_source p) xs (data_source p x t)))"
      by (rule Cons.IH) (use False Cons.prems live_stat [OF data_source_quiet(1)] data_source_quiet(2) in simp_all)
    then show ?thesis by simp
  qed
qed simp

lemma populateDependencies_sources:
  assumes "populateDependencies c p t = Some u" "static t p = Some si" "k < length (srcRegIdx si)" "k < length (sources (info t p))"
    and "\<not> isZeroReg (flattenRegId (srcRegIdx si ! k))"
  shows "sources (info u p) ! k = lastUses t (flattenRegId (srcRegIdx si ! k))" "next_id (sys u) = next_id (sys t)"
    "lastUses t (flattenRegId (srcRegIdx si ! k)) = Some (q, n) \<Longrightarrow> live t q \<Longrightarrow> \<not> holds isComplete t q \<Longrightarrow> q < next_id (sys t)
      \<Longrightarrow> kept q Complete (Release Exec p) (sys u)"
proof -
  have st: "static (dep_in_order c p t) p = Some si" using dep_quietly(1) [of t c p] assms(2) by (simp add: quietly_def)
  obtain v w where v: "dep_barrier p si (dep_serialize c p si (dep_in_order c p t)) = Some v"
    and w: "dep_memory_order p si (dep_non_speculative p si v) = Some w"
    and u: "u = dep_data p si (dep_store_at_commit p si w)"
    using assms(1) st by (auto simp: populateDependencies_def Let_def split: bind_splits)
  let ?x = "dep_store_at_commit p si w"
  have "quietly t ?x"
    by (rule quietly_trans [OF dep_quietly(1) quietly_trans [OF dep_quietly(2) quietly_trans [OF dep_opt_quietly(1) [OF v]
          quietly_trans [OF dep_quietly(3) quietly_trans [OF dep_opt_quietly(2) [OF w] dep_quietly(4)]]]]])
  then have x: "info ?x = info t" "lastUses ?x = lastUses t" "b_stat (core ?x) = b_stat (core t)" "next_id (sys ?x) = next_id (sys t)"
    by (simp_all add: quietly_def)
  have "(k, srcRegIdx si ! k) \<in> set (enumerate 0 (srcRegIdx si))"
    using assms(3) by (auto simp: in_set_enumerate_eq)
  note wait = dep_data_waits [OF this _ assms(5), of ?x q n p]
  show "sources (info u p) ! k = lastUses t (flattenRegId (srcRegIdx si ! k))"
    using assms(3-5) by (simp add: u dep_data_def dep_data_sources x)
  have "next_id (sys (fold (data_source p) xs y)) = next_id (sys y)" for xs y
    by (induction xs arbitrary: y) (simp_all add: data_source_quiet)
  then show "next_id (sys u) = next_id (sys t)" by (simp add: u dep_data_def x)
  show "kept q Complete (Release Exec p) (sys u)"
    if "lastUses t (flattenRegId (srcRegIdx si ! k)) = Some (q, n)" "live t q" "\<not> holds isComplete t q" "q < next_id (sys t)"
    using wait that by (simp add: u dep_data_def x live_stat [OF x(3)])
qed

text \<open>Fetching the next instruction leaves the others alone.\<close>

lemma attemptFetch_frame:
  assumes "attemptFetch c p t = Some t'" "q \<noteq> p"
  shows "info t' q = info t q \<and> (kept q st cb (sys t) \<longrightarrow> kept q st cb (sys t'))"
  using assms
proof (induction c p t rule: attemptFetch.induct)
  case (1 c p t)
  note ih = 1(1) and t' = 1(2) and ne = 1(3)
  show ?case
  proof (cases "fetch_hit p t \<and> live t p")
    case False
    then show ?thesis using t' by (subst (asm) attemptFetch.simps) (auto split: if_splits)
  next
    case True
    obtain d where d: "moreBytes (pcState (info t p)) (fetch_word (fetchBuf t) (unat (req_vaddr p t - fetchBufBase t))) (decoder t) = Some d"
      using t' True by (subst (asm) attemptFetch.simps) (auto split: option.splits)
    obtain r s d' where dec: "decode (decodeInst c) (pcState (info t p)) d = (r, s, d')" by (metis prod_cases3)
    show ?thesis
    proof (cases r)
      case None
      then have "attemptFetch c p (set_info p (pcState_update (\<lambda>_. s)) (t\<lparr>decoder := d', fetchOffset := fetchOffset t + 4\<rparr>)) = Some t'"
        using t' True d dec by (subst (asm) attemptFetch.simps) simp
      then show ?thesis using ih [OF _ _ d dec [symmetric]] True None ne by auto
    next
      case (Some si)
      then show ?thesis using t' True d dec ne by (subst (asm) attemptFetch.simps) (auto simp: issueInstruction_def intro: kept_ops)
    qed
  qed
qed

lemma advanceInst_frame:
  assumes "advanceInst c s t = Some t'" "q < next_id (sys t)"
  shows "info t' q = info t q" "kept q st cb (sys t) \<Longrightarrow> kept q st cb (sys t')"
proof -
  have "info t' q = info t q \<and> (kept q st cb (sys t) \<longrightarrow> kept q st cb (sys t'))"
  proof (cases "tc_status (committedState t) \<noteq> Active \<or> buffer_full c t")
    case True
    then show ?thesis using assms(1) by (auto simp: advanceInst_def split: if_splits)
  next
    case False
    have push: "info (push_inst s u) q = info u q \<and> (kept q st cb (sys u) \<longrightarrow> kept q st cb (sys (push_inst s u)))"
      if "next_id (sys u) = next_id (sys t)" for u
      using that assms(2) by (auto simp: push_inst_def Let_def kept_ops)
    show ?thesis
    proof (cases "\<exists>si. t' = push_microop si s (t\<lparr>advanceInstNeedsRetry := False\<rparr>)")
      case True
      then show ?thesis using push [of "t\<lparr>advanceInstNeedsRetry := False\<rparr>"] assms(2)
        by (auto simp: push_microop_def issueInstruction_def Let_def intro: kept_ops)
    next
      case no: False
      then have "attemptFetch c (next_id (sys t)) ((push_inst s (t\<lparr>advanceInstNeedsRetry := False\<rparr>))\<lparr>fetchOffset := 0\<rparr>) = Some t'"
        using assms(1) False by (auto simp: advanceInst_def Let_def split: if_splits option.splits)
      from attemptFetch_frame [OF this, of q st cb] push [of "t\<lparr>advanceInstNeedsRetry := False\<rparr>"] assms(2) show ?thesis by auto
    qed
  qed
  then show "info t' q = info t q" "kept q st cb (sys t) \<Longrightarrow> kept q st cb (sys t')" by auto
qed

lemma predictCtrlInst_frame:
  "info (predictCtrlInst p t) = info t" "kept q st cb (sys t) \<Longrightarrow> kept q st cb (sys (predictCtrlInst p t))"
  by (auto simp: predictCtrlInst_def intro: kept_ops)

lemma after_issue_cases:
  assumes "do { b \<leftarrow> B; if b then do { next_pc \<leftarrow> N; advanceInst c next_pc x } else if P then if Q then Some y else Some z else Some x } = Some t'"
  shows "t' = x \<or> (\<exists>s. advanceInst c s x = Some t') \<or> t' = y \<or> t' = z"
proof (cases B)
  case (Some b)
  show ?thesis
  proof (cases b)
    case True
    then obtain s where "advanceInst c s x = Some t'" using assms Some by (cases N) auto
    then show ?thesis by blast
  qed (use assms Some in \<open>simp split: if_splits\<close>)
qed (use assms in simp)

lemma onIssueAccessed_sources:
  assumes t': "onIssueAccessed c p t = Some t'" and p: "live t p" "static t p = Some si" "p < next_id (sys t)"
    and k: "k < length (srcRegIdx si)" "k < length (sources (info t p))" "\<not> isZeroReg (flattenRegId (srcRegIdx si ! k))"
  shows "sources (info t' p) ! k = lastUses t (flattenRegId (srcRegIdx si ! k))"
    "lastUses t (flattenRegId (srcRegIdx si ! k)) = Some (q, n) \<Longrightarrow> live t q \<Longrightarrow> \<not> holds isComplete t q \<Longrightarrow> q < next_id (sys t)
      \<Longrightarrow> kept q Complete (Release Exec p) (sys t')"
proof -
  let ?t = "(set_info p (issueSeqNum_update (\<lambda>_. nextIssueNum t)) t)\<lparr>nextIssueNum := nextIssueNum t + 1\<rparr>"
  obtain u v where u: "populateDependencies c p ?t = Some u" and v: "populateUses p u = Some v"
    using t' p(1) by (auto simp: onIssueAccessed_def Let_def split: bind_splits if_splits)
  have vs: "info v = info u" "sys v = sys u" using v by (auto simp: populateUses_def split: bind_splits)
  let ?w = "request (IssueTid p) (on_sys (notifyIssued (curTick v) p) v)"
  obtain x where x: "info x = info ?w" "sys x = sys ?w"
    and t'': "t' = x \<or> (\<exists>s. advanceInst c s x = Some t') \<or> t' = predictCtrlInst p x"
  proof -
    obtain sj where sj: "static ?w p = Some sj" using t' p(1) u v
      by (auto simp: onIssueAccessed_def Let_def split: bind_splits if_splits)
    let ?x = "if isLastMicroop sj then ?w\<lparr>curMacroOp := None\<rparr> else ?w"
    let ?y = "?x\<lparr>unpredictedBranch := Some p\<rparr>" and ?z = "?x\<lparr>remainingBranchPredDepth := remainingBranchPredDepth ?x - 1\<rparr>"
    have "do { b \<leftarrow> hasNextPC ?x;
        if b then do { next_pc \<leftarrow> getNextPC ?x; advanceInst c next_pc ?x }
        else if hasBranchPredictor c then if remainingBranchPredDepth ?x = 0 then Some ?y else Some (predictCtrlInst p ?z)
        else Some ?x } = Some t'"
      using t' p(1) u v sj by (simp add: onIssueAccessed_def Let_def)
    note cases = after_issue_cases [OF this]
    have f: "info ?x = info ?w" "sys ?x = sys ?w" "info ?y = info ?w" "sys ?y = sys ?w" "info ?z = info ?w" "sys ?z = sys ?w"
      by simp_all
    from cases show ?thesis
    proof (elim disjE)
      assume e: "t' = ?x" show ?thesis by (rule that [OF f(1,2) disjI1 [OF e]])
    next
      assume e: "\<exists>s. advanceInst c s ?x = Some t'" show ?thesis by (rule that [OF f(1,2) disjI2 [OF disjI1 [OF e]]])
    next
      assume e: "t' = ?y" show ?thesis by (rule that [OF f(3,4) disjI1 [OF e]])
    next
      assume e: "t' = predictCtrlInst p ?z" show ?thesis by (rule that [OF f(5,6) disjI2 [OF disjI2 [OF e]]])
    qed
  qed
  have si: "static ?t p = Some si" "lastUses ?t = lastUses t" "next_id (sys ?t) = next_id (sys t)" "live ?t q = live t q"
    "holds isComplete ?t q = holds isComplete t q" "length (sources (info ?t p)) = length (sources (info t p))" for q
    using p(2) by (simp_all add: set_info_def live_def holds_def)
  note dep = populateDependencies_sources [OF u si(1) k(1) _ k(3), unfolded si(2-6)] 
  have nx: "next_id (sys x) = next_id (sys t)" using dep(2) [OF k(2)] by (simp add: x(2) vs notifyIssued_def)
  have "sources (info x p) ! k = lastUses t (flattenRegId (srcRegIdx si ! k))"
    using dep(1) [OF k(2)] by (simp add: x(1) vs)
  then show "sources (info t' p) ! k = lastUses t (flattenRegId (srcRegIdx si ! k))"
    using t'' advanceInst_frame(1) [of c _ x t' p] p(3) nx predictCtrlInst_frame(1) by auto
  show "kept q Complete (Release Exec p) (sys t')"
    if "lastUses t (flattenRegId (srcRegIdx si ! k)) = Some (q, n)" "live t q" "\<not> holds isComplete t q" "q < next_id (sys t)"
  proof -
    have "kept q Complete (Release Exec p) (sys x)"
      using dep(3) [OF k(2) that] by (simp add: x(2) vs kept_ops)
    then show ?thesis using t'' advanceInst_frame(2) [of c _ x t' q] that(4) nx predictCtrlInst_frame(2) by auto
  qed
qed

text \<open>The table of last uses holds the youngest writer in flight, so that is what an issued instruction finds there.\<close>

lemma youngest_writer_in: "youngest_writer f r xs = Some (q, n) \<Longrightarrow> q \<in> set xs"
  by (induction xs) (auto split: option.splits)

lemma core_static: "b_static (core t) = (\<lambda>p. static t p)"
  by (simp add: core_def)

lemma issue_youngest_writer:
  assumes "plain_cpu c" "reachable c t" "Issue p \<in> set (requests t)" "live t p" "onIssueAccessed c p t = Some t'"
    and "static t p = Some si" "length (sources (info t p)) = length (srcRegIdx si)"
    and "k < length (srcRegIdx si)" "r = flattenRegId (srcRegIdx si ! k)" "\<not> isZeroReg r"
    and "youngest_writer (\<lambda>x. static t x) r (butlast (inflightInsts t)) = Some (q, n)"
  shows "sources (info t' p) ! k = Some (q, n)
    \<and> (\<forall>j. store (sys t) q = Some j \<and> \<not> isComplete j \<longrightarrow>
        (\<exists>j'. store (sys t') q = Some j' \<and> Release Exec p \<in> set (completionCallbacks j')))"
proof -
  have inv: "thread_inv c t" by (rule reachable_inv [OF assms(1,2)])
  then have b: "buffer_inv c (core t)" by (simp add: thread_inv_def)
  have "inv_fetch (core t)" using buffer_inv_parts(6) [OF b] by (simp add: inv_requests_def)
  then have ni: "\<not> b_issued (core t) p" using assms(3,4) by (auto simp: inv_fetch_def core_preds)
  have bl: "b_live (core t) p" using assms(4) by (simp add: core_preds)
  note lst = fetching_last [OF b bl ni]
  have ne: "inflightInsts t \<noteq> []" "last (inflightInsts t) = p" using lst by auto
  then have B: "inflightInsts t = butlast (inflightInsts t) @ [p]" by (metis append_butlast_last_id)
  have iss: "b_issued (core t) x" "live t x" if x: "x \<in> set (butlast (inflightInsts t))" for x
  proof -
    obtain i where "i < length (butlast (inflightInsts t))" "x = butlast (inflightInsts t) ! i"
      using x by (auto simp: in_set_conv_nth)
    then have "Suc i < length (inflightInsts t)" "x = inflightInsts t ! i" by (simp_all add: nth_butlast)
    then show "b_issued (core t) x" "live t x" using inner_issued(1,2) [OF inv] by (simp_all add: core_preds)
  qed
  then have "filter (b_issued (core t)) (inflightInsts t) = butlast (inflightInsts t)"
    using ni by (subst B) (simp add: filter_id_conv)
  moreover have "b_live (core t) (last (b_insts (core t)))" using ne bl by simp
  ultimately have uses: "lastUses t r = Some (q, n)"
    using buffer_inv_parts(9) [OF b] assms(11) by (auto simp: inv_uses_def core_static)
  have qs: "q \<in> set (butlast (inflightInsts t))" by (rule youngest_writer_in [OF assms(11)])
  have pn: "p < next_id (sys t)" "q < next_id (sys t)" "live t q"
    using alive_next [OF inv] live_alive assms(4) iss(2) [OF qs] by blast+
  have k: "k < length (sources (info t p))" using assms(7,8) by simp
  note src = onIssueAccessed_sources [OF assms(5,4,6) pn(1) assms(8) k assms(10) [unfolded assms(9)], folded assms(9), unfolded uses]
  have "kept q Complete (Release Exec p) (sys t')" if "store (sys t) q = Some j" "\<not> isComplete j" for j
    by (rule src(2) [OF refl pn(3) _ pn(2)]) (use that in \<open>simp add: holds_def\<close>)
  then show ?thesis using src(1) by (auto simp: kept_def keeps_def stage_callbacks_def)
qed

section \<open>A run\<close>

text \<open>A CPU with a buffer of two instructions runs a loop-free program of additions on one register; the events are answered
  in order. \<open>forward_upto\<close> is the contract \<open>forward\<close> on the objects that exist.\<close>

definition add_inst :: StaticInst where
  "add_inst = \<lparr>machInst = 0x13, isMemRef = False, isStore = False, isControl = False, isCall = False, isReturn = False,
     isDirectCtrl = False, isUncondCtrl = False, flag_IsSerializing = False, isSerializeBefore = False, isSerializeAfter = False,
     isMemBarrier = False, isNonSpeculative = False, isMicroop = False, isLastMicroop = False,
     srcRegIdx = [\<lparr>regClass = IntRegClass, regIdx = 1\<rparr>], destRegIdx = [\<lparr>regClass = IntRegClass, regIdx = 1\<rparr>]\<rparr>"

definition sample_cpu :: cpu where
  "sample_cpu = \<lparr>inOrderBeginExecute = False, inOrderExecute = False, strictSerialize = True, hasBranchPredictor = True,
     inflightInstsMaxSize = 2, branch_pred_max_depth = 20, fetch_buf_size = 16, cacheLineSize = 64,
     rom_fetchMicroop = (\<lambda>_ _. add_inst), fetchMicroop = (\<lambda>_ _. add_inst),
     decodeInst = (\<lambda>b. if b = 0x13 then add_inst else add_inst\<lparr>machInst := b, isControl := True\<rparr>),
     branchTarget = (\<lambda>_ s. s), completeAcc = (\<lambda>_ _ d. (None, results d, resultValid d)), fault_invoke = (\<lambda>_ _ tc. tc),
     setMiscReg = (\<lambda>k v m. m(k := v))\<rparr>"

definition sample_pc :: "Addr \<Rightarrow> PCState" where
  "sample_pc a = \<lparr>s_pc = a, s_npc = a + 4, s_upc = 0, s_nupc = 1, pc_compressed = False, pc_rv32 = False\<rparr>"

definition sample_tc :: thread_context where
  "sample_tc = \<lparr>tc_status = Suspended, tc_pc = sample_pc 0x1000, tc_regs = (\<lambda>_. 7), tc_misc = (\<lambda>_. 0)\<rparr>"

definition sample_outcome :: "Addr \<Rightarrow> 64 word \<Rightarrow> outcome" where
  "sample_outcome a v = \<lparr>out_fault = None, out_pc = sample_pc a, out_results = [v], out_valid = [True], out_misc = [], out_access = None\<rparr>"

definition forward_upto :: "nat \<Rightarrow> thread \<Rightarrow> thread \<Rightarrow> bool" where
  "forward_upto n t t' \<longleftrightarrow> list_all (\<lambda>p. case (store (sys t) p, store (sys t') p) of
     (Some i, Some i') \<Rightarrow> i_status i \<le> i_status i' | _ \<Rightarrow> True) [0..<n]"

fun finish :: "nat \<Rightarrow> thread \<Rightarrow> thread option" where
  "finish 0 t = None"
| "finish (Suc n) t = (if agenda (sys t) = [] then Some t
     else case exec sample_cpu t of None \<Rightarrow> None | Some t' \<Rightarrow> if forward_upto (next_id (sys t)) t t' then finish n t' else None)"

definition event_run :: "event \<Rightarrow> thread \<Rightarrow> thread option" where
  "event_run e t = (if agenda (sys t) = [] \<and> permitted_event e t then
     case handle sample_cpu e (answer e t) of None \<Rightarrow> None
     | Some t' \<Rightarrow> if forward_upto (next_id (sys t)) t t' then finish 20 t' else None
   else None)"

definition sample_events :: "event list" where
  "sample_events = [Activate, Advance, PCTranslated 0 0x1000 None,
     InstData 0 0x1000 [0x13,0,0,0, 0x13,0,0,0, 0x13,0,0,0, 0x13,0,0,0], IssueGranted 0, IssueGranted 1, IssueTidGranted 0,
     Executed 0 (sample_outcome 0x1000 9)]"

definition sample_start :: thread where "sample_start = the (new_thread sample_cpu sample_tc)"

definition sample_state :: "nat \<Rightarrow> thread option" where
  "sample_state n = fold_opt event_run (take n sample_events) sample_start"

lemma forward_upto_forward:
  assumes "thread_inv c t" "forward_upto (next_id (sys t)) t t'"
  shows "forward t t'"
  unfolding forward_def
proof (intro allI impI)
  fix p i i'
  assume s: "store (sys t) p = Some i" "store (sys t') p = Some i'"
  then have "p < next_id (sys t)" using alive_next [OF assms(1)] by (simp add: alive_def)
  then show "i_status i \<le> i_status i' \<or> i_status i = Committed \<and> i_status i' = Complete \<and> (\<exists>si. static t p = Some si \<and> isStore si)"
    using assms(2) s by (force simp: forward_upto_def list_all_iff dest: bspec [of _ _ p])
qed

lemma sample_plain: "plain_cpu sample_cpu"
  by (simp add: plain_cpu_def sample_cpu_def add_inst_def plain_def)

lemma finish_steps: "finish n t = Some t' \<Longrightarrow> thread_inv sample_cpu t \<Longrightarrow> (tstep sample_cpu)\<^sup>*\<^sup>* t t'"
proof (induction n arbitrary: t)
  case (Suc n)
  show ?case
  proof (cases "agenda (sys t) = []")
    case False
    then obtain u where u: "exec sample_cpu t = Some u" "forward_upto (next_id (sys t)) t u" "finish n u = Some t'"
      using Suc.prems(1) by (auto split: option.splits if_splits)
    have "tstep sample_cpu t u" by (rule call_top [OF u(1) forward_upto_forward [OF Suc.prems(2) u(2)]])
    then show ?thesis using Suc.IH [OF u(3) tstep_inv [OF sample_plain]] Suc.prems(2) by (meson converse_rtranclp_into_rtranclp)
  qed (use Suc.prems in simp)
qed simp

lemma event_run_steps:
  assumes "event_run e t = Some t'" "thread_inv sample_cpu t"
  shows "(tstep sample_cpu)\<^sup>*\<^sup>* t t'"
proof -
  obtain u where u: "agenda (sys t) = []" "permitted_event e t" "handle sample_cpu e (answer e t) = Some u"
    "forward_upto (next_id (sys t)) t u" "finish 20 u = Some t'"
    using assms(1) by (auto simp: event_run_def split: if_splits option.splits)
  have "t\<lparr>curTick := curTick t\<rparr> = t" by simp
  then have s: "tstep sample_cpu t u"
    by (intro event [where e = e and now = "curTick t"] u(1,2) forward_upto_forward [OF assms(2) u(4)]) (simp only: u(3))
  then show ?thesis
    using finish_steps [OF u(5) tstep_inv [OF sample_plain s assms(2)]] by (meson converse_rtranclp_into_rtranclp)
qed

lemma sample_init: "new_thread sample_cpu sample_tc = Some sample_start"
  by (simp add: sample_start_def new_thread_def sample_cpu_def word_le_nat_alt)

lemma sample_steps:
  assumes "sample_state n = Some t"
  shows "(tstep sample_cpu)\<^sup>*\<^sup>* sample_start t"
proof -
  have "(tstep sample_cpu)\<^sup>*\<^sup>* u v" if "fold_opt event_run es u = Some v" "thread_inv sample_cpu u" for es u v
    using that
  proof (induction es arbitrary: u)
    case (Cons e es)
    obtain w where w: "event_run e u = Some w" "fold_opt event_run es w = Some v" using Cons.prems(1) by (auto split: bind_splits)
    note s = event_run_steps [OF w(1) Cons.prems(2)]
    have "thread_inv sample_cpu w"
      using flex_thread.steps_inv [OF s] sample_plain Cons.prems(2) by blast
    then show ?case using Cons.IH [OF w(2)] s by (meson rtranclp_trans)
  qed simp
  then show ?thesis using assms new_thread_inv [OF sample_init] by (auto simp: sample_state_def)
qed

lemma sample_reachable: "sample_state n = Some t \<Longrightarrow> reachable sample_cpu t"
  using sample_steps sample_init by (auto simp: reachable_def)

section \<open>Properties\<close>

text \<open>C4 (precise, in-order commit): whatever the thread fetches, issues, predicts, executes out of order and squashes, its
  architectural state (the committed registers and program counter, the number of the last
  committed instruction, the trace) is one that a machine reaches that takes one instruction after the other:
  each step commits the instruction at the committed program counter under the next number, or
  invokes the fault of the instruction there and nothing else of it, or changes the status of the thread. The
  trace numbers the committed instructions from one on without gaps. Hypotheses: control
  instructions do not access memory (\<open>plain_cpu\<close>); the rest of the system keeps \<open>permitted_event\<close>, and no
  status of an instruction is taken back, a store that completes after its commit apart (\<open>forward\<close>), both part of \<open>tstep\<close>.\<close>

theorem thread_commits_in_order:
  assumes "plain_cpu c" "new_thread c tc = Some t0" "(tstep c)\<^sup>*\<^sup>* t0 t"
  shows "(seq_step c)\<^sup>*\<^sup>* (tc, 0, []) (committedState t, lastCommittedInstNum t, trace t)
    \<and> lastCommittedInstNum t = of_nat (length (trace t))
    \<and> (\<forall>i < length (trace t). tr_seq (trace t ! i) = of_nat (Suc i))"
proof -
  have "arch t0 = (tc, 0, [])" using assms(2) by (auto simp: new_thread_def arch_def split: if_splits)
  moreover have "(seq_step c)\<^sup>*\<^sup>* (arch t0) (arch t)"
    by (rule flex_thread.reached_view [OF _ assms(3)]) (use assms in blast)
  ultimately have "(seq_step c)\<^sup>*\<^sup>* (tc, 0, []) (committedState t, lastCommittedInstNum t, trace t)" by (simp add: arch_def)
  then show ?thesis using seq_run_numbers by blast
qed

theorem thread_commits_in_order_witness:
  "\<exists>t. (tstep sample_cpu)\<^sup>*\<^sup>* sample_start t \<and> length (trace t) = 1
    \<and> (seq_step sample_cpu)\<^sup>*\<^sup>* (sample_tc, 0, []) (committedState t, 1, trace t)"
proof -
  have "map_option (\<lambda>t. (lastCommittedInstNum t, length (trace t))) (sample_state 8) = Some (1, 1)" by code_simp
  then obtain t where t: "sample_state 8 = Some t" "lastCommittedInstNum t = 1" "length (trace t) = 1" by auto
  from thread_commits_in_order [OF sample_plain sample_init sample_steps [OF t(1)]] t sample_steps [OF t(1)]
  show ?thesis by auto
qed

text \<open>C5 (the instruction buffer): between two events the buffer of a thread holds distinct instructions that exist, at
  most as many as configured, numbered consecutively after the last committed one. The first is at
  the committed program counter. Each one that has a successor was issued and is not squashed, and
  the successor is at the program counter that it computes, unless it is a branch that has not completed,
  in which case there is a branch predictor that was asked. Hypotheses as for the commit.\<close>

theorem instruction_buffer_in_order:
  assumes "plain_cpu c" "reachable c t" "agenda (sys t) = []"
  shows "distinct (inflightInsts t) \<and> (\<forall>p \<in> set (inflightInsts t). alive t p)
    \<and> (inflightInstsMaxSize c \<noteq> 0 \<longrightarrow> length (inflightInsts t) \<le> unat (inflightInstsMaxSize c))
    \<and> (\<forall>i < length (inflightInsts t). seqNum (info t (inflightInsts t ! i)) = lastCommittedInstNum t + of_nat (Suc i))
    \<and> (inflightInsts t \<noteq> [] \<longrightarrow> location (pcState (info t (hd (inflightInsts t)))) = location (tc_pc (committedState t)))
    \<and> (\<forall>i. Suc i < length (inflightInsts t) \<longrightarrow> (\<exists>si. static t (inflightInsts t ! i) = Some si
        \<and> live t (inflightInsts t ! i) \<and> holds (\<lambda>j. Issued \<le> i_status j) t (inflightInsts t ! i)
        \<and> (if isControl si \<and> \<not> holds isComplete t (inflightInsts t ! i) then hasBranchPredictor c
           else location (pcState (info t (inflightInsts t ! Suc i)))
             = location (advancePC si (pcState (info t (inflightInsts t ! i)))))))"
proof -
  have inv: "thread_inv c t" by (rule reachable_inv [OF assms(1,2)])
  then have b: "buffer_inv c (core t)" by (simp add: thread_inv_def)
  obtain tc t0 where t0: "new_thread c tc = Some t0" "(tstep c)\<^sup>*\<^sup>* t0 t" using assms(2) by (auto simp: reachable_def)
  have "room c t" by (rule flex_room.reached_inv [OF _ t0(2)]) (use t0(1) in blast)
  moreover have "distinct (inflightInsts t) \<and> (\<forall>p \<in> set (inflightInsts t). alive t p)"
    using buffer_inv_parts(1) [OF b] by (simp add: inv_ids_def strict_sorted_iff core_preds)
  ultimately show ?thesis
    using quiet_numbers [OF inv assms(3)] quiet_head [OF inv assms(3)] inner_issued [OF inv] quiet_chain [OF inv assms(3)]
    unfolding room_def by blast
qed

theorem instruction_buffer_in_order_witness:
  "\<exists>t. sample_state 5 = Some t \<and> inflightInsts t = [0, 1]
    \<and> location (pcState (info t 1)) = location (advancePC add_inst (pcState (info t 0)))"
proof -
  have "map_option (\<lambda>t. (inflightInsts t, agenda (sys t), static t 0)) (sample_state 5) = Some ([0, 1], [], Some add_inst)"
    by code_simp
  then obtain t where t: "sample_state 5 = Some t" "inflightInsts t = [0, 1]" "agenda (sys t) = []" "static t 0 = Some add_inst" by auto
  from instruction_buffer_in_order [OF sample_plain sample_reachable [OF t(1)] t(3)]
  have "location (pcState (info t 1)) = location (advancePC add_inst (pcState (info t 0)))"
    using t(2,4) by (auto simp: add_inst_def)
  with t show ?thesis by blast
qed

text \<open>C6 (operands of an issued instruction): when an instruction that is in the buffer is issued, the source recorded for each operand
  that is not the zero register is the result of the youngest older instruction in flight that writes that register, if there is one; and if
  that instruction has not completed, it holds the callback that will release the new one, so
  the new one waits for it. Hypotheses as for the commit, and that decoding has made room for the sources.\<close>

theorem issue_finds_youngest_writer:
  assumes "plain_cpu c" "reachable c t" "Issue p \<in> set (requests t)" "live t p" "onIssueAccessed c p t = Some t'"
    and "static t p = Some si" "length (sources (info t p)) = length (srcRegIdx si)"
    and "k < length (srcRegIdx si)" "r = flattenRegId (srcRegIdx si ! k)" "\<not> isZeroReg r"
    and "youngest_writer (\<lambda>x. static t x) r (butlast (inflightInsts t)) = Some (q, n)"
  shows "sources (info t' p) ! k = Some (q, n)
    \<and> (\<forall>j. store (sys t) q = Some j \<and> \<not> isComplete j \<longrightarrow>
        (\<exists>j'. store (sys t') q = Some j' \<and> Release Exec p \<in> set (completionCallbacks j')))"
  by (rule issue_youngest_writer [OF assms])

theorem issue_finds_youngest_writer_witness:
  "\<exists>t t'. sample_state 5 = Some t \<and> onIssueAccessed sample_cpu 1 t = Some t' \<and> sources (info t' 1) ! 0 = Some (0, 0)"
proof -
  have "map_option (\<lambda>t. (inflightInsts t, requests t, live t 1, static t 0, static t 1, length (sources (info t 1)))) (sample_state 5)
      = Some ([0, 1], [IssueTid 0, Issue 1], True, Some add_inst, Some add_inst, 1)"
    by code_simp
  then obtain t where t: "sample_state 5 = Some t" "inflightInsts t = [0, 1]" "requests t = [IssueTid 0, Issue 1]" "live t 1"
    "static t 0 = Some add_inst" "static t 1 = Some add_inst" "length (sources (info t 1)) = 1" by auto
  have "map_option (\<lambda>t. onIssueAccessed sample_cpu 1 t \<noteq> None) (sample_state 5) = Some True" by code_simp
  then obtain t' where t': "onIssueAccessed sample_cpu 1 t = Some t'" using t(1) by auto
  from issue_finds_youngest_writer [OF sample_plain sample_reachable [OF t(1)] _ t(4) t' t(6), of 0 _ 0 0] t t' show ?thesis
    by (simp add: add_inst_def flattenRegId_def isZeroReg_def)
qed

end
