(* ===== verification/Dijkstra.thy ===== *)
theory Dijkstra
  imports Dijkstra_Matrix
begin

text \<open>
  The shortest-path benchmark \<open>network/dijkstra\<close>: the queue of \<open>enqueue\<close>, \<open>dequeue\<close> and \<open>qcount\<close>, a
  singly linked list of heap cells, and the search of \<open>dijkstra\<close>, which corrects the labels of the
  100 nodes in first-in first-out order.

  The heap maps the addresses in use to their cells; \<open>malloc\<close> is a parameter that picks a free
  address of a heap or fails. \<open>None\<close> as the result of an operation stands for \<open>exit(1)\<close>, for a loop
  that does not end and for a dangling pointer. The loop counters \<open>ch\<close> and \<open>i\<close> and the variable
  \<open>iCost\<close> are written before every read and are not kept in the state. Sums of costs are taken over
  the integers: for the matrices admitted by \<open>weights_ok\<close> they stay below 10001.

  The queue is proved to implement a list. For every matrix whose costs are absent or between 0 and
  100, as those of \<open>setArray\<close> are, the search returns, the labels are the costs of shortest walks,
  and the heap is as before.
\<close>

section \<open>State\<close>

record NODE =
  n_iDist :: int
  n_iPrev :: int

record QITEM =
  q_iNode :: int
  q_iDist :: int
  q_iPrev :: int
  qNext :: "nat option"

type_synonym qheap = "nat \<rightharpoonup> QITEM"
type_synonym allocator = "qheap \<Rightarrow> nat option"

record globals =
  g_heap :: qheap
  qHead :: "nat option"
  g_qCount :: int
  AdjMatrix :: "int list list"
  rgnNodes :: "NODE list"
  g_iNode :: int
  g_iDist :: int
  g_iPrev :: int

section \<open>The queue\<close>

partial_function (option) qlast :: "qheap \<Rightarrow> nat \<Rightarrow> nat option" where
  "qlast h p = do { it \<leftarrow> h p; case qNext it of None \<Rightarrow> Some p | Some p' \<Rightarrow> qlast h p' }"

definition enqueue :: "allocator \<Rightarrow> int \<Rightarrow> int \<Rightarrow> int \<Rightarrow> globals \<Rightarrow> globals option" where
  "enqueue malloc iNode iDist iPrev s = do {
     qNew \<leftarrow> malloc (g_heap s);
     let h = (g_heap s)(qNew \<mapsto> \<lparr>q_iNode = iNode, q_iDist = iDist, q_iPrev = iPrev, qNext = None\<rparr>);
     s \<leftarrow> (case qHead s of
         None \<Rightarrow> Some (s\<lparr>g_heap := h, qHead := Some qNew\<rparr>)
       | Some p \<Rightarrow> do {
           l \<leftarrow> qlast h p;
           it \<leftarrow> h l;
           Some (s\<lparr>g_heap := h(l \<mapsto> it\<lparr>qNext := Some qNew\<rparr>)\<rparr>)
         });
     Some (s\<lparr>g_qCount := g_qCount s + 1\<rparr>)
   }"

definition dequeue :: "globals \<Rightarrow> globals option" where
  "dequeue s =
     (case qHead s of None \<Rightarrow> Some s
      | Some qKill \<Rightarrow> do {
          it \<leftarrow> g_heap s qKill;
          Some (s\<lparr>g_iNode := q_iNode it, g_iDist := q_iDist it, g_iPrev := q_iPrev it, qHead := qNext it,
            g_heap := (g_heap s)(qKill := None), g_qCount := g_qCount s - 1\<rparr>)
        })"

definition qcount :: "globals \<Rightarrow> int" where
  "qcount s = g_qCount s"

section \<open>The search\<close>

definition relax :: "allocator \<Rightarrow> nat \<Rightarrow> globals \<Rightarrow> globals option" where
  "relax malloc i s =
     (let iCost = AdjMatrix s ! nat (g_iNode s) ! i in
      if iCost \<noteq> NONE then
        if NONE = n_iDist (rgnNodes s ! i) \<or> n_iDist (rgnNodes s ! i) > iCost + g_iDist s then
          enqueue malloc (int i) (g_iDist s + iCost) (g_iNode s)
            (s\<lparr>rgnNodes := (rgnNodes s)[i := \<lparr>n_iDist = g_iDist s + iCost, n_iPrev = g_iNode s\<rparr>]\<rparr>)
        else Some s
      else Some s)"

partial_function (option) search_loop :: "allocator \<Rightarrow> globals \<Rightarrow> globals option" where
  "search_loop malloc s =
     (if qcount s > 0 then do {
        s \<leftarrow> dequeue s;
        s \<leftarrow> fold_opt (relax malloc) [0..<100] s;
        search_loop malloc s
      } else Some s)"

definition dijkstra :: "allocator \<Rightarrow> nat \<Rightarrow> nat \<Rightarrow> globals \<Rightarrow> globals option" where
  "dijkstra malloc chStart chEnd s =
     (let s = s\<lparr>rgnNodes := map (\<lambda>ch. \<lparr>n_iDist = NONE, n_iPrev = NONE\<rparr>) [0..<100]\<rparr> in
      if chStart = chEnd then Some s
      else do {
        let s = s\<lparr>rgnNodes := (rgnNodes s)[chStart := \<lparr>n_iDist = 0, n_iPrev = NONE\<rparr>]\<rparr>;
        s \<leftarrow> enqueue malloc (int chStart) 0 NONE s;
        search_loop malloc s
      })"

text \<open>The main program with its number of searches, 20 in \<open>dijkstra_small.c\<close> and 100 in
  \<open>dijkstra_large.c\<close>; \<open>j\<close> starts at 50 and is reduced modulo 100 in every round.\<close>

definition dijkstra_main :: "nat \<Rightarrow> allocator \<Rightarrow> globals \<Rightarrow> globals option" where
  "dijkstra_main rounds malloc s = do {
     let s = s\<lparr>AdjMatrix := setArray\<rparr>;
     (s, j) \<leftarrow> fold_opt (\<lambda>i (s, j). do {
         let j = j mod 100;
         s \<leftarrow> dijkstra malloc i j s;
         Some (s, j + 1)
       }) [0..<rounds] (s, 50);
     Some s
   }"

section \<open>The queue implements a list\<close>

definition malloc_ok :: "allocator \<Rightarrow> bool" where
  "malloc_ok malloc \<longleftrightarrow> (\<forall>h. finite (dom h) \<longrightarrow> (\<exists>a. malloc h = Some a \<and> h a = None))"

primrec chain :: "qheap \<Rightarrow> nat option \<Rightarrow> nat list \<Rightarrow> bool" where
  "chain h p [] \<longleftrightarrow> p = None"
| "chain h p (a # as) \<longleftrightarrow> p = Some a \<and> (\<exists>it. h a = Some it \<and> chain h (qNext it) as)"

definition item :: "QITEM \<Rightarrow> int \<times> int \<times> int" where
  "item it = (q_iNode it, q_iDist it, q_iPrev it)"

text \<open>\<open>queue_rel base s q\<close>: the cells reachable from \<open>qHead\<close> hold \<open>q\<close>, in order, and the rest of the heap
  is \<open>base\<close>.\<close>

definition queue_rel :: "qheap \<Rightarrow> globals \<Rightarrow> (int \<times> int \<times> int) list \<Rightarrow> bool" where
  "queue_rel base s q \<longleftrightarrow> (\<exists>as. distinct as \<and> chain (g_heap s) (qHead s) as
     \<and> map (\<lambda>a. map_option item (g_heap s a)) as = map Some q
     \<and> g_heap s |` (- set as) = base \<and> finite (dom base) \<and> set as \<inter> dom base = {} \<and> g_qCount s = int (length q))"

lemma chain_cong: "(\<And>a. a \<in> set as \<Longrightarrow> h a = h' a) \<Longrightarrow> chain h p as = chain h' p as"
  by (induction as arbitrary: p) auto

lemma chain_qlast: "chain h p as \<Longrightarrow> as \<noteq> [] \<Longrightarrow> qlast h (the p) = Some (last as)"
proof (induction as arbitrary: p)
  case (Cons a as)
  then obtain it where it: "p = Some a" "h a = Some it" "chain h (qNext it) as" by auto
  then show ?case
    using Cons.IH [of "qNext it"] by (cases as) (auto simp: qlast.simps [of h a])
qed simp

lemma chain_snoc:
  "chain h p as \<Longrightarrow> as \<noteq> [] \<Longrightarrow> distinct (as @ [n]) \<Longrightarrow> h n = Some it' \<Longrightarrow> qNext it' = None \<Longrightarrow>
     chain (h(last as \<mapsto> (the (h (last as)))\<lparr>qNext := Some n\<rparr>)) p (as @ [n])"
proof (induction as arbitrary: p)
  case (Cons a as)
  then obtain it where it: "p = Some a" "h a = Some it" "chain h (qNext it) as" by auto
  show ?case
  proof (cases "as = []")
    case True
    then show ?thesis using it Cons.prems by auto
  next
    case False
    then have "a \<noteq> last as" using Cons.prems(3) by auto
    with False it Cons.IH [OF it(3)] Cons.prems show ?thesis by auto
  qed
qed simp

lemma chain_dom: "chain h p as \<Longrightarrow> set as \<subseteq> dom h"
  by (induction as arbitrary: p) auto

lemma queue_rel_empty: "queue_rel base s [] \<longleftrightarrow> qHead s = None \<and> g_heap s = base \<and> finite (dom base) \<and> g_qCount s = 0"
  by (auto simp: queue_rel_def)

lemma queue_rel_update:
  "queue_rel base (s\<lparr>rgnNodes := r\<rparr>) q \<longleftrightarrow> queue_rel base s q"
  "queue_rel base (s\<lparr>AdjMatrix := A\<rparr>) q \<longleftrightarrow> queue_rel base s q"
  by (simp_all add: queue_rel_def)

lemma enqueue_refines:
  assumes "malloc_ok malloc" "queue_rel base s q"
  shows "\<exists>s'. enqueue malloc n d p s = Some s' \<and> queue_rel base s' (q @ [(n, d, p)])
    \<and> rgnNodes s' = rgnNodes s \<and> AdjMatrix s' = AdjMatrix s \<and> g_iNode s' = g_iNode s \<and> g_iDist s' = g_iDist s"
proof -
  obtain as where as: "distinct as" "chain (g_heap s) (qHead s) as"
    "map (\<lambda>a. map_option item (g_heap s a)) as = map Some q" "g_heap s |` (- set as) = base" "finite (dom base)"
    "set as \<inter> dom base = {}" "g_qCount s = int (length q)"
    using assms(2) by (auto simp: queue_rel_def)
  have "dom (g_heap s) \<subseteq> dom base \<union> set as" using as(4) by (auto simp: restrict_map_def dom_def)
  then have "finite (dom (g_heap s))" using as(5) finite_subset by blast
  then obtain a where a: "malloc (g_heap s) = Some a" "g_heap s a = None" using assms(1) by (auto simp: malloc_ok_def)
  have na: "a \<notin> set as" using a(2) chain_dom [OF as(2)] by auto
  have nb: "a \<notin> dom base" using a(2) as(4) by (auto simp: restrict_map_def split: if_splits)
  let ?it = "\<lparr>q_iNode = n, q_iDist = d, q_iPrev = p, qNext = None\<rparr>"
  define h where "h = (g_heap s)(a \<mapsto> ?it)"
  have h: "h a = Some ?it" "x \<noteq> a \<Longrightarrow> h x = g_heap s x" for x by (simp_all add: h_def)
  have ch: "chain h (qHead s) as" using as(2) na by (subst chain_cong [of as h "g_heap s"]) (auto simp: h_def)
  show ?thesis
  proof (cases "as = []")
    case True
    then have "q = []" "qHead s = None" using as(2,3) by auto
    then show ?thesis
      using True a as nb
      by (auto simp: enqueue_def queue_rel_def item_def restrict_map_def fun_eq_iff intro!: exI [of _ "[a]"])
  next
    case False
    then obtain b where b: "qHead s = Some b" using as(2) by (cases as) auto
    define l where "l = last as"
    have l: "l \<in> set as" "l \<noteq> a" using False na by (auto simp: l_def)
    then obtain it where it: "h l = Some it" using chain_dom [OF ch] by auto
    define h' where "h' = h(l \<mapsto> it\<lparr>qNext := Some a\<rparr>)"
    have ql: "qlast h b = Some l" using chain_qlast [OF ch False] b by (simp add: l_def)
    have "chain h' (qHead s) (as @ [a])"
      using chain_snoc [OF ch False _ h(1)] as(1) na it by (simp add: h'_def l_def)
    moreover have "map_option item (h' x) = map_option item (g_heap s x)" if "x \<in> set as" for x
    proof -
      have "h x = g_heap s x" using that na by (auto simp: h_def)
      with it show ?thesis by (cases "x = l") (auto simp: h'_def item_def dest: sym)
    qed
    then have "map (\<lambda>a. map_option item (h' a)) as = map Some q" using as(3) by (metis (mono_tags, lifting) map_cong)
    moreover have "map_option item (h' a) = Some (n, d, p)" using l(2) by (simp add: h'_def h item_def)
    moreover have "h' |` (- set (as @ [a])) = base"
      unfolding as(4) [symmetric] using l(1) a(2) by (auto simp: h'_def h_def restrict_map_def fun_eq_iff)
    moreover have "enqueue malloc n d p s = Some (s\<lparr>g_heap := h', g_qCount := g_qCount s + 1\<rparr>)"
      using a(1) b ql it by (simp add: enqueue_def h_def [symmetric] h'_def del: fun_upd_apply)
    ultimately show ?thesis
      using as(1,5,6,7) na nb by (auto simp: queue_rel_def intro!: exI [of _ "as @ [a]"])
  qed
qed

lemma dequeue_refines:
  assumes "queue_rel base s ((n, d, p) # q)"
  shows "\<exists>s'. dequeue s = Some s' \<and> queue_rel base s' q \<and> g_iNode s' = n \<and> g_iDist s' = d \<and> g_iPrev s' = p
    \<and> rgnNodes s' = rgnNodes s \<and> AdjMatrix s' = AdjMatrix s"
proof -
  obtain as where as: "distinct as" "chain (g_heap s) (qHead s) as"
    "map (\<lambda>a. map_option item (g_heap s a)) as = map Some ((n, d, p) # q)" "g_heap s |` (- set as) = base"
    "finite (dom base)" "set as \<inter> dom base = {}" "g_qCount s = int (length ((n, d, p) # q))"
    using assms unfolding queue_rel_def by blast
  then obtain a as' where aa: "as = a # as'" by (cases as) auto
  then obtain it where it: "qHead s = Some a" "g_heap s a = Some it" "chain (g_heap s) (qNext it) as'" "item it = (n, d, p)"
    using as(2,3) by auto
  let ?h = "(g_heap s)(a := None)"
  have na: "a \<notin> set as'" using as(1) aa by simp
  have "chain ?h (qNext it) as'" using it(3) na by (subst chain_cong [of as' _ "g_heap s"]) auto
  moreover have "map (\<lambda>x. map_option item (?h x)) as' = map (\<lambda>x. map_option item (g_heap s x)) as'"
    using na by (intro map_cong) auto
  then have "map (\<lambda>x. map_option item (?h x)) as' = map Some q" using as(3) aa by (simp del: map_eq_conv)
  moreover have "?h |` (- set as') = base"
    unfolding as(4) [symmetric] using aa by (auto simp: restrict_map_def fun_eq_iff)
  ultimately have "queue_rel base (s\<lparr>g_iNode := n, g_iDist := d, g_iPrev := p, qHead := qNext it, g_heap := ?h,
      g_qCount := g_qCount s - 1\<rparr>) q"
    using as aa by (auto simp: queue_rel_def intro!: exI [of _ as'])
  then show ?thesis using it by (simp add: dequeue_def item_def)
qed

primrec drain :: "('s \<Rightarrow> ('x \<times> 's) option) \<Rightarrow> nat \<Rightarrow> 's \<Rightarrow> ('x list \<times> 's) option" where
  "drain deq 0 s = Some ([], s)"
| "drain deq (Suc n) s = do { (x, s) \<leftarrow> deq s; (xs, s) \<leftarrow> drain deq n s; Some (x # xs, s) }"

text \<open>The contract the search relies on.\<close>

locale fifo =
  fixes rel :: "'s \<Rightarrow> 'x list \<Rightarrow> bool" and enq :: "'x \<Rightarrow> 's \<Rightarrow> 's option" and deq :: "'s \<Rightarrow> ('x \<times> 's) option"
  assumes enq: "rel s q \<Longrightarrow> \<exists>s'. enq x s = Some s' \<and> rel s' (q @ [x])"
    and deq: "rel s (x # q) \<Longrightarrow> \<exists>s'. deq s = Some (x, s') \<and> rel s' q"
begin

lemma enq_all: "rel s q \<Longrightarrow> \<exists>s'. fold_opt enq xs s = Some s' \<and> rel s' (q @ xs)"
proof (induction xs arbitrary: s q)
  case (Cons x xs)
  obtain s1 where "enq x s = Some s1" "rel s1 (q @ [x])" using enq [OF Cons.prems] by blast
  with Cons.IH [of s1 "q @ [x]"] show ?case by auto
qed simp

lemma drain_all: "rel s (xs @ q) \<Longrightarrow> \<exists>s'. drain deq (length xs) s = Some (xs, s') \<and> rel s' q"
proof (induction xs arbitrary: s)
  case (Cons x xs)
  then obtain s1 where "deq s = Some (x, s1)" "rel s1 (xs @ q)" using deq by force
  with Cons.IH [of s1] show ?case by auto
qed simp

lemma first_in_first_out:
  assumes "rel s []"
  obtains s1 s2 where "fold_opt enq xs s = Some s1" "drain deq (length xs) s1 = Some (xs, s2)" "rel s2 []"
proof -
  obtain s1 where s1: "fold_opt enq xs s = Some s1" "rel s1 xs" using enq_all [OF assms, of xs] by auto
  then show ?thesis using drain_all [of s1 xs "[]"] that by auto
qed

end

definition dequeue_item :: "globals \<Rightarrow> ((int \<times> int \<times> int) \<times> globals) option" where
  "dequeue_item s = do { s \<leftarrow> dequeue s; Some ((g_iNode s, g_iDist s, g_iPrev s), s) }"

interpretation queue: fifo "\<lambda>(malloc, s) q. malloc_ok malloc \<and> queue_rel base s q"
  "\<lambda>(n, d, p) (malloc, s). map_option (Pair malloc) (enqueue malloc n d p s)"
  "\<lambda>(malloc, s). map_option (\<lambda>(x, s). (x, malloc, s)) (dequeue_item s)" for base
proof (unfold_locales, goal_cases)
  case (1 ms q x)
  then show ?case
    using enqueue_refines [of "fst ms" base "snd ms" q "fst x" "fst (snd x)" "snd (snd x)"] by (cases ms; cases x) auto
next
  case (2 ms x q)
  then show ?case
    using dequeue_refines [of base "snd ms" "fst x" "fst (snd x)" "snd (snd x)" q]
    by (cases ms; cases x) (auto simp: dequeue_item_def)
qed

section \<open>Labels and walks\<close>

inductive walk :: "int list list \<Rightarrow> nat \<Rightarrow> nat \<Rightarrow> int \<Rightarrow> bool" for A src where
  start: "walk A src src 0"
| edge: "walk A src u d \<Longrightarrow> u < 100 \<Longrightarrow> v < 100 \<Longrightarrow> A ! u ! v \<noteq> NONE \<Longrightarrow> walk A src v (d + A ! u ! v)"

abbreviation dist :: "globals \<Rightarrow> nat \<Rightarrow> int" where
  "dist s v \<equiv> n_iDist (rgnNodes s ! v)"

definition relaxed :: "globals \<Rightarrow> nat \<Rightarrow> int \<Rightarrow> nat \<Rightarrow> bool" where
  "relaxed s u d w \<longleftrightarrow> AdjMatrix s ! u ! w \<noteq> NONE \<longrightarrow> dist s w \<noteq> NONE \<and> dist s w \<le> d + AdjMatrix s ! u ! w"

text \<open>A label of \<open>d\<close> needs a chain of nodes with smaller labels: it is at most 100 times the number of
  nodes whose label is at most \<open>d\<close>, the first not counted.\<close>

definition small :: "globals \<Rightarrow> int \<Rightarrow> bool" where
  "small s d \<longleftrightarrow> 0 \<le> d \<and> d + 100 \<le> 100 * int (card {w. w < 100 \<and> dist s w \<le> d})"

definition pred_ok :: "nat \<Rightarrow> globals \<Rightarrow> nat \<Rightarrow> bool" where
  "pred_ok src s v \<longleftrightarrow> v = src \<or> (\<exists>u<100. n_iPrev (rgnNodes s ! v) = int u \<and> AdjMatrix s ! u ! v \<noteq> NONE
     \<and> dist s u \<noteq> NONE \<and> dist s u + AdjMatrix s ! u ! v \<le> dist s v)"

definition label_ok :: "nat \<Rightarrow> globals \<Rightarrow> nat \<Rightarrow> bool" where
  "label_ok src s v \<longleftrightarrow> dist s v = NONE \<or> walk (AdjMatrix s) src v (dist s v) \<and> 0 \<le> dist s v \<and> dist s v \<le> 9900
     \<and> pred_ok src s v"

definition item_ok :: "nat \<Rightarrow> globals \<Rightarrow> int \<times> int \<times> int \<Rightarrow> bool" where
  "item_ok src s x \<longleftrightarrow> (\<exists>u<100. fst x = int u \<and> walk (AdjMatrix s) src u (fst (snd x)) \<and> small s (fst (snd x))
     \<and> dist s u \<le> fst (snd x))"

definition labels :: "nat \<Rightarrow> globals \<Rightarrow> (int \<times> int \<times> int) list \<Rightarrow> bool" where
  "labels src s q \<longleftrightarrow> weights_ok (AdjMatrix s) \<and> length (rgnNodes s) = 100 \<and> src < 100 \<and> dist s src = 0
     \<and> (\<forall>v<100. label_ok src s v) \<and> (\<forall>x \<in> set q. item_ok src s x)"

text \<open>Nodes whose label is not yet propagated are queued with it.\<close>

definition pending :: "globals \<Rightarrow> (int \<times> int \<times> int) list \<Rightarrow> nat \<Rightarrow> bool" where
  "pending s q v \<longleftrightarrow> dist s v = NONE \<or> (\<exists>p. (int v, dist s v, p) \<in> set q) \<or> (\<forall>w<100. relaxed s v (dist s v) w)"

definition potential :: "globals \<Rightarrow> (int \<times> int \<times> int) list \<Rightarrow> int" where
  "potential s q = (\<Sum>v<100. dist s v) + int (length q)"

lemma weights_okD:
  assumes "weights_ok A" "u < 100" "v < 100"
  shows "A ! u ! v = NONE \<or> 0 \<le> A ! u ! v \<and> A ! u ! v \<le> 100"
  using assms by (simp add: weights_ok_def list_all_length)

lemma small_bound: "small s d \<Longrightarrow> d \<le> 9900"
proof -
  assume s: "small s d"
  have "card {w. w < 100 \<and> dist s w \<le> d} \<le> card {..<100 :: nat}" by (rule card_mono) auto
  with s show ?thesis by (simp add: small_def)
qed

lemma small_mono:
  assumes "\<And>w. w < 100 \<Longrightarrow> dist s' w \<le> dist s w" "small s d"
  shows "small s' d"
proof -
  have "card {w. w < 100 \<and> dist s w \<le> d} \<le> card {w. w < 100 \<and> dist s' w \<le> d}"
    using assms(1) by (intro card_mono) (auto intro: order_trans)
  with assms(2) show ?thesis by (simp add: small_def)
qed

text \<open>The new label of a node stays small.\<close>

lemma small_step:
  assumes "small s d" "v < 100" "d < dist s v" "0 \<le> c" "c \<le> 100"
    and "dist s' v = d + c" "\<And>w. w < 100 \<Longrightarrow> w \<noteq> v \<Longrightarrow> dist s' w = dist s w"
  shows "small s' (d + c)"
proof -
  let ?S = "{w. w < 100 \<and> dist s w \<le> d}" and ?S' = "{w. w < 100 \<and> dist s' w \<le> d + c}"
  have "insert v ?S \<subseteq> ?S'" using assms by (auto, smt)
  then have "card (insert v ?S) \<le> card ?S'" by (intro card_mono) auto
  moreover have "card (insert v ?S) = Suc (card ?S)" using assms(3) by (intro card_insert_disjoint) auto
  ultimately show ?thesis using assms(1,4,5) by (simp add: small_def)
qed

lemma relax_frame:
  assumes "malloc_ok malloc" "queue_rel base s q" "i < 100" "length (rgnNodes s) = 100"
  defines "c \<equiv> AdjMatrix s ! nat (g_iNode s) ! i"
  shows "\<exists>s' q'. relax malloc i s = Some s' \<and> queue_rel base s' q' \<and> AdjMatrix s' = AdjMatrix s
    \<and> g_iNode s' = g_iNode s \<and> g_iDist s' = g_iDist s
    \<and> (if c \<noteq> NONE \<and> (dist s i = NONE \<or> dist s i > c + g_iDist s)
        then q' = q @ [(int i, g_iDist s + c, g_iNode s)]
          \<and> rgnNodes s' = (rgnNodes s)[i := \<lparr>n_iDist = g_iDist s + c, n_iPrev = g_iNode s\<rparr>]
        else q' = q \<and> s' = s)"
proof (cases "c \<noteq> NONE \<and> (dist s i = NONE \<or> dist s i > c + g_iDist s)")
  case True
  let ?s = "s\<lparr>rgnNodes := (rgnNodes s)[i := \<lparr>n_iDist = g_iDist s + c, n_iPrev = g_iNode s\<rparr>]\<rparr>"
  have "queue_rel base ?s q" using assms(2) by (simp add: queue_rel_update)
  from enqueue_refines [OF assms(1) this, of "int i" "g_iDist s + c" "g_iNode s"] True show ?thesis
    unfolding relax_def c_def [symmetric] Let_def by auto
next
  case False
  then have "relax malloc i s = Some s" unfolding relax_def c_def [symmetric] Let_def by auto
  then show ?thesis using False assms(2) by auto
qed

text \<open>One relaxation keeps the labels, and never increases the potential.\<close>

lemma labels_step:
  assumes L: "labels src s q" and u: "u < 100" "walk (AdjMatrix s) src u d" "small s d" "dist s u \<le> d"
    and i: "i < 100" and c: "c = AdjMatrix s ! u ! i" "c \<noteq> NONE" "dist s i = NONE \<or> dist s i > c + d"
    and s': "rgnNodes s' = (rgnNodes s)[i := \<lparr>n_iDist = d + c, n_iPrev = int u\<rparr>]" "AdjMatrix s' = AdjMatrix s"
  shows "labels src s' (q @ [(int i, d + c, int u)])"
    and "potential s' (q @ [(int i, d + c, int u)]) \<le> potential s q"
    and "\<And>w. w < 100 \<Longrightarrow> dist s' w \<le> dist s w" and "dist s' i = d + c" "d + c < dist s i" "d + c \<noteq> NONE"
proof -
  have W: "weights_ok (AdjMatrix s)" "length (rgnNodes s) = 100" "src < 100" "dist s src = 0"
    and lab: "\<And>v. v < 100 \<Longrightarrow> label_ok src s v" and it: "\<And>x. x \<in> set q \<Longrightarrow> item_ok src s x"
    using L by (auto simp: labels_def)
  have c01: "0 \<le> c" "c \<le> 100" using weights_okD [OF W(1) u(1) i] c by auto
  have d0: "0 \<le> d" "d \<le> 9900" using u(3) small_bound [OF u(3)] by (auto simp: small_def)
  have di: "d < dist s i" using c(3) c01 d0 by (auto simp: NONE_def)
  have ds: "dist s' i = d + c" "\<And>w. w < 100 \<Longrightarrow> w \<noteq> i \<Longrightarrow> dist s' w = dist s w"
    using s'(1) W(2) i by simp_all
  have sm: "small s' (d + c)" by (rule small_step [OF u(3) i di c01 ds])
  then have dc: "d + c \<le> 9900" by (rule small_bound)
  show less: "d + c < dist s i" using c(3) dc by (auto simp: NONE_def)
  show le: "dist s' w \<le> dist s w" if "w < 100" for w using ds less that by (cases "w = i") auto
  show "dist s' i = d + c" by (fact ds)
  show dcN: "d + c \<noteq> NONE" using dc by (simp add: NONE_def)
  have "i \<noteq> src" using less c01 d0 W(4) by auto
  have wk: "walk (AdjMatrix s) src i (d + c)" using walk.edge [OF u(2) u(1) i] c(1,2) by simp
  have un: "dist s u \<noteq> NONE" "u \<noteq> i" using u(4) d0 di by (auto simp: NONE_def)
  have lab': "label_ok src s' v" if "v < 100" for v
  proof (cases "v = i")
    case True
    have "pred_ok src s' i"
      unfolding pred_ok_def using u(1,4) un c(1,2) ds s' W(2) i by (intro disjI2 exI [of _ u]) auto
    then show ?thesis using True ds(1) wk dc c01 d0 s'(2) by (simp add: label_ok_def)
  next
    case False
    have "pred_ok src s' v" if pk: "pred_ok src s v"
    proof (cases "v = src")
      case nsrc: False
      then obtain w where w: "w < 100" "n_iPrev (rgnNodes s ! v) = int w" "AdjMatrix s ! w ! v \<noteq> NONE"
        "dist s w \<noteq> NONE" "dist s w + AdjMatrix s ! w ! v \<le> dist s v"
        using pk unfolding pred_ok_def by blast
      have "dist s' w \<noteq> NONE" using w(1,4) ds dcN by (cases "w = i") auto
      moreover have "n_iPrev (rgnNodes s' ! v) = int w" using False s'(1) w(2) by simp
      moreover have "dist s' w + AdjMatrix s' ! w ! v \<le> dist s' v"
        using w(5) le [OF w(1)] ds(2) [OF \<open>v < 100\<close> False] s'(2) by simp
      ultimately show ?thesis using w(1,3) s'(2) unfolding pred_ok_def by (intro disjI2 exI [of _ w]) simp
    qed (simp add: pred_ok_def)
    then show ?thesis using lab [OF that] ds(2) [OF that False] s'(2) by (auto simp: label_ok_def)
  qed
  have it': "item_ok src s' x" if x: "x \<in> set q" for x
  proof -
    obtain w where w: "w < 100" "fst x = int w" "walk (AdjMatrix s) src w (fst (snd x))" "small s (fst (snd x))"
      "dist s w \<le> fst (snd x)"
      using it [OF x] by (auto simp: item_ok_def)
    then show ?thesis
      using le [OF w(1)] small_mono [OF le w(4)] s'(2) unfolding item_ok_def by (intro exI [of _ w]) simp
  qed
  have "item_ok src s' (int i, d + c, int u)" using i wk sm ds(1) s'(2) by (auto simp: item_ok_def)
  then show "labels src s' (q @ [(int i, d + c, int u)])"
    using W lab' it' s' \<open>i \<noteq> src\<close> by (auto simp: labels_def)
  have "(\<Sum>v<100. dist s' v) = (\<Sum>v\<in>{..<100} - {i}. dist s' v) + dist s' i"
    "(\<Sum>v<100. dist s v) = (\<Sum>v\<in>{..<100} - {i}. dist s v) + dist s i"
    using i by (simp_all add: sum.remove)
  moreover have "(\<Sum>v\<in>{..<100} - {i}. dist s' v) = (\<Sum>v\<in>{..<100} - {i}. dist s v)" using ds(2) by (intro sum.cong) auto
  ultimately show "potential s' (q @ [(int i, d + c, int u)]) \<le> potential s q"
    using ds(1) less by (simp add: potential_def)
qed

definition scan :: "nat \<Rightarrow> qheap \<Rightarrow> nat \<Rightarrow> int \<Rightarrow> nat \<Rightarrow> globals \<Rightarrow> (int \<times> int \<times> int) list \<Rightarrow> bool" where
  "scan src base u d i s q \<longleftrightarrow> queue_rel base s q \<and> labels src s q \<and> g_iNode s = int u \<and> g_iDist s = d \<and> u < 100
     \<and> walk (AdjMatrix s) src u d \<and> small s d \<and> dist s u \<le> d \<and> (\<forall>w<i. relaxed s u d w)
     \<and> (\<forall>v<100. pending s q v \<or> v = u \<and> dist s u = d)"

lemma relaxed_mono:
  assumes "relaxed s u d w" "dist s' w \<le> dist s w" "dist s' w = dist s w \<or> dist s' w \<noteq> NONE" "AdjMatrix s' = AdjMatrix s"
  shows "relaxed s' u d w"
  using assms by (auto simp: relaxed_def)

lemma scan_step:
  assumes "malloc_ok malloc" and sc: "scan src base u d i s q" and i: "i < 100"
  shows "\<exists>s' q'. relax malloc i s = Some s' \<and> scan src base u d (Suc i) s' q' \<and> potential s' q' \<le> potential s q
    \<and> AdjMatrix s' = AdjMatrix s"
proof -
  have Q: "queue_rel base s q" and L: "labels src s q" and cur: "g_iNode s = int u" "g_iDist s = d"
    and u: "u < 100" "walk (AdjMatrix s) src u d" "small s d" "dist s u \<le> d"
    and rl: "\<And>w. w < i \<Longrightarrow> relaxed s u d w" and pd: "\<And>v. v < 100 \<Longrightarrow> pending s q v \<or> v = u \<and> dist s u = d"
    using sc by (auto simp: scan_def)
  define c where "c = AdjMatrix s ! u ! i"
  have len: "length (rgnNodes s) = 100" using L by (simp add: labels_def)
  from relax_frame [OF assms(1) Q i len] obtain s' q' where r: "relax malloc i s = Some s'" "queue_rel base s' q'"
    "AdjMatrix s' = AdjMatrix s" "g_iNode s' = g_iNode s" "g_iDist s' = g_iDist s"
    and upd: "if c \<noteq> NONE \<and> (dist s i = NONE \<or> dist s i > c + d)
      then q' = q @ [(int i, d + c, int u)] \<and> rgnNodes s' = (rgnNodes s)[i := \<lparr>n_iDist = d + c, n_iPrev = int u\<rparr>]
      else q' = q \<and> s' = s"
    unfolding cur nat_int c_def [symmetric] by blast
  show ?thesis
  proof (cases "c \<noteq> NONE \<and> (dist s i = NONE \<or> dist s i > c + d)")
    case True
    then have q': "q' = q @ [(int i, d + c, int u)]"
      and s': "rgnNodes s' = (rgnNodes s)[i := \<lparr>n_iDist = d + c, n_iPrev = int u\<rparr>]" using upd by simp_all
    note st = labels_step [OF L u i c_def conjunct1 [OF True] conjunct2 [OF True] s' r(3)]
    have ne: "dist s' w = dist s w \<or> dist s' w \<noteq> NONE" if "w < 100" for w
      using st(4,6) s' by (cases "w = i") auto
    have rm: "relaxed s' v e w" if "relaxed s v e w" "w < 100" for v e w
      by (rule relaxed_mono [OF that(1) st(3) [OF that(2)] ne [OF that(2)] r(3)])
    have ui: "u \<noteq> i" using st(5) u(4) weights_okD [of "AdjMatrix s" u i] L u(1) i True
      by (auto simp: labels_def c_def)
    have pd': "pending s' q' v \<or> v = u \<and> dist s' u = d" if v: "v < 100" for v
    proof (cases "v = i")
      case True
      then show ?thesis using st(4) by (auto simp: pending_def q')
    next
      case False
      then have "dist s' v = dist s v" "dist s' u = dist s u" using s' ui by simp_all
      then show ?thesis using pd [OF v] rm by (auto simp: pending_def q')
    qed
    have "relaxed s' u d w" if "w < Suc i" for w
    proof (cases "w = i")
      case False
      then show ?thesis using that i by (intro rm rl) auto
    qed (use st(4,6) r(3) in \<open>simp add: relaxed_def c_def\<close>)
    then have "scan src base u d (Suc i) s' q'"
      using st(1) r cur u(1,2,4) small_mono [OF st(3) u(3)] st(3) [OF u(1)] pd'
      unfolding scan_def q' by (auto intro: order_trans)
    then show ?thesis using r st(2) q' by auto
  next
    case False
    then have s': "q' = q" "s' = s" using upd by (simp_all del: not_less)
    have "relaxed s u d i" using False by (auto simp: relaxed_def c_def)
    then have "scan src base u d (Suc i) s q" using sc by (auto simp: scan_def less_Suc_eq)
    then show ?thesis using r s' by auto
  qed
qed

lemma fold_opt_append: "fold_opt f (xs @ ys) s = Option.bind (fold_opt f xs s) (fold_opt f ys)"
  by (induction xs arbitrary: s) (auto split: bind_split)

lemma scan_loop:
  assumes "malloc_ok malloc" "scan src base u d 0 s q" "n \<le> 100"
  shows "\<exists>s' q'. fold_opt (relax malloc) [0..<n] s = Some s' \<and> scan src base u d n s' q'
    \<and> potential s' q' \<le> potential s q \<and> AdjMatrix s' = AdjMatrix s"
  using assms(3)
proof (induction n)
  case 0
  then show ?case using assms(2) by auto
next
  case (Suc n)
  then obtain s1 q1 where 1: "fold_opt (relax malloc) [0..<n] s = Some s1" "scan src base u d n s1 q1"
    "potential s1 q1 \<le> potential s q" "AdjMatrix s1 = AdjMatrix s" by auto
  with scan_step [OF assms(1) 1(2)] Suc.prems show ?case by (fastforce simp: fold_opt_append)
qed

definition search_inv :: "nat \<Rightarrow> qheap \<Rightarrow> globals \<Rightarrow> (int \<times> int \<times> int) list \<Rightarrow> bool" where
  "search_inv src base s q \<longleftrightarrow> queue_rel base s q \<and> labels src s q \<and> (\<forall>v<100. pending s q v)"

lemma potential_nonneg: "labels src s q \<Longrightarrow> 0 \<le> potential s q"
  by (auto simp: potential_def labels_def label_ok_def NONE_def intro!: add_nonneg_nonneg sum_nonneg)

lemma search_step:
  assumes "malloc_ok malloc" "search_inv src base s (x # q)"
  shows "\<exists>s1 s' q'. dequeue s = Some s1 \<and> fold_opt (relax malloc) [0..<100] s1 = Some s' \<and> search_inv src base s' q'
    \<and> potential s' q' < potential s (x # q) \<and> AdjMatrix s' = AdjMatrix s"
proof -
  have L: "labels src s (x # q)" and Q: "queue_rel base s (x # q)" and pd: "\<And>v. v < 100 \<Longrightarrow> pending s (x # q) v"
    using assms(2) by (auto simp: search_inv_def)
  obtain n d p where x: "x = (n, d, p)" by (cases x)
  have "item_ok src s x" using L by (simp add: labels_def)
  then obtain u where u: "u < 100" "n = int u" "walk (AdjMatrix s) src u d" "small s d" "dist s u \<le> d"
    by (auto simp: item_ok_def x)
  obtain s1 where s1: "dequeue s = Some s1" "queue_rel base s1 q" "g_iNode s1 = int u" "g_iDist s1 = d"
    "rgnNodes s1 = rgnNodes s" "AdjMatrix s1 = AdjMatrix s"
    using dequeue_refines [OF Q [unfolded x]] u(2) by auto
  have same: "labels src s1 q" "pending s1 q' v = pending s q' v" "small s1 d" for v q'
    using L u(4) s1(5,6)
    by (auto simp: labels_def label_ok_def pred_ok_def item_ok_def small_def pending_def relaxed_def)
  have "pending s q v \<or> v = u \<and> dist s u = d" if "v < 100" for v
    using pd [OF that] by (auto simp: pending_def x u(2))
  then have "scan src base u d 0 s1 q" using s1 same u by (simp add: scan_def)
  from scan_loop [OF assms(1) this, of 100] obtain s' q' where r: "fold_opt (relax malloc) [0..<100] s1 = Some s'"
    "scan src base u d 100 s' q'" "potential s' q' \<le> potential s1 q" "AdjMatrix s' = AdjMatrix s" using s1(6) by auto
  have "search_inv src base s' q'" using r(2) by (auto simp: scan_def search_inv_def pending_def)
  moreover have "potential s1 q < potential s (x # q)" using s1(5) by (simp add: potential_def)
  ultimately show ?thesis using s1(1) r by force
qed

lemma search_terminates:
  assumes "malloc_ok malloc" "search_inv src base s q"
  shows "\<exists>s'. search_loop malloc s = Some s' \<and> search_inv src base s' [] \<and> AdjMatrix s' = AdjMatrix s"
  using assms(2)
proof (induction "nat (potential s q)" arbitrary: s q rule: less_induct)
  case less
  have cnt: "qcount s = int (length q)" using less.prems by (auto simp: search_inv_def queue_rel_def qcount_def)
  show ?case
  proof (cases q)
    case Nil
    then show ?thesis using less.prems cnt by (simp add: search_loop.simps [of malloc s])
  next
    case (Cons x q1)
    from search_step [OF assms(1) less.prems [unfolded Cons]] obtain s1 s' q' where
      st: "dequeue s = Some s1" "fold_opt (relax malloc) [0..<100] s1 = Some s'" "search_inv src base s' q'"
      "potential s' q' < potential s q" "AdjMatrix s' = AdjMatrix s" unfolding Cons by blast
    have "0 \<le> potential s' q'" using st(3) potential_nonneg by (auto simp: search_inv_def)
    with st(4) have "nat (potential s' q') < nat (potential s q)" by simp
    from less.hyps [OF this st(3)] show ?thesis
      using st cnt Cons by (simp add: search_loop.simps [of malloc s] del: upt_Suc)
  qed
qed

section \<open>The labels are shortest\<close>

definition shortest :: "nat \<Rightarrow> globals \<Rightarrow> nat \<Rightarrow> bool" where
  "shortest src s v \<longleftrightarrow>
     (if \<exists>d. walk (AdjMatrix s) src v d
      then walk (AdjMatrix s) src v (dist s v) \<and> (\<forall>d. walk (AdjMatrix s) src v d \<longrightarrow> dist s v \<le> d) \<and> dist s v < NONE
      else dist s v = NONE)"

definition tree_edge :: "nat \<Rightarrow> globals \<Rightarrow> nat \<Rightarrow> bool" where
  "tree_edge src s v \<longleftrightarrow> v = src \<or> dist s v = NONE
     \<or> (\<exists>u<100. n_iPrev (rgnNodes s ! v) = int u \<and> AdjMatrix s ! u ! v \<noteq> NONE \<and> dist s v = dist s u + AdjMatrix s ! u ! v)"

lemma search_inv_shortest:
  assumes "search_inv src base s []" "v < 100"
  shows "shortest src s v" "tree_edge src s v"
proof -
  have L: "labels src s []" and pd: "\<And>v. v < 100 \<Longrightarrow> pending s [] v" using assms(1) by (auto simp: search_inv_def)
  then have lab: "\<And>v. v < 100 \<Longrightarrow> label_ok src s v" and src: "src < 100" "dist s src = 0" by (auto simp: labels_def)
  have closed: "relaxed s u (dist s u) w" if "u < 100" "dist s u \<noteq> NONE" "w < 100" for u w
    using pd [OF that(1)] that by (auto simp: pending_def)
  have low: "w < 100 \<and> dist s w \<noteq> NONE \<and> dist s w \<le> d" if "walk (AdjMatrix s) src w d" for w d
    using that
  proof induction
    case start
    then show ?case using src by (simp add: NONE_def)
  next
    case (edge u d v)
    then show ?case using closed [of u v] by (auto simp: relaxed_def)
  qed
  show "shortest src s v"
    using low lab [OF assms(2)] by (auto simp: shortest_def label_ok_def NONE_def)
  show "tree_edge src s v"
  proof (cases "v = src \<or> dist s v = NONE")
    case False
    then obtain u where u: "u < 100" "n_iPrev (rgnNodes s ! v) = int u" "AdjMatrix s ! u ! v \<noteq> NONE"
      "dist s u \<noteq> NONE" "dist s u + AdjMatrix s ! u ! v \<le> dist s v"
      using lab [OF assms(2)] by (auto simp: label_ok_def pred_ok_def)
    then have "dist s v \<le> dist s u + AdjMatrix s ! u ! v"
      using closed [OF u(1) u(4) assms(2)] by (auto simp: relaxed_def)
    with u show ?thesis by (auto simp: tree_edge_def)
  qed (auto simp: tree_edge_def)
qed

lemma search_inv_init:
  assumes "weights_ok (AdjMatrix s)" "src < 100" "queue_rel base s [(int src, 0, p)]"
    and r: "rgnNodes s = (map (\<lambda>ch. \<lparr>n_iDist = NONE, n_iPrev = NONE\<rparr>) [0..<100])[src := \<lparr>n_iDist = 0, n_iPrev = NONE\<rparr>]"
  shows "search_inv src base s [(int src, 0, p)]"
proof -
  have d: "dist s v = (if v = src then 0 else NONE)" if "v < 100" for v
    using that assms(2) by (simp add: r nth_list_update)
  have "{w. w < 100 \<and> dist s w \<le> 0} = {src}" using assms(2) d by (auto simp: NONE_def split: if_splits)
  then have "small s 0" by (simp add: small_def)
  then have "item_ok src s (int src, 0, p)" using assms(2) d [OF assms(2)] walk.start by (auto simp: item_ok_def)
  moreover have "label_ok src s v" if "v < 100" for v
    using d [OF that] walk.start by (auto simp: label_ok_def pred_ok_def)
  moreover have "pending s [(int src, 0, p)] v" if "v < 100" for v using d [OF that] by (auto simp: pending_def)
  moreover have "length (rgnNodes s) = 100" by (simp add: r)
  ultimately show ?thesis using assms d [OF assms(2)] by (simp add: search_inv_def labels_def)
qed

lemma dijkstra_shortest:
  assumes "malloc_ok malloc" "queue_rel base s []" "weights_ok (AdjMatrix s)" "src < 100" "src \<noteq> dst"
  shows "\<exists>s'. dijkstra malloc src dst s = Some s' \<and> queue_rel base s' [] \<and> AdjMatrix s' = AdjMatrix s
    \<and> (\<forall>v<100. shortest src s' v \<and> tree_edge src s' v)"
proof -
  define r where "r = (map (\<lambda>ch. \<lparr>n_iDist = NONE, n_iPrev = NONE\<rparr>) [0..<100])[src := \<lparr>n_iDist = 0, n_iPrev = NONE\<rparr>]"
  have "queue_rel base (s\<lparr>rgnNodes := r\<rparr>) []" using assms(2) by (simp add: queue_rel_update)
  from enqueue_refines [OF assms(1) this, of "int src" 0 NONE] obtain s1 where
    s1: "enqueue malloc (int src) 0 NONE (s\<lparr>rgnNodes := r\<rparr>) = Some s1" "queue_rel base s1 [(int src, 0, NONE)]"
    "rgnNodes s1 = r" "AdjMatrix s1 = AdjMatrix s" by auto
  have "search_inv src base s1 [(int src, 0, NONE)]"
    using assms(3,4) s1 unfolding r_def by (intro search_inv_init) simp_all
  from search_terminates [OF assms(1) this] obtain s' where
    s': "search_loop malloc s1 = Some s'" "search_inv src base s' []" "AdjMatrix s' = AdjMatrix s" using s1(4) by auto
  moreover have "dijkstra malloc src dst s = Some s'"
    using assms(5) s1(1) s'(1) by (simp add: dijkstra_def r_def del: upt_Suc)
  ultimately show ?thesis using search_inv_shortest by (auto simp: search_inv_def)
qed

lemma dijkstra_total:
  assumes "malloc_ok malloc" "queue_rel base s []" "weights_ok (AdjMatrix s)" "src < 100"
  shows "\<exists>s'. dijkstra malloc src dst s = Some s' \<and> queue_rel base s' [] \<and> AdjMatrix s' = AdjMatrix s"
proof (cases "src = dst")
  case True
  then show ?thesis using assms(2) by (simp add: dijkstra_def queue_rel_update)
next
  case False
  then show ?thesis using dijkstra_shortest [OF assms False] by blast
qed

lemma dijkstra_main_rounds:
  assumes "malloc_ok malloc" "queue_rel base s []" "rounds \<le> 100"
  shows "\<exists>s'. dijkstra_main rounds malloc s = Some s' \<and> queue_rel base s' []"
proof -
  let ?P = "\<lambda>(s, j :: nat). queue_rel base s [] \<and> weights_ok (AdjMatrix s)"
  have "\<exists>s'. fold_opt (\<lambda>i (s, j). do { let j = j mod 100; s \<leftarrow> dijkstra malloc i j s; Some (s, j + 1) })
      [0..<rounds] (s\<lparr>AdjMatrix := setArray\<rparr>, 50) = Some s' \<and> ?P s'"
  proof (rule fold_opt_Some)
    fix i :: nat and sj :: "globals \<times> nat"
    assume "i \<in> set [0..<rounds]" and P: "?P sj"
    then have "i < 100" using assms(3) by simp
    obtain s j where sj: "sj = (s, j)" by force
    show "\<exists>s'. (\<lambda>(s, j). do { let j = j mod 100; s \<leftarrow> dijkstra malloc i j s; Some (s, j + 1) }) sj = Some s' \<and> ?P s'"
      using dijkstra_total [OF assms(1), of base s i "j mod 100"] P \<open>i < 100\<close> by (auto simp: sj)
  qed (use assms(2) setArray_weights in \<open>simp add: queue_rel_update\<close>)
  then show ?thesis by (auto simp: dijkstra_main_def)
qed

section \<open>A state and an allocator\<close>

definition empty_globals :: globals where
  "empty_globals = \<lparr>g_heap = Map.empty, qHead = None, g_qCount = 0, AdjMatrix = setArray, rgnNodes = [],
     g_iNode = 0, g_iDist = 0, g_iPrev = 0\<rparr>"

definition first_free :: allocator where
  "first_free h = Some (LEAST a. h a = None)"

lemma first_free_ok: "malloc_ok first_free"
proof -
  have "h (LEAST a. h a = None) = None" if fin: "finite (dom h)" for h :: qheap
  proof -
    obtain a where "a \<notin> dom h" using ex_new_if_finite [OF infinite_UNIV_nat fin] by blast
    then have "h a = None" by (simp add: domIff)
    then show ?thesis by (rule LeastI)
  qed
  then show ?thesis by (simp add: malloc_ok_def first_free_def)
qed

lemma empty_globals_rel: "queue_rel Map.empty empty_globals []"
  by (simp add: queue_rel_empty empty_globals_def)

section \<open>Properties\<close>

text \<open>C21 (shortest paths): for every matrix whose costs are absent or between 0 and 100, and different
  start and end nodes, the search returns; each node's label is then the least cost of a walk from
  the start node, and NONE exactly for the nodes no walk reaches; the predecessor stored with a
  label is the last edge of such a walk; the queue is empty and the heap as it was.\<close>

theorem dijkstra_correct:
  assumes "malloc_ok malloc" "queue_rel base s []" "weights_ok (AdjMatrix s)" "chStart < 100" "chStart \<noteq> chEnd"
  shows "\<exists>s'. dijkstra malloc chStart chEnd s = Some s' \<and> queue_rel base s' []
    \<and> (\<forall>v<100. if \<exists>d. walk (AdjMatrix s) chStart v d
        then walk (AdjMatrix s) chStart v (dist s' v) \<and> (\<forall>d. walk (AdjMatrix s) chStart v d \<longrightarrow> dist s' v \<le> d)
          \<and> (v \<noteq> chStart \<longrightarrow> (\<exists>u<100. n_iPrev (rgnNodes s' ! v) = int u \<and> AdjMatrix s ! u ! v \<noteq> NONE
               \<and> dist s' v = dist s' u + AdjMatrix s ! u ! v))
        else dist s' v = NONE)"
proof -
  obtain s' where s': "dijkstra malloc chStart chEnd s = Some s'" "queue_rel base s' []" "AdjMatrix s' = AdjMatrix s"
    "\<And>v. v < 100 \<Longrightarrow> shortest chStart s' v \<and> tree_edge chStart s' v"
    using dijkstra_shortest [OF assms] by blast
  show ?thesis
  proof (intro exI [of _ s'] conjI s'(1,2) allI impI)
    fix v :: nat
    assume "v < 100"
    then have st: "shortest chStart s' v" "tree_edge chStart s' v" using s'(4) by blast+
    show "if \<exists>d. walk (AdjMatrix s) chStart v d
        then walk (AdjMatrix s) chStart v (dist s' v) \<and> (\<forall>d. walk (AdjMatrix s) chStart v d \<longrightarrow> dist s' v \<le> d)
          \<and> (v \<noteq> chStart \<longrightarrow> (\<exists>u<100. n_iPrev (rgnNodes s' ! v) = int u \<and> AdjMatrix s ! u ! v \<noteq> NONE
               \<and> dist s' v = dist s' u + AdjMatrix s ! u ! v))
        else dist s' v = NONE"
    proof (cases "\<exists>d. walk (AdjMatrix s) chStart v d")
      case True
      then show ?thesis using st by (auto simp: shortest_def tree_edge_def s'(3))
    qed (use st in \<open>simp add: shortest_def s'(3)\<close>)
  qed
qed

theorem dijkstra_correct_witness:
  "\<exists>s'. dijkstra first_free 0 50 empty_globals = Some s' \<and> queue_rel Map.empty s' []
    \<and> walk setArray 0 50 (dist s' 50)"
proof -
  have A: "AdjMatrix empty_globals = setArray" by (simp add: empty_globals_def)
  have "setArray ! 0 ! 50 \<noteq> NONE" by code_simp
  then have "\<exists>d. walk setArray 0 50 d" using walk.edge [OF walk.start, of 0 50 setArray] by auto
  then have reach: "(\<exists>d. walk setArray 0 50 d) = True" by simp
  from dijkstra_correct [OF first_free_ok empty_globals_rel, of 0 50, unfolded A, OF setArray_weights]
  obtain s' where s': "dijkstra first_free 0 50 empty_globals = Some s'" "queue_rel Map.empty s' []"
    and all: "\<forall>v<100. if \<exists>d. walk setArray 0 v d
        then walk setArray 0 v (dist s' v) \<and> (\<forall>d. walk setArray 0 v d \<longrightarrow> dist s' v \<le> d)
          \<and> (v \<noteq> 0 \<longrightarrow> (\<exists>u<100. n_iPrev (rgnNodes s' ! v) = int u \<and> setArray ! u ! v \<noteq> NONE
               \<and> dist s' v = dist s' u + setArray ! u ! v))
        else dist s' v = NONE" by auto
  from all [rule_format, of 50] have "walk setArray 0 50 (dist s' 50)" unfolding reach by simp
  with s' show ?thesis by blast
qed

text \<open>C22 (the queue is a list): items put in the empty linked list by \<open>enqueue\<close> come back from \<open>dequeue\<close>
  in the same order, whatever free addresses the allocator picks; then the queue is empty and every
  other cell of the heap is as it was.\<close>

theorem queue_first_in_first_out:
  assumes "malloc_ok malloc" "queue_rel base s []"
  shows "\<exists>s1 s2. fold_opt (\<lambda>(n, d, p). enqueue malloc n d p) xs s = Some s1 \<and> qcount s1 = int (length xs)
    \<and> drain dequeue_item (length xs) s1 = Some (xs, s2) \<and> queue_rel base s2 []"
proof -
  let ?enq = "\<lambda>(n, d, p) (malloc, s). map_option (Pair malloc) (enqueue malloc n d p s)"
  let ?deq = "\<lambda>(malloc, s). map_option (\<lambda>(x, s). (x, malloc, s)) (dequeue_item s)"
  have e: "fold_opt ?enq ys (malloc, t) = map_option (Pair malloc) (fold_opt (\<lambda>(n, d, p). enqueue malloc n d p) ys t)" for ys t
    by (induction ys arbitrary: t) (auto split: bind_split)
  have d: "drain ?deq n (malloc, t) = map_option (\<lambda>(ys, t). (ys, malloc, t)) (drain dequeue_item n t)" for n t
  proof (induction n arbitrary: t)
    case (Suc n)
    show ?case
    proof (cases "dequeue_item t")
      case (Some xt)
      then show ?thesis using Suc [of "snd xt"] by (cases xt; cases "drain dequeue_item n (snd xt)") auto
    qed simp
  qed simp
  obtain st1 where 1: "fold_opt ?enq xs (malloc, s) = Some st1" "(\<lambda>(malloc, s) q. malloc_ok malloc \<and> queue_rel base s q) st1 xs"
    using queue.enq_all [of base "(malloc, s)" "[]" xs] assms by auto
  obtain st2 where 2: "drain ?deq (length xs) st1 = Some (xs, st2)" "(\<lambda>(malloc, s) q. malloc_ok malloc \<and> queue_rel base s q) st2 []"
    using queue.drain_all [of base st1 xs "[]"] 1(2) by auto
  from 1 obtain s1 where s1: "st1 = (malloc, s1)" "fold_opt (\<lambda>(n, d, p). enqueue malloc n d p) xs s = Some s1" "queue_rel base s1 xs"
    by (auto simp: e)
  from 2 obtain s2 where "drain dequeue_item (length xs) s1 = Some (xs, s2)" "queue_rel base s2 []"
    by (auto simp: s1(1) d)
  moreover have "qcount s1 = int (length xs)" using s1(3) by (auto simp: queue_rel_def qcount_def)
  ultimately show ?thesis using s1(2) by blast
qed

theorem queue_first_in_first_out_witness:
  "\<exists>s1 s2. fold_opt (\<lambda>(n, d, p). enqueue first_free n d p) [(1, 2, 3), (4, 5, 6)] empty_globals = Some s1
    \<and> drain dequeue_item (length [(1 :: int, 2 :: int, 3 :: int), (4, 5, 6)]) s1 = Some ([(1, 2, 3), (4, 5, 6)], s2)"
  using queue_first_in_first_out [OF first_free_ok empty_globals_rel, of "[(1, 2, 3), (4, 5, 6)]"] by blast

text \<open>the benchmark: with the matrix of \<open>setArray\<close>, all 20 searches of the small and all 100 of the
  large benchmark return, and leave the queue empty and the heap as it was.\<close>

lemma dijkstra_main_total:
  assumes "malloc_ok malloc" "queue_rel base s []" "rounds \<le> 100"
  shows "\<exists>s'. dijkstra_main rounds malloc s = Some s' \<and> queue_rel base s' []"
  by (rule dijkstra_main_rounds [OF assms])

end
