(* ===== verification/Stringsearch.thy ===== *)
theory Stringsearch
  imports Prelude
begin

text \<open>
  The string searches of \<open>office/stringsearch\<close>: the Boyer-Moore-Horspool search \<open>bmhsrch.c\<close>, its variants
  without regard to case (\<open>bmhisrch.c\<close>) and to accents (\<open>bmhasrch.c\<close>), and the search
  \<open>pbmsrch_small.c\<close> that the benchmark runs.

  A C string is the list of its characters, without the terminating zero; the three \<open>bmh\<close> searches
  take the length of the subject as an argument and count positions from its end, so that the index
  of \<open>string[i]\<close> is \<open>stringlen + i\<close>. The tables are the static variables of the files. An access
  outside a string, or a loop that does not end, is \<open>None\<close>; the result of a search is a position or
  NULL, the inner \<open>None\<close>. \<open>toupper\<close> and \<open>tolower\<close> are those of the C locale.
\<close>

abbreviation LARGE :: int where
  "LARGE \<equiv> 32767"

record bmh_state =
  bm_patlen :: int
  bm_skip :: "int list"
  bm_skip2 :: int
  bm_pat :: "byte list"

section \<open>The three initialisations\<close>

definition bmh_init :: "byte list \<Rightarrow> bmh_state option" where
  "bmh_init pattern = do {
     let patlen = length pattern;
     let skip = fold (\<lambda>i sk. sk[unat (pattern ! i) := int patlen - int i - 1]) [0..<patlen] (replicate 256 (int patlen));
     c_assert (patlen > 0);
     let lastpatchar = pattern ! (patlen - 1);
     let skip = skip[unat lastpatchar := LARGE];
     let skip2 = fold (\<lambda>i s2. if pattern ! i = lastpatchar then int patlen - int i - 1 else s2) [0..<patlen - 1] (int patlen);
     Some \<lparr>bm_patlen = int patlen, bm_skip = skip, bm_skip2 = skip2, bm_pat = pattern\<rparr>
   }"

definition toupper :: "byte \<Rightarrow> byte" where
  "toupper c = (if 97 \<le> c \<and> c \<le> 122 then c - 32 else c)"

definition tolower :: "byte \<Rightarrow> byte" where
  "tolower c = (if 65 \<le> c \<and> c \<le> 90 then c + 32 else c)"

definition bmhi_init :: "byte list \<Rightarrow> bmh_state option" where
  "bmhi_init pattern = do {
     let patlen = length pattern;
     let pat = map toupper pattern;
     let skip = fold (\<lambda>i sk. sk[unat (pat ! i) := int patlen - int i - 1, unat (tolower (pat ! i)) := int patlen - int i - 1])
       [0..<patlen - 1] (replicate 256 (int patlen));
     c_assert (patlen > 0);
     let lastpatchar = pat ! (patlen - 1);
     let skip = skip[unat lastpatchar := LARGE, unat (tolower lastpatchar) := LARGE];
     let skip2 = fold (\<lambda>i s2. if pat ! i = lastpatchar then int patlen - int i - 1 else s2) [0..<patlen - 1] (int patlen);
     Some \<lparr>bm_patlen = int patlen, bm_skip = skip, bm_skip2 = skip2, bm_pat = pat\<rparr>
   }"

text \<open>The table \<open>lowervec\<close> of \<open>bmhasrch.c\<close>, with \<open>LOWER_ACCENTED_CHARS\<close>.\<close>

definition lowervec :: "nat list" where
  "lowervec = [0..<65] @ [97..<123] @ [91..<128]
     @ [99, 117, 101, 97, 97, 97, 97, 99, 101, 101, 101, 105, 105, 105, 97, 97,
        101, 145, 146, 111, 111, 111, 117, 117, 121, 111, 117, 155, 156, 157, 158, 159,
        97, 105, 111, 117, 110, 110] @ [166..<256]"

definition lowerc :: "byte \<Rightarrow> nat" where
  "lowerc c = lowervec ! unat c"

primrec bmha_scan :: "byte list \<Rightarrow> byte \<Rightarrow> nat \<Rightarrow> int" where
  "bmha_scan pat c 0 = - 1"
| "bmha_scan pat c (Suc j) = (if lowerc c = lowerc (pat ! j) then int j else bmha_scan pat c j)"

definition bmha_init :: "byte list \<Rightarrow> bmh_state option" where
  "bmha_init pattern = do {
     let patlen = length pattern;
     let skip = map (\<lambda>i. let j = bmha_scan pattern (of_nat i) patlen in
         if j = int patlen - 1 then LARGE else if j \<ge> 0 then int patlen - j - 1 else int patlen) [0..<256];
     let skip2 = fold (\<lambda>i s2. if lowerc (pattern ! i) = lowerc (pattern ! (patlen - 1)) then int patlen - int i - 1 else s2)
       [0..<patlen - 1] (int patlen);
     Some \<lparr>bm_patlen = int patlen, bm_skip = skip, bm_skip2 = skip2, bm_pat = pattern\<rparr>
   }"

section \<open>The search loop\<close>

text \<open>\<open>while ((i += skip[string[i]]) < 0) ;\<close>\<close>

partial_function (option) bmh_inner :: "int list \<Rightarrow> byte list \<Rightarrow> int \<Rightarrow> int \<Rightarrow> int option" where
  "bmh_inner skip string stringlen i = do {
     c_assert (0 \<le> stringlen + i \<and> stringlen + i < int (length string));
     let i = i + skip ! unat (string ! nat (stringlen + i));
     if i < 0 then bmh_inner skip string stringlen i else Some i
   }"

text \<open>\<open>while (--j >= 0 && s[j] == pat[j]) ;\<close> from the given \<open>j\<close>; the comparison is a parameter, and the
  result is the final \<open>j\<close>.\<close>

primrec bmh_compare :: "(byte \<Rightarrow> byte \<Rightarrow> bool) \<Rightarrow> byte list \<Rightarrow> nat \<Rightarrow> byte list \<Rightarrow> nat \<Rightarrow> int" where
  "bmh_compare same string s pat 0 = - 1"
| "bmh_compare same string s pat (Suc j) =
     (if same (string ! (s + j)) (pat ! j) then bmh_compare same string s pat j else int j)"

partial_function (option) bmh_loop ::
    "(byte \<Rightarrow> byte \<Rightarrow> bool) \<Rightarrow> bmh_state \<Rightarrow> byte list \<Rightarrow> int \<Rightarrow> int \<Rightarrow> nat option option" where
  "bmh_loop same st string stringlen i = do {
     i \<leftarrow> bmh_inner (bm_skip st) string stringlen i;
     if i < LARGE - stringlen then Some None
     else do {
       let i = i - LARGE;
       let j = bm_patlen st - 1;
       c_assert (0 \<le> stringlen + i - j);
       let s = nat (stringlen + i - j);
       if bmh_compare same string s (bm_pat st) (nat j) < 0 then Some (Some s)
       else
         let i = i + bm_skip2 st in
         if i \<ge> 0 then Some None else bmh_loop same st string stringlen i
     }
   }"

definition bmh_search_with :: "(byte \<Rightarrow> byte \<Rightarrow> bool) \<Rightarrow> bmh_state \<Rightarrow> byte list \<Rightarrow> int \<Rightarrow> nat option option" where
  "bmh_search_with same st string stringlen =
     (let i = bm_patlen st - 1 - stringlen in
      if i \<ge> 0 then Some None else bmh_loop same st string stringlen i)"

definition bmh_search :: "bmh_state \<Rightarrow> byte list \<Rightarrow> int \<Rightarrow> nat option option" where
  "bmh_search = bmh_search_with (=)"

definition bmhi_search :: "bmh_state \<Rightarrow> byte list \<Rightarrow> int \<Rightarrow> nat option option" where
  "bmhi_search = bmh_search_with (\<lambda>c p. toupper c = p)"

definition bmha_search :: "bmh_state \<Rightarrow> byte list \<Rightarrow> int \<Rightarrow> nat option option" where
  "bmha_search = bmh_search_with (\<lambda>c p. lowerc c = lowerc p)"

section \<open>The search of the benchmark\<close>

record pbm_state =
  pb_table :: "nat list"
  pb_len :: nat
  pb_findme :: "byte list"

definition init_search :: "byte list \<Rightarrow> pbm_state" where
  "init_search string =
     (let len = length string;
          table = fold (\<lambda>i t. t[unat (string ! i) := len - i - 1]) [0..<len] (replicate 256 len)
      in \<lparr>pb_table = table, pb_len = len, pb_findme = string\<rparr>)"

text \<open>The inner loop returns the final position and shift; both loops work on \<open>size_t\<close>.\<close>

partial_function (option) pbm_inner :: "pbm_state \<Rightarrow> byte list \<Rightarrow> nat \<Rightarrow> nat \<Rightarrow> (nat \<times> nat) option" where
  "pbm_inner st string pos shift =
     (if pos < length string then
        let shift = pb_table st ! unat (string ! pos) in
        if shift > 0 then pbm_inner st string ((pos + shift) mod 2 ^ 64) shift else Some (pos, shift)
      else Some (pos, shift))"

partial_function (option) strsearch_loop :: "pbm_state \<Rightarrow> byte list \<Rightarrow> nat \<Rightarrow> nat \<Rightarrow> nat option option" where
  "strsearch_loop st string pos shift =
     (if pos < length string then do {
        (pos, shift) \<leftarrow> pbm_inner st string pos shift;
        if shift = 0 then do {
          c_assert (pb_len st \<le> pos + 1);
          let here = pos + 1 - pb_len st;
          if take (pb_len st) (drop here string) = pb_findme st then Some (Some here)
          else strsearch_loop st string ((pos + 1) mod 2 ^ 64) shift
        } else strsearch_loop st string pos shift
      } else Some None)"

text \<open>\<open>shift\<close> is uninitialised before the loops: any value.\<close>

definition strsearch :: "nat \<Rightarrow> pbm_state \<Rightarrow> byte list \<Rightarrow> nat option option" where
  "strsearch shift st string = strsearch_loop st string ((pb_len st + (2 ^ 64 - 1)) mod 2 ^ 64) shift"

section \<open>Occurrences\<close>

definition matches_at :: "(byte \<Rightarrow> 'k) \<Rightarrow> byte list \<Rightarrow> byte list \<Rightarrow> nat \<Rightarrow> bool" where
  "matches_at canon pattern string s \<longleftrightarrow> s + length pattern \<le> length string
     \<and> map canon (take (length pattern) (drop s string)) = map canon pattern"

definition first_match :: "(byte \<Rightarrow> 'k) \<Rightarrow> byte list \<Rightarrow> byte list \<Rightarrow> nat option" where
  "first_match canon pattern string = List.find (matches_at canon pattern string) [0..<length string]"

lemma matches_at_nth:
  assumes "matches_at canon pattern string s" "j < length pattern"
  shows "canon (string ! (s + j)) = canon (pattern ! j)"
proof -
  have m: "map canon (take (length pattern) (drop s string)) = map canon pattern" "s + length pattern \<le> length string"
    using assms(1) by (simp_all add: matches_at_def)
  have "map canon (take (length pattern) (drop s string)) ! j = canon (string ! (s + j))" using assms(2) m(2) by simp
  then show ?thesis using m(1) assms(2) by simp
qed

lemma matches_atI:
  assumes "s + length pattern \<le> length string" "\<And>j. j < length pattern \<Longrightarrow> canon (string ! (s + j)) = canon (pattern ! j)"
  shows "matches_at canon pattern string s"
  using assms by (auto simp: matches_at_def intro!: nth_equalityI)

lemma first_match_Some:
  assumes "matches_at canon pattern string s" "pattern \<noteq> []" "\<And>r. r < s \<Longrightarrow> \<not> matches_at canon pattern string r"
  shows "first_match canon pattern string = Some s"
proof -
  have "s < length string" using assms(1,2) by (cases pattern) (auto simp: matches_at_def)
  then show ?thesis using assms by (auto simp: first_match_def find_Some_iff)
qed

lemma first_match_None: "(\<And>r. \<not> matches_at canon pattern string r) \<Longrightarrow> first_match canon pattern string = None"
  by (simp add: first_match_def find_None_iff)

section \<open>Horspool's argument\<close>

text \<open>\<open>shift_ok canon pattern c d\<close>: if the last character of the window is \<open>c\<close>, no occurrence ends less
  than \<open>d\<close> characters further, the window itself apart.\<close>

definition shift_ok :: "(byte \<Rightarrow> 'k) \<Rightarrow> byte list \<Rightarrow> 'k \<Rightarrow> int \<Rightarrow> bool" where
  "shift_ok canon pattern c d \<longleftrightarrow> 1 \<le> d \<and> d \<le> int (length pattern)
     \<and> (\<forall>k<length pattern. 0 < k \<longrightarrow> int k < d \<longrightarrow> canon (pattern ! (length pattern - 1 - k)) \<noteq> c)"

definition tables_ok :: "(byte \<Rightarrow> 'k) \<Rightarrow> (byte \<Rightarrow> byte \<Rightarrow> bool) \<Rightarrow> byte list \<Rightarrow> bmh_state \<Rightarrow> bool" where
  "tables_ok canon same pattern st \<longleftrightarrow> pattern \<noteq> [] \<and> bm_patlen st = int (length pattern)
     \<and> (\<forall>c. if canon c = canon (last pattern) then bm_skip st ! unat c = LARGE
            else shift_ok canon pattern (canon c) (bm_skip st ! unat c))
     \<and> shift_ok canon pattern (canon (last pattern)) (bm_skip2 st)
     \<and> (\<forall>c. \<forall>j<length pattern. same c (bm_pat st ! j) \<longleftrightarrow> canon c = canon (pattern ! j))"

lemma no_match_between:
  assumes "shift_ok canon pattern c d" "canon (string ! e) = c" "pattern \<noteq> []"
    and "e < s + length pattern - 1" "int (s + length pattern - 1) < int e + d"
  shows "\<not> matches_at canon pattern string s"
proof
  assume m: "matches_at canon pattern string s"
  let ?m = "length pattern" and ?k = "s + length pattern - 1 - e"
  have "d \<le> int ?m" using assms(1) by (simp add: shift_ok_def)
  then have k: "0 < ?k" "int ?k < d" "?k < ?m" "?m - 1 - ?k < ?m" "s + (?m - 1 - ?k) = e"
    using assms(3-5) by (cases pattern; simp)+
  then have "canon (pattern ! (?m - 1 - ?k)) = c" using matches_at_nth [OF m k(4)] assms(2) by simp
  with assms(1) k show False by (auto simp: shift_ok_def)
qed

text \<open>\<open>none_before e\<close>: no occurrence ends before position \<open>e\<close>.\<close>

definition none_before :: "(byte \<Rightarrow> 'k) \<Rightarrow> byte list \<Rightarrow> byte list \<Rightarrow> nat \<Rightarrow> bool" where
  "none_before canon pattern string e \<longleftrightarrow> (\<forall>s. s + length pattern \<le> e \<longrightarrow> \<not> matches_at canon pattern string s)"

lemma none_before_advance:
  assumes "none_before canon pattern string e" "shift_ok canon pattern (canon (string ! e)) d"
    "\<not> matches_at canon pattern string (e + 1 - length pattern)" "pattern \<noteq> []" "length pattern \<le> e + 1" "int e' \<le> int e + d"
  shows "none_before canon pattern string e'"
  unfolding none_before_def
proof (intro allI impI notI)
  fix s assume s: "s + length pattern \<le> e'" and m: "matches_at canon pattern string s"
  have l: "0 < length pattern" using assms(4) by simp
  consider "s + length pattern \<le> e" | "s + length pattern = e + 1" | "e < s + length pattern - 1" by linarith
  then show False
  proof cases
    case 1
    then show ?thesis using assms(1) m by (auto simp: none_before_def)
  next
    case 2
    then have "s = e + 1 - length pattern" by simp
    then show ?thesis using assms(3) m by simp
  next
    case 3
    have "int (s + length pattern - 1) < int e + d" using s l assms(6) by linarith
    from no_match_between [OF assms(2) refl assms(4) 3 this] m show ?thesis by simp
  qed
qed

lemma bmh_inner_correct:
  assumes T: "tables_ok canon same pattern st" and "e < length string" "length pattern \<le> e + 1"
    and n: "n = int (length string)" "int (length pattern) + n \<le> LARGE"
    and "none_before canon pattern string e"
  shows "\<exists>i. bmh_inner (bm_skip st) string n (int e - n) = Some i
    \<and> (if i < LARGE - n then none_before canon pattern string (length string)
       else (\<exists>e'\<ge>e. e' < length string \<and> i - LARGE = int e' - n \<and> canon (string ! e') = canon (last pattern)
         \<and> none_before canon pattern string e'))"
  using assms(2,3,6)
proof (induction "length string - e" arbitrary: e rule: less_induct)
  case less
  let ?c = "string ! e"
  have p: "pattern \<noteq> []" using T by (simp add: tables_ok_def)
  have inner: "bmh_inner (bm_skip st) string n (int e - n)
    = (let i = int e - n + bm_skip st ! unat ?c in if i < 0 then bmh_inner (bm_skip st) string n i else Some i)"
    using less.prems(1) n(1) by (subst bmh_inner.simps) simp
  show ?case
  proof (cases "canon ?c = canon (last pattern)")
    case True
    then have "bm_skip st ! unat ?c = LARGE" using T by (auto simp: tables_ok_def split: if_splits)
    then have "bmh_inner (bm_skip st) string n (int e - n) = Some (int e - n + LARGE)" using inner n by simp
    then show ?thesis using True less.prems by auto
  next
    case False
    define d where "d = bm_skip st ! unat ?c"
    have sh: "shift_ok canon pattern (canon ?c) d" using False T by (auto simp: tables_ok_def d_def split: if_splits)
    then have d: "1 \<le> d" "d \<le> int (length pattern)" by (auto simp: shift_ok_def)
    have "\<not> matches_at canon pattern string (e + 1 - length pattern)"
    proof
      assume m: "matches_at canon pattern string (e + 1 - length pattern)"
      have "e + 1 - length pattern + (length pattern - 1) = e" "length pattern - 1 < length pattern"
        using p less.prems(2) by (cases pattern; simp)+
      then have "canon (string ! e) = canon (pattern ! (length pattern - 1))" using matches_at_nth [OF m] by metis
      then show False using False p by (simp add: last_conv_nth)
    qed
    note adv = none_before_advance [OF less.prems(3) sh this p less.prems(2)]
    show ?thesis
    proof (cases "int e - n + d < 0")
      case True
      define e' where "e' = e + nat d"
      have e': "e' < length string" "length string - e' < length string - e" "int e - n + d = int e' - n" "length pattern \<le> e' + 1"
        using True d n(1) less.prems(1,2) by (auto simp: e'_def)
      have "none_before canon pattern string e'" by (rule adv) (use d in \<open>simp add: e'_def\<close>)
      from less.hyps [OF e'(2,1,4) this] show ?thesis
        using inner True e'(3) d by (auto simp: d_def [symmetric] e'_def split: if_splits)
    next
      case False
      then have "none_before canon pattern string (length string)" using n by (intro adv) simp
      moreover have "int e - n + d < LARGE - n" using less.prems(1) d n by linarith
      ultimately show ?thesis using inner False by (simp add: d_def [symmetric])
    qed
  qed
qed

lemma bmh_compare_neg: "bmh_compare same string s pat n < 0 \<longleftrightarrow> (\<forall>j<n. same (string ! (s + j)) (pat ! j))"
  by (induction n) (auto simp: less_Suc_eq)

lemma bmh_loop_correct:
  assumes T: "tables_ok canon same pattern st" and "e < length string" "length pattern \<le> e + 1"
    and n: "n = int (length string)" "int (length pattern) + n \<le> LARGE"
    and "none_before canon pattern string e"
  shows "bmh_loop same st string n (int e - n) = Some (first_match canon pattern string)"
  using assms(2,3,6)
proof (induction "length string - e" arbitrary: e rule: less_induct)
  case less
  have p: "pattern \<noteq> []" "bm_patlen st = int (length pattern)"
    and sh2: "shift_ok canon pattern (canon (last pattern)) (bm_skip2 st)"
    and sm: "\<And>c j. j < length pattern \<Longrightarrow> same c (bm_pat st ! j) \<longleftrightarrow> canon c = canon (pattern ! j)"
    using T by (simp_all add: tables_ok_def)
  obtain i where i: "bmh_inner (bm_skip st) string n (int e - n) = Some i"
    and r: "if i < LARGE - n then none_before canon pattern string (length string)
       else (\<exists>e'\<ge>e. e' < length string \<and> i - LARGE = int e' - n \<and> canon (string ! e') = canon (last pattern)
         \<and> none_before canon pattern string e')"
    using bmh_inner_correct [OF T less.prems(1,2) n less.prems(3)] by blast
  have none: "first_match canon pattern string = None" if "none_before canon pattern string (length string)"
    using that by (intro first_match_None) (auto simp: none_before_def matches_at_def)
  show ?case
  proof (cases "i < LARGE - n")
    case True
    then show ?thesis using i r none by (simp add: bmh_loop.simps [of same st string n])
  next
    case False
    then obtain e' where e': "e \<le> e'" "e' < length string" "i - LARGE = int e' - n"
      "canon (string ! e') = canon (last pattern)" "none_before canon pattern string e'"
      using r by auto
    define s where "s = e' + 1 - length pattern"
    have l: "length pattern \<le> e' + 1" "0 < length pattern" using e'(1) less.prems(2) p(1) by auto
    have s: "nat (n + (i - LARGE) - (int (length pattern) - 1)) = s" "0 \<le> n + (i - LARGE) - (int (length pattern) - 1)"
      "s + (length pattern - 1) = e'" using e'(3) l unfolding s_def by linarith+
    have cmp: "bmh_compare same string s (bm_pat st) (length pattern - 1) < 0 \<longleftrightarrow> matches_at canon pattern string s"
    proof
      assume "bmh_compare same string s (bm_pat st) (length pattern - 1) < 0"
      then have "canon (string ! (s + j)) = canon (pattern ! j)" if "j < length pattern" for j
        using that e'(4) s(3) p(1) sm unfolding bmh_compare_neg
        by (cases "j = length pattern - 1") (auto simp: last_conv_nth)
      then show "matches_at canon pattern string s" using e'(2) s(3) l by (intro matches_atI) auto
    next
      assume "matches_at canon pattern string s"
      then show "bmh_compare same string s (bm_pat st) (length pattern - 1) < 0"
        using sm matches_at_nth [of canon pattern string s] unfolding bmh_compare_neg by auto
    qed
    have loop: "bmh_loop same st string n (int e - n)
      = (if matches_at canon pattern string s then Some (Some s)
         else if int e' - n + bm_skip2 st \<ge> 0 then Some None
         else bmh_loop same st string n (int e' - n + bm_skip2 st))"
    proof -
      have "nat (int (length pattern) - 1) = length pattern - 1" by simp
      then show ?thesis
        unfolding bmh_loop.simps [of same st string n "int e - n"] using i False s(1,2) e'(3) p(2)
        by (simp add: cmp [symmetric])
    qed
    show ?thesis
    proof (cases "matches_at canon pattern string s")
      case True
      have "\<not> matches_at canon pattern string r'" if "r' < s" for r'
        using that e'(5) s(3) l(2) by (auto simp: none_before_def)
      then show ?thesis using loop True first_match_Some [OF True p(1)] by simp
    next
      case F: False
      note adv = none_before_advance [OF e'(5) sh2 [folded e'(4)] F [unfolded s_def] p(1) l(1)]
      show ?thesis
      proof (cases "int e' - n + bm_skip2 st \<ge> 0")
        case True
        then show ?thesis using loop F none [OF adv] n(1) by simp
      next
        case False
        have d: "1 \<le> bm_skip2 st" using sh2 by (simp add: shift_ok_def)
        define e2 where "e2 = e' + nat (bm_skip2 st)"
        have e2: "e2 < length string" "length string - e2 < length string - e" "int e' - n + bm_skip2 st = int e2 - n"
          "length pattern \<le> e2 + 1"
          using False d e'(1) l(1) n(1) less.prems(1) by (auto simp: e2_def)
        have "none_before canon pattern string e2" by (rule adv) (use d in \<open>simp add: e2_def\<close>)
        from less.hyps [OF e2(2,1,4) this] show ?thesis using loop F False e2(3) by simp
      qed
    qed
  qed
qed

lemma bmh_search_correct:
  assumes T: "tables_ok canon same pattern st" and n: "int (length pattern) + int (length string) \<le> LARGE"
  shows "bmh_search_with same st string (int (length string)) = Some (first_match canon pattern string)"
proof -
  have p: "0 < length pattern" "bm_patlen st = int (length pattern)" using T by (simp_all add: tables_ok_def)
  show ?thesis
  proof (cases "length string < length pattern")
    case True
    then have "first_match canon pattern string = None" by (intro first_match_None) (simp add: matches_at_def)
    then show ?thesis using True p by (simp add: bmh_search_with_def)
  next
    case False
    define e where "e = length pattern - 1"
    have e: "e < length string" "length pattern \<le> e + 1" "e < length pattern"
      using False p(1) unfolding e_def by linarith+
    moreover have "none_before canon pattern string e" using e(3) by (auto simp: none_before_def)
    ultimately have e: "e < length string" "length pattern \<le> e + 1" "none_before canon pattern string e" by auto
    have "int e = int (length pattern) - 1" using p(1) unfolding e_def by linarith
    with bmh_loop_correct [OF T e(1,2) refl n e(3)] show ?thesis
      using False p(2) by (simp add: bmh_search_with_def)
  qed
qed

section \<open>The tables\<close>

lemma fold_last:
  assumes "\<And>i s. I s \<Longrightarrow> I (step i s) \<and> read (step i s) = (if Q i then v i else read s)" "I s"
  shows "I (fold step [0..<n] s) \<and>
    (if \<exists>i<n. Q i then \<exists>i<n. Q i \<and> (\<forall>k<n. i < k \<longrightarrow> \<not> Q k) \<and> read (fold step [0..<n] s) = v i
     else read (fold step [0..<n] s) = read s)"
proof (induction n)
  case (Suc n)
  show ?case
  proof (cases "Q n")
    case True
    then show ?thesis using Suc assms(1) by (auto intro!: exI [of _ n])
  next
    case False
    then have "(\<exists>i<Suc n. Q i) = (\<exists>i<n. Q i)" by (auto simp: less_Suc_eq)
    then show ?thesis using Suc assms(1) [of "fold step [0..<n] s" n] False
      by (auto simp: less_Suc_eq split: if_splits)
  qed
qed (use assms(2) in simp)

lemma fold_table:
  assumes "\<And>i t. length t = 256 \<Longrightarrow> length (step i t) = 256 \<and> step i t ! j = (if Q i then v i else t ! j)" "j < 256"
  shows "length (fold step [0..<n] (replicate 256 z)) = 256 \<and>
    (if \<exists>i<n. Q i then \<exists>i<n. Q i \<and> (\<forall>k<n. i < k \<longrightarrow> \<not> Q k) \<and> fold step [0..<n] (replicate 256 z) ! j = v i
     else fold step [0..<n] (replicate 256 z) ! j = z)"
  using fold_last [of "\<lambda>t. length t = 256" step "\<lambda>t. t ! j" Q v "replicate 256 z" n, OF assms(1)] assms(2)
  by (simp split: if_splits)

lemma unat_byte: "unat c < 256" for c :: byte
  using unsigned_less [of c] by simp

lemma unat_byte_eq: "unat c = unat d \<longleftrightarrow> c = d" for c d :: byte
  by (simp add: word_unat_eq_iff)

text \<open>The distance of the last occurrence of a character from the end of the pattern is a shift.\<close>

lemma last_occurrence_shift:
  assumes "if \<exists>i<n. Q i then \<exists>i<n. Q i \<and> (\<forall>k<n. i < k \<longrightarrow> \<not> Q k) \<and> d = int m - int i - 1 else d = int m"
    and "m = length pattern" "pattern \<noteq> []" "m - 1 \<le> n" "n \<le> m" "n = m \<Longrightarrow> \<not> Q (m - 1)"
    and "\<And>i. i < m \<Longrightarrow> Q i \<longleftrightarrow> canon (pattern ! i) = c"
  shows "shift_ok canon pattern c d"
proof (cases "\<exists>i<n. Q i")
  case True
  then obtain i where i: "i < n" "Q i" "\<forall>k<n. i < k \<longrightarrow> \<not> Q k" "d = int m - int i - 1" using assms(1) by auto
  have "i < m - 1" using i(1,2) assms(4,5,6) by (cases "n = m"; cases "i = m - 1") auto
  moreover have "canon (pattern ! (m - 1 - k)) \<noteq> c" if "k < m" "0 < k" "int k < d" for k
    using i(3,4) that assms(4) assms(7) [of "m - 1 - k"] \<open>i < m - 1\<close> by auto
  ultimately show ?thesis using i(4) assms(2) by (auto simp: shift_ok_def)
next
  case False
  then have "d = int m" using assms(1) by simp
  moreover have "canon (pattern ! (m - 1 - k)) \<noteq> c" if "k < m" "0 < k" for k
    using False that assms(4) assms(7) [of "m - 1 - k"] by auto
  ultimately show ?thesis using assms(2,3) by (cases pattern) (auto simp: shift_ok_def)
qed

lemma second_shift:
  assumes "pattern \<noteq> []" "\<And>i. i < length pattern \<Longrightarrow> Q i \<longleftrightarrow> canon (pattern ! i) = c"
  shows "shift_ok canon pattern c (fold (\<lambda>i s2. if Q i then int (length pattern) - int i - 1 else s2)
    [0..<length pattern - 1] (int (length pattern)))"
proof (rule last_occurrence_shift [where Q = Q and n = "length pattern - 1", OF conjunct2 [OF fold_last
      [where I = "\<lambda>_. True" and read = "\<lambda>x. x" and Q = Q]] refl assms(1)])
  show "length pattern - 1 = length pattern \<Longrightarrow> \<not> Q (length pattern - 1)" using assms(1) by (cases pattern) auto
qed (use assms(2) in auto)

lemma bmh_init_tables:
  assumes "pattern \<noteq> []"
  shows "\<exists>st. bmh_init pattern = Some st \<and> tables_ok id (=) pattern st"
proof -
  let ?m = "length pattern" and ?last = "pattern ! (length pattern - 1)"
  define sk where "sk = fold (\<lambda>i sk. sk[unat (pattern ! i) := int ?m - int i - 1]) [0..<?m] (replicate 256 (int ?m))"
  define s2 where "s2 = fold (\<lambda>i s2. if pattern ! i = ?last then int ?m - int i - 1 else s2) [0..<?m - 1] (int ?m)"
  have m: "0 < ?m" using assms by simp
  have sk: "length sk = 256 \<and> (if \<exists>i<?m. pattern ! i = c then \<exists>i<?m. pattern ! i = c \<and> (\<forall>k<?m. i < k \<longrightarrow> \<not> pattern ! k = c)
      \<and> sk ! unat c = int ?m - int i - 1 else sk ! unat c = int ?m)" for c
    unfolding sk_def by (rule fold_table) (auto simp: unat_byte nth_list_update unat_byte_eq)
  have "shift_ok id pattern c (sk ! unat c)" if "c \<noteq> ?last" for c
    by (rule last_occurrence_shift [where Q = "\<lambda>i. pattern ! i = c", OF conjunct2 [OF sk] refl assms])
      (use that in auto)
  moreover have "shift_ok id pattern ?last s2"
    unfolding s2_def using m assms by (intro second_shift) auto
  ultimately have "tables_ok id (=) pattern \<lparr>bm_patlen = int ?m, bm_skip = sk[unat ?last := LARGE], bm_skip2 = s2, bm_pat = pattern\<rparr>"
    using assms sk by (auto simp: tables_ok_def last_conv_nth nth_list_update unat_byte unat_byte_eq)
  moreover have "bmh_init pattern = Some \<lparr>bm_patlen = int ?m, bm_skip = sk[unat ?last := LARGE], bm_skip2 = s2, bm_pat = pattern\<rparr>"
    using assms by (simp add: bmh_init_def Let_def sk_def s2_def)
  ultimately show ?thesis by blast
qed

lemma unat_toupper: "unat (toupper c) = (if 97 \<le> unat c \<and> unat c \<le> 122 then unat c - 32 else unat c)"
  by (auto simp: toupper_def word_le_nat_alt unat_sub)

lemma unat_tolower: "unat (tolower c) = (if 65 \<le> unat c \<and> unat c \<le> 90 then unat c + 32 else unat c)"
  using unat_byte [of c] by (auto simp: tolower_def word_le_nat_alt unat_word_ariths)

lemma upper_class: "toupper x = c \<or> tolower (toupper x) = c \<longleftrightarrow> toupper c = toupper x"
  unfolding word_unat_eq_iff unat_toupper unat_tolower by auto

lemma bmhi_init_tables:
  assumes "pattern \<noteq> []"
  shows "\<exists>st. bmhi_init pattern = Some st \<and> tables_ok toupper (\<lambda>c p. toupper c = p) pattern st"
proof -
  let ?p = "map toupper pattern" and ?m = "length pattern" and ?last = "map toupper pattern ! (length pattern - 1)"
  define sk where "sk = fold (\<lambda>i sk. sk[unat (?p ! i) := int ?m - int i - 1, unat (tolower (?p ! i)) := int ?m - int i - 1])
       [0..<?m - 1] (replicate 256 (int ?m))"
  define s2 where "s2 = fold (\<lambda>i s2. if ?p ! i = ?last then int ?m - int i - 1 else s2) [0..<?m - 1] (int ?m)"
  have m: "0 < ?m" "?m - 1 < ?m" using assms by simp_all
  have cls: "?p ! i = c \<or> tolower (?p ! i) = c \<longleftrightarrow> toupper (pattern ! i) = toupper c" if "i < ?m" for i c
    using upper_class [of "pattern ! i" c] that by auto
  have sk: "length sk = 256 \<and> (if \<exists>i<?m - 1. ?p ! i = c \<or> tolower (?p ! i) = c
      then \<exists>i<?m - 1. (?p ! i = c \<or> tolower (?p ! i) = c) \<and> (\<forall>k<?m - 1. i < k \<longrightarrow> \<not> (?p ! k = c \<or> tolower (?p ! k) = c))
      \<and> sk ! unat c = int ?m - int i - 1 else sk ! unat c = int ?m)" for c
    unfolding sk_def by (rule fold_table) (auto simp: unat_byte nth_list_update unat_byte_eq)
  have "shift_ok toupper pattern (toupper c) (sk ! unat c)" for c
    by (rule last_occurrence_shift [where Q = "\<lambda>i. ?p ! i = c \<or> tolower (?p ! i) = c", OF conjunct2 [OF sk] refl assms])
      (use m cls in auto)
  moreover have "shift_ok toupper pattern ?last s2"
    unfolding s2_def using m assms by (intro second_shift) auto
  moreover have "sk[unat ?last := LARGE, unat (tolower ?last) := LARGE] ! unat c
      = (if toupper (pattern ! (?m - 1)) = toupper c then LARGE else sk ! unat c)" for c
    using cls [OF m(2), of c] conjunct1 [OF sk] by (simp add: nth_list_update unat_byte unat_byte_eq) auto
  ultimately have "tables_ok toupper (\<lambda>c p. toupper c = p) pattern
      \<lparr>bm_patlen = int ?m, bm_skip = sk[unat ?last := LARGE, unat (tolower ?last) := LARGE], bm_skip2 = s2, bm_pat = ?p\<rparr>"
    using assms m(2) by (auto simp: tables_ok_def last_conv_nth)
  moreover have "bmhi_init pattern = Some
      \<lparr>bm_patlen = int ?m, bm_skip = sk[unat ?last := LARGE, unat (tolower ?last) := LARGE], bm_skip2 = s2, bm_pat = ?p\<rparr>"
    using assms by (simp add: bmhi_init_def Let_def sk_def s2_def)
  ultimately show ?thesis by blast
qed

lemma bmha_scan_last:
  "if \<exists>i<n. lowerc (p ! i) = lowerc c then \<exists>i<n. lowerc (p ! i) = lowerc c \<and> (\<forall>k<n. i < k \<longrightarrow> lowerc (p ! k) \<noteq> lowerc c)
      \<and> bmha_scan p c n = int i
   else bmha_scan p c n = - 1"
proof (induction n)
  case (Suc n)
  show ?case
  proof (cases "lowerc (p ! n) = lowerc c")
    case True
    then show ?thesis by (auto intro!: exI [of _ n])
  next
    case False
    then have "(\<exists>i<Suc n. lowerc (p ! i) = lowerc c) = (\<exists>i<n. lowerc (p ! i) = lowerc c)" by (auto simp: less_Suc_eq)
    then show ?thesis using Suc False by (auto simp: less_Suc_eq split: if_splits)
  qed
qed simp

lemma bmha_init_tables:
  assumes "pattern \<noteq> []"
  shows "\<exists>st. bmha_init pattern = Some st \<and> tables_ok lowerc (\<lambda>c p. lowerc c = lowerc p) pattern st"
proof -
  let ?m = "length pattern" and ?last = "lowerc (pattern ! (length pattern - 1))"
  define f where "f c = (let j = bmha_scan pattern c ?m in
         if j = int ?m - 1 then LARGE else if j \<ge> 0 then int ?m - j - 1 else int ?m)" for c
  define s2 where "s2 = fold (\<lambda>i s2. if lowerc (pattern ! i) = ?last then int ?m - int i - 1 else s2) [0..<?m - 1] (int ?m)"
  have m: "0 < ?m" "?m - 1 < ?m" using assms by simp_all
  have sc: "if \<exists>i<?m. lowerc (pattern ! i) = lowerc c
      then \<exists>i<?m. lowerc (pattern ! i) = lowerc c \<and> (\<forall>k<?m. i < k \<longrightarrow> lowerc (pattern ! k) \<noteq> lowerc c) \<and> bmha_scan pattern c ?m = int i
      else bmha_scan pattern c ?m = - 1" for c by (rule bmha_scan_last)
  have large: "f c = LARGE" if lc: "lowerc c = ?last" for c
  proof -
    obtain i where i: "i < ?m" "\<forall>k<?m. i < k \<longrightarrow> lowerc (pattern ! k) \<noteq> lowerc c" "bmha_scan pattern c ?m = int i"
      using sc [of c] lc [symmetric] m by (auto split: if_splits)
    then have "i = ?m - 1" using lc m by (metis linorder_neqE_nat not_less_eq Suc_diff_1)
    then have "int i = int ?m - 1" using m by linarith
    then show ?thesis using i(3) by (simp add: f_def)
  qed
  have sh: "shift_ok lowerc pattern (lowerc c) (f c)" if "lowerc c \<noteq> ?last" for c
  proof (rule last_occurrence_shift [where Q = "\<lambda>i. lowerc (pattern ! i) = lowerc c" and n = ?m, OF _ refl assms])
    show "if \<exists>i<?m. lowerc (pattern ! i) = lowerc c
        then \<exists>i<?m. lowerc (pattern ! i) = lowerc c \<and> (\<forall>k<?m. i < k \<longrightarrow> lowerc (pattern ! k) \<noteq> lowerc c) \<and> f c = int ?m - int i - 1
        else f c = int ?m"
    proof (cases "\<exists>i<?m. lowerc (pattern ! i) = lowerc c")
      case True
      then obtain i where i: "i < ?m" "lowerc (pattern ! i) = lowerc c"
        "\<forall>k<?m. i < k \<longrightarrow> lowerc (pattern ! k) \<noteq> lowerc c" "bmha_scan pattern c ?m = int i"
        using sc [of c] by auto
      have "i \<noteq> ?m - 1" using i(2) that by auto
      then have "int i \<noteq> int ?m - 1" using i(1) by linarith
      then show ?thesis using i True by (auto simp: f_def)
    next
      case False
      then have "bmha_scan pattern c ?m = - 1" using sc [of c] by auto
      then show ?thesis using False m by (auto simp: f_def)
    qed
  qed (use that in auto)
  have "shift_ok lowerc pattern ?last s2"
    unfolding s2_def using m assms by (intro second_shift) auto
  then have "tables_ok lowerc (\<lambda>c p. lowerc c = lowerc p) pattern
      \<lparr>bm_patlen = int ?m, bm_skip = map (\<lambda>i. f (of_nat i)) [0..<256], bm_skip2 = s2, bm_pat = pattern\<rparr>"
    using assms large sh by (auto simp: tables_ok_def last_conv_nth unat_byte)
  moreover have "bmha_init pattern = Some
      \<lparr>bm_patlen = int ?m, bm_skip = map (\<lambda>i. f (of_nat i)) [0..<256], bm_skip2 = s2, bm_pat = pattern\<rparr>"
    by (simp add: bmha_init_def Let_def f_def s2_def)
  ultimately show ?thesis by blast
qed

section \<open>The contract of a search\<close>

locale horspool =
  fixes canon :: "byte \<Rightarrow> 'k" and same :: "byte \<Rightarrow> byte \<Rightarrow> bool" and init :: "byte list \<Rightarrow> bmh_state option"
  assumes tables: "pattern \<noteq> [] \<Longrightarrow> \<exists>st. init pattern = Some st \<and> tables_ok canon same pattern st"
begin

lemma finds_first:
  assumes "pattern \<noteq> []" "length pattern + length string \<le> 32767"
  shows "\<exists>st. init pattern = Some st
    \<and> bmh_search_with same st string (int (length string)) = Some (first_match canon pattern string)"
proof -
  have "int (length pattern) + int (length string) \<le> LARGE" using assms(2) by linarith
  then show ?thesis using tables [OF assms(1)] bmh_search_correct by blast
qed

end

interpretation bmh: horspool id "(=)" bmh_init
  by unfold_locales (rule bmh_init_tables)

interpretation bmhi: horspool toupper "\<lambda>c p. toupper c = p" bmhi_init
  by unfold_locales (rule bmhi_init_tables)

interpretation bmha: horspool lowerc "\<lambda>c p. lowerc c = lowerc p" bmha_init
  by unfold_locales (rule bmha_init_tables)

section \<open>The search of the benchmark\<close>

definition pbm_ok :: "byte list \<Rightarrow> pbm_state \<Rightarrow> bool" where
  "pbm_ok pattern st \<longleftrightarrow> pattern \<noteq> [] \<and> pb_len st = length pattern \<and> pb_findme st = pattern
     \<and> (\<forall>c. if c = last pattern then pb_table st ! unat c = 0 else shift_ok id pattern c (int (pb_table st ! unat c)))"

lemma init_search_ok:
  assumes "pattern \<noteq> []"
  shows "pbm_ok pattern (init_search pattern)"
proof -
  let ?m = "length pattern"
  define t where "t = fold (\<lambda>i t. t[unat (pattern ! i) := ?m - i - 1]) [0..<?m] (replicate 256 ?m)"
  have m: "0 < ?m" "?m - 1 < ?m" using assms by simp_all
  have t: "if \<exists>i<?m. pattern ! i = c then \<exists>i<?m. pattern ! i = c \<and> (\<forall>k<?m. i < k \<longrightarrow> \<not> pattern ! k = c)
      \<and> t ! unat c = ?m - i - 1 else t ! unat c = ?m" for c
    unfolding t_def
    by (rule conjunct2 [OF fold_table]) (auto simp: unat_byte nth_list_update unat_byte_eq)
  have "t ! unat c = 0" if c: "c = last pattern" for c
  proof -
    have "pattern ! (?m - 1) = c" using c assms by (simp add: last_conv_nth)
    then obtain i where i: "i < ?m" "\<forall>k<?m. i < k \<longrightarrow> \<not> pattern ! k = c" "t ! unat c = ?m - i - 1"
      using t [of c] m(2) by (auto split: if_splits)
    moreover have "\<not> i < ?m - 1" using i(2) m(2) \<open>pattern ! (?m - 1) = c\<close> by blast
    ultimately show ?thesis by simp
  qed
  moreover have "shift_ok id pattern c (int (t ! unat c))" if "c \<noteq> last pattern" for c
  proof (rule last_occurrence_shift [where Q = "\<lambda>i. pattern ! i = c" and n = ?m, OF _ refl assms])
    show "if \<exists>i<?m. pattern ! i = c then \<exists>i<?m. pattern ! i = c \<and> (\<forall>k<?m. i < k \<longrightarrow> \<not> pattern ! k = c)
      \<and> int (t ! unat c) = int ?m - int i - 1 else int (t ! unat c) = int ?m"
      using t [of c] by (auto split: if_splits)
  qed (use that assms in \<open>auto simp: last_conv_nth\<close>)
  ultimately show ?thesis using assms by (simp add: pbm_ok_def init_search_def Let_def t_def)
qed

lemma pbm_inner_correct:
  assumes T: "pbm_ok pattern st" and n: "length pattern + length string < 2 ^ 64"
    and "length pattern \<le> pos + 1" "pos < length string" "none_before id pattern string pos"
  shows "\<exists>pos' sh'. pbm_inner st string pos shift = Some (pos', sh') \<and> pos \<le> pos'
    \<and> (if sh' = 0 then pos' < length string \<and> string ! pos' = last pattern \<and> none_before id pattern string pos'
       else length string \<le> pos' \<and> none_before id pattern string (length string))"
  using assms(3-5)
proof (induction "length string - pos" arbitrary: pos shift rule: less_induct)
  case less
  have p: "pattern \<noteq> []" using T by (simp add: pbm_ok_def)
  let ?c = "string ! pos" and ?d = "pb_table st ! unat (string ! pos)"
  show ?case
  proof (cases "?c = last pattern")
    case True
    then have "?d = 0" using T by (auto simp: pbm_ok_def split: if_splits)
    then show ?thesis using less.prems True by (simp add: pbm_inner.simps [of st string pos])
  next
    case False
    then have sh: "shift_ok id pattern (id ?c) (int ?d)" using T by (auto simp: pbm_ok_def split: if_splits)
    then have d: "1 \<le> ?d" "?d \<le> length pattern" by (auto simp: shift_ok_def)
    have nm: "\<not> matches_at id pattern string (pos + 1 - length pattern)"
    proof
      assume m: "matches_at id pattern string (pos + 1 - length pattern)"
      have "pos + 1 - length pattern + (length pattern - 1) = pos" "length pattern - 1 < length pattern"
        using p less.prems(1) by (cases pattern; simp)+
      then have "id (string ! pos) = id (pattern ! (length pattern - 1))" using matches_at_nth [OF m] by metis
      then show False using False p by (simp add: last_conv_nth)
    qed
    have small: "(pos + ?d) mod 2 ^ 64 = pos + ?d" using d(2) less.prems(2) n by (intro mod_less) linarith
    have step: "pbm_inner st string pos shift = pbm_inner st string (pos + ?d) ?d"
      using less.prems(2) d(1) small by (simp add: pbm_inner.simps [of st string pos] Let_def)
    note adv = none_before_advance [OF less.prems(3) sh nm p less.prems(1)]
    show ?thesis
    proof (cases "pos + ?d < length string")
      case True
      have "none_before id pattern string (pos + ?d)" by (rule adv) simp
      moreover have "length string - (pos + ?d) < length string - pos" "length pattern \<le> pos + ?d + 1"
        using True d(1) less.prems(1) by simp_all
      ultimately obtain pos' sh' where "pbm_inner st string (pos + ?d) ?d = Some (pos', sh')" "pos + ?d \<le> pos'"
        "if sh' = 0 then pos' < length string \<and> string ! pos' = last pattern \<and> none_before id pattern string pos'
         else length string \<le> pos' \<and> none_before id pattern string (length string)"
        using less.hyps [OF _ _ True] by blast
      then show ?thesis unfolding step by (intro exI [of _ pos'] exI [of _ sh'] conjI) simp_all
    next
      case F: False
      have "none_before id pattern string (length string)" by (rule adv) (use F in simp)
      then show ?thesis using step F d(1) by (simp add: pbm_inner.simps [of st string "pos + ?d"])
    qed
  qed
qed

lemma strsearch_loop_correct:
  assumes T: "pbm_ok pattern st" and n: "length pattern + length string < 2 ^ 64"
    and "length pattern \<le> pos + 1" "none_before id pattern string (min pos (length string))"
  shows "strsearch_loop st string pos shift = Some (first_match id pattern string)"
  using assms(3,4)
proof (induction "length string - pos" arbitrary: pos shift rule: less_induct)
  case less
  have p: "pattern \<noteq> []" "pb_len st = length pattern" "pb_findme st = pattern" using T by (simp_all add: pbm_ok_def)
  have none: "first_match id pattern string = None" if "none_before id pattern string (length string)"
    using that by (intro first_match_None) (auto simp: none_before_def matches_at_def)
  show ?case
  proof (cases "pos < length string")
    case False
    then have "min pos (length string) = length string" by simp
    then show ?thesis using False none less.prems(2) by (simp add: strsearch_loop.simps [of st string pos])
  next
    case True
    then have nb: "none_before id pattern string pos" using less.prems(2) by (simp add: min_def)
    obtain pos' sh' where i: "pbm_inner st string pos shift = Some (pos', sh')" "pos \<le> pos'"
      and r: "if sh' = 0 then pos' < length string \<and> string ! pos' = last pattern \<and> none_before id pattern string pos'
       else length string \<le> pos' \<and> none_before id pattern string (length string)"
      using pbm_inner_correct [OF T n less.prems(1) True nb] by blast
    show ?thesis
    proof (cases "sh' = 0")
      case False
      then show ?thesis
        using True i r none by (simp add: strsearch_loop.simps [of st string pos] strsearch_loop.simps [of st string pos'])
    next
      case Z: True
      then have e: "pos' < length string" "string ! pos' = last pattern" "none_before id pattern string pos'" using r by auto
      define s where "s = pos' + 1 - length pattern"
      have l: "length pattern \<le> pos' + 1" "s + length pattern = pos' + 1" using i(2) less.prems(1) by (auto simp: s_def)
      have cmp: "take (length pattern) (drop s string) = pattern \<longleftrightarrow> matches_at id pattern string s"
        using l(2) e(1) by (simp add: matches_at_def)
      have small: "(pos' + 1) mod 2 ^ 64 = pos' + 1" using e(1) n by (intro mod_less) linarith
      have loop: "strsearch_loop st string pos shift = (if matches_at id pattern string s then Some (Some s)
          else strsearch_loop st string (pos' + 1) 0)"
        using True i(1) Z l(1) p(2,3) cmp small
        unfolding strsearch_loop.simps [of st string pos] Let_def by (simp add: s_def)
      show ?thesis
      proof (cases "matches_at id pattern string s")
        case m: True
        have "\<not> matches_at id pattern string r'" if "r' < s" for r'
          using that e(3) l(2) by (auto simp: none_before_def)
        then show ?thesis using loop m first_match_Some [OF m p(1)] by simp
      next
        case F: False
        have "\<not> matches_at id pattern string r'" if "r' + length pattern \<le> pos' + 1" for r'
        proof (cases "r' + length pattern = pos' + 1")
          case True
          then have "r' = s" using l(2) by simp
          with F show ?thesis by simp
        qed (use that e(3) in \<open>auto simp: none_before_def\<close>)
        then have "none_before id pattern string (min (pos' + 1) (length string))" using e(1) by (simp add: none_before_def)
        moreover have "length string - (pos' + 1) < length string - pos" using True i(2) by simp
        ultimately show ?thesis using less.hyps [of "pos' + 1" 0] l(1) loop F by simp
      qed
    qed
  qed
qed

section \<open>Properties\<close>

text \<open>C23 (Boyer-Moore-Horspool): for a pattern that is not empty, and within the documented limit on the lengths,
  each of the three searches, after its initialisation for the pattern, returns, reads nothing
  outside the subject, and finds the first occurrence of the pattern, or NULL when there is none:
  exact, up to the case of letters, and up to case and accents.\<close>

theorem bmh_searches_find_first:
  assumes "pattern \<noteq> []" "length pattern + length string \<le> 32767"
  shows "(\<exists>st. bmh_init pattern = Some st
      \<and> bmh_search st string (int (length string)) = Some (first_match id pattern string))
    \<and> (\<exists>st. bmhi_init pattern = Some st
      \<and> bmhi_search st string (int (length string)) = Some (first_match toupper pattern string))
    \<and> (\<exists>st. bmha_init pattern = Some st
      \<and> bmha_search st string (int (length string)) = Some (first_match lowerc pattern string))"
  unfolding bmh_search_def bmhi_search_def bmha_search_def
  using bmh.finds_first [OF assms] bmhi.finds_first [OF assms] bmha.finds_first [OF assms] by blast

theorem bmh_searches_find_first_witness:
  "first_match id [98, 99] [97, 98, 99, 100 :: byte] = Some 1
   \<and> (\<exists>st. bmh_init [98, 99] = Some st \<and> bmh_search st [97, 98, 99, 100] (int (length [97, 98, 99, 100 :: byte])) = Some (Some 1))"
proof -
  have "first_match id [98, 99] [97, 98, 99, 100 :: byte] = Some 1" by code_simp
  then show ?thesis using bmh_searches_find_first [of "[98, 99]" "[97, 98, 99, 100]"] by (simp del: One_nat_def)
qed

text \<open>C24 (the benchmark's search): after \<open>init_search\<close> on a pattern that is not empty, \<open>strsearch\<close> returns, whatever
  the uninitialised \<open>shift\<close> held, with the first occurrence of the pattern, or NULL when there is
  none; the empty pattern is never found.\<close>

theorem strsearch_finds_first:
  assumes "length pattern + length string < 2 ^ 64 - 1"
  shows "strsearch shift (init_search pattern) string
    = Some (if pattern = [] then None else first_match id pattern string)"
proof (cases "pattern = []")
  case True
  then show ?thesis using assms by (simp add: strsearch_def init_search_def strsearch_loop.simps)
next
  case False
  have len: "pb_len (init_search pattern) = length pattern" by (simp add: init_search_def Let_def)
  have "0 < length pattern" using False by simp
  then have pos: "(pb_len (init_search pattern) + (2 ^ 64 - 1)) mod 2 ^ 64 = length pattern - 1"
    using assms by (simp add: len mod_if)
  have nb: "none_before id pattern string (min (length pattern - 1) (length string))"
  proof -
    have "\<not> s + length pattern \<le> min (length pattern - 1) (length string)" for s
      using \<open>0 < length pattern\<close> by linarith
    then show ?thesis unfolding none_before_def by blast
  qed
  have "strsearch_loop (init_search pattern) string (length pattern - 1) shift = Some (first_match id pattern string)"
    by (rule strsearch_loop_correct [OF init_search_ok [OF False] _ _ nb]) (use assms in auto)
  then show ?thesis unfolding strsearch_def pos using False by simp
qed

theorem strsearch_finds_first_witness:
  "strsearch 7 (init_search [111, 111]) [121, 111, 111, 104, 111, 111] = Some (Some 1)"
proof -
  have "first_match id [111, 111] [121, 111, 111, 104, 111, 111 :: byte] = Some 1" by code_simp
  then show ?thesis using strsearch_finds_first [of "[111, 111]" "[121, 111, 111, 104, 111, 111]" 7] by simp
qed

end
