(* ===== verification/Isqrt.thy ===== *)
theory Isqrt
  imports Prelude
begin

text \<open>
  The integer square root of \<open>automotive/basicmath/isqrt.c\<close>. \<open>unsigned long\<close> has 64 bits on the target while
  \<open>BITSPERLONG\<close> is 32: the algorithm consumes the low 32 bits of its argument, two at a time, and then
  32 zero bits. The result is copied into the two 32-bit fields of \<open>struct int_sqrt\<close>, the low half
  first.
\<close>

record int_sqrt =
  sq_sqrt :: "32 word"
  sq_frac :: "32 word"

definition TOP2BITS :: "64 word \<Rightarrow> 64 word" where
  "TOP2BITS x = drop_bit 30 (x AND push_bit 30 3)"

text \<open>One round on the argument \<open>x\<close>, the accumulator \<open>a\<close> and the remainder \<open>r\<close>.\<close>

definition usqrt_round :: "64 word \<times> 64 word \<times> 64 word \<Rightarrow> 64 word \<times> 64 word \<times> 64 word" where
  "usqrt_round = (\<lambda>(x, a, r).
     let r = push_bit 2 r + TOP2BITS x;
         x = push_bit 2 x;
         a = push_bit 1 a;
         e = push_bit 1 a + 1
     in if r \<ge> e then (x, a + 1, r - e) else (x, a, r))"

definition usqrt :: "64 word \<Rightarrow> int_sqrt" where
  "usqrt x = (case (usqrt_round ^^ 32) (x, 0, 0) of (x, a, r) \<Rightarrow>
     \<lparr>sq_sqrt = ucast a, sq_frac = ucast (drop_bit 32 a)\<rparr>)"

section \<open>The digits\<close>

text \<open>The radicand: the low 32 bits followed by 32 zero bits.\<close>

definition radicand :: "64 word \<Rightarrow> nat" where
  "radicand x = (unat x mod 2 ^ 32) * 2 ^ 32"

lemma TOP2BITS_take: "TOP2BITS x = take_bit 2 (drop_bit 30 x)"
proof (rule bit_word_eqI)
  fix n assume "n < LENGTH(64)"
  have "TOP2BITS x = drop_bit 30 (x AND push_bit 30 (mask 2))" by (simp add: TOP2BITS_def mask_eq_exp_minus_1)
  then show "bit (TOP2BITS x) n = bit (take_bit 2 (drop_bit 30 x)) n"
    by (auto simp: bit_simps simp del: mask_numeral dest: bit_imp_le_length)
qed

lemma digit:
  assumes "i < 32"
  shows "unat (TOP2BITS (push_bit (2 * i) x)) = radicand x div 4 ^ (31 - i) mod 4"
proof -
  have "unat (TOP2BITS (push_bit (2 * i) x)) = take_bit 2 (drop_bit 30 (take_bit 64 (push_bit (2 * i) (unat x))))"
    by (simp add: TOP2BITS_take unsigned_take_bit_eq unsigned_drop_bit_eq unsigned_push_bit_eq)
  also have "\<dots> = take_bit 2 (drop_bit (62 - 2 * i) (push_bit 32 (take_bit 32 (unat x))))"
    using assms by (intro bit_eqI) (auto simp: bit_simps)
  also have "\<dots> = radicand x div 2 ^ (62 - 2 * i) mod 4"
    by (simp add: radicand_def take_bit_eq_mod drop_bit_eq_div push_bit_eq_mult)
  also have "(2 :: nat) ^ (62 - 2 * i) = 4 ^ (31 - i)"
  proof -
    have "62 - 2 * i = 2 * (31 - i)" by simp
    then show ?thesis by (simp only: power_mult) simp
  qed
  finally show ?thesis .
qed

lemma radicand_next:
  assumes "i < 32"
  shows "radicand x div 4 ^ (31 - i) = 4 * (radicand x div 4 ^ (32 - i)) + radicand x div 4 ^ (31 - i) mod 4"
proof -
  have "32 - i = Suc (31 - i)" using assms by simp
  then have "(4 :: nat) ^ (32 - i) = 4 ^ (31 - i) * 4" by (simp only: power_Suc2)
  then have "radicand x div 4 ^ (32 - i) = radicand x div 4 ^ (31 - i) div 4" by (simp add: div_mult2_eq)
  then show ?thesis by simp
qed

section \<open>Correctness\<close>

definition usqrt_inv :: "64 word \<Rightarrow> nat \<Rightarrow> 64 word \<times> 64 word \<times> 64 word \<Rightarrow> bool" where
  "usqrt_inv x0 i = (\<lambda>(x, a, r). x = push_bit (2 * i) x0 \<and> unat a ^ 2 + unat r = radicand x0 div 4 ^ (32 - i)
     \<and> unat r \<le> 2 * unat a \<and> unat a < 2 ^ i)"

lemma unat_shift_add:
  fixes u v :: "64 word"
  assumes "unat u * 2 ^ k + unat v < 2 ^ 64"
  shows "unat (push_bit k u + v) = unat u * 2 ^ k + unat v"
proof -
  have "unat (push_bit k u) = unat u * 2 ^ k"
  proof -
    have "unat (push_bit k u) = take_bit 64 (push_bit k (unat u))" by (simp add: unsigned_push_bit_eq)
    then show ?thesis using assms by (simp add: push_bit_eq_mult [of k "unat u"] take_bit_nat_eq_self)
  qed
  then show ?thesis using assms by (simp add: unat_word_ariths)
qed

lemma usqrt_round_inv:
  assumes "usqrt_inv x0 i s" "i < 32"
  shows "usqrt_inv x0 (Suc i) (usqrt_round s)"
proof -
  obtain x a r where s: "s = (x, a, r)" by (cases s)
  have x: "x = push_bit (2 * i) x0" and ar: "unat a ^ 2 + unat r = radicand x0 div 4 ^ (32 - i)"
    and r: "unat r \<le> 2 * unat a" and a: "unat a < 2 ^ i"
    using assms(1) by (simp_all add: usqrt_inv_def s)
  define t where "t = unat (TOP2BITS x)"
  have t: "t = radicand x0 div 4 ^ (31 - i) mod 4" using digit [OF assms(2), of x0] by (simp add: t_def x)
  then have t4: "t < 4" by simp
  have "(2 :: nat) ^ i \<le> 2 ^ 31" using assms(2) by (intro power_increasing) auto
  with a have a31: "unat a < 2 ^ 31" by linarith
  define R A E where "R = push_bit 2 r + TOP2BITS x" and "A = push_bit 1 a" and "E = push_bit 1 A + 1"
  have round: "usqrt_round s = (if R \<ge> E then (push_bit 2 x, A + 1, R - E) else (push_bit 2 x, A, R))"
    by (simp only: usqrt_round_def s prod.case Let_def R_def A_def E_def)
  have R: "unat R = 4 * unat r + t"
    unfolding R_def using unat_shift_add [of r 2 "TOP2BITS x"] r a31 t4 by (simp add: t_def)
  have A: "unat A = 2 * unat a" unfolding A_def using unat_shift_add [of a 1 0] a31 by simp
  have E: "unat E = 4 * unat a + 1" unfolding E_def using unat_shift_add [of A 1 1] A a31 by simp
  have nx: "radicand x0 div 4 ^ (31 - i) = 4 * (unat a ^ 2 + unat r) + t"
    using radicand_next [OF assms(2), of x0] by (simp add: ar t)
  have xs: "push_bit 2 x = push_bit (2 * Suc i) x0" by (simp add: x)
  show ?thesis
  proof (cases "E \<le> R")
    case True
    then have le: "4 * unat a + 1 \<le> 4 * unat r + t" by (simp add: word_le_nat_alt R E)
    have "unat (R - E) = 4 * unat r + t - (4 * unat a + 1)" using True by (simp add: unat_sub R E)
    moreover have "unat (A + 1) = 2 * unat a + 1" using unat_shift_add [of a 1 1] a31 by (simp add: A_def)
    moreover have "(2 * unat a + 1)\<^sup>2 + (4 * unat r + t - (4 * unat a + 1)) = 4 * (unat a ^ 2 + unat r) + t"
      using le by (simp add: power2_eq_square algebra_simps)
    ultimately show ?thesis using True le nx r t4 a xs assms(2) by (simp add: usqrt_inv_def round)
  next
    case False
    then have "4 * unat r + t \<le> 4 * unat a" by (simp add: word_le_nat_alt R E)
    moreover have "(2 * unat a)\<^sup>2 + (4 * unat r + t) = 4 * (unat a ^ 2 + unat r) + t" by (simp add: power2_eq_square)
    ultimately show ?thesis using False nx a xs assms(2) by (simp add: usqrt_inv_def round R A)
  qed
qed

lemma usqrt_rounds: "n \<le> 32 \<Longrightarrow> usqrt_inv x n ((usqrt_round ^^ n) (x, 0, 0))"
proof (induction n)
  case 0
  have "radicand x < 4 ^ 32" by (simp add: radicand_def)
  then show ?case by (simp add: usqrt_inv_def)
next
  case (Suc n)
  then show ?case using usqrt_round_inv [of x n] by simp
qed

section \<open>Properties\<close>

text \<open>C38 (integer square root): the field \<open>sqrt\<close> is the square root of the low 32 bits of the argument times
  2^16, rounded down, and the field \<open>frac\<close> is zero.\<close>

theorem usqrt_correct:
  "(unat (sq_sqrt (usqrt x)))\<^sup>2 \<le> (unat x mod 2 ^ 32) * 2 ^ 32
   \<and> (unat x mod 2 ^ 32) * 2 ^ 32 < (unat (sq_sqrt (usqrt x)) + 1)\<^sup>2 \<and> sq_frac (usqrt x) = 0"
proof -
  obtain y a r where s: "(usqrt_round ^^ 32) (x, 0, 0) = (y, a, r)" by (cases "(usqrt_round ^^ 32) (x, 0, 0)")
  have inv: "unat a ^ 2 + unat r = radicand x" "unat r \<le> 2 * unat a" "unat a < 2 ^ 32"
    using usqrt_rounds [of 32 x] unfolding s by (simp_all add: usqrt_inv_def)
  have q: "sq_sqrt (usqrt x) = ucast a" "sq_frac (usqrt x) = ucast (drop_bit 32 a)" by (simp_all add: usqrt_def s)
  have "unat (sq_sqrt (usqrt x)) = unat a"
    using inv(3) by (simp add: q unsigned_ucast_eq take_bit_nat_eq_self)
  moreover have "drop_bit 32 a = 0"
    using inv(3) by (simp add: word_unat_eq_iff drop_bit_eq_div unat_div)
  then have "sq_frac (usqrt x) = 0" by (simp add: q)
  moreover have "(unat a)\<^sup>2 \<le> radicand x" "radicand x < (unat a + 1)\<^sup>2"
    using inv by (auto simp: power2_eq_square)
  ultimately show ?thesis by (simp add: radicand_def)
qed

end
