(* ===== verification/Blowfish.thy ===== *)
theory Blowfish
  imports Blowfish_Tables
begin

text \<open>
  The Blowfish cipher of \<open>security/blowfish\<close>: the block cipher (\<open>bf_enc.c\<close> with the macro \<open>BF_ENC\<close> of
  \<open>bf_locl.h\<close>), the key schedule (\<open>bf_skey.c\<close>), and the modes ECB, CBC, CFB64 and OFB64
  (\<open>bf_ecb.c\<close>, \<open>bf_cbc.c\<close>, \<open>bf_cfb64.c\<close>, \<open>bf_ofb64.c\<close>).

  \<open>BF_LONG\<close> is \<open>unsigned long\<close>, 64 bits on the target, so a block is a pair of 64-bit words. The
  first index of a round, \<open>R>>24\<close>, is not masked: an access beyond the substitution boxes, or
  beyond the end of a byte buffer, is \<open>None\<close>. The invariant \<open>key_ok\<close> says that all entries of the
  key fit 32 bits; under it no access is out of range.
\<close>

type_synonym bf_block = "64 word \<times> 64 word"

record BF_KEY =
  key_P :: "64 word list"
  key_S :: "64 word list"

definition read_at :: "'a list \<Rightarrow> nat \<Rightarrow> 'a option" where
  "read_at xs i = (if i < length xs then Some (xs ! i) else None)"

section \<open>Bytes and words\<close>

definition n2l :: "byte list \<Rightarrow> 64 word" where
  "n2l c = push_bit 24 (ucast (c ! 0)) OR push_bit 16 (ucast (c ! 1)) OR push_bit 8 (ucast (c ! 2)) OR ucast (c ! 3)"

definition l2n :: "64 word \<Rightarrow> byte list" where
  "l2n l = [ucast (drop_bit 24 l AND 0xff), ucast (drop_bit 16 l AND 0xff), ucast (drop_bit 8 l AND 0xff), ucast (l AND 0xff)]"

definition n2ln :: "byte list \<Rightarrow> nat \<Rightarrow> bf_block" where
  "n2ln c n =
     ((if 1 \<le> n then push_bit 24 (ucast (c ! 0)) else 0) OR (if 2 \<le> n then push_bit 16 (ucast (c ! 1)) else 0)
        OR (if 3 \<le> n then push_bit 8 (ucast (c ! 2)) else 0) OR (if 4 \<le> n then ucast (c ! 3) else 0),
      (if 5 \<le> n then push_bit 24 (ucast (c ! 4)) else 0) OR (if 6 \<le> n then push_bit 16 (ucast (c ! 5)) else 0)
        OR (if 7 \<le> n then push_bit 8 (ucast (c ! 6)) else 0) OR (if 8 \<le> n then ucast (c ! 7) else 0))"

definition l2nn :: "64 word \<Rightarrow> 64 word \<Rightarrow> nat \<Rightarrow> byte list" where
  "l2nn l1 l2 n = take n (l2n l1 @ l2n l2)"

section \<open>The block cipher\<close>

definition BF_ENC :: "64 word list \<Rightarrow> 64 word \<Rightarrow> 64 word \<Rightarrow> 64 word \<Rightarrow> 64 word option" where
  "BF_ENC S LL R P = do {
     let LL = LL XOR P;
     s0 \<leftarrow> read_at S (unat (drop_bit 24 R));
     s1 \<leftarrow> read_at S (0x0100 + unat (drop_bit 16 R AND 0xff));
     s2 \<leftarrow> read_at S (0x0200 + unat (drop_bit 8 R AND 0xff));
     s3 \<leftarrow> read_at S (0x0300 + unat (R AND 0xff));
     Some (LL XOR ((((s0 + s1) XOR s2) + s3) AND 0xffffffff))
   }"

text \<open>The sequence of rounds: \<open>BF_ENC(r,l,s,p)\<close>, then \<open>BF_ENC(l,r,s,p)\<close>, and so on; the pair names
  first the half the next round reads.\<close>

primrec bf_rounds :: "64 word list \<Rightarrow> 64 word list \<Rightarrow> bf_block \<Rightarrow> bf_block option" where
  "bf_rounds S [] x = Some x"
| "bf_rounds S (p # ps) x = do { y \<leftarrow> BF_ENC S (snd x) (fst x) p; bf_rounds S ps (y, fst x) }"

definition BF_encrypt :: "BF_KEY \<Rightarrow> bool \<Rightarrow> bf_block \<Rightarrow> bf_block option" where
  "BF_encrypt key encrypt data =
     (let p = key_P key; (l, r) = data in
      if encrypt then do {
        let l = l XOR p ! 0;
        (l, r) \<leftarrow> bf_rounds (key_S key) [p ! 1, p ! 2, p ! 3, p ! 4, p ! 5, p ! 6, p ! 7, p ! 8,
          p ! 9, p ! 10, p ! 11, p ! 12, p ! 13, p ! 14, p ! 15, p ! 16] (l, r);
        let r = r XOR p ! 17;
        Some (r AND 0xffffffff, l AND 0xffffffff)
      } else do {
        let l = l XOR p ! 17;
        (l, r) \<leftarrow> bf_rounds (key_S key) [p ! 16, p ! 15, p ! 14, p ! 13, p ! 12, p ! 11, p ! 10, p ! 9,
          p ! 8, p ! 7, p ! 6, p ! 5, p ! 4, p ! 3, p ! 2, p ! 1] (l, r);
        let r = r XOR p ! 0;
        Some (r AND 0xffffffff, l AND 0xffffffff)
      })"

section \<open>The key schedule\<close>

definition bf_init :: BF_KEY where
  "bf_init = \<lparr>key_P = map word_of_int bf_init_P,
     key_S = map word_of_int (bf_init_S0 @ bf_init_S1 @ bf_init_S2 @ bf_init_S3)\<rparr>"

text \<open>One byte of the user key, and the position of the next.\<close>

definition key_byte :: "byte list \<Rightarrow> nat \<Rightarrow> nat \<Rightarrow> (64 word \<times> nat) option" where
  "key_byte data len d = do {
     b \<leftarrow> read_at data d;
     Some (ucast b, if d + 1 \<ge> len then 0 else d + 1)
   }"

definition key_word :: "byte list \<Rightarrow> nat \<Rightarrow> nat \<Rightarrow> (64 word \<times> nat) option" where
  "key_word data len d = do {
     (ri, d) \<leftarrow> key_byte data len d;
     (b, d) \<leftarrow> key_byte data len d;
     let ri = push_bit 8 ri OR b;
     (b, d) \<leftarrow> key_byte data len d;
     let ri = push_bit 8 ri OR b;
     (b, d) \<leftarrow> key_byte data len d;
     let ri = push_bit 8 ri OR b;
     Some (ri, d)
   }"

definition mix_key :: "byte list \<Rightarrow> nat \<Rightarrow> nat \<Rightarrow> BF_KEY \<times> nat \<Rightarrow> (BF_KEY \<times> nat) option" where
  "mix_key data len i = (\<lambda>(key, d). do {
     (ri, d) \<leftarrow> key_word data len d;
     Some (key\<lparr>key_P := (key_P key)[i := key_P key ! i XOR ri]\<rparr>, d)
   })"

definition fill_P :: "nat \<Rightarrow> BF_KEY \<times> bf_block \<Rightarrow> (BF_KEY \<times> bf_block) option" where
  "fill_P i = (\<lambda>(key, inp). do {
     inp \<leftarrow> BF_encrypt key True inp;
     Some (key\<lparr>key_P := (key_P key)[i := fst inp, i + 1 := snd inp]\<rparr>, inp)
   })"

definition fill_S :: "nat \<Rightarrow> BF_KEY \<times> bf_block \<Rightarrow> (BF_KEY \<times> bf_block) option" where
  "fill_S i = (\<lambda>(key, inp). do {
     inp \<leftarrow> BF_encrypt key True inp;
     Some (key\<lparr>key_S := (key_S key)[i := fst inp, i + 1 := snd inp]\<rparr>, inp)
   })"

definition BF_set_key :: "nat \<Rightarrow> byte list \<Rightarrow> BF_KEY option" where
  "BF_set_key len data = do {
     let len = (if len > 72 then 72 else len);
     (key, d) \<leftarrow> fold_opt (mix_key data len) [0..<18] (bf_init, 0);
     (key, inp) \<leftarrow> fold_opt fill_P (map (\<lambda>i. 2 * i) [0..<9]) (key, 0, 0);
     (key, inp) \<leftarrow> fold_opt fill_S (map (\<lambda>i. 2 * i) [0..<512]) (key, inp);
     Some key
   }"

section \<open>Modes of operation\<close>

definition BF_ecb_encrypt :: "BF_KEY \<Rightarrow> bool \<Rightarrow> byte list \<Rightarrow> byte list option" where
  "BF_ecb_encrypt ks encrypt inp = do {
     let d = (n2l inp, n2l (drop 4 inp));
     d \<leftarrow> BF_encrypt ks encrypt d;
     Some (l2n (fst d) @ l2n (snd d))
   }"

text \<open>The loops of \<open>BF_cbc_encrypt\<close>: \<open>l\<close> is the number of bytes left; the result is what was written
  to \<open>out\<close> and the chaining block left for \<open>iv\<close>.\<close>

function cbc_enc :: "BF_KEY \<Rightarrow> bf_block \<Rightarrow> byte list \<Rightarrow> nat \<Rightarrow> (byte list \<times> bf_block) option" where
  "cbc_enc ks tout inp l =
     (if l \<ge> 8 then do {
        c_assert (length inp \<ge> 8);
        let tin = (n2l inp XOR fst tout, n2l (drop 4 inp) XOR snd tout);
        tout \<leftarrow> BF_encrypt ks True tin;
        (out, iv) \<leftarrow> cbc_enc ks tout (drop 8 inp) (l - 8);
        Some (l2n (fst tout) @ l2n (snd tout) @ out, iv)
      } else if l \<noteq> 0 then do {
        c_assert (length inp \<ge> l);
        let (tin0, tin1) = n2ln inp l;
        tout \<leftarrow> BF_encrypt ks True (tin0 XOR fst tout, tin1 XOR snd tout);
        Some (l2n (fst tout) @ l2n (snd tout), tout)
      } else Some ([], tout))"
  by pat_completeness auto
termination
  by (relation "measure (\<lambda>(ks, tout, inp, l). l)") auto

function cbc_dec :: "BF_KEY \<Rightarrow> bf_block \<Rightarrow> byte list \<Rightarrow> nat \<Rightarrow> (byte list \<times> bf_block) option" where
  "cbc_dec ks xors inp l =
     (if l \<ge> 8 then do {
        c_assert (length inp \<ge> 8);
        let tin = (n2l inp, n2l (drop 4 inp));
        t \<leftarrow> BF_encrypt ks False tin;
        let tout = (fst t XOR fst xors, snd t XOR snd xors);
        (out, iv) \<leftarrow> cbc_dec ks tin (drop 8 inp) (l - 8);
        Some (l2n (fst tout) @ l2n (snd tout) @ out, iv)
      } else if l \<noteq> 0 then do {
        c_assert (length inp \<ge> 8);
        let tin = (n2l inp, n2l (drop 4 inp));
        t \<leftarrow> BF_encrypt ks False tin;
        let tout = (fst t XOR fst xors, snd t XOR snd xors);
        Some (l2nn (fst tout) (snd tout) l, tin)
      } else Some ([], xors))"
  by pat_completeness auto
termination
  by (relation "measure (\<lambda>(ks, xors, inp, l). l)") auto

declare cbc_enc.simps [simp del] cbc_dec.simps [simp del]

definition BF_cbc_encrypt ::
    "BF_KEY \<Rightarrow> bool \<Rightarrow> byte list \<Rightarrow> nat \<Rightarrow> byte list \<Rightarrow> (byte list \<times> byte list) option" where
  "BF_cbc_encrypt ks encrypt inp len iv = do {
     let chain = (n2l iv, n2l (drop 4 iv));
     (out, chain) \<leftarrow> (if encrypt then cbc_enc ks chain inp len else cbc_dec ks chain inp len);
     Some (out, l2n (fst chain) @ l2n (snd chain))
   }"

text \<open>CFB: the feedback register is the byte array \<open>ivec\<close> itself; it is encrypted in place when the
  position \<open>n\<close> returns to zero.\<close>

definition refill :: "BF_KEY \<Rightarrow> nat \<Rightarrow> byte list \<Rightarrow> byte list option" where
  "refill ks n iv =
     (if n = 0 then do {
        ti \<leftarrow> BF_encrypt ks True (n2l iv, n2l (drop 4 iv));
        Some (l2n (fst ti) @ l2n (snd ti) @ drop 8 iv)
      } else Some iv)"

primrec cfb_loop :: "BF_KEY \<Rightarrow> bool \<Rightarrow> byte list \<Rightarrow> byte list \<Rightarrow> nat \<Rightarrow> (byte list \<times> byte list \<times> nat) option" where
  "cfb_loop ks encrypt [] iv n = Some ([], iv, n)"
| "cfb_loop ks encrypt (b # bs) iv n = do {
     iv \<leftarrow> refill ks n iv;
     let c = b XOR iv ! n;
     let iv = iv[n := if encrypt then c else b];
     (out, iv, n) \<leftarrow> cfb_loop ks encrypt bs iv ((n + 1) mod 8);
     Some (c # out, iv, n)
   }"

definition BF_cfb64_encrypt ::
    "BF_KEY \<Rightarrow> bool \<Rightarrow> byte list \<Rightarrow> byte list \<Rightarrow> nat \<Rightarrow> (byte list \<times> byte list \<times> nat) option" where
  "BF_cfb64_encrypt schedule encrypt inp ivec num = cfb_loop schedule encrypt inp ivec num"

text \<open>OFB: \<open>ti\<close> is the register, \<open>d\<close> its bytes.\<close>

primrec ofb_loop :: "BF_KEY \<Rightarrow> byte list \<Rightarrow> bf_block \<Rightarrow> byte list \<Rightarrow> nat \<Rightarrow> nat
    \<Rightarrow> (byte list \<times> bf_block \<times> nat \<times> nat) option" where
  "ofb_loop ks [] ti d n save = Some ([], ti, n, save)"
| "ofb_loop ks (b # bs) ti d n save = do {
     (ti, d, save) \<leftarrow> (if n = 0 then do {
         ti \<leftarrow> BF_encrypt ks True ti;
         Some (ti, l2n (fst ti) @ l2n (snd ti), save + 1)
       } else Some (ti, d, save));
     (out, ti', n', save) \<leftarrow> ofb_loop ks bs ti d ((n + 1) mod 8) save;
     Some ((b XOR d ! n) # out, ti', n', save)
   }"

definition BF_ofb64_encrypt ::
    "BF_KEY \<Rightarrow> byte list \<Rightarrow> byte list \<Rightarrow> nat \<Rightarrow> (byte list \<times> byte list \<times> nat) option" where
  "BF_ofb64_encrypt schedule inp ivec num = do {
     let v0 = n2l ivec;
     let v1 = n2l (drop 4 ivec);
     (out, ti, n, save) \<leftarrow> ofb_loop schedule inp (v0, v1) (l2n v0 @ l2n v1) num 0;
     let ivec = (if save \<noteq> 0 then l2n (fst ti) @ l2n (snd ti) @ drop 8 ivec else ivec);
     Some (out, ivec, n)
   }"

section \<open>32-bit values\<close>

definition w32 :: "64 word \<Rightarrow> bool" where
  "w32 x \<longleftrightarrow> take_bit 32 x = x"

lemma w32_0 [simp]: "w32 0"
  by (simp add: w32_def)

lemma w32_xor [intro]: "w32 x \<Longrightarrow> w32 y \<Longrightarrow> w32 (x XOR y)"
  by (simp add: w32_def)

lemma w32_or [intro]: "w32 x \<Longrightarrow> w32 y \<Longrightarrow> w32 (x OR y)"
  by (simp add: w32_def)

lemma and_ffffffff: "x AND 0xffffffff = take_bit 32 x" for x :: "64 word"
  by (simp add: take_bit_eq_mask mask_eq_exp_minus_1)

lemma and_ff: "x AND 0xff = take_bit 8 x" for x :: "64 word"
  by (simp add: take_bit_eq_mask mask_eq_exp_minus_1)

lemma w32_mask [simp]: "w32 (x AND 0xffffffff)"
  by (simp add: w32_def and_ffffffff)

lemma w32_mask_id: "w32 x \<Longrightarrow> x AND 0xffffffff = x"
  by (simp add: w32_def and_ffffffff)

lemma unat_take_bit_8: "unat (take_bit 8 x) < 256" for x :: "64 word"
  using take_bit_nat_less_exp [of 8 "unat x"] by (simp add: unsigned_take_bit_eq)

lemma w32_top_byte: "w32 x \<Longrightarrow> unat (drop_bit 24 x) < 256"
proof -
  assume "w32 x"
  then have "drop_bit 24 x = drop_bit 24 (take_bit 32 x)" by (simp add: w32_def)
  also have "\<dots> = take_bit 8 (drop_bit 24 x)" by (simp add: drop_bit_take_bit)
  finally show ?thesis using unat_take_bit_8 [of "drop_bit 24 x"] by simp
qed

lemma w32_of_int: "0 \<le> i \<Longrightarrow> i < 2 ^ 32 \<Longrightarrow> w32 (word_of_int i)"
  by (simp add: w32_def take_bit_of_int take_bit_int_eq_self)

section \<open>The block cipher is invertible\<close>

lemma BF_ENC_Some:
  assumes "length S = 1024" "w32 LL" "w32 R" "w32 P"
  shows "\<exists>y. BF_ENC S LL R P = Some y \<and> w32 y"
proof -
  have i: "unat (drop_bit 24 R) < 1024" using w32_top_byte [OF assms(3)] by simp
  have "unat (x AND 0xff) < 256" for x :: "64 word" using unat_take_bit_8 [of x] by (simp add: and_ff)
  then have "k + unat (x AND 0xff) < 1024" if "k \<le> 768" for x :: "64 word" and k
    using that add_le_less_mono [of k 768 "unat (x AND 0xff)" 256] by simp
  with i show ?thesis using assms by (auto simp: BF_ENC_def read_at_def intro!: w32_xor)
qed

lemma BF_ENC_involution: "BF_ENC S LL R P = Some y \<Longrightarrow> BF_ENC S y R P = Some LL"
  by (auto simp: BF_ENC_def read_at_def bind_eq_Some_conv xor.assoc xor.left_commute split: if_splits)

definition block_ok :: "bf_block \<Rightarrow> bool" where
  "block_ok x \<longleftrightarrow> w32 (fst x) \<and> w32 (snd x)"

definition key_ok :: "BF_KEY \<Rightarrow> bool" where
  "key_ok key \<longleftrightarrow> length (key_P key) = 18 \<and> length (key_S key) = 1024
     \<and> list_all w32 (key_P key) \<and> list_all w32 (key_S key)"

lemma bf_rounds_Some:
  assumes "length S = 1024" "list_all w32 ps" "block_ok x"
  shows "\<exists>y. bf_rounds S ps x = Some y \<and> block_ok y"
  using assms(2,3)
proof (induction ps arbitrary: x)
  case (Cons p ps)
  then obtain y where "BF_ENC S (snd x) (fst x) p = Some y" "w32 y"
    using BF_ENC_Some [OF assms(1), of "snd x" "fst x" p] by (auto simp: block_ok_def)
  then show ?case using Cons by (simp add: block_ok_def)
qed simp

lemma bf_rounds_append: "bf_rounds S (ps @ qs) x = Option.bind (bf_rounds S ps x) (bf_rounds S qs)"
  by (induction ps arbitrary: x) (simp_all add: Option.bind_assoc)

lemma bf_rounds_inverse:
  "bf_rounds S ps x = Some y \<Longrightarrow> bf_rounds S (rev ps) (prod.swap y) = Some (prod.swap x)"
proof (induction ps arbitrary: x)
  case (Cons p ps)
  then obtain z where z: "BF_ENC S (snd x) (fst x) p = Some z" "bf_rounds S ps (z, fst x) = Some y"
    by (auto simp: bind_eq_Some_conv)
  from Cons.IH [OF z(2)] BF_ENC_involution [OF z(1)] show ?case
    by (simp add: bf_rounds_append prod.swap_def)
qed simp

text \<open>Both directions are the same network, with the round keys in opposite order.\<close>

definition round_keys :: "BF_KEY \<Rightarrow> bool \<Rightarrow> 64 word list" where
  "round_keys key e = (let ps = map (\<lambda>i. key_P key ! i) [1..<17] in if e then ps else rev ps)"

lemma BF_encrypt_rounds:
  "BF_encrypt key e (l, r) = do {
     (l, r) \<leftarrow> bf_rounds (key_S key) (round_keys key e) (l XOR key_P key ! (if e then 0 else 17), r);
     Some ((r XOR key_P key ! (if e then 17 else 0)) AND 0xffffffff, l AND 0xffffffff) }"
proof -
  have u: "[1..<17] = [1, 2, 3, 4, 5, 6, 7, 8, 9, 10, 11, 12, 13, 14, 15, 16 :: nat]" by code_simp
  show ?thesis
    unfolding BF_encrypt_def round_keys_def Let_def u
    by (cases e) (simp_all del: bf_rounds.simps)
qed

lemma key_ok_words:
  assumes "key_ok key"
  shows "i < 18 \<Longrightarrow> w32 (key_P key ! i)" "length (key_S key) = 1024" "list_all w32 (round_keys key e)"
  using assms by (auto simp: key_ok_def list_all_length round_keys_def Let_def rev_nth)

lemma BF_encrypt_Some:
  assumes "key_ok key" "block_ok x"
  shows "\<exists>y. BF_encrypt key e x = Some y \<and> block_ok y"
proof -
  note k = key_ok_words [OF assms(1)]
  obtain l r where x: "x = (l, r)" by force
  have "block_ok (l XOR key_P key ! (if e then 0 else 17), r)"
    using assms(2) k(1) [of 0] k(1) [of 17] by (auto simp: block_ok_def x)
  from bf_rounds_Some [OF k(2,3) this] obtain l' r' where
    "bf_rounds (key_S key) (round_keys key e) (l XOR key_P key ! (if e then 0 else 17), r) = Some (l', r')" by force
  then show ?thesis unfolding x BF_encrypt_rounds by (simp add: block_ok_def)
qed

lemma BF_encrypt_inverse:
  assumes "key_ok key" "block_ok x" "BF_encrypt key e x = Some y"
  shows "BF_encrypt key (\<not> e) y = Some x"
proof -
  note k = key_ok_words [OF assms(1)]
  obtain l r where x: "x = (l, r)" by force
  define a b where "a = key_P key ! (if e then 0 else 17)" and "b = key_P key ! (if e then 17 else 0)"
  have w: "w32 l" "w32 r" "w32 a" "w32 b"
    using assms(2) k(1) [of 0] k(1) [of 17] by (simp_all add: block_ok_def x a_def b_def)
  then have "block_ok (l XOR a, r)" by (auto simp: block_ok_def)
  from bf_rounds_Some [OF k(2,3) this] obtain l' r' where
    rr: "bf_rounds (key_S key) (round_keys key e) (l XOR a, r) = Some (l', r')" "w32 l'" "w32 r'"
    by (force simp: block_ok_def)
  have "y = (r' XOR b, l')"
    using assms(3) rr w unfolding x BF_encrypt_rounds a_def [symmetric] b_def [symmetric]
    by (simp add: w32_mask_id w32_xor)
  moreover have "rev (round_keys key e) = round_keys key (\<not> e)" by (simp add: round_keys_def Let_def)
  then have "bf_rounds (key_S key) (round_keys key (\<not> e)) (r', l') = Some (r, l XOR a)"
    using bf_rounds_inverse [OF rr(1)] by simp
  ultimately show ?thesis
    unfolding x by (cases e) (simp_all add: BF_encrypt_rounds a_def b_def xor.assoc w32_mask_id [OF w(1)] w32_mask_id [OF w(2)])
qed

section \<open>Bytes\<close>

lemma w32_bytes: "w32 (ucast b)" "w32 (push_bit 8 (ucast b))" "w32 (push_bit 16 (ucast b))" "w32 (push_bit 24 (ucast b))"
  for b :: byte
  unfolding w32_def by (rule bit_word_eqI; auto simp: bit_simps dest: bit_imp_le_length)+

lemma w32_n2l: "w32 (n2l c)"
  unfolding n2l_def by (intro w32_or w32_bytes)

lemma length_l2n [simp]: "length (l2n x) = 4"
  by (simp add: l2n_def)

lemma n2l_l2n: "w32 x \<Longrightarrow> n2l (l2n x @ bs) = x"
proof (rule bit_word_eqI)
  fix n assume w: "w32 x" and "n < LENGTH(64)"
  have hi: "\<not> bit x n" if "32 \<le> n" using w that unfolding w32_def by (metis bit_take_bit_iff not_le)
  consider "n < 8" | "8 \<le> n" "n < 16" | "16 \<le> n" "n < 24" | "24 \<le> n" "n < 32" | "32 \<le> n" by linarith
  then show "bit (n2l (l2n x @ bs)) n = bit x n"
    by cases (use hi in \<open>auto simp: n2l_def l2n_def and_ff bit_simps dest: bit_imp_le_length\<close>)
qed

lemma l2n_n2l: "4 \<le> length c \<Longrightarrow> l2n (n2l c) = take 4 c"
proof -
  assume "4 \<le> length c"
  then obtain a b d e r where c: "c = a # b # d # e # r" by (auto simp: numeral_eq_Suc Suc_le_length_iff)
  have "ucast (drop_bit 24 (n2l c) AND 0xff) = a" "ucast (drop_bit 16 (n2l c) AND 0xff) = b"
    "ucast (drop_bit 8 (n2l c) AND 0xff) = d" "ucast (n2l c AND 0xff) = e"
    unfolding c n2l_def and_ff by (rule bit_word_eqI; auto simp: bit_simps dest: bit_imp_le_length)+
  then show ?thesis by (simp add: l2n_def c)
qed

lemma n2ln_pad:
  assumes "n \<le> 8" "n \<le> length c"
  defines "p \<equiv> take n c @ replicate (8 - n) 0"
  shows "n2ln c n = (n2l p, n2l (drop 4 p))"
proof -
  have nth: "ucast (p ! i) = (if Suc i \<le> n then ucast (c ! i) else (0 :: 64 word))" if "i < 8" for i
    using assms(1,2) that by (auto simp: p_def nth_append)
  have "length p = 8" using assms(1,2) by (simp add: p_def)
  then have "drop 4 p ! i = p ! (4 + i)" if "i < 4" for i using that by simp
  then show ?thesis
    by (simp add: n2ln_def n2l_def nth if_distrib [of "push_bit _"] push_bit_of_0 cong: if_cong)
qed

section \<open>The contract of a block cipher\<close>

locale block_cipher =
  fixes enc dec :: "'b \<Rightarrow> 'b option" and ok :: "'b \<Rightarrow> bool"
  assumes total: "ok x \<Longrightarrow> \<exists>y. enc x = Some y \<and> ok y"
    and inverse: "ok x \<Longrightarrow> enc x = Some y \<Longrightarrow> dec y = Some x"
begin

lemma injective: "ok x \<Longrightarrow> ok y \<Longrightarrow> enc x = enc y \<Longrightarrow> x = y"
  using total [of x] inverse [of x] inverse [of y] by auto

lemma blocks:
  assumes "list_all ok xs"
  shows "\<exists>ys. map_opt enc xs = Some ys \<and> map_opt dec ys = Some xs \<and> list_all ok ys"
  using assms
proof (induction xs)
  case (Cons x xs)
  then obtain ys where "map_opt enc xs = Some ys" "map_opt dec ys = Some xs" "list_all ok ys" by auto
  moreover obtain y where "enc x = Some y" "ok y" using total Cons.prems by auto
  ultimately show ?case using inverse [of x y] Cons.prems by simp
qed simp

end

interpretation bf: block_cipher "\<lambda>(k, x). map_option (Pair k) (BF_encrypt k e x)"
  "\<lambda>(k, x). map_option (Pair k) (BF_encrypt k (\<not> e) x)" "\<lambda>(k, x). key_ok k \<and> block_ok x" for e
  by unfold_locales (use BF_encrypt_Some BF_encrypt_inverse in \<open>force+\<close>)

lemma bf_inverse_block:
  assumes "key_ok k" "block_ok x"
  obtains y where "BF_encrypt k e x = Some y" "block_ok y" "BF_encrypt k (\<not> e) y = Some x"
  using BF_encrypt_Some [OF assms, of e] BF_encrypt_inverse [OF assms, of e] by blast

section \<open>Cipher block chaining\<close>

lemma block_bytes:
  assumes "block_ok x"
  shows "n2l (l2n (fst x) @ l2n (snd x) @ bs) = fst x" "n2l (drop 4 (l2n (fst x) @ l2n (snd x) @ bs)) = snd x"
    "drop 8 (l2n (fst x) @ l2n (snd x) @ bs) = bs"
  using assms n2l_l2n [of "fst x"] n2l_l2n [of "snd x"] by (simp_all add: block_ok_def)

lemma bytes_block: "8 \<le> length c \<Longrightarrow> l2n (n2l c) @ l2n (n2l (drop 4 c)) = take 8 c"
proof -
  assume "8 \<le> length c"
  then have "l2n (n2l c) @ l2n (n2l (drop 4 c)) = take 4 c @ take 4 (drop 4 c)" by (simp add: l2n_n2l)
  also have "\<dots> = take 8 c" using take_add [of 4 4 c] by simp
  finally show ?thesis .
qed

lemma xor_cancel: "(x XOR t) XOR t = x" for x t :: "64 word"
  by (simp add: xor.assoc)

lemma cbc_roundtrip:
  assumes "key_ok ks"
  shows "block_ok t \<Longrightarrow> l \<le> length inp \<Longrightarrow>
    \<exists>out iv. cbc_enc ks t inp l = Some (out, iv) \<and> cbc_dec ks t out l = Some (take l inp, iv)
      \<and> length out = 8 * ((l + 7) div 8) \<and> block_ok iv"
proof (induction l arbitrary: t inp rule: less_induct)
  case (less l)
  have enc: "\<exists>y. BF_encrypt ks True (n2l p XOR fst t, n2l (drop 4 p) XOR snd t) = Some y \<and> block_ok y
      \<and> BF_encrypt ks False y = Some (n2l p XOR fst t, n2l (drop 4 p) XOR snd t)" for p
  proof -
    have "block_ok (n2l p XOR fst t, n2l (drop 4 p) XOR snd t)"
      using less.prems(1) w32_n2l by (auto simp: block_ok_def)
    then obtain y where "BF_encrypt ks True (n2l p XOR fst t, n2l (drop 4 p) XOR snd t) = Some y" "block_ok y"
      "BF_encrypt ks (\<not> True) y = Some (n2l p XOR fst t, n2l (drop 4 p) XOR snd t)"
      by (rule bf_inverse_block [OF assms])
    then show ?thesis by auto
  qed
  consider "l = 0" | "0 < l" "l < 8" | "8 \<le> l" by linarith
  then show ?case
  proof cases
    case 1
    then show ?thesis using less.prems(1) by (simp add: cbc_enc.simps cbc_dec.simps)
  next
    case 2
    define p where "p = take l inp @ replicate (8 - l) 0"
    have n: "n2ln inp l = (n2l p, n2l (drop 4 p))" unfolding p_def using 2 less.prems(2) by (intro n2ln_pad) simp_all
    obtain y where y: "BF_encrypt ks True (n2l p XOR fst t, n2l (drop 4 p) XOR snd t) = Some y" "block_ok y"
      "BF_encrypt ks False y = Some (n2l p XOR fst t, n2l (drop 4 p) XOR snd t)" using enc [of p] by blast
    have p8: "length p = 8" using 2 less.prems(2) by (simp add: p_def)
    have "cbc_enc ks t inp l = Some (l2n (fst y) @ l2n (snd y), y)"
      using 2 less.prems(2) y(1) by (simp add: cbc_enc.simps [of ks t inp l] n)
    moreover have "cbc_dec ks t (l2n (fst y) @ l2n (snd y)) l = Some (take l p, y)"
      using 2 y(3) block_bytes [OF y(2), of "[]"] bytes_block [of p] p8
      by (simp add: cbc_dec.simps [of ks t _ l] l2nn_def xor_cancel del: take_append)
    moreover have "take l p = take l inp" using less.prems(2) by (simp add: p_def)
    moreover have "(l + 7) div 8 = 1" using 2 by simp
    ultimately show ?thesis using y(2) by simp
  next
    case 3
    obtain y where y: "BF_encrypt ks True (n2l inp XOR fst t, n2l (drop 4 inp) XOR snd t) = Some y" "block_ok y"
      "BF_encrypt ks False y = Some (n2l inp XOR fst t, n2l (drop 4 inp) XOR snd t)" using enc [of inp] by blast
    obtain out iv where r: "cbc_enc ks y (drop 8 inp) (l - 8) = Some (out, iv)"
      "cbc_dec ks y out (l - 8) = Some (take (l - 8) (drop 8 inp), iv)" "length out = 8 * ((l - 8 + 7) div 8)" "block_ok iv"
    proof -
      have "l - 8 < l" "l - 8 \<le> length (drop 8 inp)" using 3 less.prems(2) by simp_all
      from less.IH [OF this(1) y(2) this(2)] that show ?thesis by blast
    qed
    have "cbc_enc ks t inp l = Some (l2n (fst y) @ l2n (snd y) @ out, iv)"
      using 3 less.prems(2) y(1) r(1) by (simp add: cbc_enc.simps [of ks t inp l])
    moreover have "cbc_dec ks t (l2n (fst y) @ l2n (snd y) @ out) l
        = Some ((l2n (n2l inp) @ l2n (n2l (drop 4 inp))) @ take (l - 8) (drop 8 inp), iv)"
      using 3 y(3) block_bytes [OF y(2), of out] r(2)
      by (simp add: cbc_dec.simps [of ks t _ l] xor_cancel)
    moreover have "take 8 inp @ take (l - 8) (drop 8 inp) = take l inp" using take_add [of 8 "l - 8" inp] 3 by simp
    moreover have "8 * ((l + 7) div 8) = 8 + 8 * ((l - 8 + 7) div 8)"
      using 3 div_add_self2 [of 8 "l - 8 + 7"] by (simp add: add.commute)
    ultimately show ?thesis using r(3,4) bytes_block [of inp] 3 less.prems(2) by simp
  qed
qed

section \<open>The feedback modes\<close>

lemma refill_Some:
  assumes "key_ok ks" "length iv = 8"
  shows "\<exists>iv'. refill ks n iv = Some iv' \<and> length iv' = 8"
proof -
  have "block_ok (n2l iv, n2l (drop 4 iv))" using w32_n2l by (simp add: block_ok_def)
  then show ?thesis using BF_encrypt_Some [OF assms(1), of _ True] assms(2) by (fastforce simp: refill_def)
qed

lemma cfb_total:
  assumes "key_ok ks" "length iv = 8" "n < 8"
  shows "\<exists>out iv' n'. cfb_loop ks e bs iv n = Some (out, iv', n') \<and> length out = length bs \<and> length iv' = 8 \<and> n' < 8"
  using assms(2,3)
proof (induction bs arbitrary: iv n)
  case (Cons b bs)
  obtain iv1 where "refill ks n iv = Some iv1" "length iv1 = 8" using refill_Some [OF assms(1) Cons.prems(1)] by blast
  with Cons.IH [of "iv1[n := if e then b XOR iv1 ! n else b]" "(n + 1) mod 8"] show ?case by (auto simp: Let_def)
qed simp

lemma cfb_inverse:
  "cfb_loop ks True bs iv n = Some (out, iv', n') \<Longrightarrow> cfb_loop ks False out iv n = Some (bs, iv', n')"
  by (induction bs arbitrary: iv n out) (auto simp: bind_eq_Some_conv Let_def xor.assoc)

lemma cfb_append:
  "cfb_loop ks e (xs @ ys) iv n = do {
     (out1, iv, n) \<leftarrow> cfb_loop ks e xs iv n;
     (out2, iv, n) \<leftarrow> cfb_loop ks e ys iv n;
     Some (out1 @ out2, iv, n)
   }"
proof (induction xs arbitrary: iv n)
  case Nil
  then show ?case by (cases "cfb_loop ks e ys iv n") auto
next
  case (Cons x xs)
  show ?case
  proof (cases "refill ks n iv")
    case (Some iv1)
    let ?iv = "iv1[n := if e then x XOR iv1 ! n else x]"
    show ?thesis using Cons [of ?iv "(n + 1) mod 8"] Some
      by (cases "cfb_loop ks e xs ?iv ((n + 1) mod 8)") (auto simp: Let_def split: bind_split)
  qed simp
qed

lemma ofb_inverse:
  "ofb_loop ks bs ti d n save = Some (out, ti', n', save') \<Longrightarrow> ofb_loop ks out ti d n save = Some (bs, ti', n', save')"
  by (induction bs arbitrary: ti d n save out) (auto simp: bind_eq_Some_conv xor.assoc split: if_splits)

lemma ofb_total:
  assumes "key_ok ks" "block_ok ti" "length d = 8" "n < 8"
  shows "\<exists>out ti' n' save'. ofb_loop ks bs ti d n save = Some (out, ti', n', save') \<and> length out = length bs
    \<and> block_ok ti' \<and> n' < 8"
  using assms(2-4)
proof (induction bs arbitrary: ti d n save)
  case (Cons b bs)
  show ?case
  proof (cases "n = 0")
    case True
    obtain y where y: "BF_encrypt ks True ti = Some y" "block_ok y" using BF_encrypt_Some [OF assms(1) Cons.prems(1)] by blast
    with Cons.IH [of y "l2n (fst y) @ l2n (snd y)" 1 "save + 1"] True show ?thesis by auto
  next
    case False
    with Cons.IH [of ti d "(n + 1) mod 8" save] Cons.prems show ?thesis by auto
  qed
qed simp

section \<open>The key schedule\<close>

lemma bf_init_ok: "key_ok bf_init"
proof -
  have "list_all (\<lambda>x. 0 \<le> x \<and> x < 2 ^ 32) (bf_init_S0 @ bf_init_S1 @ bf_init_S2 @ bf_init_S3)"
    using bf_init_32bit by simp
  then show ?thesis
    using bf_init_32bit(1) bf_init_lengths by (auto simp: key_ok_def bf_init_def list_all_iff intro: w32_of_int)
qed

lemma key_word_Some:
  assumes "0 < len" "len \<le> length data" "d < len"
  obtains ri d' where "key_word data len d = Some (ri, d')" "w32 ri" "d' < len"
proof -
  have kb: "\<exists>b d'. key_byte data len d = Some (ucast (b :: byte), d') \<and> d' < len" if "d < len" for d
    using assms that by (auto simp: key_byte_def read_at_def)
  obtain b1 d1 where 1: "key_byte data len d = Some (ucast (b1 :: byte), d1)" "d1 < len" using kb assms(3) by blast
  obtain b2 d2 where 2: "key_byte data len d1 = Some (ucast (b2 :: byte), d2)" "d2 < len" using kb 1(2) by blast
  obtain b3 d3 where 3: "key_byte data len d2 = Some (ucast (b3 :: byte), d3)" "d3 < len" using kb 2(2) by blast
  obtain b4 d4 where 4: "key_byte data len d3 = Some (ucast (b4 :: byte), d4)" "d4 < len" using kb 3(2) by blast
  let ?ri = "push_bit 8 (push_bit 8 (push_bit 8 (ucast b1) OR ucast b2) OR ucast b3) OR (ucast b4 :: 64 word)"
  have "w32 ?ri" unfolding w32_def by (rule bit_word_eqI) (auto simp: bit_simps dest: bit_imp_le_length)
  then show ?thesis using that [of ?ri d4] 1 2 3 4 by (simp add: key_word_def)
qed

lemma key_ok_update:
  assumes "key_ok key" "w32 x"
  shows "key_ok (key\<lparr>key_P := (key_P key)[i := x]\<rparr>)" "key_ok (key\<lparr>key_S := (key_S key)[i := x]\<rparr>)"
  using assms by (auto simp: key_ok_def list_all_update)

lemma BF_set_key_ok:
  assumes "0 < len" "len \<le> length data"
  shows "\<exists>key. BF_set_key len data = Some key \<and> key_ok key"
proof -
  let ?len = "if len > 72 then 72 else len"
  have l: "0 < ?len" "?len \<le> length data" using assms by auto
  let ?P = "\<lambda>(key, d). key_ok key \<and> d < ?len" and ?Q = "\<lambda>(key, inp). key_ok key \<and> block_ok inp"
  have "\<exists>s. fold_opt (mix_key data ?len) [0..<18] (bf_init, 0) = Some s \<and> ?P s"
  proof (rule fold_opt_Some)
    fix i :: nat and s :: "BF_KEY \<times> nat"
    assume "i \<in> set [0..<18]" and s: "?P s"
    obtain key d where sd: "s = (key, d)" by force
    have k: "key_ok key" "d < ?len" using s by (simp_all add: sd)
    obtain ri d' where r: "key_word data ?len d = Some (ri, d')" "w32 ri" "d' < ?len" using key_word_Some [OF l k(2)] .
    have "w32 (key_P key ! i XOR ri)" using key_ok_words(1) [OF k(1)] \<open>i \<in> _\<close> r(2) by auto
    then show "\<exists>s'. mix_key data ?len i s = Some s' \<and> ?P s'"
      using r key_ok_update(1) [OF k(1)] by (simp add: mix_key_def sd)
  qed (use bf_init_ok l in simp)
  then obtain key1 d1 where 1: "fold_opt (mix_key data ?len) [0..<18] (bf_init, 0) = Some (key1, d1)" "key_ok key1" by auto
  have step: "\<exists>inp'. BF_encrypt key True inp = Some inp' \<and> block_ok inp'
      \<and> key_ok (key\<lparr>key_P := (key_P key)[i := fst inp', i + 1 := snd inp']\<rparr>)
      \<and> key_ok (key\<lparr>key_S := (key_S key)[i := fst inp', i + 1 := snd inp']\<rparr>)" if "key_ok key" "block_ok inp" for key inp i
  proof -
    have "\<exists>y. BF_encrypt key True inp = Some y \<and> block_ok y" using BF_encrypt_Some [OF that] by blast
    then obtain y where y: "BF_encrypt key True inp = Some y" "block_ok y" by blast
    have w: "w32 (fst y)" "w32 (snd y)" using y(2) by (simp_all add: block_ok_def)
    show ?thesis
      using y key_ok_update(1) [OF key_ok_update(1) [OF that(1) w(1), of i] w(2), of "i + 1"]
        key_ok_update(2) [OF key_ok_update(2) [OF that(1) w(1), of i] w(2), of "i + 1"] by simp
  qed
  have P: "\<exists>s. fold_opt fill_P xs s0 = Some s \<and> ?Q s" if "?Q s0" for xs s0
  proof (rule fold_opt_Some [where P = ?Q])
    fix i s assume "?Q s"
    then show "\<exists>s'. fill_P i s = Some s' \<and> ?Q s'" using step [of "fst s" "snd s" i] by (auto simp: fill_P_def)
  qed (rule that)
  have S: "\<exists>s. fold_opt fill_S xs s0 = Some s \<and> ?Q s" if "?Q s0" for xs s0
  proof (rule fold_opt_Some [where P = ?Q])
    fix i s assume "?Q s"
    then show "\<exists>s'. fill_S i s = Some s' \<and> ?Q s'" using step [of "fst s" "snd s" i] by (auto simp: fill_S_def)
  qed (rule that)
  obtain key2 inp2 where 2: "fold_opt fill_P (map (\<lambda>i. 2 * i) [0..<9]) (key1, 0, 0) = Some (key2, inp2)" "?Q (key2, inp2)"
    using P [of "(key1, 0, 0)"] 1(2) by (fastforce simp: block_ok_def)
  obtain key3 inp3 where 3: "fold_opt fill_S (map (\<lambda>i. 2 * i) [0..<512]) (key2, inp2) = Some (key3, inp3)" "?Q (key3, inp3)"
    using S [OF 2(2)] by fastforce
  show ?thesis
    using 3(2) unfolding BF_set_key_def Let_def 1(1) bind.simps prod.case 2(1) 3(1) by simp
qed


text \<open>Only the first 72 bytes of the user key, and no more than its length, matter.\<close>

lemma key_byte_take: "d < len \<Longrightarrow> key_byte (take len data) len d = key_byte data len d"
  by (auto simp: key_byte_def read_at_def)

lemma key_byte_next: "0 < len \<Longrightarrow> key_byte data len d = Some (b, d') \<Longrightarrow> d' < len"
  by (auto simp: key_byte_def bind_eq_Some_conv split: if_splits)

lemma key_word_take:
  assumes "d < len"
  shows "key_word (take len data) len d = key_word data len d"
    and "key_word data len d = Some (w, d') \<Longrightarrow> d' < len"
proof -
  have n: "d2 < len" if "key_byte data len d1 = Some (b, d2)" for b d1 d2
    using key_byte_next [OF _ that] assms by simp
  show "key_word (take len data) len d = key_word data len d"
    using assms by (auto simp: key_word_def key_byte_take n split: bind_split dest!: n)
  show "key_word data len d = Some (w, d') \<Longrightarrow> d' < len"
    by (auto simp: key_word_def bind_eq_Some_conv dest: n)
qed

lemma mix_key_take:
  assumes "d < len"
  shows "fold_opt (mix_key (take len data) len) is (key, d) = fold_opt (mix_key data len) is (key, d)"
  using assms
proof (induction "is" arbitrary: key d)
  case (Cons i "is")
  then show ?case
    using key_word_take(2) [OF Cons.prems] by (auto simp: mix_key_def key_word_take(1) split: bind_split)
qed simp

lemma BF_set_key_prefix:
  assumes "0 < len"
  shows "BF_set_key (min len 72) (take (min len 72) data) = BF_set_key len data"
proof -
  have "(if min len 72 > 72 then 72 else min len 72) = min len 72" "(if len > 72 then 72 else len) = min len 72" by auto
  moreover have "0 < min len 72" using assms by simp
  ultimately show ?thesis unfolding BF_set_key_def Let_def by (simp only: mix_key_take)
qed

section \<open>Output feedback in pieces\<close>

definition block_bytes_of :: "bf_block \<Rightarrow> byte list" where
  "block_bytes_of x = l2n (fst x) @ l2n (snd x)"

lemma ofb_append:
  "ofb_loop ks (xs @ ys) ti (block_bytes_of ti) n s = do {
     (out1, ti1, n1, s1) \<leftarrow> ofb_loop ks xs ti (block_bytes_of ti) n s;
     (out2, ti2, n2, s2) \<leftarrow> ofb_loop ks ys ti1 (block_bytes_of ti1) n1 s1;
     Some (out1 @ out2, ti2, n2, s2)
   }"
proof (induction xs arbitrary: ti n s)
  case Nil
  then show ?case by (cases "ofb_loop ks ys ti (block_bytes_of ti) n s") auto
next
  case (Cons x xs)
  show ?case
  proof (cases "n = 0")
    case True
    show ?thesis
    proof (cases "BF_encrypt ks True ti")
      case (Some t)
      then show ?thesis using True Cons [of t "Suc 0" "Suc s"]
        by (cases "ofb_loop ks xs t (block_bytes_of t) 1 (Suc s)")
          (auto simp: block_bytes_of_def [symmetric] split: bind_split)
    qed (use True in simp)
  next
    case False
    then show ?thesis using Cons [of ti "Suc n mod 8" s]
      by (cases "ofb_loop ks xs ti (block_bytes_of ti) (Suc n mod 8) s") (auto split: bind_split)
  qed
qed

lemma ofb_save:
  "ofb_loop ks bs ti d n s = Some (out, ti', n', s') \<Longrightarrow>
     s \<le> s' \<and> (s' = s \<longrightarrow> ti' = ti) \<and> ofb_loop ks bs ti d n (k + s) = Some (out, ti', n', k + s')"
proof (induction bs arbitrary: ti d n s out)
  case (Cons b bs)
  show ?case
  proof (cases "n = 0")
    case True
    with Cons.prems obtain t o1 where t: "BF_encrypt ks True ti = Some t"
      and o: "ofb_loop ks bs t (l2n (fst t) @ l2n (snd t)) 1 (Suc s) = Some (o1, ti', n', s')"
      by (auto simp: bind_eq_Some_conv)
    from Cons.IH [OF o] Cons.prems True t o show ?thesis by auto
  next
    case False
    with Cons.prems obtain o1 where o: "ofb_loop ks bs ti d (Suc n mod 8) s = Some (o1, ti', n', s')"
      by (auto simp: bind_eq_Some_conv)
    from Cons.IH [OF o] Cons.prems False o show ?thesis by auto
  qed
qed simp

lemma BF_ofb64_loop:
  assumes "length iv = 8"
  shows "BF_ofb64_encrypt ks bs iv n
    = map_option (\<lambda>(out, ti, n, s). (out, block_bytes_of ti, n))
        (ofb_loop ks bs (n2l iv, n2l (drop 4 iv)) (block_bytes_of (n2l iv, n2l (drop 4 iv))) n 0)"
proof (cases "ofb_loop ks bs (n2l iv, n2l (drop 4 iv)) (block_bytes_of (n2l iv, n2l (drop 4 iv))) n 0")
  case (Some r)
  obtain out ti n' s where r: "r = (out, ti, n', s)" by (cases r)
  note o = Some [unfolded r]
  have "block_bytes_of (n2l iv, n2l (drop 4 iv)) = iv" using bytes_block [of iv] assms by (simp add: block_bytes_of_def)
  moreover have "s = 0 \<longrightarrow> ti = (n2l iv, n2l (drop 4 iv))" using ofb_save [OF o, of 0] by simp
  ultimately show ?thesis
    using o assms unfolding BF_ofb64_encrypt_def Let_def block_bytes_of_def [symmetric]
    by (auto simp: block_bytes_of_def)
qed (simp add: BF_ofb64_encrypt_def block_bytes_of_def)

lemma BF_ofb64_append:
  assumes "key_ok ks" "length iv = 8" "n < 8"
  shows "BF_ofb64_encrypt ks (xs @ ys) iv n = do {
     (out1, iv, n) \<leftarrow> BF_ofb64_encrypt ks xs iv n;
     (out2, iv, n) \<leftarrow> BF_ofb64_encrypt ks ys iv n;
     Some (out1 @ out2, iv, n)
   }"
proof -
  let ?t = "(n2l iv, n2l (drop 4 iv))"
  have b: "block_ok ?t" by (simp add: block_ok_def w32_n2l)
  have lb: "length (block_bytes_of x) = 8" for x by (simp add: block_bytes_of_def)
  obtain o1 t1 n1 s1 where 1: "ofb_loop ks xs ?t (block_bytes_of ?t) n 0 = Some (o1, t1, n1, s1)" "block_ok t1" "n1 < 8"
    using ofb_total [OF assms(1) b lb assms(3)] by blast
  obtain o2 t2 n2 s2 where 2: "ofb_loop ks ys t1 (block_bytes_of t1) n1 0 = Some (o2, t2, n2, s2)"
    using ofb_total [OF assms(1) 1(2) lb 1(3)] by blast
  have 3: "ofb_loop ks ys t1 (block_bytes_of t1) n1 s1 = Some (o2, t2, n2, s1 + s2)" using ofb_save [OF 2, of s1] by simp
  have "(n2l (block_bytes_of t1), n2l (drop 4 (block_bytes_of t1))) = t1"
    using block_bytes [OF 1(2), of "[]"] by (simp add: block_bytes_of_def)
  with 1 2 3 show ?thesis by (simp add: BF_ofb64_loop assms(2) lb ofb_append)
qed

section \<open>Properties\<close>

text \<open>C17 (block cipher): with a well-formed key, encryption and decryption of a 64-bit block return, without
  reading outside the substitution boxes, and each undoes the other.\<close>

theorem BF_encrypt_bijective:
  assumes "key_ok key" "block_ok x"
  shows "\<exists>y. BF_encrypt key e x = Some y \<and> block_ok y \<and> BF_encrypt key (\<not> e) y = Some x
    \<and> (\<forall>z. block_ok z \<longrightarrow> BF_encrypt key e z = Some y \<longrightarrow> z = x)"
proof -
  obtain y where y: "BF_encrypt key e x = Some y" "block_ok y" "BF_encrypt key (\<not> e) y = Some x"
    by (rule bf_inverse_block [OF assms])
  moreover have "z = x" if "block_ok z" "BF_encrypt key e z = Some y" for z
    using bf.injective [of "(key, z)" "(key, x)" e] that y(1) assms by simp
  ultimately show ?thesis by blast
qed

theorem BF_encrypt_bijective_witness:
  "key_ok bf_init \<and> block_ok (0x12345678, 0x9ABCDEF0)
   \<and> (\<exists>y. BF_encrypt bf_init True (0x12345678, 0x9ABCDEF0) = Some y
        \<and> BF_encrypt bf_init False y = Some (0x12345678, 0x9ABCDEF0))"
proof -
  have b: "block_ok (0x12345678, 0x9ABCDEF0)" by (simp add: block_ok_def w32_def and_ffffffff [symmetric])
  show ?thesis using bf_init_ok b BF_encrypt_bijective [OF bf_init_ok b, of True] by auto
qed

text \<open>C18 (key schedule): for a key of at least one byte the schedule returns, reads nothing outside the
  key and the boxes it is filling, and leaves all 18 + 1024 entries within 32 bits; it depends on no
  more than the first 72 bytes of the key.\<close>

theorem BF_set_key_total:
  assumes "0 < len" "len \<le> length data"
  shows "\<exists>key. BF_set_key len data = Some key \<and> key_ok key
    \<and> BF_set_key (min len 72) (take (min len 72) data) = Some key"
  using BF_set_key_ok [OF assms] BF_set_key_prefix [OF assms(1)] by auto

theorem BF_set_key_total_witness:
  "\<exists>key. BF_set_key 100 (replicate 100 7) = Some key \<and> key_ok key
    \<and> BF_set_key (min 100 72) (take (min 100 72) (replicate 100 7)) = Some key"
  by (rule BF_set_key_total) simp_all

text \<open>C19 (cipher block chaining): encrypting \<open>len\<close> bytes writes whole blocks, the last one padded with
  zeros; decrypting them with the same initial vector writes exactly the \<open>len\<close> bytes, and both
  leave the same vector for the next call. This holds for every length, although \<open>blowfish.doc\<close> asks
  for a multiple of 8 and warns that bad things will probably happen otherwise: the code handles the partial block.\<close>

theorem BF_cbc_roundtrip:
  assumes "key_ok ks" "len \<le> length inp"
  shows "\<exists>out iv'. BF_cbc_encrypt ks True inp len iv = Some (out, iv')
    \<and> length out = 8 * ((len + 7) div 8) \<and> BF_cbc_encrypt ks False out len iv = Some (take len inp, iv')"
proof -
  have "block_ok (n2l iv, n2l (drop 4 iv))" by (simp add: block_ok_def w32_n2l)
  from cbc_roundtrip [OF assms(1) this assms(2)] show ?thesis by (force simp: BF_cbc_encrypt_def)
qed

theorem BF_cbc_roundtrip_witness:
  "key_ok bf_init \<and> (\<exists>out iv'. BF_cbc_encrypt bf_init True (replicate 11 65) 11 (replicate 8 0) = Some (out, iv')
    \<and> length out = 16 \<and> BF_cbc_encrypt bf_init False out 11 (replicate 8 0) = Some (replicate 11 65, iv'))"
  using bf_init_ok BF_cbc_roundtrip [OF bf_init_ok, of 11 "replicate 11 65" "replicate 8 0"] by simp

text \<open>C20 (feedback modes): both feedback modes process every input; CFB decryption undoes CFB
  encryption and OFB undoes itself, from the same register and position and ending in the same
  register and position; an input cut in two and processed by two calls gives the same output.\<close>

theorem BF_feedback_roundtrip:
  assumes "key_ok ks" "length iv = 8" "n < 8"
  shows "(\<exists>out iv' n'. BF_cfb64_encrypt ks True bs iv n = Some (out, iv', n') \<and> length out = length bs
      \<and> length iv' = 8 \<and> n' < 8 \<and> BF_cfb64_encrypt ks False out iv n = Some (bs, iv', n'))
    \<and> (\<exists>out iv' n'. BF_ofb64_encrypt ks bs iv n = Some (out, iv', n') \<and> length out = length bs
      \<and> length iv' = 8 \<and> n' < 8 \<and> BF_ofb64_encrypt ks out iv n = Some (bs, iv', n'))
    \<and> BF_cfb64_encrypt ks e (xs @ ys) iv n = do {
      (out1, iv, n) \<leftarrow> BF_cfb64_encrypt ks e xs iv n;
      (out2, iv, n) \<leftarrow> BF_cfb64_encrypt ks e ys iv n;
      Some (out1 @ out2, iv, n) }
    \<and> BF_ofb64_encrypt ks (xs @ ys) iv n = do {
      (out1, iv, n) \<leftarrow> BF_ofb64_encrypt ks xs iv n;
      (out2, iv, n) \<leftarrow> BF_ofb64_encrypt ks ys iv n;
      Some (out1 @ out2, iv, n) }"
proof (intro conjI)
  show "\<exists>out iv' n'. BF_cfb64_encrypt ks True bs iv n = Some (out, iv', n') \<and> length out = length bs
      \<and> length iv' = 8 \<and> n' < 8 \<and> BF_cfb64_encrypt ks False out iv n = Some (bs, iv', n')"
    using cfb_total [OF assms, of True bs] cfb_inverse by (fastforce simp: BF_cfb64_encrypt_def)
  let ?t = "(n2l iv, n2l (drop 4 iv))"
  have b: "block_ok ?t" "length (block_bytes_of x) = 8" for x by (simp_all add: block_ok_def w32_n2l block_bytes_of_def)
  obtain o1 t1 n1 s1 where o: "ofb_loop ks bs ?t (block_bytes_of ?t) n 0 = Some (o1, t1, n1, s1)"
    "length o1 = length bs" "n1 < 8"
    using ofb_total [OF assms(1) b assms(3)] by blast
  have "BF_ofb64_encrypt ks bs iv n = Some (o1, block_bytes_of t1, n1)"
    "BF_ofb64_encrypt ks o1 iv n = Some (bs, block_bytes_of t1, n1)"
    using o(1) ofb_inverse [OF o(1)] by (simp_all add: BF_ofb64_loop [OF assms(2)])
  then show "\<exists>out iv' n'. BF_ofb64_encrypt ks bs iv n = Some (out, iv', n') \<and> length out = length bs
      \<and> length iv' = 8 \<and> n' < 8 \<and> BF_ofb64_encrypt ks out iv n = Some (bs, iv', n')"
    using o(2,3) b(2) by blast
qed (simp_all only: BF_cfb64_encrypt_def cfb_append BF_ofb64_append [OF assms])

theorem BF_feedback_roundtrip_witness:
  "\<exists>out iv' n'. BF_ofb64_encrypt bf_init [1, 2, 3] (replicate 8 9) 5 = Some (out, iv', n') \<and> length out = length [1, 2, 3 :: byte]
     \<and> length iv' = 8 \<and> n' < 8 \<and> BF_ofb64_encrypt bf_init out (replicate 8 9) 5 = Some ([1, 2, 3], iv', n')"
proof -
  have "length (replicate 8 (9 :: byte)) = 8" "(5 :: nat) < 8" by simp_all
  from conjunct1 [OF conjunct2 [OF BF_feedback_roundtrip [OF bf_init_ok this, of "[1, 2, 3]"]]] show ?thesis .
qed

end
