(* ===== verification/Gsm_Add.thy ===== *)
theory Gsm_Add
  imports Prelude
begin

text \<open>
  The fixed-point arithmetic of the GSM 06.10 codec: the functions of
  \<open>telecomm/gsm/src/add.c\<close> and the macros of \<open>telecomm/gsm/inc/private.h\<close> that the rest of the
  codec uses in their place. A \<open>word\<close> is a \<open>short\<close>, a \<open>longword\<close> is a \<open>long\<close>, both modelled by
  integers; assignments to a \<open>word\<close> truncate (\<open>w16\<close>), and the functions that contain an
  \<open>assert\<close> return \<open>None\<close> when it fires. The build defines \<open>SASR\<close>, so a right shift of a signed
  value is arithmetic.

  The lemmas show that additions and subtractions saturate, that every macro agrees with its
  function, that \<open>gsm_norm\<close> returns the shift that normalises its argument and that
  \<open>gsm_div\<close> is the 15-bit fractional quotient.
\<close>

section \<open>Limits\<close>

abbreviation MIN_WORD :: int where "MIN_WORD \<equiv> - 32768"
abbreviation MAX_WORD :: int where "MAX_WORD \<equiv> 32767"
abbreviation MIN_LONGWORD :: int where "MIN_LONGWORD \<equiv> - 2147483648"
abbreviation MAX_LONGWORD :: int where "MAX_LONGWORD \<equiv> 2147483647"

section \<open>The functions of add.c\<close>

definition saturate :: "int \<Rightarrow> int" where
  "saturate x = (if x < MIN_WORD then MIN_WORD else if x > MAX_WORD then MAX_WORD else x)"

definition gsm_add :: "int \<Rightarrow> int \<Rightarrow> int" where
  "gsm_add a b = (let sum = a + b in saturate sum)"

definition gsm_sub :: "int \<Rightarrow> int \<Rightarrow> int" where
  "gsm_sub a b = (let diff = a - b in saturate diff)"

definition gsm_mult :: "int \<Rightarrow> int \<Rightarrow> int" where
  "gsm_mult a b =
     (if a = MIN_WORD \<and> b = MIN_WORD then MAX_WORD else w16 (sasr (a * b) 15))"

definition gsm_mult_r :: "int \<Rightarrow> int \<Rightarrow> int" where
  "gsm_mult_r a b =
     (if b = MIN_WORD \<and> a = MIN_WORD then MAX_WORD
      else let prod = a * b + 16384; prod = sasr prod 15 in w16 (prod AND 0xFFFF))"

definition gsm_abs :: "int \<Rightarrow> int" where
  "gsm_abs a = (if a < 0 then (if a = MIN_WORD then MAX_WORD else - a) else a)"

definition gsm_L_mult :: "int \<Rightarrow> int \<Rightarrow> int option" where
  "gsm_L_mult a b = do {
     c_assert (a \<noteq> MIN_WORD \<or> b \<noteq> MIN_WORD);
     Some (shl (a * b) 1)
   }"

definition gsm_L_add :: "int \<Rightarrow> int \<Rightarrow> int" where
  "gsm_L_add a b =
     (if a < 0 then
        (if b \<ge> 0 then a + b
         else let A = u64 (u64 (- (a + 1)) + u64 (- (b + 1)))
              in if A \<ge> MAX_LONGWORD then MIN_LONGWORD else - i64 A - 2)
      else if b \<le> 0 then a + b
      else let A = u64 (u64 a + u64 b)
           in if A > MAX_LONGWORD then MAX_LONGWORD else i64 A)"

definition gsm_L_sub :: "int \<Rightarrow> int \<Rightarrow> int" where
  "gsm_L_sub a b =
     (if a \<ge> 0 then
        (if b \<ge> 0 then a - b
         else let A = u64 (u64 a + u64 (- (b + 1)))
              in if A \<ge> MAX_LONGWORD then MAX_LONGWORD else i64 (u64 (A + 1)))
      else if b \<le> 0 then a - b
      else let A = u64 (u64 (- (a + 1)) + u64 b)
           in if A \<ge> MAX_LONGWORD then MIN_LONGWORD else - i64 A - 1)"

definition bitoff :: "int list" where
  "bitoff =
    [8, 7, 6, 6, 5, 5, 5, 5, 4, 4, 4, 4, 4, 4, 4, 4,
     3, 3, 3, 3, 3, 3, 3, 3, 3, 3, 3, 3, 3, 3, 3, 3,
     2, 2, 2, 2, 2, 2, 2, 2, 2, 2, 2, 2, 2, 2, 2, 2,
     2, 2, 2, 2, 2, 2, 2, 2, 2, 2, 2, 2, 2, 2, 2, 2,
     1, 1, 1, 1, 1, 1, 1, 1, 1, 1, 1, 1, 1, 1, 1, 1,
     1, 1, 1, 1, 1, 1, 1, 1, 1, 1, 1, 1, 1, 1, 1, 1,
     1, 1, 1, 1, 1, 1, 1, 1, 1, 1, 1, 1, 1, 1, 1, 1,
     1, 1, 1, 1, 1, 1, 1, 1, 1, 1, 1, 1, 1, 1, 1, 1,
     0, 0, 0, 0, 0, 0, 0, 0, 0, 0, 0, 0, 0, 0, 0, 0,
     0, 0, 0, 0, 0, 0, 0, 0, 0, 0, 0, 0, 0, 0, 0, 0,
     0, 0, 0, 0, 0, 0, 0, 0, 0, 0, 0, 0, 0, 0, 0, 0,
     0, 0, 0, 0, 0, 0, 0, 0, 0, 0, 0, 0, 0, 0, 0, 0,
     0, 0, 0, 0, 0, 0, 0, 0, 0, 0, 0, 0, 0, 0, 0, 0,
     0, 0, 0, 0, 0, 0, 0, 0, 0, 0, 0, 0, 0, 0, 0, 0,
     0, 0, 0, 0, 0, 0, 0, 0, 0, 0, 0, 0, 0, 0, 0, 0,
     0, 0, 0, 0, 0, 0, 0, 0, 0, 0, 0, 0, 0, 0, 0, 0]"

definition gsm_norm :: "int \<Rightarrow> int option" where
  "gsm_norm a = do {
     c_assert (a \<noteq> 0);
     if a < 0 \<and> a \<le> - 1073741824 then Some 0
     else let a = (if a < 0 then NOT a else a) in
       Some (w16
        (if a AND 0xffff0000 \<noteq> 0
         then (if a AND 0xff000000 \<noteq> 0
               then - 1 + bitoff ! nat (0xFF AND sasr a 24)
               else 7 + bitoff ! nat (0xFF AND sasr a 16))
         else (if a AND 0xff00 \<noteq> 0
               then 15 + bitoff ! nat (0xFF AND sasr a 8)
               else 23 + bitoff ! nat (0xFF AND a))))
   }"

definition gsm_L_asr :: "int \<Rightarrow> int \<Rightarrow> int" where
  "gsm_L_asr a n =
     (if n \<ge> 32 then - of_bool (a < 0)
      else if n \<le> - 32 then 0
      else if n < 0 then i64 (shl a (nat (- n)))
      else sasr a (nat n))"

definition gsm_L_asl :: "int \<Rightarrow> int \<Rightarrow> int" where
  "gsm_L_asl a n =
     (if n \<ge> 32 then 0
      else if n \<le> - 32 then - of_bool (a < 0)
      else if n < 0 then gsm_L_asr a (- n)
      else i64 (shl a (nat n)))"

definition gsm_asr :: "int \<Rightarrow> int \<Rightarrow> int" where
  "gsm_asr a n =
     (if n \<ge> 16 then - of_bool (a < 0)
      else if n \<le> - 16 then 0
      else if n < 0 then w16 (shl a (nat (- n)))
      else w16 (sasr a (nat n)))"

definition gsm_asl :: "int \<Rightarrow> int \<Rightarrow> int" where
  "gsm_asl a n =
     (if n \<ge> 16 then 0
      else if n \<le> - 16 then - of_bool (a < 0)
      else if n < 0 then gsm_asr a (- n)
      else w16 (shl a (nat n)))"

text \<open>One turn of the loop of \<open>gsm_div\<close> on \<open>(div, L_num)\<close>.\<close>

definition div_step :: "int \<Rightarrow> int \<times> int \<Rightarrow> int \<times> int" where
  "div_step L_denum st =
     (case st of (q, L_num) \<Rightarrow>
        let q = w16 (shl q 1); L_num = shl L_num 1 in
        if L_num \<ge> L_denum then (w16 (q + 1), L_num - L_denum) else (q, L_num))"

definition gsm_div :: "int \<Rightarrow> int \<Rightarrow> int option" where
  "gsm_div num denum = do {
     c_assert (num \<ge> 0 \<and> denum \<ge> num);
     if num = 0 then Some 0
     else Some (fst ((div_step denum ^^ 15) (0, num)))
   }"

section \<open>The macros of private.h\<close>

definition GSM_MULT_R :: "int \<Rightarrow> int \<Rightarrow> int" where
  "GSM_MULT_R a b = sasr (a * b + 16384) 15"

definition GSM_MULT :: "int \<Rightarrow> int \<Rightarrow> int" where
  "GSM_MULT a b = sasr (a * b) 15"

definition GSM_L_MULT :: "int \<Rightarrow> int \<Rightarrow> int" where
  "GSM_L_MULT a b = shl (a * b) 1"

definition GSM_L_ADD :: "int \<Rightarrow> int \<Rightarrow> int" where
  "GSM_L_ADD a b =
     (if a < 0 then
        (if b \<ge> 0 then a + b
         else let utmp = u64 (u64 (- (a + 1)) + u64 (- (b + 1)))
              in if utmp \<ge> MAX_LONGWORD then MIN_LONGWORD else - i64 utmp - 2)
      else if b \<le> 0 then a + b
      else let utmp = u64 (u64 a + u64 b)
           in if utmp \<ge> MAX_LONGWORD then MAX_LONGWORD else i64 utmp)"

definition GSM_ADD :: "int \<Rightarrow> int \<Rightarrow> int" where
  "GSM_ADD a b =
     (let ltmp = a + b in
      if u64 (ltmp - MIN_WORD) > MAX_WORD - MIN_WORD
      then (if ltmp > 0 then MAX_WORD else MIN_WORD) else ltmp)"

definition GSM_SUB :: "int \<Rightarrow> int \<Rightarrow> int" where
  "GSM_SUB a b =
     (let ltmp = a - b in
      if ltmp \<ge> MAX_WORD then MAX_WORD else if ltmp \<le> MIN_WORD then MIN_WORD else ltmp)"

definition GSM_ABS :: "int \<Rightarrow> int" where
  "GSM_ABS a = (if a < 0 then (if a = MIN_WORD then MAX_WORD else - a) else a)"

section \<open>Saturation\<close>

lemma saturate_word [wrange, simp, intro]: "is_word (saturate x)"
  by (simp add: saturate_def is_word_def)

lemma saturate_eq [wsimps]: "is_word x \<Longrightarrow> saturate x = x"
  by (simp add: saturate_def is_word_def)

lemma saturate_minmax: "saturate x = max MIN_WORD (min MAX_WORD x)"
  by (auto simp: saturate_def)

lemma saturate_mono: "x \<le> y \<Longrightarrow> saturate x \<le> saturate y"
  by (auto simp: saturate_def)

lemma GSM_ADD_saturate:
  assumes "is_word a" "is_word b"
  shows "GSM_ADD a b = saturate (a + b)"
proof (cases "a + b < MIN_WORD")
  case True
  with assms have "u64 (a + b + 32768) = a + b + 32768 + 18446744073709551616"
    by (intro u64_neg) (auto simp: is_word_def)
  with assms True show ?thesis
    by (auto simp: GSM_ADD_def saturate_def is_word_def Let_def)
next
  case False
  with assms have "u64 (a + b + 32768) = a + b + 32768"
    by (intro u64_eq) (auto simp: is_word_def)
  with assms False show ?thesis
    by (auto simp: GSM_ADD_def saturate_def is_word_def Let_def)
qed

lemma GSM_ADD_gsm_add: "is_word a \<Longrightarrow> is_word b \<Longrightarrow> GSM_ADD a b = gsm_add a b"
  by (simp add: GSM_ADD_saturate gsm_add_def)

lemma GSM_ADD_word [wrange, simp, intro]: "is_word a \<Longrightarrow> is_word b \<Longrightarrow> is_word (GSM_ADD a b)"
  by (simp add: GSM_ADD_saturate)

lemma GSM_SUB_saturate: "GSM_SUB a b = saturate (a - b)"
  by (auto simp: GSM_SUB_def saturate_def Let_def)

lemma GSM_SUB_word [wrange, simp, intro]: "is_word (GSM_SUB a b)"
  by (simp add: GSM_SUB_saturate)

lemma gsm_add_word [wrange, simp, intro]: "is_word (gsm_add a b)"
  by (simp add: gsm_add_def)

lemma gsm_sub_word [wrange, simp, intro]: "is_word (gsm_sub a b)"
  by (simp add: gsm_sub_def)

lemma GSM_ABS_gsm_abs: "GSM_ABS a = gsm_abs a"
  by (simp add: GSM_ABS_def gsm_abs_def)

lemma GSM_ABS_min: "is_word a \<Longrightarrow> GSM_ABS a = min MAX_WORD \<bar>a\<bar>"
  by (auto simp: GSM_ABS_def is_word_def)

lemma GSM_ABS_range [wrange]: "is_word a \<Longrightarrow> 0 \<le> GSM_ABS a" "is_word a \<Longrightarrow> GSM_ABS a \<le> MAX_WORD"
  by (auto simp: GSM_ABS_min)

lemma GSM_ABS_word [wrange, simp, intro]: "is_word a \<Longrightarrow> is_word (GSM_ABS a)"
  by (auto simp: GSM_ABS_def is_word_def)

lemma GSM_ABS_bound: "is_word a \<Longrightarrow> GSM_ABS a \<le> m \<Longrightarrow> - m - 1 \<le> a \<and> a \<le> m"
  by (auto simp: GSM_ABS_min is_word_def min_def split: if_splits)

definition saturate_long :: "int \<Rightarrow> int" where
  "saturate_long x = max MIN_LONGWORD (min MAX_LONGWORD x)"

lemma gsm_L_add_saturate:
  assumes "is_long32 a" "is_long32 b"
  shows "gsm_L_add a b = saturate_long (a + b)"
  using assms
  by (auto simp: gsm_L_add_def saturate_long_def is_long32_def Let_def u64_eq i64_eq)

lemma gsm_L_sub_saturate:
  assumes "is_long32 a" "is_long32 b"
  shows "gsm_L_sub a b = saturate_long (a - b)"
  using assms
  by (auto simp: gsm_L_sub_def saturate_long_def is_long32_def Let_def u64_eq i64_eq)

lemma GSM_L_ADD_saturate:
  assumes "is_long32 a" "is_long32 b"
  shows "GSM_L_ADD a b = saturate_long (a + b)"
  using assms
  by (auto simp: GSM_L_ADD_def saturate_long_def is_long32_def Let_def u64_eq i64_eq)

lemma saturate_long_range [wrange, simp]: "is_long32 (saturate_long x)"
  by (auto simp: saturate_long_def is_long32_def)

section \<open>Fractional products\<close>

lemma mult_word_bounds:
  assumes "is_word a" "is_word b"
  shows "- 1073741824 \<le> a * b" "a * b \<le> 1073741824"
proof -
  have "\<bar>a\<bar> \<le> 32768" "\<bar>b\<bar> \<le> 32768" using assms by (auto simp: is_word_def)
  then have "\<bar>a\<bar> * \<bar>b\<bar> \<le> 32768 * 32768" by (intro mult_mono) auto
  then have "\<bar>a * b\<bar> \<le> 1073741824" by (simp add: abs_mult)
  then show "- 1073741824 \<le> a * b" "a * b \<le> 1073741824" by linarith+
qed

lemma mult_word_less:
  assumes "is_word a" "is_word b" "\<not> (a = MIN_WORD \<and> b = MIN_WORD)"
  shows "a * b \<le> 1073709056"
proof (cases "a = MIN_WORD")
  case True
  with assms show ?thesis by (auto simp: is_word_def)
next
  case False
  with assms have "\<bar>a\<bar> \<le> 32767" "\<bar>b\<bar> \<le> 32768" by (auto simp: is_word_def)
  then have "\<bar>a\<bar> * \<bar>b\<bar> \<le> 32767 * 32768" by (intro mult_mono) auto
  then have "\<bar>a * b\<bar> \<le> 1073709056" by (simp add: abs_mult)
  then show ?thesis by linarith
qed

lemma GSM_MULT_R_range:
  assumes "is_word a" "is_word b"
  shows "- 32768 \<le> GSM_MULT_R a b" "GSM_MULT_R a b \<le> 32768"
  using mult_word_bounds [OF assms] by (auto simp: GSM_MULT_R_def sasr_div)

lemma GSM_MULT_R_word [wrange, intro]:
  assumes "is_word a" "is_word b" "a \<noteq> MIN_WORD \<or> b \<noteq> MIN_WORD"
  shows "is_word (GSM_MULT_R a b)"
  using mult_word_bounds [OF assms(1,2)] mult_word_less [OF assms(1,2)] assms(3)
  by (auto simp: GSM_MULT_R_def sasr_div is_word_def)

lemma GSM_MULT_word [wrange, intro]:
  assumes "is_word a" "is_word b" "a \<noteq> MIN_WORD \<or> b \<noteq> MIN_WORD"
  shows "is_word (GSM_MULT a b)"
  using mult_word_bounds [OF assms(1,2)] mult_word_less [OF assms(1,2)] assms(3)
  by (auto simp: GSM_MULT_def sasr_div is_word_def)

lemma w16_and_ffff: "w16 (x AND 0xFFFF) = w16 x"
proof -
  have "x AND 0xFFFF = take_bit 16 x"
    by (simp add: take_bit_eq_mask mask_eq_exp_minus_1)
  then show ?thesis
    by (simp add: w16_def signed_take_bit_take_bit)
qed

lemma gsm_mult_r_macro:
  assumes "is_word a" "is_word b" "a \<noteq> MIN_WORD \<or> b \<noteq> MIN_WORD"
  shows "gsm_mult_r a b = GSM_MULT_R a b"
  using assms GSM_MULT_R_word [OF assms]
  by (auto simp: gsm_mult_r_def Let_def w16_and_ffff GSM_MULT_R_def simp del: w16_word
      intro!: w16_word)

lemma gsm_mult_macro:
  assumes "is_word a" "is_word b" "a \<noteq> MIN_WORD \<or> b \<noteq> MIN_WORD"
  shows "gsm_mult a b = GSM_MULT a b"
  using assms GSM_MULT_word [OF assms]
  by (auto simp: gsm_mult_def GSM_MULT_def simp del: w16_word intro!: w16_word)

lemma gsm_mult_word [wrange, simp, intro]: "is_word (gsm_mult a b)"
  by (auto simp: gsm_mult_def)

lemma gsm_asr_word [wrange, simp, intro]: "is_word (gsm_asr a n)"
  by (auto simp: gsm_asr_def)

lemma gsm_asl_word [wrange, simp, intro]: "is_word (gsm_asl a n)"
  by (auto simp: gsm_asl_def)

section \<open>Normalisation\<close>

lemma bitoff_table:
  "\<forall>b \<in> {1..<256::nat}. bitoff ! b \<in> {0..7} \<and>
     2 ^ nat (7 - bitoff ! b) \<le> int b \<and> int b < 2 ^ nat (8 - bitoff ! b)"
  by code_simp

lemma bitoff_bounds:
  assumes "0 < b" "b < 256"
  obtains k where "bitoff ! nat b = int k" "k \<le> 7" "2 ^ (7 - k) \<le> b" "b < 2 ^ (8 - k)"
proof -
  from assms have "nat b \<in> {1..<256}" by auto
  with bitoff_table have h: "bitoff ! nat b \<in> {0..7}" "2 ^ nat (7 - bitoff ! nat b) \<le> int (nat b)"
    "int (nat b) < 2 ^ nat (8 - bitoff ! nat b)" by blast+
  then obtain k where k: "bitoff ! nat b = int k" by (metis atLeastAtMost_iff nonneg_int_cases)
  with h have "k \<le> 7" by simp
  moreover from this have "nat (7 - int k) = 7 - k" "nat (8 - int k) = 8 - k" by linarith+
  ultimately show ?thesis using that [of k] h k assms by simp
qed

text \<open>The field \<open>a >> s\<close> has its leading bit at position \<open>7 - k\<close>, so \<open>a\<close> has its leading bit
  at position \<open>7 - k + s\<close>.\<close>

lemma bitoff_shift:
  assumes "0 < a div 2 ^ s" "a div 2 ^ s < 256" "s \<le> 24"
  obtains k where "bitoff ! nat (a div 2 ^ s) = int k" "k \<le> 7"
    "2 ^ 31 \<le> a * 2 ^ (24 - s + k)" "a * 2 ^ (24 - s + k) < 2 ^ 32"
proof -
  from assms(1,2) obtain k where k: "bitoff ! nat (a div 2 ^ s) = int k" "k \<le> 7"
    and lo: "2 ^ (7 - k) \<le> a div 2 ^ s" and hi: "a div 2 ^ s < 2 ^ (8 - k)"
    by (rule bitoff_bounds)
  from lo have "2 ^ (7 - k) * 2 ^ s \<le> (a div 2 ^ s) * 2 ^ s" by simp
  also have "\<dots> \<le> a" by (metis div_mult_mod_eq le_add_same_cancel1 pos_mod_sign zero_less_numeral zero_less_power)
  finally have lo': "2 ^ (7 - k) * 2 ^ s \<le> a" .
  have "a < (a div 2 ^ s + 1) * 2 ^ s"
  proof -
    have "a mod 2 ^ s < 2 ^ s" by simp
    with div_mult_mod_eq [of a "2 ^ s"] show ?thesis unfolding distrib_right by linarith
  qed
  also have "\<dots> \<le> 2 ^ (8 - k) * 2 ^ s"
    using hi by (intro mult_right_mono) auto
  finally have hi': "a < 2 ^ (8 - k) * 2 ^ s" .
  have e1: "(7 - k) + s + (24 - s + k) = 31" and e2: "(8 - k) + s + (24 - s + k) = 32"
    using k assms(3) by simp_all
  have "(2 ^ (7 - k) * 2 ^ s) * 2 ^ (24 - s + k) = (2 :: int) ^ 31"
    unfolding power_add [symmetric] e1 ..
  moreover have "(2 ^ (8 - k) * 2 ^ s) * 2 ^ (24 - s + k) = (2 :: int) ^ 32"
    unfolding power_add [symmetric] e2 ..
  ultimately show ?thesis
    using that [OF k] mult_right_mono [OF lo', of "2 ^ (24 - s + k)"]
      mult_strict_right_mono [OF hi', of "2 ^ (24 - s + k)"] by simp
qed

lemma bitoff_norm:
  assumes "0 < a div 2 ^ s" "a div 2 ^ s < 256" "s \<le> 24" "a < 2 ^ 31"
  obtains k n where "bitoff ! nat (a div 2 ^ s) = int k" "k \<le> 7" "int n = 23 - int s + int k"
    "2 ^ 30 \<le> a * 2 ^ n" "a * 2 ^ n < 2 ^ 31"
proof -
  from assms(1-3) obtain k where k: "bitoff ! nat (a div 2 ^ s) = int k" "k \<le> 7"
    and b: "2 ^ 31 \<le> a * 2 ^ (24 - s + k)" "a * 2 ^ (24 - s + k) < 2 ^ 32"
    by (rule bitoff_shift)
  have "24 - s + k \<noteq> 0"
    using b(1) assms(4) by (intro notI) simp
  then obtain n where n: "24 - s + k = Suc n" by (meson not0_implies_Suc)
  then have "2 ^ 30 \<le> a * 2 ^ n" "a * 2 ^ n < 2 ^ 31" using b by simp_all
  moreover have "int n = 23 - int s + int k" using n assms(3) by linarith
  ultimately show ?thesis using that k by blast
qed

lemma and_high_fields:
  fixes a :: int
  assumes "0 \<le> a" "a < 2 ^ 32"
  shows "a AND 0xffff0000 = a div 2 ^ 16 * 2 ^ 16" "a AND 0xff000000 = a div 2 ^ 24 * 2 ^ 24"
    "a AND 0xff00 = (a div 2 ^ 8) mod 2 ^ 8 * 2 ^ 8"
proof -
  have masks: "(0xffff0000 :: int) = push_bit 16 (mask 16)" "(0xff000000 :: int) = push_bit 24 (mask 8)"
    "(0xff00 :: int) = push_bit 8 (mask 8)"
    by (simp_all add: mask_eq_exp_minus_1 push_bit_eq_mult)
  have small: "(a div 2 ^ 16) mod 2 ^ 16 = a div 2 ^ 16" "(a div 2 ^ 24) mod 2 ^ 8 = a div 2 ^ 24"
    using assms by (auto intro!: mod_pos_pos_trivial simp: pos_imp_zdiv_nonneg_iff)
  show "a AND 0xffff0000 = a div 2 ^ 16 * 2 ^ 16" "a AND 0xff000000 = a div 2 ^ 24 * 2 ^ 24"
    "a AND 0xff00 = (a div 2 ^ 8) mod 2 ^ 8 * 2 ^ 8"
    unfolding masks and_field unfolding push_bit_eq_mult drop_bit_eq_div take_bit_eq_mod small
    by (rule refl)+
qed

lemma and_low_byte: "0xFF AND a = a mod 256" for a :: int
proof -
  have "0xFF AND a = a AND mask 8" by (simp add: mask_eq_exp_minus_1 and.commute)
  then show ?thesis by (simp add: and_mask take_bit_eq_mod)
qed

text \<open>For a positive argument the table lookup gives the normalising shift.\<close>

lemma norm_select:
  fixes a :: int
  assumes "0 < a" "a < 2 ^ 31"
  obtains s where "s \<in> {0, 8, 16, 24}" "0 < a div 2 ^ s" "a div 2 ^ s < 256"
    "gsm_norm a = Some (w16 (23 - int s + bitoff ! nat (a div 2 ^ s)))"
proof -
  have u: "0 \<le> a" "a < 2 ^ 32" using assms by auto
  note fields = and_high_fields [OF u] and_low_byte sasr_div
  consider (A) "a \<ge> 2 ^ 24" | (B) "2 ^ 16 \<le> a" "a < 2 ^ 24" | (C) "2 ^ 8 \<le> a" "a < 2 ^ 16"
    | (D) "a < 2 ^ 8" by linarith
  then show ?thesis
  proof cases
    case A
    then have "0 < a div 2 ^ 24" "a div 2 ^ 24 < 256" "0 < a div 2 ^ 16"
      using assms by (auto simp: pos_imp_zdiv_pos_iff)
    then show ?thesis using that [of 24] assms by (simp add: gsm_norm_def fields mod_pos_pos_trivial)
  next
    case B
    then have "0 < a div 2 ^ 16" "a div 2 ^ 16 < 256" "a div 2 ^ 24 = 0"
      using assms by (auto simp: pos_imp_zdiv_pos_iff intro!: div_pos_pos_trivial)
    then show ?thesis using that [of 16] assms by (simp add: gsm_norm_def fields mod_pos_pos_trivial)
  next
    case C
    then have "0 < a div 2 ^ 8" "a div 2 ^ 8 < 256" "a div 2 ^ 16 = 0" "a div 2 ^ 24 = 0"
      using assms by (auto simp: pos_imp_zdiv_pos_iff intro!: div_pos_pos_trivial)
    then show ?thesis using that [of 8] assms by (simp add: gsm_norm_def fields mod_pos_pos_trivial)
  next
    case D
    then have "a div 2 ^ 8 = 0" "a div 2 ^ 16 = 0" "a div 2 ^ 24 = 0"
      using assms by (auto intro!: div_pos_pos_trivial)
    then show ?thesis using that [of 0] assms D by (simp add: gsm_norm_def fields mod_pos_pos_trivial)
  qed
qed

lemma gsm_norm_pos:
  assumes "0 < a" "a < 2 ^ 31"
  obtains n where "gsm_norm a = Some (int n)" "n \<le> 30" "2 ^ 30 \<le> a * 2 ^ n" "a * 2 ^ n < 2 ^ 31"
proof -
  from assms obtain s where s: "s \<in> {0, 8, 16, 24}" "0 < a div 2 ^ s" "a div 2 ^ s < 256"
    and norm: "gsm_norm a = Some (w16 (23 - int s + bitoff ! nat (a div 2 ^ s)))"
    by (rule norm_select)
  from s have "s \<le> 24" by auto
  with s assms obtain k n where k: "bitoff ! nat (a div 2 ^ s) = int k" "k \<le> 7"
    and n: "int n = 23 - int s + int k" "2 ^ 30 \<le> a * 2 ^ n" "a * 2 ^ n < 2 ^ 31"
    by (metis bitoff_norm)
  from n k have "gsm_norm a = Some (int n)" by (simp add: norm w16_eq)
  moreover from n k have "n \<le> 30" by linarith
  ultimately show ?thesis using that n by blast
qed

text \<open>For a negative argument the complement is normalised instead.\<close>

lemma gsm_norm_neg:
  assumes "a < 0" "- (2 ^ 31) \<le> a"
  obtains n where "gsm_norm a = Some (int n)" "n \<le> 31" "- (2 ^ 31) \<le> a * 2 ^ n" "a * 2 ^ n \<le> - (2 ^ 30)"
proof (cases "a \<le> - 1073741824")
  case True
  then show ?thesis using that [of 0] assms by (simp add: gsm_norm_def)
next
  case False
  show ?thesis
  proof (cases "a = - 1")
    case True
    moreover have "gsm_norm (- 1) = Some 31" by code_simp
    ultimately show ?thesis using that [of 31] by simp
  next
    case neq: False
    have not: "NOT a = - a - 1" by (simp add: not_int_def)
    with assms neq False have pos: "0 < NOT a" "NOT a < 2 ^ 31" by auto
    then obtain n where n: "gsm_norm (NOT a) = Some (int n)" "n \<le> 30" "2 ^ 30 \<le> NOT a * 2 ^ n"
      "NOT a * 2 ^ n < 2 ^ 31" by (rule gsm_norm_pos)
    have "gsm_norm a = gsm_norm (NOT a)"
      using assms False pos by (simp add: gsm_norm_def)
    moreover have "- (2 ^ 31) \<le> a * 2 ^ n"
    proof -
      have "2 ^ 31 = 2 ^ (31 - n) * (2 ^ n :: int)"
        using n(2) by (simp flip: power_add)
      moreover from this n(4) have "NOT a < 2 ^ (31 - n)"
        by (metis mult_less_cancel_right_pos zero_less_numeral zero_less_power)
      ultimately have "- (2 ^ (31 - n)) \<le> a" using not by simp
      then have "- (2 ^ (31 - n)) * 2 ^ n \<le> a * 2 ^ n" by (intro mult_right_mono) auto
      then show ?thesis using \<open>2 ^ 31 = _\<close> by simp
    qed
    moreover have "a * 2 ^ n \<le> - (2 ^ 30)"
    proof -
      have "(0 :: int) < 2 ^ n" by simp
      moreover have "2 ^ 30 \<le> - (a * 2 ^ n) - 2 ^ n"
        using n(3) by (simp only: not left_diff_distrib mult_minus_left mult_1)
      ultimately show ?thesis by linarith
    qed
    ultimately show ?thesis using that n by simp
  qed
qed

section \<open>Fractional division\<close>

lemma div_steps_less:
  assumes "0 \<le> num" "num < denum" "denum \<le> 32767" "n \<le> 15"
  shows "(div_step denum ^^ n) (0, num) = (num * 2 ^ n div denum, num * 2 ^ n mod denum)"
  using assms(4)
proof (induction n)
  case 0
  then show ?case using assms by (simp add: mod_pos_pos_trivial div_pos_pos_trivial)
next
  case (Suc n)
  define x where "x = num * 2 ^ n"
  have x0: "0 \<le> x" using assms by (simp add: x_def)
  have r: "0 \<le> x mod denum" "x mod denum < denum" using assms by auto
  have "num * 2 ^ n \<le> (denum - 1) * 2 ^ n" using assms by (intro mult_right_mono) auto
  moreover have "(0 :: int) < 2 ^ n" by simp
  ultimately have "x < 2 ^ n * denum"
    unfolding x_def left_diff_distrib mult_1 mult.commute [of _ denum] by linarith
  then have "x div denum < 2 ^ n" using assms by (intro int_div_less) auto
  also have "(2 :: int) ^ n \<le> 2 ^ 14" using Suc.prems by (intro power_increasing) auto
  finally have q: "x div denum < 16384" by simp
  have q0: "0 \<le> x div denum" using x0 assms by (simp add: pos_imp_zdiv_nonneg_iff)
  have IH: "(div_step denum ^^ n) (0, num) = (x div denum, x mod denum)"
    using Suc by (simp add: x_def)
  have dq: "denum * (x div denum) = x - x mod denum"
    by (simp add: minus_mod_eq_mult_div)
  have "(div_step denum ^^ Suc n) (0, num) = (2 * x div denum, 2 * x mod denum)"
  proof (cases "2 * (x mod denum) \<ge> denum")
    case True
    have "2 * x = denum * (2 * (x div denum) + 1) + (2 * (x mod denum) - denum)"
      by (simp only: distrib_left mult.left_commute [of denum 2] mult_1_right dq) simp
    then have "2 * x div denum = 2 * (x div denum) + 1" "2 * x mod denum = 2 * (x mod denum) - denum"
      using True r by (auto intro: int_div_pos_eq int_mod_pos_eq)
    then show ?thesis using True q q0 IH by (simp add: div_step_def shl_mult w16_eq Let_def mult.commute)
  next
    case False
    have "2 * x = denum * (2 * (x div denum)) + 2 * (x mod denum)"
      by (simp only: distrib_left mult.left_commute [of denum 2] mult_1_right dq) simp
    then have "2 * x div denum = 2 * (x div denum)" "2 * x mod denum = 2 * (x mod denum)"
      using False r by (auto intro: int_div_pos_eq int_mod_pos_eq)
    then show ?thesis using False q q0 IH by (simp add: div_step_def shl_mult w16_eq Let_def mult.commute)
  qed
  then show ?case by (simp add: x_def ac_simps)
qed

lemma div_steps_equal:
  assumes "0 < denum" "denum \<le> 32767" "n \<le> 15"
  shows "(div_step denum ^^ n) (0, denum) = (2 ^ n - 1, denum)"
  using assms(3)
proof (induction n)
  case (Suc n)
  have "(2 :: int) ^ n \<le> 2 ^ 14" using Suc.prems by (intro power_increasing) auto
  then have "(2 :: int) ^ n \<le> 16384" "1 \<le> (2 :: int) ^ n" by simp_all
  moreover have "w16 (2 * (y - 1)) = 2 * (y - 1)" "w16 (2 * (y - 1) + 1) = 2 * (y - 1) + 1"
    if "y \<le> 16384" "1 \<le> y" for y
    using that by (simp_all add: w16_eq)
  ultimately have "w16 (2 * (2 ^ n - 1)) = 2 * (2 ^ n - 1)"
    "w16 (2 * (2 ^ n - 1) + 1) = 2 * (2 ^ n - 1) + 1"
    by blast+
  with Suc assms show ?case by (simp add: div_step_def shl_mult Let_def mult.commute)
qed simp

lemma gsm_div_eq:
  assumes "0 \<le> num" "num \<le> denum" "denum \<le> MAX_WORD"
  shows "gsm_div num denum = Some (min MAX_WORD (num * 32768 div denum))"
proof -
  consider "num = 0" | "0 < num" "num < denum" | "0 < num" "num = denum" using assms by linarith
  then show ?thesis
  proof cases
    case 1
    with assms show ?thesis by (simp add: gsm_div_def)
  next
    case 2
    have "num * 32768 < 32768 * denum" using 2 by simp
    then have "num * 32768 div denum < 32768" using 2 by (intro int_div_less) auto
    with 2 assms show ?thesis by (simp add: gsm_div_def div_steps_less)
  next
    case 3
    with assms show ?thesis by (simp add: gsm_div_def div_steps_equal)
  qed
qed

section \<open>Properties\<close>

text \<open>saturating arithmetic: on 16-bit operands the macros \<open>GSM_ADD\<close> and \<open>GSM_SUB\<close> and the
  functions \<open>gsm_add\<close> and \<open>gsm_sub\<close> return the exact sum and difference, clamped to the range of a
  word, and on 32-bit operands \<open>gsm_L_add\<close> and \<open>gsm_L_sub\<close> return the exact result clamped to the
  range of a longword, whatever signs and overflow tests they go through.\<close>

lemma saturating_arithmetic:
  assumes "is_word a" "is_word b" "is_long32 x" "is_long32 y"
  shows "GSM_ADD a b = max (- 32768) (min 32767 (a + b)) \<and> gsm_add a b = GSM_ADD a b
    \<and> GSM_SUB a b = max (- 32768) (min 32767 (a - b)) \<and> gsm_sub a b = GSM_SUB a b
    \<and> gsm_L_add x y = max (- 2147483648) (min 2147483647 (x + y))
    \<and> gsm_L_sub x y = max (- 2147483648) (min 2147483647 (x - y))"
proof -
  have s: "saturate z = max (- 32768) (min 32767 z)" for z by (simp add: saturate_def)
  have l: "saturate_long z = max (- 2147483648) (min 2147483647 z)" for z by (simp add: saturate_long_def)
  have "gsm_add a b = saturate (a + b)" "gsm_sub a b = saturate (a - b)"
    by (simp_all only: gsm_add_def gsm_sub_def Let_def)
  then show ?thesis
    unfolding GSM_ADD_saturate [OF assms(1,2)] GSM_SUB_saturate gsm_L_add_saturate [OF assms(3,4)]
      gsm_L_sub_saturate [OF assms(3,4)] by (simp only: s l simp_thms)
qed

text \<open>normalisation: for every 32-bit value but zero, \<open>gsm_norm\<close> returns the left shift that
  brings the value into the upper half of its range, the largest one without overflow; for zero
  its assertion fails.\<close>

lemma gsm_norm_normalises:
  "gsm_norm 0 = None
   \<and> (\<forall>a. 0 < a \<and> a < 2 ^ 31 \<longrightarrow> (\<exists>n. gsm_norm a = Some (int n) \<and> n \<le> 30
        \<and> 2 ^ 30 \<le> a * 2 ^ n \<and> a * 2 ^ n < 2 ^ 31))
   \<and> (\<forall>a. a < 0 \<and> - (2 ^ 31) \<le> a \<longrightarrow> (\<exists>n. gsm_norm a = Some (int n) \<and> n \<le> 31
        \<and> - (2 ^ 31) \<le> a * 2 ^ n \<and> a * 2 ^ n \<le> - (2 ^ 30)))"
proof (intro conjI allI impI)
  show "gsm_norm 0 = None" by (simp add: gsm_norm_def c_assert_def)
  fix a :: int
  show "\<exists>n. gsm_norm a = Some (int n) \<and> n \<le> 30 \<and> 2 ^ 30 \<le> a * 2 ^ n \<and> a * 2 ^ n < 2 ^ 31"
    if "0 < a \<and> a < 2 ^ 31"
    using gsm_norm_pos [OF that [THEN conjunct1] that [THEN conjunct2]] by metis
  show "\<exists>n. gsm_norm a = Some (int n) \<and> n \<le> 31 \<and> - (2 ^ 31) \<le> a * 2 ^ n \<and> a * 2 ^ n \<le> - (2 ^ 30)"
    if "a < 0 \<and> - (2 ^ 31) \<le> a"
    using gsm_norm_neg [OF that [THEN conjunct1] that [THEN conjunct2]] by metis
qed

text \<open>division: \<open>gsm_div\<close>, fifteen turns of shift and subtract, returns the quotient of two
  words as a 15-bit fraction, saturated where numerator and denominator are equal; outside
  \<open>0 \<le> num \<le> denum\<close> its assertion fails.\<close>

lemma gsm_div_quotient:
  "(0 \<le> num \<and> num \<le> denum \<and> denum \<le> 32767 \<longrightarrow>
      gsm_div num denum = Some (min 32767 (num * 32768 div denum)))
   \<and> (num < 0 \<or> denum < num \<longrightarrow> gsm_div num denum = None)"
proof (intro conjI impI)
  show "gsm_div num denum = Some (min 32767 (num * 32768 div denum))"
    if "0 \<le> num \<and> num \<le> denum \<and> denum \<le> 32767"
    using gsm_div_eq [of num denum] that by blast
  show "gsm_div num denum = None" if "num < 0 \<or> denum < num"
  proof -
    have "c_assert (num \<ge> 0 \<and> denum \<ge> num) = None" using that by (auto simp: c_assert_def)
    then show ?thesis by (simp only: gsm_div_def bind.simps)
  qed
qed

end
