(* ===== verification/Gsm_State.thy ===== *)
theory Gsm_State
  imports Prelude
begin

text \<open>
  The state of a codec handle, \<open>struct gsm_state\<close> of \<open>telecomm/gsm/inc/private.h\<close>, one field
  per member (\<open>S->u\<close> is \<open>S_u S\<close>), with \<open>gsm_create\<close>, \<open>gsm_option\<close> and \<open>gsm_destroy\<close>
  (\<open>telecomm/gsm/src/gsm_create.c\<close>, \<open>gsm_option.c\<close>, \<open>gsm_destroy.c\<close>) and the invariant that every
  operation of the codec keeps.
\<close>

record gsm_state =
  S_dp0 :: "int list"
  S_z1 :: int
  S_L_z2 :: int
  S_mp :: int
  S_u :: "int list"
  S_LARpp :: "int list list"
  S_j :: nat
  S_nrp :: int
  S_v :: "int list"
  S_msr :: int
  S_verbose :: int
  S_fast :: int

text \<open>\<open>malloc\<close> may fail: its outcome is a parameter of \<open>gsm_create\<close>.\<close>

definition gsm_zero :: gsm_state where
  "gsm_zero = \<lparr>S_dp0 = replicate 280 0, S_z1 = 0, S_L_z2 = 0, S_mp = 0, S_u = replicate 8 0,
     S_LARpp = replicate 2 (replicate 8 0), S_j = 0, S_nrp = 0, S_v = replicate 9 0, S_msr = 0,
     S_verbose = 0, S_fast = 0\<rparr>"

definition gsm_create :: "bool \<Rightarrow> gsm_state option" where
  "gsm_create malloc_ok = (if \<not> malloc_ok then None else Some (gsm_zero\<lparr>S_nrp := 40\<rparr>))"

abbreviation (input) GSM_OPT_VERBOSE :: int where "GSM_OPT_VERBOSE \<equiv> 1"
abbreviation (input) GSM_OPT_FAST :: int where "GSM_OPT_FAST \<equiv> 2"

text \<open>\<open>char\<close> is unsigned on the target.\<close>

definition gsm_option :: "gsm_state \<Rightarrow> int \<Rightarrow> int option \<Rightarrow> int \<times> gsm_state" where
  "gsm_option r opt val =
     (if opt = GSM_OPT_VERBOSE then
        (S_verbose r, case val of None \<Rightarrow> r | Some x \<Rightarrow> r\<lparr>S_verbose := take_bit 8 x\<rparr>)
      else if opt = GSM_OPT_FAST then (- 1, r)
      else (- 1, r))"

section \<open>Invariant\<close>

text \<open>
  The memory of the offset filter: \<open>L_z2\<close> differs from the last scaled sample by at most the
  range of the samples (in units of 2 to the power -15) plus the accumulated rounding error.
\<close>

definition offset_inv :: "int \<Rightarrow> int \<Rightarrow> bool" where
  "offset_inv z1 L_z2 \<longleftrightarrow> - 16384 \<le> z1 \<and> z1 \<le> 16380
     \<and> - (16380 * 32768 + 1000) \<le> L_z2 - z1 * 32768 \<and> L_z2 - z1 * 32768 \<le> 16384 * 32768 + 1000"

definition state_inv :: "gsm_state \<Rightarrow> bool" where
  "state_inv S \<longleftrightarrow>
     length (S_dp0 S) = 280 \<and> list_all is_word (S_dp0 S)
   \<and> offset_inv (S_z1 S) (S_L_z2 S) \<and> is_word (S_mp S)
   \<and> length (S_u S) = 8 \<and> list_all is_word (S_u S)
   \<and> length (S_LARpp S) = 2 \<and> list_all (\<lambda>l. length l = 8 \<and> list_all is_word l) (S_LARpp S)
   \<and> (S_j S = 0 \<or> S_j S = 1) \<and> 40 \<le> S_nrp S \<and> S_nrp S \<le> 120
   \<and> length (S_v S) = 9 \<and> list_all is_word (S_v S) \<and> is_word (S_msr S)"

lemma gsm_create_inv: "gsm_create m = Some S \<Longrightarrow> state_inv S"
  by (auto simp: gsm_create_def gsm_zero_def state_inv_def offset_inv_def is_word_def list_all_replicate
      split: if_splits)

lemma gsm_option_inv: "state_inv S \<Longrightarrow> state_inv (snd (gsm_option S opt val))"
  by (auto simp: gsm_option_def state_inv_def split: option.splits)

section \<open>Properties\<close>

text \<open>a fresh handle: \<open>gsm_create\<close> returns no handle when \<open>malloc\<close> fails and otherwise one that
  satisfies the invariant, and \<open>gsm_option\<close> keeps the invariant, reports the verbosity it replaces
  and answers -1 to every option this build does not have.\<close>

lemma handle_operations:
  "gsm_create False = None \<and> (\<exists>S. gsm_create True = Some S \<and> state_inv S)
   \<and> (state_inv S \<longrightarrow> state_inv (snd (gsm_option S opt val)))
   \<and> fst (gsm_option S opt val) = (if opt = 1 then S_verbose S else - 1)
   \<and> (opt \<noteq> 1 \<longrightarrow> snd (gsm_option S opt val) = S)"
proof -
  have "gsm_create False = None" by (simp add: gsm_create_def)
  moreover have "\<exists>S. gsm_create True = Some S \<and> state_inv S"
    using gsm_create_inv [of True] by (simp add: gsm_create_def)
  ultimately show ?thesis by (simp add: gsm_option_inv) (simp add: gsm_option_def)
qed

end
