(* ===== verification/Gsm_Preprocess.thy ===== *)
theory Gsm_Preprocess
  imports Gsm_Add Gsm_State
begin

text \<open>
  Downscaling, offset compensation and pre-emphasis, \<open>telecomm/gsm/src/preprocess.c\<close>.
  \<open>pre_step\<close> is one turn of the sample loop on the locals \<open>(z1, L_z2, mp)\<close>.

  The recursive part of the offset filter is a first-order high-pass filter in 31-bit
  arithmetic. \<open>offset_inv\<close> bounds its memory: with it the truncations to 16 and 32 bits in
  the loop never lose anything, and the assertions hold.
\<close>

definition pre_step :: "int \<Rightarrow> int \<times> int \<times> int \<Rightarrow> ((int \<times> int \<times> int) \<times> int) option" where
  "pre_step s st = (case st of (z1, L_z2, mp) \<Rightarrow> do {
     let SO = w16 (shl (sasr s 3) 2);
     c_assert (SO \<ge> - 0x4000);
     c_assert (SO \<le> 0x3FFC);
     let s1 = w16 (SO - z1);
     let z1 = SO;
     c_assert (s1 \<noteq> MIN_WORD);
     let L_s2 = s1;
     let L_s2 = shl L_s2 15;
     let msp = w16 (sasr L_z2 15);
     let lsp = w16 (L_z2 - shl msp 15);
     let L_s2 = L_s2 + GSM_MULT_R lsp 32735;
     let L_temp = msp * 32735;
     let L_z2 = GSM_L_ADD L_temp L_s2;
     let L_temp = GSM_L_ADD L_z2 16384;
     let msp = w16 (GSM_MULT_R mp (- 28180));
     let mp = w16 (sasr L_temp 15);
     let so = GSM_ADD mp msp;
     Some ((z1, L_z2, mp), so)
   })"

primrec pre_loop :: "int list \<Rightarrow> int \<times> int \<times> int \<Rightarrow> ((int \<times> int \<times> int) \<times> int list) option" where
  "pre_loop [] st = Some (st, [])"
| "pre_loop (s # ss) st = do {
     (st, so) \<leftarrow> pre_step s st;
     (st, sos) \<leftarrow> pre_loop ss st;
     Some (st, so # sos)
   }"

definition Gsm_Preprocess :: "gsm_state \<Rightarrow> int list \<Rightarrow> (gsm_state \<times> int list) option" where
  "Gsm_Preprocess S s = do {
     ((z1, L_z2, mp), so) \<leftarrow> pre_loop (take 160 s) (S_z1 S, S_L_z2 S, w16 (S_mp S));
     Some (S\<lparr>S_z1 := z1, S_L_z2 := L_z2, S_mp := mp\<rparr>, so)
   }"

section \<open>The offset filter stays inside its word\<close>

text \<open>The new filter memory, without any truncation or saturation.\<close>

definition offset_filter :: "int \<Rightarrow> int \<Rightarrow> int \<Rightarrow> int" where
  "offset_filter z1 L_z2 SO =
     (SO - z1) * 32768 + (L_z2 div 32768) * 32735 + (L_z2 mod 32768 * 32735 + 16384) div 32768"

lemma offset_filter_inv:
  assumes "offset_inv z1 L_z2" "- 16384 \<le> SO" "SO \<le> 16380"
  shows "offset_inv SO (offset_filter z1 L_z2 SO)"
proof -
  define m l where "m = L_z2 div 32768" and "l = L_z2 mod 32768"
  have L: "L_z2 = m * 32768 + l" "0 \<le> l" "l < 32768" by (simp_all add: m_def l_def)
  define q where "q = (l * 32735 + 16384) div 32768"
  have q: "q * 32768 \<le> l * 32735 + 16384" "l * 32735 + 16384 < q * 32768 + 32768"
    unfolding q_def by linarith+
  have "offset_filter z1 L_z2 SO = (SO - z1) * 32768 + m * 32735 + q"
    by (simp add: offset_filter_def m_def l_def q_def)
  then have f: "offset_filter z1 L_z2 SO - SO * 32768 = m * 32735 + q - z1 * 32768" by simp
  have z: "- 16384 \<le> z1" "z1 \<le> 16380" "- 536740840 \<le> m * 32768 + l - z1 * 32768"
    "m * 32768 + l - z1 * 32768 \<le> 536871912"
    using assms(1) L(1) by (auto simp: offset_inv_def)
  have "- 536740840 \<le> m * 32735 + q - z1 * 32768" "m * 32735 + q - z1 * 32768 \<le> 536871912"
    using z q L(2,3) by linarith+
  with f assms(2,3) show ?thesis by (simp add: offset_inv_def)
qed

lemma offset_inv_bounds:
  assumes "offset_inv z1 L_z2"
  shows "- 1073741824 < L_z2" "L_z2 < 1073741824"
  using assms by (auto simp: offset_inv_def)

lemma pre_step_Some:
  assumes "is_word s" "offset_inv z1 L_z2" "is_word mp"
  shows "\<exists>mp' so. pre_step s (z1, L_z2, mp)
      = Some ((s div 8 * 4, offset_filter z1 L_z2 (s div 8 * 4), mp'), so)
    \<and> is_word mp' \<and> is_word so \<and> mp' = (offset_filter z1 L_z2 (s div 8 * 4) + 16384) div 32768
    \<and> so = saturate (mp' + GSM_MULT_R mp (- 28180))"
proof -
  define SO where "SO = s div 8 * 4"
  have SO: "- 16384 \<le> SO" "SO \<le> 16380" "w16 (shl (sasr s 3) 2) = SO"
    using assms(1) by (auto simp: SO_def is_word_def sasr_div shl_mult w16_eq)
  have z1: "- 16384 \<le> z1" "z1 \<le> 16380" using assms(2) by (auto simp: offset_inv_def)
  then have s1: "w16 (SO - z1) = SO - z1" "SO - z1 \<noteq> MIN_WORD" using SO by (auto simp: w16_eq)
  note L = offset_inv_bounds [OF assms(2)]
  have msp: "w16 (sasr L_z2 15) = L_z2 div 32768" using L by (auto simp: sasr_div intro!: w16_eq)
  have lsp: "w16 (L_z2 - shl (L_z2 div 32768) 15) = L_z2 mod 32768"
    by (simp add: shl_mult minus_div_mult_eq_mod w16_eq pos_mod_sign less_imp_le [OF pos_mod_bound])
  note inv = offset_filter_inv [OF assms(2) SO(1,2)]
  note L' = offset_inv_bounds [OF inv]
  have f: "GSM_L_ADD (L_z2 div 32768 * 32735) (shl (SO - z1) 15 + GSM_MULT_R (L_z2 mod 32768) 32735)
      = offset_filter z1 L_z2 SO"
  proof -
    have a: "is_long32 (L_z2 div 32768 * 32735)" using L by (auto simp: is_long32_def)
    have "0 \<le> L_z2 mod 32768" "L_z2 mod 32768 < 32768" by simp_all
    then have b: "is_long32 (shl (SO - z1) 15 + GSM_MULT_R (L_z2 mod 32768) 32735)"
      using SO(1,2) z1 by (auto simp: is_long32_def shl_mult GSM_MULT_R_def sasr_div)
    show ?thesis unfolding GSM_L_ADD_saturate [OF a b] using L'
      by (simp add: offset_filter_def shl_mult GSM_MULT_R_def sasr_div saturate_long_def algebra_simps)
  qed
  have g: "GSM_L_ADD (offset_filter z1 L_z2 SO) 16384 = offset_filter z1 L_z2 SO + 16384"
    using L' by (subst GSM_L_ADD_saturate) (auto simp: is_long32_def saturate_long_def)
  have mp': "is_word ((offset_filter z1 L_z2 SO + 16384) div 32768)"
    using inv SO(1,2) by (auto simp: offset_inv_def is_word_def)
  have m: "is_word (GSM_MULT_R mp (- 28180))"
    using assms(3) by (intro GSM_MULT_R_word) (auto simp: is_word_def)
  show ?thesis
    unfolding pre_step_def prod.case Let_def SO(3) s1(1) msp lsp f g
    using SO(1,2) s1(2) mp' m by (simp add: sasr_div GSM_ADD_saturate flip: SO_def)
qed

lemma pre_loop_Some:
  assumes "list_all is_word ss" "offset_inv z1 L_z2" "is_word mp"
  obtains z1' L_z2' mp' so where "pre_loop ss (z1, L_z2, mp) = Some ((z1', L_z2', mp'), so)"
    "offset_inv z1' L_z2'" "is_word mp'" "list_all is_word so" "length so = length ss"
proof -
  have "\<exists>z1' L_z2' mp' so. pre_loop ss (z1, L_z2, mp) = Some ((z1', L_z2', mp'), so)
    \<and> offset_inv z1' L_z2' \<and> is_word mp' \<and> list_all is_word so \<and> length so = length ss"
    using assms
  proof (induction ss arbitrary: z1 L_z2 mp)
    case (Cons s ss)
    from Cons.prems(1) have s: "is_word s" "list_all is_word ss" by auto
    let ?SO = "s div 8 * 4"
    have "- 16384 \<le> ?SO" "?SO \<le> 16380" using s(1) by (auto simp: is_word_def)
    with offset_filter_inv [OF Cons.prems(2)] have inv: "offset_inv ?SO (offset_filter z1 L_z2 ?SO)" by blast
    obtain mp' so where "pre_step s (z1, L_z2, mp) = Some ((?SO, offset_filter z1 L_z2 ?SO, mp'), so)"
      "is_word mp'" "is_word so"
      using pre_step_Some [OF s(1) Cons.prems(2,3)] by blast
    with Cons.IH [OF s(2) inv, of mp'] show ?case by auto
  qed simp
  then show ?thesis using that by blast
qed

lemma Gsm_Preprocess_Some:
  assumes "state_inv S" "list_all is_word s" "length s = 160"
  obtains S' so where "Gsm_Preprocess S s = Some (S', so)" "state_inv S'" "length so = 160"
    "list_all is_word so" "S' = S\<lparr>S_z1 := S_z1 S', S_L_z2 := S_L_z2 S', S_mp := S_mp S'\<rparr>"
proof -
  have inv: "offset_inv (S_z1 S) (S_L_z2 S)" "is_word (w16 (S_mp S))"
    using assms(1) by (auto simp: state_inv_def)
  obtain z1 L_z2 mp so where "pre_loop (take 160 s) (S_z1 S, S_L_z2 S, w16 (S_mp S)) = Some ((z1, L_z2, mp), so)"
    "offset_inv z1 L_z2" "is_word mp" "list_all is_word so" "length so = length s"
    using pre_loop_Some [OF assms(2) inv] assms(3) by (metis order.refl take_all)
  with assms(1,3) show ?thesis
    by (intro that [of "S\<lparr>S_z1 := z1, S_L_z2 := L_z2, S_mp := mp\<rparr>" so])
      (auto simp: Gsm_Preprocess_def state_inv_def)
qed

section \<open>Properties\<close>

text \<open>offset compensation is stable: on every frame of words preprocessing succeeds, returns a
  frame of words and keeps the state invariant, so the recursive filter memory never leaves its
  range and no assertion about the double-precision product can fail, however long the stream;
  it changes nothing but the three memories of the filter.\<close>

lemma preprocess_total:
  assumes "state_inv S" "list_all is_word s" "length s = 160"
  shows "\<exists>S' so. Gsm_Preprocess S s = Some (S', so) \<and> state_inv S' \<and> length so = 160 \<and> list_all is_word so
    \<and> S' = S\<lparr>S_z1 := S_z1 S', S_L_z2 := S_L_z2 S', S_mp := S_mp S'\<rparr>"
  using Gsm_Preprocess_Some [OF assms] by metis

end
