(* ===== verification/Gsm_Table.thy ===== *)
theory Gsm_Table
  imports Gsm_Add
begin

text \<open>
  The tables of \<open>telecomm/gsm/src/table.c\<close>: quantiser scale, offset and limits of the
  log-area ratios, decision and quantisation levels of the long-term gain, the weighting
  filter and the mantissa tables of the adaptive quantiser.
\<close>

definition gsm_A :: "int list" where
  "gsm_A = [20480, 20480, 20480, 20480, 13964, 15360, 8534, 9036]"

definition gsm_B :: "int list" where
  "gsm_B = [0, 0, 2048, - 2560, 94, - 1792, - 341, - 1144]"

definition gsm_MIC :: "int list" where
  "gsm_MIC = [- 32, - 32, - 16, - 16, - 8, - 8, - 4, - 4]"

definition gsm_MAC :: "int list" where
  "gsm_MAC = [31, 31, 15, 15, 7, 7, 3, 3]"

definition gsm_INVA :: "int list" where
  "gsm_INVA = [13107, 13107, 13107, 13107, 19223, 17476, 31454, 29708]"

definition gsm_DLB :: "int list" where
  "gsm_DLB = [6554, 16384, 26214, 32767]"

definition gsm_QLB :: "int list" where
  "gsm_QLB = [3277, 11469, 21299, 32767]"

definition gsm_H :: "int list" where
  "gsm_H = [- 134, - 374, 0, 2054, 5741, 8192, 5741, 2054, 0, - 374, - 134]"

definition gsm_NRFAC :: "int list" where
  "gsm_NRFAC = [29128, 26215, 23832, 21846, 20165, 18725, 17476, 16384]"

definition gsm_FAC :: "int list" where
  "gsm_FAC = [18431, 20479, 22527, 24575, 26623, 28671, 30719, 32767]"

text \<open>Every level of the inverse mantissa table is the rounded reciprocal of the direct one.\<close>

lemma gsm_NRFAC_bounds:
  "\<forall>m \<in> {0..<8}. gsm_NRFAC ! m * (int m + 9) \<in> {262140..262152}"
  by code_simp

lemma gsm_FAC_eq: "m < 8 \<Longrightarrow> gsm_FAC ! m = (int m + 9) * 2048 - 1"
proof -
  have "\<forall>m \<in> {0..<8}. gsm_FAC ! m = (int m + 9) * 2048 - 1" by code_simp
  then show "m < 8 \<Longrightarrow> gsm_FAC ! m = (int m + 9) * 2048 - 1" by simp
qed

end
