(* ===== verification/Gsm_Rpe.thy ===== *)
theory Gsm_Rpe
  imports Gsm_Table
begin

text \<open>
  Regular pulse excitation, \<open>telecomm/gsm/src/rpe.c\<close>. The array \<open>e\<close> is the whole
  \<open>word e[50]\<close> of \<open>code.c\<close>: the callee's \<open>e[-5..44]\<close> is positions 0 to 49, so its
  \<open>e[0..39]\<close> is positions 5 to 44. A loop that may not end is a \<open>partial_function (option)\<close>,
  where not returning is \<open>None\<close>, as is a failed assertion.
\<close>

section \<open>Weighting filter and grid selection\<close>

definition weight_step :: "int list \<Rightarrow> nat \<Rightarrow> nat \<Rightarrow> int \<Rightarrow> int" where
  "weight_step e k i H = e ! (k + i) * H"

definition Weighting_filter :: "int list \<Rightarrow> int list" where
  "Weighting_filter e =
     map (\<lambda>k.
       let L_result = sasr 8192 1;
           L_result = L_result + weight_step e k 0 (- 134);
           L_result = L_result + weight_step e k 1 (- 374);
           L_result = L_result + weight_step e k 3 2054;
           L_result = L_result + weight_step e k 4 5741;
           L_result = L_result + weight_step e k 5 8192;
           L_result = L_result + weight_step e k 6 5741;
           L_result = L_result + weight_step e k 7 2054;
           L_result = L_result + weight_step e k 9 (- 374);
           L_result = L_result + weight_step e k 10 (- 134);
           L_result = sasr L_result 13
       in if L_result < MIN_WORD then MIN_WORD
          else if L_result > MAX_WORD then MAX_WORD else L_result) [0..<40]"

definition grid_step :: "int list \<Rightarrow> nat \<Rightarrow> nat \<Rightarrow> int \<Rightarrow> int" where
  "grid_step x m i L_result = (let L_temp = sasr (x ! (m + 3 * i)) 2 in L_result + L_temp * L_temp)"

definition RPE_grid_selection :: "int list \<Rightarrow> int list \<times> int" where
  "RPE_grid_selection x =
     (let L_common_0_3 = fold (grid_step x 0) [1..<13] 0;
          L_result = shl (grid_step x 0 0 L_common_0_3) 1;
          (Mc, EM) = (0, L_result);
          L_result = shl (fold (grid_step x 1) [0..<13] 0) 1;
          (Mc, EM) = (if L_result > EM then (1, L_result) else (Mc, EM));
          L_result = shl (fold (grid_step x 2) [0..<13] 0) 1;
          (Mc, EM) = (if L_result > EM then (2, L_result) else (Mc, EM));
          L_result = shl (grid_step x 3 12 L_common_0_3) 1;
          (Mc, EM) = (if L_result > EM then (3, L_result) else (Mc, EM))
      in (map (\<lambda>i. x ! (nat Mc + 3 * i)) [0..<13], Mc))"

section \<open>Adaptive quantisation of the selected pulses\<close>

partial_function (option) mant_loop :: "int \<Rightarrow> int \<Rightarrow> (int \<times> int) option" where
  "mant_loop mant exp =
     (if mant \<le> 7 then mant_loop (w16 (shl mant 1 OR 1)) (w16 (exp - 1)) else Some (exp, mant))"

declare mant_loop.simps [code]

definition APCM_quantization_xmaxc_to_exp_mant :: "int \<Rightarrow> (int \<times> int) option" where
  "APCM_quantization_xmaxc_to_exp_mant xmaxc = do {
     let exp = (if xmaxc > 15 then w16 (sasr xmaxc 3 - 1) else 0);
     let mant = w16 (xmaxc - shl exp 3);
     (exp, mant) \<leftarrow> (if mant = 0 then Some (- 4, 7)
       else do { (exp, mant) \<leftarrow> mant_loop mant exp; Some (exp, w16 (mant - 8)) });
     c_assert (exp \<ge> - 4 \<and> exp \<le> 6);
     c_assert (mant \<ge> 0 \<and> mant \<le> 7);
     Some (exp, mant)
   }"

definition max_abs :: "int list \<Rightarrow> int" where
  "max_abs xM = fold (\<lambda>x xmax. let temp = GSM_ABS x in if temp > xmax then temp else xmax) xM 0"

definition exp_loop :: "int \<Rightarrow> int option" where
  "exp_loop temp = do {
     (exp, temp, itest) \<leftarrow> fold_opt (\<lambda>_ (exp, temp, itest). do {
         let itest = itest \<or> temp \<le> 0;
         let temp = sasr temp 1;
         c_assert (exp \<le> 5);
         Some (if \<not> itest then exp + 1 else exp, temp, itest)
       }) [0..<6] (0, temp, False);
     Some exp
   }"

text \<open>The body of the loop that quantises the samples.\<close>

definition quant_sample :: "int \<Rightarrow> int \<Rightarrow> int \<Rightarrow> int option" where
  "quant_sample temp1 temp2 x = do {
     c_assert (temp1 \<ge> 0 \<and> temp1 < 16);
     let temp = w16 (shl x (nat temp1));
     let temp = w16 (GSM_MULT temp temp2);
     let temp = sasr temp 12;
     Some (w16 (temp + 4))
   }"

definition APCM_quantization :: "int list \<Rightarrow> (int list \<times> int \<times> int \<times> int) option" where
  "APCM_quantization xM = do {
     let xmax = max_abs xM;
     exp \<leftarrow> exp_loop (sasr xmax 9);
     c_assert (exp \<le> 6 \<and> exp \<ge> 0);
     let temp = exp + 5;
     c_assert (temp \<le> 11 \<and> temp \<ge> 0);
     let xmaxc = gsm_add (sasr xmax (nat temp)) (shl exp 3);
     (exp, mant) \<leftarrow> APCM_quantization_xmaxc_to_exp_mant xmaxc;
     c_assert (exp \<le> 4096 \<and> exp \<ge> - 4096);
     c_assert (mant \<ge> 0 \<and> mant \<le> 7);
     let temp1 = 6 - exp;
     let temp2 = gsm_NRFAC ! nat mant;
     xMc \<leftarrow> map_opt (quant_sample temp1 temp2) xM;
     Some (xMc, mant, exp, xmaxc)
   }"

definition dequant_sample :: "int \<Rightarrow> int \<Rightarrow> int \<Rightarrow> int \<Rightarrow> int option" where
  "dequant_sample temp1 temp2 temp3 x = do {
     c_assert (x \<le> 7 \<and> x \<ge> 0);
     let temp = w16 (shl x 1 - 7);
     c_assert (temp \<le> 7 \<and> temp \<ge> - 7);
     let temp = w16 (shl temp 12);
     let temp = w16 (GSM_MULT_R temp1 temp);
     let temp = GSM_ADD temp temp3;
     Some (gsm_asr temp temp2)
   }"

definition APCM_inverse_quantization :: "int list \<Rightarrow> int \<Rightarrow> int \<Rightarrow> int list option" where
  "APCM_inverse_quantization xMc mant exp = do {
     c_assert (mant \<ge> 0 \<and> mant \<le> 7);
     let temp1 = gsm_FAC ! nat mant;
     let temp2 = gsm_sub 6 exp;
     let temp3 = gsm_asl 1 (gsm_sub temp2 1);
     map_opt (dequant_sample temp1 temp2 temp3) xMc
   }"

section \<open>Grid positioning\<close>

text \<open>The \<open>do\<close> loop, entered so that the first turn writes \<open>z\<close> zeros before its sample.\<close>

fun grid_loop :: "nat \<Rightarrow> int list \<Rightarrow> int list" where
  "grid_loop z [] = []"
| "grid_loop z (x # xMp) = replicate z 0 @ x # grid_loop 2 xMp"

definition RPE_grid_positioning :: "int \<Rightarrow> int list \<Rightarrow> int list option" where
  "RPE_grid_positioning Mc xMp = do {
     c_assert (0 \<le> Mc \<and> Mc \<le> 3);
     let ep = (if Mc = 3 then 0 # grid_loop 2 xMp
       else if Mc = 2 then grid_loop 2 xMp
       else if Mc = 1 then grid_loop 1 xMp
       else grid_loop 0 xMp);
     Some (ep @ replicate (nat (3 - Mc)) 0)
   }"

section \<open>The two entry points\<close>

definition Gsm_RPE_Encoding :: "int list \<Rightarrow> (int list \<times> int \<times> int \<times> int list) option" where
  "Gsm_RPE_Encoding e = do {
     let x = Weighting_filter e;
     let (xM, Mc) = RPE_grid_selection x;
     (xMc, mant, exp, xmaxc) \<leftarrow> APCM_quantization xM;
     xMp \<leftarrow> APCM_inverse_quantization xMc mant exp;
     ep \<leftarrow> RPE_grid_positioning Mc xMp;
     Some (take 5 e @ ep @ drop 45 e, xmaxc, Mc, xMc)
   }"

definition Gsm_RPE_Decoding :: "int \<Rightarrow> int \<Rightarrow> int list \<Rightarrow> int list option" where
  "Gsm_RPE_Decoding xmaxcr Mcr xMcr = do {
     (exp, mant) \<leftarrow> APCM_quantization_xmaxc_to_exp_mant xmaxcr;
     xMp \<leftarrow> APCM_inverse_quantization xMcr mant exp;
     RPE_grid_positioning Mcr xMp
   }"

section \<open>Filter and grid selection compute what the standard specifies\<close>

lemma length_Weighting_filter [simp]: "length (Weighting_filter e) = 40"
  by (simp add: Weighting_filter_def)

lemma Weighting_filter_convolution:
  assumes "k < 40"
  shows "Weighting_filter e ! k = saturate (sasr ((\<Sum>i<11. e ! (k + i) * gsm_H ! i) + 4096) 13)"
proof -
  have "(\<Sum>i<11. e ! (k + i) * gsm_H ! i) + 4096 =
      sasr 8192 1 + e ! (k + 0) * - 134 + e ! (k + 1) * - 374 + e ! (k + 3) * 2054 + e ! (k + 4) * 5741
      + e ! (k + 5) * 8192 + e ! (k + 6) * 5741 + e ! (k + 7) * 2054 + e ! (k + 9) * - 374
      + e ! (k + 10) * - 134"
    by (simp add: gsm_H_def numeral_eq_Suc sasr_div)
  then show ?thesis
    using assms by (simp add: Weighting_filter_def weight_step_def saturate_def Let_def)
qed

lemma Weighting_filter_word: "list_all is_word (Weighting_filter e)"
  by (simp add: list_all_length Weighting_filter_convolution)

definition grid_energy :: "int list \<Rightarrow> nat \<Rightarrow> int" where
  "grid_energy x m = (\<Sum>i<13. (sasr (x ! (m + 3 * i)) 2)\<^sup>2)"

lemma grid_step_fold: "fold (grid_step x m) is a = a + (\<Sum>i\<leftarrow>is. (sasr (x ! (m + 3 * i)) 2)\<^sup>2)"
  by (induction "is" arbitrary: a) (auto simp: grid_step_def Let_def power2_eq_square)

lemma grid_energy_fold: "fold (grid_step x m) [0..<13] 0 = grid_energy x m"
  by (simp add: grid_step_fold grid_energy_def interv_sum_list_conv_sum_set_nat atLeast0LessThan)

lemma grid_common_part:
  "grid_step x 0 0 (fold (grid_step x 0) [1..<13] 0) = grid_energy x 0"
  "grid_step x 3 12 (fold (grid_step x 0) [1..<13] 0) = grid_energy x 3"
  by (simp_all add: grid_step_fold grid_energy_def grid_step_def Let_def power2_eq_square
      numeral_eq_Suc upt_rec)

lemma RPE_grid_selection_first_max:
  assumes "RPE_grid_selection x = (xM, Mc)"
  shows "0 \<le> Mc" "Mc \<le> 3" "xM = map (\<lambda>i. x ! (nat Mc + 3 * i)) [0..<13]"
    "\<And>m. m < 4 \<Longrightarrow> grid_energy x m \<le> grid_energy x (nat Mc)"
    "\<And>m. m < nat Mc \<Longrightarrow> grid_energy x m < grid_energy x (nat Mc)"
proof -
  have sel: "Mc = (let a = grid_energy x 0; b = grid_energy x 1; c = grid_energy x 2;
      d = grid_energy x 3; m1 = max a b; m2 = max m1 c in
      if d > m2 then 3 else if c > m1 then 2 else if b > a then 1 else 0)"
    and xM: "xM = map (\<lambda>i. x ! (nat Mc + 3 * i)) [0..<13]"
    using assms unfolding RPE_grid_selection_def Let_def prod.case grid_common_part grid_energy_fold shl_mult
    by (auto simp: Let_def split: if_splits)
  show "0 \<le> Mc" "Mc \<le> 3" "xM = map (\<lambda>i. x ! (nat Mc + 3 * i)) [0..<13]"
    using xM by (simp_all add: sel Let_def)
  have m4: "m < 4 \<longleftrightarrow> m = 0 \<or> m = 1 \<or> m = 2 \<or> m = 3" for m :: nat by auto
  show "grid_energy x m \<le> grid_energy x (nat Mc)" if "m < 4" for m
    using that unfolding m4 sel Let_def by (auto split: if_splits)
  show "grid_energy x m < grid_energy x (nat Mc)" if "m < nat Mc" for m
  proof -
    have "m < 4" using that \<open>Mc \<le> 3\<close> by linarith
    then show ?thesis using that unfolding m4 sel Let_def by (auto split: if_splits)
  qed
qed

lemma RPE_grid_selection_word:
  assumes "RPE_grid_selection x = (xM, Mc)" "length x = 40" "list_all is_word x"
  shows "length xM = 13" "list_all is_word xM"
  using RPE_grid_selection_first_max(1-3) [OF assms(1)] assms(2,3)
  by (auto simp: list_all_length)

section \<open>The block maximum\<close>

lemma max_abs_fold:
  assumes "list_all is_word xs" "0 \<le> m" "m \<le> MAX_WORD"
  shows "let r = fold (\<lambda>x xmax. let temp = GSM_ABS x in if temp > xmax then temp else xmax) xs m
    in m \<le> r \<and> r \<le> MAX_WORD \<and> (\<forall>x \<in> set xs. GSM_ABS x \<le> r)"
  using assms
proof (induction xs arbitrary: m)
  case (Cons x xs)
  let ?m = "if m < GSM_ABS x then GSM_ABS x else m"
  have m: "0 \<le> ?m" "?m \<le> MAX_WORD" "m \<le> ?m" "GSM_ABS x \<le> ?m"
    using Cons.prems GSM_ABS_range [of x] by auto
  from Cons.IH [OF _ m(1,2)] Cons.prems m(3,4) show ?case by (fastforce simp: Let_def)
qed simp

lemma max_abs_bounds:
  assumes "list_all is_word xM"
  shows "0 \<le> max_abs xM" "max_abs xM \<le> MAX_WORD" "\<And>x. x \<in> set xM \<Longrightarrow> GSM_ABS x \<le> max_abs xM"
  using max_abs_fold [OF assms, of 0] by (auto simp: max_abs_def Let_def)

section \<open>Quantiser tables by evaluation\<close>

lemma exp_loop_table:
  "\<forall>t \<in> {0..<64}. case exp_loop t of None \<Rightarrow> False
    | Some e \<Rightarrow> 0 \<le> e \<and> e \<le> 6 \<and> t < 2 ^ nat e \<and> (e > 0 \<longrightarrow> 2 ^ nat (e - 1) \<le> t)"
  by code_simp

lemma xmaxc_table:
  "\<forall>x \<in> {0..<64}. case APCM_quantization_xmaxc_to_exp_mant x of None \<Rightarrow> False
    | Some (exp, mant) \<Rightarrow> exp \<ge> - 4 \<and> exp \<le> 6 \<and> mant \<ge> 0 \<and> mant \<le> 7 \<and>
        (if x < 16 then (x + 1) * 32 = (mant + 9) * 2 ^ nat (exp + 5)
         else exp = x div 8 - 1 \<and> mant = x mod 8)"
  by code_simp

lemma exp_loop_spec:
  assumes "0 \<le> t" "t < 64"
  obtains e where "exp_loop t = Some e" "0 \<le> e" "e \<le> 6" "t < 2 ^ nat e"
    "e > 0 \<Longrightarrow> 2 ^ nat (e - 1) \<le> t"
proof -
  from assms have "t \<in> {0..<64}" by simp
  with exp_loop_table have "case exp_loop t of None \<Rightarrow> False
    | Some e \<Rightarrow> 0 \<le> e \<and> e \<le> 6 \<and> t < 2 ^ nat e \<and> (e > 0 \<longrightarrow> 2 ^ nat (e - 1) \<le> t)" by (rule bspec)
  then show ?thesis by (cases "exp_loop t") (auto intro: that)
qed

lemma xmaxc_spec:
  assumes "0 \<le> x" "x < 64"
  obtains exp mant where "APCM_quantization_xmaxc_to_exp_mant x = Some (exp, mant)"
    "- 4 \<le> exp" "exp \<le> 6" "0 \<le> mant" "mant \<le> 7"
    "x < 16 \<Longrightarrow> (x + 1) * 32 = (mant + 9) * 2 ^ nat (exp + 5)"
    "16 \<le> x \<Longrightarrow> exp = x div 8 - 1 \<and> mant = x mod 8"
proof -
  from assms have "x \<in> {0..<64}" by simp
  with xmaxc_table have "case APCM_quantization_xmaxc_to_exp_mant x of None \<Rightarrow> False
    | Some (exp, mant) \<Rightarrow> exp \<ge> - 4 \<and> exp \<le> 6 \<and> mant \<ge> 0 \<and> mant \<le> 7 \<and>
        (if x < 16 then (x + 1) * 32 = (mant + 9) * 2 ^ nat (exp + 5)
         else exp = x div 8 - 1 \<and> mant = x mod 8)" by (rule bspec)
  then show ?thesis
    by (cases "APCM_quantization_xmaxc_to_exp_mant x") (auto intro: that split: if_splits)
qed

section \<open>The quantiser covers the block maximum\<close>

lemma int_upto_6: "0 \<le> e \<Longrightarrow> e \<le> 6 \<Longrightarrow> e = 0 \<or> e = 1 \<or> e = 2 \<or> e = 3 \<or> e = 4 \<or> e = 5 \<or> e = (6::int)"
  by presburger

lemma xmaxc_bounds:
  assumes "0 \<le> xmax" "xmax \<le> MAX_WORD" "exp_loop (sasr xmax 9) = Some e"
  defines "xmaxc \<equiv> gsm_add (sasr xmax (nat (e + 5))) (shl e 3)"
  shows "0 \<le> e" "e \<le> 6" "0 \<le> xmaxc" "xmaxc < 64"
    "xmaxc < 16 \<Longrightarrow> xmax < (xmaxc + 1) * 32"
    "16 \<le> xmaxc \<Longrightarrow> xmax < (xmaxc mod 8 + 9) * 2 ^ nat (xmaxc div 8 + 4)"
proof -
  from assms(1,2) have t: "0 \<le> sasr xmax 9" "sasr xmax 9 < 64" by (auto simp: sasr_div)
  obtain e' where "exp_loop (sasr xmax 9) = Some e'" "0 \<le> e'" "e' \<le> 6" "sasr xmax 9 < 2 ^ nat e'"
    "e' > 0 \<Longrightarrow> 2 ^ nat (e' - 1) \<le> sasr xmax 9"
    using exp_loop_spec [OF t] by blast
  with assms(3) have e: "0 \<le> e" "e \<le> 6" and lt: "sasr xmax 9 < 2 ^ nat e"
    and ge: "e > 0 \<Longrightarrow> 2 ^ nat (e - 1) \<le> sasr xmax 9" by auto
  define m where "m = sasr xmax (nat (e + 5))"
  have m: "0 \<le> m" "m < 16" "e > 0 \<Longrightarrow> 8 \<le> m" "xmax < (m + 1) * 2 ^ nat (e + 5)"
    using int_upto_6 [OF e] lt ge assms(1) unfolding m_def sasr_div by auto
  have x: "xmaxc = m + 8 * e"
    using m e unfolding xmaxc_def gsm_add_def m_def [symmetric] by (simp add: shl_mult saturate_def)
  show "0 \<le> e" "e \<le> 6" "0 \<le> xmaxc" "xmaxc < 64" using e m x by auto
  show "xmax < (xmaxc + 1) * 32" if "xmaxc < 16"
  proof -
    have "\<not> e > 0" using that m(3) x by auto
    with e have "e = 0" by simp
    then show ?thesis using m(4) x by simp
  qed
  show "xmax < (xmaxc mod 8 + 9) * 2 ^ nat (xmaxc div 8 + 4)" if "16 \<le> xmaxc"
  proof -
    have "e > 0" using that m(2) x e by auto
    with m(3) have "8 \<le> m" by simp
    then have "xmaxc div 8 + 4 = e + 5" "xmaxc mod 8 + 9 = m + 1" using m(2) unfolding x by presburger+
    then show ?thesis using m(4) by (simp only:)
  qed
qed

lemma block_scale:
  assumes "0 \<le> xmax" "xmax \<le> MAX_WORD" "exp_loop (sasr xmax 9) = Some e"
  obtains exp mant where
    "APCM_quantization_xmaxc_to_exp_mant (gsm_add (sasr xmax (nat (e + 5))) (shl e 3)) = Some (exp, mant)"
    "- 4 \<le> exp" "exp \<le> 6" "0 \<le> mant" "mant \<le> 7" "xmax < (mant + 9) * 2 ^ nat (exp + 5)"
proof -
  note b = xmaxc_bounds [OF assms]
  define xmaxc where "xmaxc = gsm_add (sasr xmax (nat (e + 5))) (shl e 3)"
  obtain exp mant where r: "APCM_quantization_xmaxc_to_exp_mant xmaxc = Some (exp, mant)"
    "- 4 \<le> exp" "exp \<le> 6" "0 \<le> mant" "mant \<le> 7"
    and lo: "xmaxc < 16 \<Longrightarrow> (xmaxc + 1) * 32 = (mant + 9) * 2 ^ nat (exp + 5)"
    and hi: "16 \<le> xmaxc \<Longrightarrow> exp = xmaxc div 8 - 1 \<and> mant = xmaxc mod 8"
    using xmaxc_spec [OF b(3,4)] unfolding xmaxc_def by blast
  have "xmax < (mant + 9) * 2 ^ nat (exp + 5)"
  proof (cases "xmaxc < 16")
    case True
    then show ?thesis using b(5) lo unfolding xmaxc_def by simp
  next
    case False
    then have "exp + 5 = xmaxc div 8 + 4" "mant = xmaxc mod 8" using hi by auto
    moreover from False have "xmax < (xmaxc mod 8 + 9) * 2 ^ nat (xmaxc div 8 + 4)"
      using b(6) unfolding xmaxc_def by simp
    ultimately show ?thesis by (simp only:)
  qed
  with r show ?thesis unfolding xmaxc_def by (rule that)
qed

text \<open>
  The scaled sample lies strictly inside the range that the inverse mantissa maps to three bits.
\<close>

lemma quant_range:
  assumes "0 \<le> mant" "mant \<le> 7"
    and "- ((mant + 9) * 2048) < T \<or> (T = MIN_WORD \<and> mant = 7)" "T < (mant + 9) * 2048"
  shows "is_word T" "is_word (GSM_MULT T (gsm_NRFAC ! nat mant))"
    "- 4 \<le> sasr (GSM_MULT T (gsm_NRFAC ! nat mant)) 12" "sasr (GSM_MULT T (gsm_NRFAC ! nat mant)) 12 \<le> 3"
proof -
  have "mant = 0 \<or> mant = 1 \<or> mant = 2 \<or> mant = 3 \<or> mant = 4 \<or> mant = 5 \<or> mant = 6 \<or> mant = 7"
    using assms(1,2) by presburger
  then have "is_word T \<and> - 16384 \<le> GSM_MULT T (gsm_NRFAC ! nat mant)
      \<and> GSM_MULT T (gsm_NRFAC ! nat mant) < 16384"
    using assms(3,4) by (auto simp: GSM_MULT_def sasr_div gsm_NRFAC_def is_word_def)
  then show "is_word T" "is_word (GSM_MULT T (gsm_NRFAC ! nat mant))"
    "- 4 \<le> sasr (GSM_MULT T (gsm_NRFAC ! nat mant)) 12" "sasr (GSM_MULT T (gsm_NRFAC ! nat mant)) 12 \<le> 3"
    by (auto simp: is_word_def sasr_div)
qed

lemma scaled_sample:
  assumes "is_word x" "GSM_ABS x \<le> xmax" "xmax < (mant + 9) * 2 ^ nat (exp + 5)"
    and "- 4 \<le> exp" "exp \<le> 6" "0 \<le> mant" "mant \<le> 7"
  defines "T \<equiv> shl x (nat (6 - exp))"
  shows "- ((mant + 9) * 2048) < T \<or> (T = MIN_WORD \<and> mant = 7)" "T < (mant + 9) * 2048"
proof -
  define p :: int where "p = 2 ^ nat (6 - exp)"
  have p: "p > 0" "2 ^ nat (exp + 5) * p = 2048"
    using assms(4,5) by (simp_all add: p_def flip: power_add) (simp add: nat_add_distrib [symmetric])
  have T: "T = x * p" by (simp add: T_def shl_mult p_def)
  have scale: "(mant + 9) * 2 ^ nat (exp + 5) * p = (mant + 9) * 2048"
    using p(2) by (metis mult.assoc)
  have "x \<le> xmax" using GSM_ABS_bound assms(1,2) by blast
  with assms(3) have "x < (mant + 9) * 2 ^ nat (exp + 5)" by simp
  then show "T < (mant + 9) * 2048" unfolding T using p(1) scale by (metis mult_less_cancel_right_pos)
  show "- ((mant + 9) * 2048) < T \<or> (T = MIN_WORD \<and> mant = 7)"
  proof (cases "x = MIN_WORD")
    case False
    then have "- x \<le> xmax" using assms(1,2) by (auto simp: GSM_ABS_def split: if_splits)
    with assms(3) have "- x < (mant + 9) * 2 ^ nat (exp + 5)" by simp
    then have "- x * p < (mant + 9) * 2048" using p(1) scale by (metis mult_less_cancel_right_pos)
    then show ?thesis unfolding T by simp
  next
    case True
    then have "32767 < (mant + 9) * 2 ^ nat (exp + 5)"
      using assms(2,3) by (simp add: GSM_ABS_def)
    moreover have "exp = 6"
    proof (rule ccontr)
      assume "exp \<noteq> 6"
      then have "(2::int) ^ nat (exp + 5) \<le> 2 ^ 10" using assms(4,5) by (intro power_increasing) auto
      moreover from this have "(mant + 9) * 2 ^ nat (exp + 5) \<le> 16 * 2 ^ 10"
        using assms(6,7) by (intro mult_mono) auto
      ultimately show False using \<open>32767 < (mant + 9) * 2 ^ nat (exp + 5)\<close> by simp
    qed
    ultimately show ?thesis using True assms(7) by (simp add: T p_def)
  qed
qed

lemma quant_sample_Some:
  assumes "is_word x" "GSM_ABS x \<le> xmax" "xmax < (mant + 9) * 2 ^ nat (exp + 5)"
    and "- 4 \<le> exp" "exp \<le> 6" "0 \<le> mant" "mant \<le> 7"
  shows "\<exists>c. quant_sample (6 - exp) (gsm_NRFAC ! nat mant) x = Some c \<and> 0 \<le> c \<and> c \<le> 7
    \<and> c = sasr (GSM_MULT (shl x (nat (6 - exp))) (gsm_NRFAC ! nat mant)) 12 + 4"
  using quant_range [OF assms(6,7) scaled_sample [OF assms]] assms(4,5)
  by (auto simp: quant_sample_def Let_def w16_eq)

section \<open>Quantisation and its inverse never abort\<close>

definition is_code3 :: "int \<Rightarrow> bool" where
  "is_code3 c \<longleftrightarrow> 0 \<le> c \<and> c \<le> 7"

lemma APCM_quantization_Some:
  assumes "list_all is_word xM"
  obtains xMc mant exp xmaxc where "APCM_quantization xM = Some (xMc, mant, exp, xmaxc)"
    "APCM_quantization_xmaxc_to_exp_mant xmaxc = Some (exp, mant)"
    "0 \<le> xmaxc" "xmaxc < 64" "- 4 \<le> exp" "exp \<le> 6" "0 \<le> mant" "mant \<le> 7"
    "max_abs xM < (mant + 9) * 2 ^ nat (exp + 5)"
    "xMc = map (\<lambda>x. sasr (GSM_MULT (shl x (nat (6 - exp))) (gsm_NRFAC ! nat mant)) 12 + 4) xM"
    "list_all is_code3 xMc"
proof -
  note mx = max_abs_bounds [OF assms]
  from mx(1,2) have t: "0 \<le> sasr (max_abs xM) 9" "sasr (max_abs xM) 9 < 64" by (auto simp: sasr_div)
  obtain e where e: "exp_loop (sasr (max_abs xM) 9) = Some e" using exp_loop_spec [OF t] by blast
  note b = xmaxc_bounds [OF mx(1,2) e]
  obtain exp mant where sc:
    "APCM_quantization_xmaxc_to_exp_mant (gsm_add (sasr (max_abs xM) (nat (e + 5))) (shl e 3)) = Some (exp, mant)"
    "- 4 \<le> exp" "exp \<le> 6" "0 \<le> mant" "mant \<le> 7" "max_abs xM < (mant + 9) * 2 ^ nat (exp + 5)"
    using block_scale [OF mx(1,2) e] by blast
  let ?q = "\<lambda>x. sasr (GSM_MULT (shl x (nat (6 - exp))) (gsm_NRFAC ! nat mant)) 12 + 4"
  have q: "quant_sample (6 - exp) (gsm_NRFAC ! nat mant) x = Some (?q x) \<and> is_code3 (?q x)"
    if "x \<in> set xM" for x
    using quant_sample_Some [OF _ mx(3) [OF that] sc(6,2-5)] assms that
    by (auto simp: list_all_iff is_code3_def)
  then have "map_opt (quant_sample (6 - exp) (gsm_NRFAC ! nat mant)) xM = Some (map ?q xM)"
    by (intro map_opt_eq_map) blast
  with e b sc have "APCM_quantization xM
      = Some (map ?q xM, mant, exp, gsm_add (sasr (max_abs xM) (nat (e + 5))) (shl e 3))"
    by (simp add: APCM_quantization_def Let_def)
  moreover have "list_all is_code3 (map ?q xM)" using q by (auto simp: list_all_iff)
  ultimately show ?thesis using that sc b(3,4) by blast
qed

lemma gsm_FAC_word: "0 \<le> m \<Longrightarrow> m \<le> 7 \<Longrightarrow> is_word (gsm_FAC ! nat m) \<and> 0 < gsm_FAC ! nat m"
  by (simp add: gsm_FAC_eq is_word_def nat_less_iff)

lemma dequant_sample_Some:
  assumes "is_code3 c" "is_word f" "is_word r"
  shows "dequant_sample f s r c = Some (gsm_asr (GSM_ADD (GSM_MULT_R f ((2 * c - 7) * 4096)) r) s)"
    "is_word (GSM_MULT_R f ((2 * c - 7) * 4096))"
proof -
  have w: "is_word (2 * c - 7)" "is_word ((2 * c - 7) * 4096)" "(2 * c - 7) * 4096 \<noteq> MIN_WORD"
    using assms(1) by (auto simp: is_word_def is_code3_def)
  then show "is_word (GSM_MULT_R f ((2 * c - 7) * 4096))" using assms(2) by blast
  with w show "dequant_sample f s r c = Some (gsm_asr (GSM_ADD (GSM_MULT_R f ((2 * c - 7) * 4096)) r) s)"
    using assms(1) unfolding dequant_sample_def is_code3_def by (simp add: shl_mult Let_def algebra_simps)
qed

lemma APCM_inverse_quantization_Some:
  assumes "list_all is_code3 xMc" "0 \<le> mant" "mant \<le> 7"
  shows "APCM_inverse_quantization xMc mant exp =
    Some (map (\<lambda>c. gsm_asr (GSM_ADD (GSM_MULT_R (gsm_FAC ! nat mant) ((2 * c - 7) * 4096))
      (gsm_asl 1 (gsm_sub (gsm_sub 6 exp) 1))) (gsm_sub 6 exp)) xMc)"
proof -
  have "map_opt (dequant_sample (gsm_FAC ! nat mant) (gsm_sub 6 exp)
      (gsm_asl 1 (gsm_sub (gsm_sub 6 exp) 1))) xMc =
    Some (map (\<lambda>c. gsm_asr (GSM_ADD (GSM_MULT_R (gsm_FAC ! nat mant) ((2 * c - 7) * 4096))
      (gsm_asl 1 (gsm_sub (gsm_sub 6 exp) 1))) (gsm_sub 6 exp)) xMc)"
    by (intro map_opt_eq_map dequant_sample_Some(1))
      (use assms gsm_FAC_word [OF assms(2,3)] in \<open>auto simp: list_all_iff\<close>)
  then show ?thesis using assms(2,3) by (simp add: APCM_inverse_quantization_def Let_def)
qed

section \<open>Positioning writes the pulses on the selected grid\<close>

definition grid_reference :: "nat \<Rightarrow> int list \<Rightarrow> nat \<Rightarrow> int" where
  "grid_reference m xMp k = (if m \<le> k \<and> (k - m) mod 3 = 0 \<and> (k - m) div 3 < length xMp
     then xMp ! ((k - m) div 3) else 0)"

lemma grid_positioning_each:
  "RPE_grid_positioning 0 [a, b, c, d, e, f, g, h, i, j, k, l, m] =
     Some (map (grid_reference 0 [a, b, c, d, e, f, g, h, i, j, k, l, m]) [0..<40])"
  "RPE_grid_positioning 1 [a, b, c, d, e, f, g, h, i, j, k, l, m] =
     Some (map (grid_reference 1 [a, b, c, d, e, f, g, h, i, j, k, l, m]) [0..<40])"
  "RPE_grid_positioning 2 [a, b, c, d, e, f, g, h, i, j, k, l, m] =
     Some (map (grid_reference 2 [a, b, c, d, e, f, g, h, i, j, k, l, m]) [0..<40])"
  "RPE_grid_positioning 3 [a, b, c, d, e, f, g, h, i, j, k, l, m] =
     Some (map (grid_reference 3 [a, b, c, d, e, f, g, h, i, j, k, l, m]) [0..<40])"
  by code_simp+

lemma RPE_grid_positioning_Some:
  assumes "0 \<le> Mc" "Mc \<le> 3" "length xMp = 13"
  shows "RPE_grid_positioning Mc xMp = Some (map (grid_reference (nat Mc) xMp) [0..<40])"
proof -
  obtain a b c d e f g h i j k l m where "xMp = [a, b, c, d, e, f, g, h, i, j, k, l, m]"
    using assms(3) by (auto simp: numeral_eq_Suc length_Suc_conv)
  moreover have "Mc = 0 \<or> Mc = 1 \<or> Mc = 2 \<or> Mc = 3" using assms by presburger
  ultimately show ?thesis
    using grid_positioning_each [of a b c d e f g h i j k l m]
    by (elim disjE) (simp_all only: nat_numeral nat_0 nat_1 One_nat_def)
qed

lemma grid_reference_word: "list_all is_word xMp \<Longrightarrow> is_word (grid_reference m xMp k)"
  by (auto simp: grid_reference_def list_all_length is_word_def)

section \<open>The entry points never abort and agree\<close>

lemma Gsm_RPE_Decoding_Some:
  assumes "0 \<le> xmaxcr" "xmaxcr < 64" "0 \<le> Mcr" "Mcr \<le> 3" "length xMcr = 13" "list_all is_code3 xMcr"
  obtains erp where "Gsm_RPE_Decoding xmaxcr Mcr xMcr = Some erp" "length erp = 40" "list_all is_word erp"
proof -
  obtain exp mant where em: "APCM_quantization_xmaxc_to_exp_mant xmaxcr = Some (exp, mant)"
    "0 \<le> mant" "mant \<le> 7" using xmaxc_spec [OF assms(1,2)] by blast
  obtain xMp where p: "APCM_inverse_quantization xMcr mant exp = Some xMp" "length xMp = 13"
    "list_all is_word xMp"
    using APCM_inverse_quantization_Some [OF assms(6) em(2,3)] assms(5) by (auto simp: list_all_iff)
  from em p have "Gsm_RPE_Decoding xmaxcr Mcr xMcr = Some (map (grid_reference (nat Mcr) xMp) [0..<40])"
    using assms(3,4) by (simp add: Gsm_RPE_Decoding_def RPE_grid_positioning_Some)
  then show ?thesis by (rule that) (use p(3) in \<open>auto simp: list_all_length grid_reference_word\<close>)
qed

lemma Gsm_RPE_Encoding_Some:
  assumes "length e = 50"
  obtains ep xmaxc Mc xMc where
    "Gsm_RPE_Encoding e = Some (take 5 e @ ep @ drop 45 e, xmaxc, Mc, xMc)"
    "Gsm_RPE_Decoding xmaxc Mc xMc = Some ep" "length ep = 40" "list_all is_word ep"
    "0 \<le> xmaxc" "xmaxc < 64" "0 \<le> Mc" "Mc \<le> 3" "length xMc = 13" "list_all is_code3 xMc"
proof -
  obtain xM Mc where g: "RPE_grid_selection (Weighting_filter e) = (xM, Mc)" by force
  note Mc = RPE_grid_selection_first_max(1,2) [OF g]
  have xM: "length xM = 13" "list_all is_word xM"
    using RPE_grid_selection_word [OF g] Weighting_filter_word by auto
  obtain xMc mant exp xmaxc where q: "APCM_quantization xM = Some (xMc, mant, exp, xmaxc)"
    "APCM_quantization_xmaxc_to_exp_mant xmaxc = Some (exp, mant)" "0 \<le> xmaxc" "xmaxc < 64"
    "length xMc = 13" "list_all is_code3 xMc"
    using APCM_quantization_Some [OF xM(2)] xM(1) by (metis length_map)
  obtain ep where d: "Gsm_RPE_Decoding xmaxc Mc xMc = Some ep" "length ep = 40" "list_all is_word ep"
    using Gsm_RPE_Decoding_Some [OF q(3,4) Mc q(5,6)] by blast
  then have "Gsm_RPE_Encoding e = Some (take 5 e @ ep @ drop 45 e, xmaxc, Mc, xMc)"
    using g q(1,2) by (auto simp: Gsm_RPE_Encoding_def Gsm_RPE_Decoding_def bind_eq_Some_conv)
  with d q(3-6) Mc show ?thesis by (intro that)
qed

section \<open>Quantisation error\<close>

lemma div_between: "0 < d \<Longrightarrow> x div d * d \<le> x \<and> x < x div d * d + d" for x d :: int
  using div_mult_mod_eq [of x d] pos_mod_sign [of d x] pos_mod_bound [of d x] by linarith

lemma dequantised_value:
  assumes "0 \<le> mant" "mant \<le> 7" "- 4 \<le> q" "q \<le> 3"
    and "q = sasr (GSM_MULT T (gsm_NRFAC ! nat mant)) 12"
  defines "D \<equiv> GSM_MULT_R (gsm_FAC ! nat mant) ((2 * q + 1) * 4096)"
  shows "\<bar>T - D\<bar> \<le> (mant + 9) * 256 + 3" "\<bar>D\<bar> \<le> 28672"
proof -
  define N F where "N = gsm_NRFAC ! nat mant" and "F = gsm_FAC ! nat mant"
  define P where "P = T * N div 32768"
  have P: "P * 32768 \<le> T * N" "T * N < P * 32768 + 32768"
    using div_between [of 32768 "T * N"] by (simp_all add: P_def)
  have q: "q * 4096 \<le> P" "P < q * 4096 + 4096"
    using div_between [of 4096 P] assms(5) by (simp_all add: P_def N_def GSM_MULT_def sasr_div)
  have D: "D * 32768 \<le> F * ((2 * q + 1) * 4096) + 16384" "F * ((2 * q + 1) * 4096) + 16384 < D * 32768 + 32768"
    using div_between [of 32768 "F * ((2 * q + 1) * 4096) + 16384"]
    by (simp_all add: D_def F_def GSM_MULT_R_def sasr_div)
  have "mant = 0 \<or> mant = 1 \<or> mant = 2 \<or> mant = 3 \<or> mant = 4 \<or> mant = 5 \<or> mant = 6 \<or> mant = 7"
    using assms(1,2) by presburger
  then have "(N = 29128 \<and> F = 18431 \<and> mant = 0) \<or> (N = 26215 \<and> F = 20479 \<and> mant = 1)
    \<or> (N = 23832 \<and> F = 22527 \<and> mant = 2) \<or> (N = 21846 \<and> F = 24575 \<and> mant = 3)
    \<or> (N = 20165 \<and> F = 26623 \<and> mant = 4) \<or> (N = 18725 \<and> F = 28671 \<and> mant = 5)
    \<or> (N = 17476 \<and> F = 30719 \<and> mant = 6) \<or> (N = 16384 \<and> F = 32767 \<and> mant = 7)"
    unfolding N_def F_def by (elim disjE) (simp_all add: gsm_NRFAC_def gsm_FAC_def)
  then have "T - D \<le> (mant + 9) * 256 + 3 \<and> D - T \<le> (mant + 9) * 256 + 3 \<and> D \<le> 28672 \<and> - 28672 \<le> D"
    using P q D assms(3,4) by (elim disjE conjE; hypsubst; intro conjI; simp add: algebra_simps; linarith)
  then show "\<bar>T - D\<bar> \<le> (mant + 9) * 256 + 3" "\<bar>D\<bar> \<le> 28672" by auto
qed

lemma rescaled_value:
  assumes "\<bar>D\<bar> \<le> 28672" "- 4 \<le> exp" "exp \<le> 6"
  defines "y \<equiv> gsm_asr (GSM_ADD D (gsm_asl 1 (gsm_sub (gsm_sub 6 exp) 1))) (gsm_sub 6 exp)"
  shows "\<bar>D - y * 2 ^ nat (6 - exp)\<bar> \<le> 2 ^ nat (6 - exp)"
proof -
  have "exp = - 4 \<or> exp = - 3 \<or> exp = - 2 \<or> exp = - 1 \<or> exp = 0 \<or> exp = 1 \<or> exp = 2 \<or> exp = 3
    \<or> exp = 4 \<or> exp = 5 \<or> exp = 6" using assms(2,3) by presburger
  moreover have "is_word D" using assms(1) by (auto simp: is_word_def)
  ultimately show ?thesis
    using assms(1) unfolding y_def
    by (elim disjE) (simp_all add: gsm_asr_def gsm_asl_def gsm_sub_def saturate_def GSM_ADD_saturate
        is_word_def sasr_div shl_mult w16_eq, linarith+)
qed

lemma APCM_error:
  assumes "list_all is_word xM" "APCM_quantization xM = Some (xMc, mant, exp, xmaxc)"
    and "APCM_inverse_quantization xMc mant exp = Some xMp" "i < length xM"
  shows "\<bar>xM ! i - xMp ! i\<bar> * 2 ^ nat (6 - exp) \<le> (mant + 9) * 256 + 2 ^ nat (6 - exp) + 3"
proof -
  have r: "- 4 \<le> exp" "exp \<le> 6" "0 \<le> mant" "mant \<le> 7" "list_all is_code3 xMc"
    "xMc = map (\<lambda>x. sasr (GSM_MULT (shl x (nat (6 - exp))) (gsm_NRFAC ! nat mant)) 12 + 4) xM"
    using APCM_quantization_Some [OF assms(1)] assms(2) by (metis option.inject prod.inject)+
  define q where "q = sasr (GSM_MULT (shl (xM ! i) (nat (6 - exp))) (gsm_NRFAC ! nat mant)) 12"
  define D where "D = GSM_MULT_R (gsm_FAC ! nat mant) ((2 * q + 1) * 4096)"
  have c: "xMc ! i = q + 4" using r(6) assms(4) by (simp add: q_def)
  have "i < length xMc" using r(6) assms(4) by simp
  with r(5) have "is_code3 (xMc ! i)" by (simp add: list_all_length)
  then have q: "- 4 \<le> q" "q \<le> 3" using c by (auto simp: is_code3_def)
  note d = dequantised_value [OF r(3,4) q q_def, folded D_def]
  have "xMp ! i = gsm_asr (GSM_ADD D (gsm_asl 1 (gsm_sub (gsm_sub 6 exp) 1))) (gsm_sub 6 exp)"
    using assms(3) \<open>i < length xMc\<close> c unfolding APCM_inverse_quantization_Some [OF r(5,3,4)]
    by (auto simp: D_def algebra_simps)
  with rescaled_value [OF d(2) r(1,2)]
  have "\<bar>D - xMp ! i * 2 ^ nat (6 - exp)\<bar> \<le> 2 ^ nat (6 - exp)" by simp
  with d(1) have "\<bar>xM ! i * 2 ^ nat (6 - exp) - xMp ! i * 2 ^ nat (6 - exp)\<bar>
      \<le> (mant + 9) * 256 + 2 ^ nat (6 - exp) + 3"
    unfolding shl_mult by linarith
  then show ?thesis by (simp add: abs_mult flip: left_diff_distrib)
qed

section \<open>Properties\<close>

text \<open>weighting filter: the unrolled filter of \<open>rpe.c\<close>, with its two skipped taps and its
  doubled ones, computes the block of the convolution with the impulse response \<open>gsm_H\<close>, rounded
  and clamped to a word.\<close>

lemma weighting_filter_is_convolution:
  assumes "length e = 50"
  shows "Weighting_filter e
    = map (\<lambda>k. saturate (sasr ((\<Sum>i<11. e ! (k + i) * gsm_H ! i) + 4096) 13)) [0..<40]"
  by (rule nth_equalityI)
    (simp_all add: Weighting_filter_convolution length_Weighting_filter)

text \<open>grid selection: the grid position chosen is the first one whose thirteen samples carry
  the most energy, and the samples returned are those of that grid.\<close>

lemma grid_selection_is_argmax:
  assumes "RPE_grid_selection x = (xM, Mc)"
  shows "Mc \<in> {0..3} \<and> xM = map (\<lambda>i. x ! (nat Mc + 3 * i)) [0..<13]
    \<and> (\<forall>m < 4. grid_energy x m \<le> grid_energy x (nat Mc))
    \<and> (\<forall>m < nat Mc. grid_energy x m < grid_energy x (nat Mc))"
  using RPE_grid_selection_first_max [OF assms] by simp

text \<open>C27 (quantisation never aborts and stays close): thirteen words are always quantised, without
  a failing assertion, to codes of three bits and a block maximum of six; the decoder's inverse
  quantisation of these codes succeeds too, and every sample it returns differs from the original
  by no more than half a step of the block's scale plus rounding.\<close>

theorem APCM_quantisation_error:
  assumes "list_all is_word xM" "length xM = 13"
  shows "\<exists>xMc mant exp xmaxc xMp. APCM_quantization xM = Some (xMc, mant, exp, xmaxc)
    \<and> APCM_quantization_xmaxc_to_exp_mant xmaxc = Some (exp, mant)
    \<and> APCM_inverse_quantization xMc mant exp = Some xMp
    \<and> 0 \<le> xmaxc \<and> xmaxc < 64 \<and> - 4 \<le> exp \<and> exp \<le> 6 \<and> 0 \<le> mant \<and> mant \<le> 7
    \<and> list_all is_code3 xMc \<and> max_abs xM < (mant + 9) * 2 ^ nat (exp + 5)
    \<and> (\<forall>i < 13. \<bar>xM ! i - xMp ! i\<bar> * 2 ^ nat (6 - exp) \<le> (mant + 9) * 256 + 2 ^ nat (6 - exp) + 3)"
proof -
  obtain xMc mant exp xmaxc where q: "APCM_quantization xM = Some (xMc, mant, exp, xmaxc)"
    "APCM_quantization_xmaxc_to_exp_mant xmaxc = Some (exp, mant)"
    "0 \<le> xmaxc" "xmaxc < 64" "- 4 \<le> exp" "exp \<le> 6" "0 \<le> mant" "mant \<le> 7"
    "max_abs xM < (mant + 9) * 2 ^ nat (exp + 5)"
    "xMc = map (\<lambda>x. sasr (GSM_MULT (shl x (nat (6 - exp))) (gsm_NRFAC ! nat mant)) 12 + 4) xM"
    "list_all is_code3 xMc"
    using APCM_quantization_Some [OF assms(1)] .
  obtain xMp where d: "APCM_inverse_quantization xMc mant exp = Some xMp"
    using APCM_inverse_quantization_Some [OF q(11,7,8)] by blast
  show ?thesis
    using q d APCM_error [OF assms(1) q(1) d] assms(2) by auto
qed

theorem APCM_quantisation_error_witness:
  "\<exists>xMc mant exp xmaxc. APCM_quantization (replicate 13 (- 32768)) = Some (xMc, mant, exp, xmaxc) \<and> xmaxc < 64"
  using APCM_quantisation_error [of "replicate 13 (- 32768)"] by (auto simp: is_word_def list_all_replicate)

text \<open>C26 (the coder decodes what it sends): RPE encoding succeeds on every 50 samples, replaces the
  40 samples of the block by exactly what \<open>Gsm_RPE_Decoding\<close> makes of the transmitted codes, and
  leaves the ten samples around them alone; the codes fit their fields.\<close>

theorem RPE_encoder_tracks_decoder:
  assumes "length e = 50"
  shows "\<exists>ep xmaxc Mc xMc. Gsm_RPE_Encoding e = Some (take 5 e @ ep @ drop 45 e, xmaxc, Mc, xMc)
    \<and> Gsm_RPE_Decoding xmaxc Mc xMc = Some ep \<and> length ep = 40 \<and> list_all is_word ep
    \<and> 0 \<le> xmaxc \<and> xmaxc < 64 \<and> 0 \<le> Mc \<and> Mc \<le> 3 \<and> length xMc = 13 \<and> list_all is_code3 xMc"
  using Gsm_RPE_Encoding_Some [OF assms] by metis

theorem RPE_encoder_tracks_decoder_witness:
  "\<exists>ep xmaxc Mc xMc. Gsm_RPE_Encoding (replicate 50 7) = Some (replicate 5 7 @ ep @ replicate 5 7, xmaxc, Mc, xMc)
    \<and> Gsm_RPE_Decoding xmaxc Mc xMc = Some ep"
  using RPE_encoder_tracks_decoder [of "replicate 50 7"] by auto

end
