(* ===== verification/Gsm_Frame.thy ===== *)
theory Gsm_Frame
  imports Prelude
begin

text \<open>
  The 33-byte frame format of the GSM codec: \<open>gsm_implode\<close> (\<open>telecomm/gsm/src/gsm_implode.c\<close>)
  packs the 76 coded parameters of a frame, \<open>gsm_explode\<close> (\<open>gsm_explode.c\<close>) unpacks them, and
  \<open>gsm_encode.c\<close> and \<open>gsm_decode.c\<close> contain the same packing for parameters held in separate
  arrays. A \<open>gsm_byte\<close> is an integer in 0..255; storing into one truncates (\<open>u8\<close>).

  The source writes the packing of the four sub-segments out four times with the macros
  \<open>Nc\<close>, \<open>bc\<close>, \<open>Mc\<close>, \<open>xmaxc\<close> and \<open>xmc\<close> rebound between them; \<open>seg_bytes\<close> and \<open>seg_fields\<close> are
  that repeated text, and one definition per sub-segment supplies the indices.

  The lemmas show that unpacking a packed parameter vector returns every parameter reduced
  to its field width, and that packing an unpacked frame returns the frame.
\<close>

section \<open>Bytes\<close>

definition u8 :: "int \<Rightarrow> int" where
  "u8 x = take_bit 8 x"

definition is_byte :: "int \<Rightarrow> bool" where
  "is_byte x \<longleftrightarrow> 0 \<le> x \<and> x \<le> 255"

abbreviation GSM_MAGIC :: int where "GSM_MAGIC \<equiv> 0xD"

section \<open>Packing\<close>

definition lar_bytes :: "int list \<Rightarrow> int list" where
  "lar_bytes LARc =
    [u8 (shl (GSM_MAGIC AND 0xF) 4 OR (sasr (LARc ! 0) 2 AND 0xF)),
     u8 (shl (LARc ! 0 AND 0x3) 6 OR (LARc ! 1 AND 0x3F)),
     u8 (shl (LARc ! 2 AND 0x1F) 3 OR (sasr (LARc ! 3) 2 AND 0x7)),
     u8 (shl (LARc ! 3 AND 0x3) 6 OR shl (LARc ! 4 AND 0xF) 2 OR (sasr (LARc ! 5) 2 AND 0x3)),
     u8 (shl (LARc ! 5 AND 0x3) 6 OR shl (LARc ! 6 AND 0x7) 3 OR (LARc ! 7 AND 0x7))]"

definition seg_bytes :: "int \<Rightarrow> int \<Rightarrow> int \<Rightarrow> int \<Rightarrow> int list \<Rightarrow> int list" where
  "seg_bytes Nc bc Mc xmaxc xmc =
    [u8 (shl (Nc AND 0x7F) 1 OR (sasr bc 1 AND 0x1)),
     u8 (shl (bc AND 0x1) 7 OR shl (Mc AND 0x3) 5 OR (sasr xmaxc 1 AND 0x1F)),
     u8 (shl (xmaxc AND 0x1) 7 OR shl (xmc ! 0 AND 0x7) 4 OR shl (xmc ! 1 AND 0x7) 1
         OR (sasr (xmc ! 2) 2 AND 0x1)),
     u8 (shl (xmc ! 2 AND 0x3) 6 OR shl (xmc ! 3 AND 0x7) 3 OR (xmc ! 4 AND 0x7)),
     u8 (shl (xmc ! 5 AND 0x7) 5 OR shl (xmc ! 6 AND 0x7) 2 OR (sasr (xmc ! 7) 1 AND 0x3)),
     u8 (shl (xmc ! 7 AND 0x1) 7 OR shl (xmc ! 8 AND 0x7) 4 OR shl (xmc ! 9 AND 0x7) 1
         OR (sasr (xmc ! 10) 2 AND 0x1)),
     u8 (shl (xmc ! 10 AND 0x3) 6 OR shl (xmc ! 11 AND 0x7) 3 OR (xmc ! 12 AND 0x7))]"

definition implode_LARc :: "int list \<Rightarrow> int list" where
  "implode_LARc source = lar_bytes (take 8 source)"

definition implode_seg0 :: "int list \<Rightarrow> int list" where
  "implode_seg0 source =
     seg_bytes (source ! 8) (source ! 9) (source ! 10) (source ! 11) (take 13 (drop 12 source))"

definition implode_seg1 :: "int list \<Rightarrow> int list" where
  "implode_seg1 source =
     seg_bytes (source ! 25) (source ! 26) (source ! 27) (source ! 28) (take 13 (drop 29 source))"

definition implode_seg2 :: "int list \<Rightarrow> int list" where
  "implode_seg2 source =
     seg_bytes (source ! 42) (source ! 43) (source ! 44) (source ! 45) (take 13 (drop 46 source))"

definition implode_seg3 :: "int list \<Rightarrow> int list" where
  "implode_seg3 source =
     seg_bytes (source ! 59) (source ! 60) (source ! 61) (source ! 62) (take 13 (drop 63 source))"

definition gsm_implode :: "int list \<Rightarrow> int list" where
  "gsm_implode source =
     implode_LARc source @ implode_seg0 source @ implode_seg1 source @ implode_seg2 source
     @ implode_seg3 source"

section \<open>Unpacking\<close>

definition lar_fields :: "int list \<Rightarrow> int list" where
  "lar_fields c =
    [shl (c ! 0 AND 0xF) 2 OR (sasr (c ! 1) 6 AND 0x3),
     c ! 1 AND 0x3F,
     sasr (c ! 2) 3 AND 0x1F,
     shl (c ! 2 AND 0x7) 2 OR (sasr (c ! 3) 6 AND 0x3),
     sasr (c ! 3) 2 AND 0xF,
     shl (c ! 3 AND 0x3) 2 OR (sasr (c ! 4) 6 AND 0x3),
     sasr (c ! 4) 3 AND 0x7,
     c ! 4 AND 0x7]"

definition seg_fields :: "int list \<Rightarrow> int list" where
  "seg_fields c =
    [sasr (c ! 0) 1 AND 0x7F,
     shl (c ! 0 AND 0x1) 1 OR (sasr (c ! 1) 7 AND 0x1),
     sasr (c ! 1) 5 AND 0x3,
     shl (c ! 1 AND 0x1F) 1 OR (sasr (c ! 2) 7 AND 0x1),
     sasr (c ! 2) 4 AND 0x7,
     sasr (c ! 2) 1 AND 0x7,
     shl (c ! 2 AND 0x1) 2 OR (sasr (c ! 3) 6 AND 0x3),
     sasr (c ! 3) 3 AND 0x7,
     c ! 3 AND 0x7,
     sasr (c ! 4) 5 AND 0x7,
     sasr (c ! 4) 2 AND 0x7,
     shl (c ! 4 AND 0x3) 1 OR (sasr (c ! 5) 7 AND 0x1),
     sasr (c ! 5) 4 AND 0x7,
     sasr (c ! 5) 1 AND 0x7,
     shl (c ! 5 AND 0x1) 2 OR (sasr (c ! 6) 6 AND 0x3),
     sasr (c ! 6) 3 AND 0x7,
     c ! 6 AND 0x7]"

definition explode_LARc :: "int list \<Rightarrow> int list" where
  "explode_LARc c = lar_fields (take 5 c)"

definition explode_seg0 :: "int list \<Rightarrow> int list" where
  "explode_seg0 c = seg_fields (take 7 (drop 5 c))"

definition explode_seg1 :: "int list \<Rightarrow> int list" where
  "explode_seg1 c = seg_fields (take 7 (drop 12 c))"

definition explode_seg2 :: "int list \<Rightarrow> int list" where
  "explode_seg2 c = seg_fields (take 7 (drop 19 c))"

definition explode_seg3 :: "int list \<Rightarrow> int list" where
  "explode_seg3 c = seg_fields (take 7 (drop 26 c))"

definition gsm_explode :: "int list \<Rightarrow> int list \<Rightarrow> int \<times> int list" where
  "gsm_explode c target =
     (if (sasr (c ! 0) 4 AND 0x0F) \<noteq> GSM_MAGIC then (- 1, target)
      else (0, explode_LARc c @ explode_seg0 c @ explode_seg1 c @ explode_seg2 c @ explode_seg3 c))"

section \<open>The same packing for parameters in separate arrays\<close>

text \<open>The parameters of a frame as \<open>gsm_encode\<close> and \<open>gsm_decode\<close> hold them.\<close>

record params =
  LARc :: "int list"
  Nc :: "int list"
  bc :: "int list"
  Mc :: "int list"
  xmaxc :: "int list"
  xmc :: "int list"

definition encode_LARc :: "params \<Rightarrow> int list" where
  "encode_LARc P = lar_bytes (LARc P)"

definition encode_seg0 :: "params \<Rightarrow> int list" where
  "encode_seg0 P = seg_bytes (Nc P ! 0) (bc P ! 0) (Mc P ! 0) (xmaxc P ! 0) (take 13 (xmc P))"

definition encode_seg1 :: "params \<Rightarrow> int list" where
  "encode_seg1 P = seg_bytes (Nc P ! 1) (bc P ! 1) (Mc P ! 1) (xmaxc P ! 1) (take 13 (drop 13 (xmc P)))"

definition encode_seg2 :: "params \<Rightarrow> int list" where
  "encode_seg2 P = seg_bytes (Nc P ! 2) (bc P ! 2) (Mc P ! 2) (xmaxc P ! 2) (take 13 (drop 26 (xmc P)))"

definition encode_seg3 :: "params \<Rightarrow> int list" where
  "encode_seg3 P = seg_bytes (Nc P ! 3) (bc P ! 3) (Mc P ! 3) (xmaxc P ! 3) (take 13 (drop 39 (xmc P)))"

definition encode_frame :: "params \<Rightarrow> int list" where
  "encode_frame P =
     encode_LARc P @ encode_seg0 P @ encode_seg1 P @ encode_seg2 P @ encode_seg3 P"

definition decode_LARc :: "int list \<Rightarrow> int list" where
  "decode_LARc c = lar_fields (take 5 c)"

definition decode_seg0 :: "int list \<Rightarrow> int list" where
  "decode_seg0 c = seg_fields (take 7 (drop 5 c))"

definition decode_seg1 :: "int list \<Rightarrow> int list" where
  "decode_seg1 c = seg_fields (take 7 (drop 12 c))"

definition decode_seg2 :: "int list \<Rightarrow> int list" where
  "decode_seg2 c = seg_fields (take 7 (drop 19 c))"

definition decode_seg3 :: "int list \<Rightarrow> int list" where
  "decode_seg3 c = seg_fields (take 7 (drop 26 c))"

definition decode_frame :: "int list \<Rightarrow> params option" where
  "decode_frame c =
     (if (sasr (c ! 0) 4 AND 0x0F) \<noteq> GSM_MAGIC then None
      else let segs = [decode_seg0 c, decode_seg1 c, decode_seg2 c, decode_seg3 c] in
        Some \<lparr>LARc = decode_LARc c, Nc = map (\<lambda>g. g ! 0) segs, bc = map (\<lambda>g. g ! 1) segs,
          Mc = map (\<lambda>g. g ! 2) segs, xmaxc = map (\<lambda>g. g ! 3) segs,
          xmc = concat (map (drop 4) segs)\<rparr>)"

section \<open>Field widths\<close>

definition lar_widths :: "nat list" where
  "lar_widths = [6, 6, 5, 5, 4, 4, 3, 3]"

definition seg_widths :: "nat list" where
  "seg_widths = [7, 2, 2, 6] @ replicate 13 3"

definition frame_widths :: "nat list" where
  "frame_widths = lar_widths @ seg_widths @ seg_widths @ seg_widths @ seg_widths"

section \<open>Bits of the masks\<close>

lemma bit_masks [simp]:
  "bit (0x3 :: int) n \<longleftrightarrow> n < 2" "bit (0x7 :: int) n \<longleftrightarrow> n < 3"
  "bit (0xF :: int) n \<longleftrightarrow> n < 4" "bit (0x1F :: int) n \<longleftrightarrow> n < 5" "bit (0x3F :: int) n \<longleftrightarrow> n < 6"
  "bit (0x7F :: int) n \<longleftrightarrow> n < 7"
proof -
  have "(0x3 :: int) = mask 2" "(0x7 :: int) = mask 3" "(0xF :: int) = mask 4"
    "(0x1F :: int) = mask 5" "(0x3F :: int) = mask 6" "(0x7F :: int) = mask 7"
    by (simp_all add: mask_eq_exp_minus_1)
  then show "bit (0x3 :: int) n \<longleftrightarrow> n < 2" "bit (0x7 :: int) n \<longleftrightarrow> n < 3"
  "bit (0xF :: int) n \<longleftrightarrow> n < 4" "bit (0x1F :: int) n \<longleftrightarrow> n < 5" "bit (0x3F :: int) n \<longleftrightarrow> n < 6"
  "bit (0x7F :: int) n \<longleftrightarrow> n < 7"
    by (simp_all only: bit_mask_iff) simp_all
qed

lemma bit_shl: "bit (shl x k) n \<longleftrightarrow> k \<le> n \<and> bit x (n - k)"
  by (simp add: shl_def bit_push_bit_iff)

lemma bit_sasr: "bit (sasr x k) n \<longleftrightarrow> bit x (k + n)"
  by (simp add: sasr_def bit_drop_bit_eq)

lemma bit_u8: "bit (u8 x) n \<longleftrightarrow> n < 8 \<and> bit x n"
  by (simp add: u8_def bit_take_bit_iff)

lemma bit_index: "bit x (Suc (Suc 0)) = bit x 2" "bit x (Suc (Suc (Suc 0))) = bit x 3" for x :: int
  by (simp_all add: numeral_eq_Suc)

lemmas field_bits = bit_index bit_shl bit_sasr bit_u8 bit_and_iff bit_or_iff bit_take_bit_iff

lemma low_bits_eqI:
  fixes x y :: int
  assumes "0 \<le> x" "x < 256" "0 \<le> y" "y < 256"
    and b: "bit x 0 = bit y 0" "bit x 1 = bit y 1" "bit x 2 = bit y 2" "bit x 3 = bit y 3"
      "bit x 4 = bit y 4" "bit x 5 = bit y 5" "bit x 6 = bit y 6" "bit x 7 = bit y 7"
  shows "x = y"
proof -
  have "bit x n = bit y n" if "n < 8" for n
  proof -
    from that consider "n = 0" | "n = 1" | "n = 2" | "n = 3" | "n = 4" | "n = 5" | "n = 6" | "n = 7"
      by linarith
    then show ?thesis using b by cases simp_all
  qed
  then have "take_bit 8 x = take_bit 8 y"
    by (intro bit_eqI) (auto simp: bit_take_bit_iff)
  with assms(1-4) show ?thesis by (simp add: take_bit_int_eq_self)
qed

lemma field_bounds:
  "0 \<le> m \<Longrightarrow> 0 \<le> x AND m" "0 \<le> m \<Longrightarrow> m < 256 \<Longrightarrow> x AND m < 256" for x m :: int
  by (simp, metis AND_upper2 le_less_trans)

lemma or_bounds: "0 \<le> x \<Longrightarrow> 0 \<le> y \<Longrightarrow> x < 256 \<Longrightarrow> y < 256 \<Longrightarrow> x OR y < 256" for x y :: int
  using OR_upper [of x 8 y] by simp

lemma u8_bounds: "0 \<le> u8 x" "u8 x < 256"
  using take_bit_int_less_exp [of 8 x] by (simp_all add: u8_def)


lemma shl_and_bounds:
  "0 \<le> shl (x AND m) k" if "0 \<le> m" for x m :: int
  using that by (simp add: shl_mult)

lemma shl_field_less: "0 \<le> m \<Longrightarrow> m * 2 ^ k < 256 \<Longrightarrow> shl (x AND m) k < 256" for x m :: int
proof -
  assume "0 \<le> m" "m * 2 ^ k < 256"
  moreover from this have "(x AND m) * 2 ^ k \<le> m * 2 ^ k" by (intro mult_right_mono AND_upper2) auto
  ultimately show ?thesis unfolding shl_mult by linarith
qed

lemma take_bit_less_256: "w \<le> 8 \<Longrightarrow> take_bit w x < 256" for x :: int
proof -
  assume "w \<le> 8"
  have "take_bit w x < 2 ^ w" by (rule take_bit_int_less_exp)
  also have "\<dots> \<le> 2 ^ 8" using \<open>w \<le> 8\<close> by (intro power_increasing) auto
  finally show ?thesis by simp
qed

lemmas field_range = field_bounds or_bounds u8_bounds shl_and_bounds shl_field_less take_bit_less_256

section \<open>Round trips of the two kinds of group\<close>

lemma lar_fields_lar_bytes:
  assumes "length la = 8"
  shows "lar_fields (lar_bytes la) = map2 take_bit lar_widths la"
proof -
  obtain a b c d e f g h where "la = [a, b, c, d, e, f, g, h]"
    using assms by (auto simp: numeral_eq_Suc length_Suc_conv)
  then show ?thesis
    unfolding lar_fields_def lar_bytes_def lar_widths_def
    by (simp, intro conjI low_bits_eqI) (simp_all add: field_bits field_range)
qed

lemma length_13_cases:
  assumes "length xs = 13"
  obtains a b c d e f g h i j k l m where "xs = [a, b, c, d, e, f, g, h, i, j, k, l, m]"
  using assms by (auto simp: numeral_eq_Suc length_Suc_conv)

lemma seg_fields_seg_bytes:
  assumes "length xs = 13"
  shows "seg_fields (seg_bytes n0 b0 m0 x0 xs)
    = map2 take_bit seg_widths ([n0, b0, m0, x0] @ xs)"
proof -
  obtain a b c d e f g h i j k l m where xs: "xs = [a, b, c, d, e, f, g, h, i, j, k, l, m]"
    using assms by (rule length_13_cases)
  have w: "seg_widths = [7, 2, 2, 6, 3, 3, 3, 3, 3, 3, 3, 3, 3, 3, 3, 3, 3]"
    by code_simp
  show ?thesis
    unfolding seg_fields_def seg_bytes_def w xs
    by (simp, intro conjI low_bits_eqI) (simp_all add: field_bits field_range)
qed

lemma lar_bytes_lar_fields:
  assumes "length c = 5" "\<forall>b \<in> set c. is_byte b" "sasr (c ! 0) 4 AND 0x0F = GSM_MAGIC"
  shows "lar_bytes (lar_fields c) = c"
proof -
  obtain b0 b1 b2 b3 b4 where xs: "c = [b0, b1, b2, b3, b4]"
    using assms(1) by (auto simp: numeral_eq_Suc length_Suc_conv)
  have "bit (sasr b0 4 AND 0x0F) n = bit GSM_MAGIC n" for n using assms(3) xs by simp
  from this [of 0] this [of 1] this [of 2] this [of 3]
  have "bit b0 4" "\<not> bit b0 5" "bit b0 6" "bit b0 7" by (simp_all add: field_bits)
  with assms(2) show ?thesis
    unfolding lar_fields_def lar_bytes_def xs is_byte_def
    by (simp, intro conjI low_bits_eqI) (simp_all add: field_bits field_range)
qed

lemma seg_bytes_seg_fields:
  assumes "length c = 7" "\<forall>b \<in> set c. is_byte b"
  shows "seg_bytes (seg_fields c ! 0) (seg_fields c ! 1) (seg_fields c ! 2) (seg_fields c ! 3)
    (drop 4 (seg_fields c)) = c"
proof -
  obtain b0 b1 b2 b3 b4 b5 b6 where xs: "c = [b0, b1, b2, b3, b4, b5, b6]"
    using assms(1) by (auto simp: numeral_eq_Suc length_Suc_conv)
  from assms(2) show ?thesis
    unfolding seg_fields_def seg_bytes_def xs is_byte_def
    by (simp, intro conjI low_bits_eqI) (simp_all add: field_bits field_range)
qed


lemma length_groups [simp]: "length (lar_bytes la) = 5" "length (seg_bytes n0 b0 m0 x0 xs) = 7"
  "length (lar_fields c) = 8" "length (seg_fields c) = 17"
  by (simp_all add: lar_bytes_def seg_bytes_def lar_fields_def seg_fields_def)

lemma length_gsm_implode: "length (gsm_implode source) = 33"
  by (simp add: gsm_implode_def implode_LARc_def implode_seg0_def implode_seg1_def implode_seg2_def
      implode_seg3_def)

section \<open>Whole frames\<close>

text \<open>A frame is the LAR group and four sub-segment groups.\<close>

definition segment :: "nat \<Rightarrow> nat \<Rightarrow> 'a list \<Rightarrow> 'a list" where
  "segment i n xs = take n (drop i xs)"

lemma segment_nth: "i + n \<le> length xs \<Longrightarrow> j < n \<Longrightarrow> segment i n xs ! j = xs ! (i + j)"
  by (simp add: segment_def)

lemma params_split:
  assumes "length p = 76"
  shows "p = segment 0 8 p @ segment 8 17 p @ segment 25 17 p @ segment 42 17 p @ segment 59 17 p"
  using assms append_take_drop_id [of 8 p] append_take_drop_id [of 17 "drop 8 p"]
    append_take_drop_id [of 17 "drop 25 p"] append_take_drop_id [of 17 "drop 42 p"]
  by (simp add: segment_def)

lemma bytes_split:
  assumes "length c = 33"
  shows "c = segment 0 5 c @ segment 5 7 c @ segment 12 7 c @ segment 19 7 c @ segment 26 7 c"
  using assms append_take_drop_id [of 5 c] append_take_drop_id [of 7 "drop 5 c"]
    append_take_drop_id [of 7 "drop 12 c"] append_take_drop_id [of 7 "drop 19 c"]
  by (simp add: segment_def)

lemma seg_params_split:
  assumes "i + 17 \<le> length p"
  shows "segment i 17 p = [p ! i, p ! (i + 1), p ! (i + 2), p ! (i + 3)] @ take 13 (drop (i + 4) p)"
proof -
  have "segment i 17 p = take 4 (drop i p) @ take 13 (drop 4 (drop i p))"
    unfolding segment_def using take_add [of 4 13 "drop i p"] by simp
  moreover have "take 4 (drop i p) = [p ! i, p ! (i + 1), p ! (i + 2), p ! (i + 3)]"
    using assms by (intro nth_equalityI) (auto simp: less_Suc_eq numeral_eq_Suc)
  ultimately show ?thesis by (simp add: add.commute)
qed

lemma seg_group:
  assumes "i + 17 \<le> length p"
  shows "seg_fields (seg_bytes (p ! i) (p ! (i + 1)) (p ! (i + 2)) (p ! (i + 3))
      (take 13 (drop (i + 4) p))) = map2 take_bit seg_widths (segment i 17 p)"
  using assms seg_fields_seg_bytes [of "take 13 (drop (i + 4) p)" "p ! i"]
  by (simp add: seg_params_split)

lemma length_widths: "length lar_widths = 8" "length seg_widths = 17" "length frame_widths = 76"
  by (simp_all add: lar_widths_def seg_widths_def frame_widths_def)

lemma gsm_implode_groups:
  assumes "length p = 76"
  shows "take 5 (gsm_implode p) = lar_bytes (segment 0 8 p)"
    "take 7 (drop 5 (gsm_implode p)) = implode_seg0 p"
    "take 7 (drop 12 (gsm_implode p)) = implode_seg1 p"
    "take 7 (drop 19 (gsm_implode p)) = implode_seg2 p"
    "take 7 (drop 26 (gsm_implode p)) = implode_seg3 p"
  by (simp_all add: gsm_implode_def implode_LARc_def implode_seg0_def implode_seg1_def
      implode_seg2_def implode_seg3_def segment_def)

lemma magic_byte:
  "sasr (gsm_implode p ! 0) 4 AND 0x0F = GSM_MAGIC"
proof -
  have "gsm_implode p ! 0 = u8 (shl (GSM_MAGIC AND 0xF) 4 OR (sasr (take 8 p ! 0) 2 AND 0xF))"
    by (simp add: gsm_implode_def implode_LARc_def lar_bytes_def)
  moreover have "sasr (u8 (shl (GSM_MAGIC AND 0xF) 4 OR (sasr x 2 AND 0xF))) 4 AND 0x0F = GSM_MAGIC" for x
    by (rule low_bits_eqI) (simp_all add: field_bits field_range)
  ultimately show ?thesis by simp
qed

lemma gsm_explode_implode:
  assumes "length p = 76"
  shows "gsm_explode (gsm_implode p) target = (0, map2 take_bit frame_widths p)"
proof -
  have zip4: "map2 take_bit frame_widths p =
      map2 take_bit lar_widths (segment 0 8 p) @ map2 take_bit seg_widths (segment 8 17 p)
      @ map2 take_bit seg_widths (segment 25 17 p) @ map2 take_bit seg_widths (segment 42 17 p)
      @ map2 take_bit seg_widths (segment 59 17 p)"
    by (subst params_split [OF assms])
      (use assms in \<open>simp add: frame_widths_def length_widths segment_def zip_append\<close>)
  show ?thesis
    unfolding gsm_explode_def magic_byte zip4
    using assms seg_group [of 8 p] seg_group [of 25 p] seg_group [of 42 p] seg_group [of 59 p]
    by (simp add: explode_LARc_def explode_seg0_def explode_seg1_def explode_seg2_def explode_seg3_def
        gsm_implode_groups lar_fields_lar_bytes segment_def implode_seg0_def implode_seg1_def
        implode_seg2_def implode_seg3_def)
qed


lemma is_byte_u8 [simp]: "is_byte (u8 x)"
  using u8_bounds [of x] by (simp add: is_byte_def)

lemma gsm_implode_bytes: "b \<in> set (gsm_implode p) \<Longrightarrow> is_byte b"
  by (auto simp: gsm_implode_def implode_LARc_def implode_seg0_def implode_seg1_def
      implode_seg2_def implode_seg3_def lar_bytes_def seg_bytes_def)

lemma gsm_implode_explode:
  assumes "length c = 33" "\<forall>b \<in> set c. is_byte b" "sasr (c ! 0) 4 AND 0x0F = GSM_MAGIC"
  shows "gsm_implode (snd (gsm_explode c target)) = c"
proof -
  define l where "l = lar_fields (segment 0 5 c)"
  define g where "g i = seg_fields (segment i 7 c)" for i
  have len: "length l = 8" "length (g i) = 17" for i by (simp_all add: l_def g_def)
  have p: "snd (gsm_explode c target) = l @ g 5 @ g 12 @ g 19 @ g 26"
    using assms(3) by (simp add: gsm_explode_def explode_LARc_def explode_seg0_def explode_seg1_def
        explode_seg2_def explode_seg3_def l_def g_def segment_def)
  have "lar_bytes l = segment 0 5 c"
    using assms in_set_takeD [of _ 5 c] unfolding l_def
    by (intro lar_bytes_lar_fields) (auto simp: segment_def)
  moreover have "seg_bytes (g i ! 0) (g i ! 1) (g i ! 2) (g i ! 3) (drop 4 (g i)) = segment i 7 c"
    if "i + 7 \<le> 33" for i
    using that assms unfolding g_def
    by (intro seg_bytes_seg_fields) (auto simp: segment_def dest: in_set_takeD in_set_dropD)
  ultimately show ?thesis
    unfolding p gsm_implode_def implode_LARc_def implode_seg0_def implode_seg1_def implode_seg2_def
      implode_seg3_def
    by (intro trans [OF _ bytes_split [OF assms(1), symmetric]]) (simp add: len nth_append)
qed

section \<open>Separate arrays against the flat vector\<close>

definition flatten :: "params \<Rightarrow> int list" where
  "flatten P =
     LARc P @ [Nc P ! 0, bc P ! 0, Mc P ! 0, xmaxc P ! 0] @ take 13 (xmc P)
     @ [Nc P ! 1, bc P ! 1, Mc P ! 1, xmaxc P ! 1] @ take 13 (drop 13 (xmc P))
     @ [Nc P ! 2, bc P ! 2, Mc P ! 2, xmaxc P ! 2] @ take 13 (drop 26 (xmc P))
     @ [Nc P ! 3, bc P ! 3, Mc P ! 3, xmaxc P ! 3] @ take 13 (drop 39 (xmc P))"

definition params_shape :: "params \<Rightarrow> bool" where
  "params_shape P \<longleftrightarrow> length (LARc P) = 8 \<and> length (Nc P) = 4 \<and> length (bc P) = 4
     \<and> length (Mc P) = 4 \<and> length (xmaxc P) = 4 \<and> length (xmc P) = 52"

lemma length_flatten: "params_shape P \<Longrightarrow> length (flatten P) = 76"
  by (simp add: flatten_def params_shape_def)

lemma encode_frame_implode:
  assumes "params_shape P"
  shows "encode_frame P = gsm_implode (flatten P)"
  using assms
  by (simp add: encode_frame_def gsm_implode_def flatten_def params_shape_def
      encode_LARc_def encode_seg0_def encode_seg1_def encode_seg2_def encode_seg3_def
      implode_LARc_def implode_seg0_def implode_seg1_def implode_seg2_def implode_seg3_def nth_append)

lemma drop_4_seg: "length g = 17 \<Longrightarrow> [g ! 0, g ! 1, g ! 2, g ! 3] @ drop 4 g = g"
  using Cons_nth_drop_Suc [of 0 g] Cons_nth_drop_Suc [of 1 g] Cons_nth_drop_Suc [of 2 g]
    Cons_nth_drop_Suc [of 3 g] by (simp add: numeral_eq_Suc)

lemma decode_frame_None: "decode_frame c = None \<longleftrightarrow> fst (gsm_explode c target) = - 1"
  by (simp add: decode_frame_def gsm_explode_def Let_def)

lemma decode_frame_explode:
  assumes "decode_frame c = Some P"
  shows "params_shape P" "gsm_explode c target = (0, flatten P)"
proof -
  let ?s = "[decode_seg0 c, decode_seg1 c, decode_seg2 c, decode_seg3 c]"
  have magic: "sasr (c ! 0) 4 AND 0x0F = GSM_MAGIC"
    and P: "P = \<lparr>LARc = decode_LARc c, Nc = map (\<lambda>g. g ! 0) ?s, bc = map (\<lambda>g. g ! 1) ?s,
          Mc = map (\<lambda>g. g ! 2) ?s, xmaxc = map (\<lambda>g. g ! 3) ?s, xmc = concat (map (drop 4) ?s)\<rparr>"
    using assms by (auto simp: decode_frame_def Let_def split: if_splits)
  have len: "length (decode_seg0 c) = 17" "length (decode_seg1 c) = 17"
    "length (decode_seg2 c) = 17" "length (decode_seg3 c) = 17" "length (decode_LARc c) = 8"
    by (simp_all add: decode_LARc_def decode_seg0_def decode_seg1_def decode_seg2_def decode_seg3_def)
  show "params_shape P" by (simp add: P params_shape_def len)
  have "flatten P = decode_LARc c @ decode_seg0 c @ decode_seg1 c @ decode_seg2 c @ decode_seg3 c"
    using drop_4_seg [OF len(1)] drop_4_seg [OF len(2)] drop_4_seg [OF len(3)] drop_4_seg [OF len(4)]
    unfolding P flatten_def by (simp add: len)
  with magic show "gsm_explode c target = (0, flatten P)"
    by (simp add: gsm_explode_def explode_LARc_def explode_seg0_def explode_seg1_def explode_seg2_def
        explode_seg3_def decode_LARc_def decode_seg0_def decode_seg1_def decode_seg2_def decode_seg3_def)
qed

section \<open>Properties\<close>

text \<open>C30 (unpacking a packed frame): \<open>gsm_explode\<close> reads back what \<open>gsm_implode\<close> wrote: it accepts
  the frame and returns the 76 parameters, each reduced to the width its field has.\<close>

theorem explode_of_implode:
  assumes "length p = 76"
  shows "length (gsm_implode p) = 33 \<and> (\<forall>b \<in> set (gsm_implode p). is_byte b)
    \<and> gsm_explode (gsm_implode p) target = (0, map2 take_bit frame_widths p)"
  using gsm_explode_implode [OF assms] gsm_implode_bytes [of _ p] by (simp add: length_gsm_implode)

theorem explode_of_implode_witness:
  "gsm_explode (gsm_implode (replicate 76 1)) [] = (0, map2 take_bit frame_widths (replicate 76 1))"
  using explode_of_implode [of "replicate 76 1" "[]"] by simp

text \<open>C31 (packing an unpacked frame): for every 33 bytes that carry the magic nibble, packing the
  unpacked parameters gives the same bytes again: no bit of a frame is lost, swapped or shared.\<close>

theorem implode_of_explode:
  assumes "length c = 33" "\<forall>b \<in> set c. is_byte b" "sasr (c ! 0) 4 AND 0x0F = GSM_MAGIC"
  shows "fst (gsm_explode c target) = 0 \<and> gsm_implode (snd (gsm_explode c target)) = c"
  using gsm_implode_explode [OF assms] assms(3) by (simp add: gsm_explode_def)

theorem implode_of_explode_witness:
  "gsm_implode (snd (gsm_explode (0xD3 # replicate 32 0x5A) [])) = 0xD3 # replicate 32 0x5A"
proof -
  have "sasr ((0xD3 # replicate 32 0x5A) ! 0) 4 AND 0x0F = GSM_MAGIC" by (simp add: sasr_def)
  then show ?thesis
    using implode_of_explode [of "0xD3 # replicate 32 0x5A" "[]"] by (simp add: is_byte_def)
qed

text \<open>The packing that \<open>gsm_encode\<close> has inlined writes the bytes of
  \<open>gsm_implode\<close>, and the unpacking inlined in \<open>gsm_decode\<close> accepts the frames and yields the
  parameters of \<open>gsm_explode\<close>; the two copies of the text are modelled by the same functions.\<close>

lemma frame_formats_agree:
  "(params_shape P \<longrightarrow> encode_frame P = gsm_implode (flatten P))
   \<and> (decode_frame c = None \<longleftrightarrow> fst (gsm_explode c target) = - 1)
   \<and> (decode_frame c = Some Q \<longrightarrow> params_shape Q \<and> gsm_explode c target = (0, flatten Q))"
  using encode_frame_implode decode_frame_None decode_frame_explode by blast

end
