(* ===== verification/Gsm_Lpc.thy ===== *)
theory Gsm_Lpc
  imports Gsm_Rpe Gsm_Frame
begin

text \<open>
  LPC analysis, \<open>telecomm/gsm/src/lpc.c\<close>: autocorrelation of the scaled frame, the Schur
  recursion for the reflection coefficients, transformation to log-area ratios and their
  quantisation. The unrolled accumulation of \<open>L_ACF\<close> is the fold \<open>acf_step\<close>: sample \<open>i\<close>
  contributes to lags 0 to min i 8.

  The lemmas show that the dynamic scaling keeps every autocorrelation value inside 32 bits,
  that the accumulated values are the autocorrelation sums, that no assertion can fail and that
  each coded ratio fits the field that \<open>gsm_implode\<close> gives it.
\<close>

section \<open>Autocorrelation\<close>

definition acf_step :: "int list \<Rightarrow> nat \<Rightarrow> int list \<Rightarrow> int list" where
  "acf_step s i L_ACF =
     fold (\<lambda>k L. L[k := L ! k + s ! i * s ! (i - k)]) [0..<Suc (min i 8)] L_ACF"

definition scale_auto :: "int \<Rightarrow> int option" where
  "scale_auto smax =
     (if smax = 0 then Some 0
      else do {
        c_assert (smax > 0);
        n \<leftarrow> gsm_norm (shl smax 16);
        Some (4 - n)
      })"

definition scale_samples :: "int \<Rightarrow> int list \<Rightarrow> int list" where
  "scale_samples scalauto s =
     (if scalauto > 0 then
        (if scalauto = 1 then map (\<lambda>x. w16 (GSM_MULT_R x (sasr 16384 0))) s
         else if scalauto = 2 then map (\<lambda>x. w16 (GSM_MULT_R x (sasr 16384 1))) s
         else if scalauto = 3 then map (\<lambda>x. w16 (GSM_MULT_R x (sasr 16384 2))) s
         else if scalauto = 4 then map (\<lambda>x. w16 (GSM_MULT_R x (sasr 16384 3))) s
         else s)
      else s)"

definition Autocorrelation :: "int list \<Rightarrow> (int list \<times> int list) option" where
  "Autocorrelation s = do {
     let smax = max_abs s;
     scalauto \<leftarrow> scale_auto smax;
     let s = scale_samples scalauto s;
     let L_ACF = fold (acf_step s) [0..<160] (replicate 9 0);
     let L_ACF = map (\<lambda>x. shl x 1) L_ACF;
     if scalauto > 0 then do {
       c_assert (scalauto \<le> 4);
       Some (map (\<lambda>x. w16 (shl x (nat scalauto))) s, L_ACF)
     } else Some (s, L_ACF)
   }"

section \<open>Reflection coefficients\<close>

definition schur_step :: "int \<Rightarrow> nat \<Rightarrow> int list \<times> int list \<Rightarrow> int list \<times> int list" where
  "schur_step r m st =
     (case st of (P, K) \<Rightarrow>
        let temp = w16 (GSM_MULT_R (K ! m) r);
            Pm = GSM_ADD (P ! (m + 1)) temp;
            temp = w16 (GSM_MULT_R (P ! (m + 1)) r);
            K = K[m := GSM_ADD (K ! m) temp]
        in (P[m := Pm], K))"

text \<open>
  The loop from \<open>n = 8 - q\<close> on, with \<open>Suc q\<close> coefficients still to produce.
\<close>

primrec refl_loop :: "nat \<Rightarrow> int list \<Rightarrow> int list \<Rightarrow> int list option" where
  "refl_loop 0 P K = Some []"
| "refl_loop (Suc q) P K = do {
     let temp = GSM_ABS (P ! 1);
     if P ! 0 < temp then Some (replicate (Suc q) 0)
     else do {
       r \<leftarrow> gsm_div temp (P ! 0);
       c_assert (r \<ge> 0);
       let r = (if P ! 1 > 0 then w16 (- r) else r);
       c_assert (r \<noteq> MIN_WORD);
       if q = 0 then Some [r]
       else do {
         let temp = w16 (GSM_MULT_R (P ! 1) r);
         let P = P[0 := GSM_ADD (P ! 0) temp];
         let (P, K) = fold (schur_step r) [1..<Suc q] (P, K);
         rs \<leftarrow> refl_loop q P K;
         Some (r # rs)
       }
     }
   }"

text \<open>\<open>K[0]\<close> and \<open>K[8]\<close> are never initialised and never read; they are 0 here.\<close>

definition Reflection_coefficients :: "int list \<Rightarrow> int list option" where
  "Reflection_coefficients L_ACF =
     (if L_ACF ! 0 = 0 then Some (replicate 8 0)
      else do {
        c_assert (L_ACF ! 0 \<noteq> 0);
        temp \<leftarrow> gsm_norm (L_ACF ! 0);
        c_assert (temp \<ge> 0 \<and> temp < 32);
        let ACF = map (\<lambda>x. w16 (sasr (shl x (nat temp)) 16)) L_ACF;
        let K = [0] @ take 7 (drop 1 ACF) @ [0];
        let P = ACF;
        refl_loop 8 P K
      })"

section \<open>Log-area ratios\<close>

definition LAR_of :: "int \<Rightarrow> int option" where
  "LAR_of r = do {
     let temp = GSM_ABS r;
     c_assert (temp \<ge> 0);
     temp \<leftarrow> (if temp < 22118 then Some (sasr temp 1)
       else if temp < 31130 then do { c_assert (temp \<ge> 11059); Some (w16 (temp - 11059)) }
       else do { c_assert (temp \<ge> 26112); let temp = w16 (temp - 26112); Some (w16 (shl temp 2)) });
     let r = (if r < 0 then w16 (- temp) else temp);
     c_assert (r \<noteq> MIN_WORD);
     Some r
   }"

definition Transformation_to_Log_Area_Ratios :: "int list \<Rightarrow> int list option" where
  "Transformation_to_Log_Area_Ratios r = map_opt LAR_of r"

definition quant_step :: "int \<Rightarrow> int \<Rightarrow> int \<Rightarrow> int \<Rightarrow> int \<Rightarrow> int" where
  "quant_step A B MAC MIC LAR =
     (let temp = w16 (GSM_MULT A LAR);
          temp = GSM_ADD temp B;
          temp = GSM_ADD temp 256;
          temp = sasr temp 9
      in if temp > MAC then MAC - MIC else if temp < MIC then 0 else temp - MIC)"

definition Quantization_and_coding :: "int list \<Rightarrow> int list" where
  "Quantization_and_coding LAR =
    [quant_step 20480 0 31 (- 32) (LAR ! 0),
     quant_step 20480 0 31 (- 32) (LAR ! 1),
     quant_step 20480 2048 15 (- 16) (LAR ! 2),
     quant_step 20480 (- 2560) 15 (- 16) (LAR ! 3),
     quant_step 13964 94 7 (- 8) (LAR ! 4),
     quant_step 15360 (- 1792) 7 (- 8) (LAR ! 5),
     quant_step 8534 (- 341) 3 (- 4) (LAR ! 6),
     quant_step 9036 (- 1144) 3 (- 4) (LAR ! 7)]"

definition Gsm_LPC_Analysis :: "int list \<Rightarrow> (int list \<times> int list) option" where
  "Gsm_LPC_Analysis s = do {
     (s, L_ACF) \<leftarrow> Autocorrelation s;
     LARc \<leftarrow> Reflection_coefficients L_ACF;
     LARc \<leftarrow> Transformation_to_Log_Area_Ratios LARc;
     let LARc = Quantization_and_coding LARc;
     Some (s, LARc)
   }"

section \<open>The accumulated values are autocorrelation sums\<close>

lemma acf_step_nth:
  assumes "length L = 9" "k < 9"
  shows "acf_step s i L ! k = L ! k + (if k \<le> i then s ! i * s ! (i - k) else 0)"
    "length (acf_step s i L) = 9"
proof -
  have "length (fold (\<lambda>k L. L[k := L ! k + g k]) [0..<n] L) = 9 \<and>
     (\<forall>k<9. fold (\<lambda>k L. L[k := L ! k + g k]) [0..<n] L ! k = L ! k + (if k < n then g k else 0))"
    if "n \<le> 9" for n and g :: "nat \<Rightarrow> int"
    using that by (induction n) (auto simp: assms(1) nth_list_update less_Suc_eq)
  from this [of "Suc (min i 8)" "\<lambda>k. s ! i * s ! (i - k)"] assms(2)
  show "acf_step s i L ! k = L ! k + (if k \<le> i then s ! i * s ! (i - k) else 0)"
    "length (acf_step s i L) = 9"
    by (auto simp: acf_step_def)
qed

lemma acf_sum:
  assumes "k < 9"
  shows "fold (acf_step s) [0..<n] (replicate 9 0) ! k = (\<Sum>i \<in> {k..<n}. s ! i * s ! (i - k))"
    "length (fold (acf_step s) [0..<n] (replicate 9 0)) = 9"
proof -
  have "length (fold (acf_step s) [0..<n] (replicate 9 0)) = 9 \<and>
    fold (acf_step s) [0..<n] (replicate 9 0) ! k = (\<Sum>i \<in> {k..<n}. s ! i * s ! (i - k))"
    using assms by (induction n) (auto simp: acf_step_nth)
  then show "fold (acf_step s) [0..<n] (replicate 9 0) ! k = (\<Sum>i \<in> {k..<n}. s ! i * s ! (i - k))"
    "length (fold (acf_step s) [0..<n] (replicate 9 0)) = 9" by auto
qed

section \<open>The scaling prevents overflow\<close>

lemma scale_auto_Some:
  assumes "0 \<le> smax" "smax \<le> MAX_WORD"
  obtains c where "scale_auto smax = Some c" "c \<le> 4" "c > 0 \<Longrightarrow> smax < 2 ^ (11 + nat c)"
    "c \<le> 0 \<Longrightarrow> smax < 2 ^ 11"
proof (cases "smax = 0")
  case True
  then show ?thesis by (intro that [of 0]) (simp_all add: scale_auto_def)
next
  case False
  then have m: "0 < shl smax 16" "shl smax 16 < 2 ^ 31" "0 < smax" using assms by (auto simp: shl_mult)
  obtain n where n: "gsm_norm (shl smax 16) = Some (int n)" "shl smax 16 * 2 ^ n < 2 ^ 31"
    using gsm_norm_pos [OF m(1,2)] by blast
  have le: "smax * 2 ^ n < 2 ^ 15" using n(2) by (simp add: shl_mult)
  have 1: "smax < 2 ^ (11 + nat (4 - int n))" if "4 - int n > 0"
  proof -
    have "n \<le> 3" using that by simp
    then have "n = 0 \<or> n = 1 \<or> n = 2 \<or> n = 3" by presburger
    then show ?thesis using le by auto
  qed
  have 2: "smax < 2 ^ 11" if "4 - int n \<le> 0"
  proof -
    have "(2::int) ^ 4 \<le> 2 ^ n" using that by (intro power_increasing) auto
    then have "smax * 2 ^ 4 \<le> smax * 2 ^ n" using assms(1) by (intro mult_left_mono)
    with le show ?thesis by simp
  qed
  show ?thesis
    by (rule that [of "4 - int n"]) (use n(1) m(3) 1 2 in \<open>auto simp: scale_auto_def\<close>)
qed

lemma scale_samples_bound:
  assumes "list_all is_word s" "scale_auto (max_abs s) = Some c" "x \<in> set (scale_samples c s)"
  shows "\<bar>x\<bar> \<le> 2048"
proof -
  note m = max_abs_bounds [OF assms(1)]
  have c: "c \<le> 4" "c > 0 \<Longrightarrow> max_abs s < 2 ^ (11 + nat c)" "c \<le> 0 \<Longrightarrow> max_abs s < 2 ^ 11"
    using scale_auto_Some [OF m(1,2)] assms(2) by (metis option.inject)+
  have y: "- max_abs s - 1 \<le> y \<and> y \<le> max_abs s" if "y \<in> set s" for y
    using m(3) [OF that] assms(1) that by (intro GSM_ABS_bound) (auto simp: list_all_iff)
  consider "c \<le> 0" | "c = 1" | "c = 2" | "c = 3" | "c = 4" using c(1) by linarith
  then show ?thesis
  proof cases
    case 1
    then have "x \<in> set s" using assms(3) by (simp add: scale_samples_def)
    from y [OF this] c(3) [OF 1] show ?thesis by auto
  qed (use assms(3) y c(2) in \<open>fastforce simp: scale_samples_def GSM_MULT_R_def sasr_div w16_eq\<close>)+
qed

lemma length_scale_samples [simp]: "length (scale_samples c s) = length s"
  by (simp add: scale_samples_def)

lemma acf_dominated:
  fixes s :: "int list"
  shows "\<bar>\<Sum>i \<in> {k..<n}. s ! i * s ! (i - k)\<bar> \<le> (\<Sum>i \<in> {0..<n}. s ! i * s ! i)"
proof (cases "k \<le> n")
  case True
  have sq: "2 * \<bar>a * b\<bar> \<le> a * a + b * b" for a b :: int
    using zero_le_power2 [of "\<bar>a\<bar> - \<bar>b\<bar>"] by (simp add: power2_eq_square algebra_simps abs_mult)
  have "2 * \<bar>\<Sum>i \<in> {k..<n}. s ! i * s ! (i - k)\<bar> \<le> (\<Sum>i \<in> {k..<n}. 2 * \<bar>s ! i * s ! (i - k)\<bar>)"
    by (simp add: sum_abs flip: sum_distrib_left)
  also have "\<dots> \<le> (\<Sum>i \<in> {k..<n}. s ! i * s ! i + s ! (i - k) * s ! (i - k))"
    by (intro sum_mono sq)
  also have "\<dots> = (\<Sum>i \<in> {k..<n}. s ! i * s ! i) + (\<Sum>i \<in> {0..<n - k}. s ! i * s ! i)"
    using True by (simp add: sum.distrib sum.atLeastLessThan_shift_0 [of _ k n])
  also have "\<dots> \<le> (\<Sum>i \<in> {0..<n}. s ! i * s ! i) + (\<Sum>i \<in> {0..<n}. s ! i * s ! i)"
    by (intro add_mono sum_mono2) auto
  finally show ?thesis by simp
qed (simp add: sum_nonneg)

lemma Autocorrelation_Some:
  assumes "list_all is_word s" "length s = 160"
  obtains s' L_ACF where "Autocorrelation s = Some (s', L_ACF)" "length s' = 160" "list_all is_word s'"
    "length L_ACF = 9" "0 \<le> L_ACF ! 0" "L_ACF ! 0 < 2 ^ 31"
    "\<And>k. k < 9 \<Longrightarrow> \<bar>L_ACF ! k\<bar> \<le> L_ACF ! 0"
    "\<And>k c. k < 9 \<Longrightarrow> scale_auto (max_abs s) = Some c \<Longrightarrow>
      L_ACF ! k = 2 * (\<Sum>i \<in> {k..<160}. scale_samples c s ! i * scale_samples c s ! (i - k))"
proof -
  note m = max_abs_bounds [OF assms(1)]
  obtain c where c: "scale_auto (max_abs s) = Some c" "c \<le> 4" using scale_auto_Some [OF m(1,2)] by blast
  define t where "t = scale_samples c s"
  have t: "length t = 160" using assms(2) by (simp add: t_def)
  have b: "\<bar>t ! i\<bar> \<le> 2048" if "i < 160" for i
    using scale_samples_bound [OF assms(1) c(1)] that t unfolding t_def by simp
  then have bound: "list_all is_word t"
    using t by (force simp: list_all_length is_word_def)
  define L where "L = map (\<lambda>x. shl x 1) (fold (acf_step t) [0..<160] (replicate 9 0))"
  have L: "length L = 9" "\<And>k. k < 9 \<Longrightarrow> L ! k = 2 * (\<Sum>i \<in> {k..<160}. t ! i * t ! (i - k))"
    by (simp_all add: L_def acf_sum acf_sum(2) [of 0] shl_mult)
  have "(\<Sum>i \<in> {0..<160}. t ! i * t ! i) \<le> (\<Sum>i \<in> {0..<160::nat}. 2 ^ 22)"
  proof (rule sum_mono)
    fix i :: nat assume "i \<in> {0..<160}"
    then have "\<bar>t ! i\<bar> * \<bar>t ! i\<bar> \<le> 2048 * 2048" using b by (intro mult_mono) auto
    then show "t ! i * t ! i \<le> 2 ^ 22" by (simp flip: abs_mult)
  qed
  then have L0: "0 \<le> L ! 0" "L ! 0 < 2 ^ 31" using L(2) [of 0] by (simp_all add: sum_nonneg)
  have dom: "\<bar>L ! k\<bar> \<le> L ! 0" if "k < 9" for k
    using acf_dominated [of t k 160] L(2) [OF that] L(2) [of 0] by (simp add: abs_mult)
  define s' where "s' = (if c > 0 then map (\<lambda>x. w16 (shl x (nat c))) t else t)"
  have "Autocorrelation s = Some (s', L)"
    using c by (auto simp: Autocorrelation_def Let_def t_def L_def s'_def)
  moreover have "length s' = 160" "list_all is_word s'"
    using t bound by (auto simp: s'_def list_all_iff)
  ultimately show ?thesis using that L L0 dom c(1) by (simp add: t_def)
qed

section \<open>The Schur recursion\<close>

lemma schur_step_word:
  assumes "length P = 9" "length K = 9" "list_all is_word P" "list_all is_word K" "1 \<le> m" "m < 8"
    "schur_step r m (P, K) = (P', K')"
  shows "length P' = 9 \<and> length K' = 9 \<and> list_all is_word P' \<and> list_all is_word K'"
proof -
  have "is_word (P ! (m + 1))" "is_word (K ! m)" using assms by (auto simp: list_all_length)
  with assms show ?thesis by (auto simp: schur_step_def Let_def intro!: list_all_update)
qed

lemma schur_steps_word:
  assumes "length P = 9" "length K = 9" "list_all is_word P" "list_all is_word K" "set ms \<subseteq> {1..<8}"
    "fold (schur_step r) ms (P, K) = (P', K')"
  shows "length P' = 9 \<and> length K' = 9 \<and> list_all is_word P' \<and> list_all is_word K'"
  using assms
proof (induction ms arbitrary: P K)
  case (Cons m ms)
  obtain P1 K1 where 1: "schur_step r m (P, K) = (P1, K1)" by force
  with schur_step_word [OF Cons.prems(1-4) _ _ 1] Cons.IH [of P1 K1] Cons.prems show ?case by auto
qed simp

definition is_reflection :: "int \<Rightarrow> bool" where
  "is_reflection r \<longleftrightarrow> - 32767 \<le> r \<and> r \<le> 32767"

lemma refl_loop_Some:
  assumes "length P = 9" "length K = 9" "list_all is_word P" "list_all is_word K" "q \<le> 8"
  shows "\<exists>rs. refl_loop q P K = Some rs \<and> length rs = q \<and> list_all is_reflection rs"
  using assms
proof (induction q arbitrary: P K)
  case (Suc q)
  have w: "is_word (P ! 0)" "is_word (P ! 1)" using Suc.prems by (auto simp: list_all_length)
  show ?case
  proof (cases "P ! 0 < GSM_ABS (P ! 1)")
    case True
    then show ?thesis by (simp add: list_all_replicate is_reflection_def)
  next
    case False
    define r0 where "r0 = min MAX_WORD (GSM_ABS (P ! 1) * 32768 div (P ! 0))"
    have d: "gsm_div (GSM_ABS (P ! 1)) (P ! 0) = Some r0"
      unfolding r0_def using False w GSM_ABS_range [OF w(2)] by (intro gsm_div_eq) (auto simp: is_word_def)
    have r0: "0 \<le> r0" "r0 \<le> 32767"
      using False GSM_ABS_range [OF w(2)] by (auto simp: r0_def intro!: pos_imp_zdiv_nonneg_iff [THEN iffD2] div_int_pos_iff [THEN iffD2])
    define r where "r = (if P ! 1 > 0 then w16 (- r0) else r0)"
    have r: "is_reflection r" "r \<noteq> MIN_WORD" using r0 by (auto simp: r_def is_reflection_def w16_eq)
    define P1 where "P1 = P[0 := GSM_ADD (P ! 0) (w16 (GSM_MULT_R (P ! 1) r))]"
    obtain P2 K2 where s: "fold (schur_step r) [1..<Suc q] (P1, K) = (P2, K2)" by force
    have "length P1 = 9" "list_all is_word P1" using Suc.prems w by (auto simp: P1_def intro!: list_all_update)
    moreover have "set [1..<Suc q] \<subseteq> {1..<8}" using Suc.prems(5) by auto
    ultimately have "length P2 = 9 \<and> length K2 = 9 \<and> list_all is_word P2 \<and> list_all is_word K2"
      using schur_steps_word [OF _ Suc.prems(2) _ Suc.prems(4) _ s] by blast
    with Suc.IH [of P2 K2] Suc.prems(5) obtain rs where
      "refl_loop q P2 K2 = Some rs" "length rs = q" "list_all is_reflection rs" by auto
    moreover have "refl_loop (Suc q) P K =
        (if q = 0 then Some [r] else Option.bind (refl_loop q P2 K2) (\<lambda>rs. Some (r # rs)))"
      using False r0(1) r(2) unfolding refl_loop.simps Let_def d Option.bind.bind_lunit
      by (simp only: if_False c_assert_bind not_False_eq_True r_def [symmetric] P1_def [symmetric] s prod.case)
    ultimately show ?thesis using r(1) by auto
  qed
qed simp

lemma Reflection_coefficients_Some:
  assumes "length L_ACF = 9" "0 \<le> L_ACF ! 0" "L_ACF ! 0 < 2 ^ 31"
  obtains r where "Reflection_coefficients L_ACF = Some r" "length r = 8" "list_all is_reflection r"
proof (cases "L_ACF ! 0 = 0")
  case True
  then show ?thesis
    by (intro that [of "replicate 8 0"]) (simp_all add: Reflection_coefficients_def list_all_replicate is_reflection_def)
next
  case False
  with assms obtain n where n: "gsm_norm (L_ACF ! 0) = Some (int n)" "n \<le> 30"
    using gsm_norm_pos [of "L_ACF ! 0"] by force
  define ACF where "ACF = map (\<lambda>x. w16 (sasr (shl x n) 16)) L_ACF"
  have A: "length ACF = 9" "list_all is_word ACF" using assms(1) by (auto simp: ACF_def list_all_iff)
  have "length ([0] @ take 7 (drop 1 ACF) @ [0]) = 9" "list_all is_word ([0] @ take 7 (drop 1 ACF) @ [0])"
    using A by (auto simp: list_all_iff is_word_def dest!: in_set_takeD in_set_dropD)
  from refl_loop_Some [OF A(1) this(1) A(2) this(2), of 8] n False show ?thesis
    using that by (auto simp: Reflection_coefficients_def ACF_def Let_def)
qed

text \<open>With the lag-0 value normalised, no entry of \<open>ACF\<close> is truncated.\<close>

lemma ACF_no_overflow:
  assumes "\<bar>x\<bar> \<le> y" "y * 2 ^ n < 2 ^ 31"
  shows "w16 (sasr (shl x n) 16) = x * 2 ^ n div 65536"
proof -
  have "\<bar>x\<bar> * 2 ^ n \<le> y * 2 ^ n" using assms(1) by (intro mult_right_mono) auto
  then have "\<bar>x\<bar> * 2 ^ n < 2 ^ 31" using assms(2) by linarith
  then have "\<bar>x * 2 ^ n\<bar> < 2 ^ 31" by (simp add: abs_mult)
  then show ?thesis by (auto simp: sasr_div shl_mult intro!: w16_eq)
qed

section \<open>Coded log-area ratios\<close>

lemma LAR_of_Some:
  assumes "is_reflection r"
  shows "\<exists>y. LAR_of r = Some y \<and> - 26620 \<le> y \<and> y \<le> 26620"
proof -
  have "GSM_ABS r = \<bar>r\<bar>" "\<bar>r\<bar> \<le> 32767" using assms by (auto simp: GSM_ABS_def is_reflection_def)
  note a = this
  define t where "t = (if \<bar>r\<bar> < 22118 then \<bar>r\<bar> div 2 else if \<bar>r\<bar> < 31130 then \<bar>r\<bar> - 11059
    else (\<bar>r\<bar> - 26112) * 4)"
  have t: "0 \<le> t" "t \<le> 26620" using a(2) by (auto simp: t_def)
  have eq: "LAR_of r = do { let r = (if r < 0 then w16 (- t) else t); c_assert (r \<noteq> MIN_WORD); Some r }"
    using a by (simp add: LAR_of_def t_def sasr_div shl_mult w16_eq Let_def)
  show ?thesis using t unfolding eq by (auto simp: Let_def w16_eq)
qed

lemma Transformation_Some:
  assumes "list_all is_reflection r"
  obtains LAR where "Transformation_to_Log_Area_Ratios r = Some LAR" "length LAR = length r"
    "list_all is_word LAR"
proof -
  from assms have "\<exists>LAR. map_opt LAR_of r = Some LAR \<and> length LAR = length r \<and> list_all is_word LAR"
  proof (induction r)
    case (Cons x r)
    then obtain y where "LAR_of x = Some y" "is_word y" using LAR_of_Some [of x] by (auto simp: is_word_def)
    with Cons show ?case by auto
  qed simp
  then show ?thesis using that by (auto simp: Transformation_to_Log_Area_Ratios_def)
qed

lemma quant_step_range:
  assumes "MIC \<le> MAC"
  shows "0 \<le> quant_step A B MAC MIC x" "quant_step A B MAC MIC x \<le> MAC - MIC"
  using assms by (auto simp: quant_step_def Let_def)

lemma Quantization_widths:
  "length (Quantization_and_coding LAR) = 8"
  "i < 8 \<Longrightarrow> 0 \<le> Quantization_and_coding LAR ! i
     \<and> Quantization_and_coding LAR ! i < 2 ^ (lar_widths ! i)"
proof -
  show "length (Quantization_and_coding LAR) = 8" by (simp add: Quantization_and_coding_def)
  assume "i < 8"
  then consider "i = 0" | "i = 1" | "i = 2" | "i = 3" | "i = 4" | "i = 5" | "i = 6" | "i = 7" by linarith
  then show "0 \<le> Quantization_and_coding LAR ! i \<and> Quantization_and_coding LAR ! i < 2 ^ (lar_widths ! i)"
    by cases (simp_all add: Quantization_and_coding_def lar_widths_def quant_step_range
        le_less_trans [OF quant_step_range(2)])
qed

lemma Gsm_LPC_Analysis_Some:
  assumes "list_all is_word s" "length s = 160"
  obtains s' LARc where "Gsm_LPC_Analysis s = Some (s', LARc)" "length s' = 160" "list_all is_word s'"
    "length LARc = 8" "\<And>i. i < 8 \<Longrightarrow> 0 \<le> LARc ! i \<and> LARc ! i < 2 ^ (lar_widths ! i)"
proof -
  obtain s' L where a: "Autocorrelation s = Some (s', L)" "length s' = 160" "list_all is_word s'"
    "length L = 9" "0 \<le> L ! 0" "L ! 0 < 2 ^ 31" using Autocorrelation_Some [OF assms] by metis
  obtain r where r: "Reflection_coefficients L = Some r" "list_all is_reflection r"
    using Reflection_coefficients_Some [OF a(4-6)] by metis
  obtain LAR where t: "Transformation_to_Log_Area_Ratios r = Some LAR" using Transformation_Some [OF r(2)] by metis
  show ?thesis
    by (rule that [of s' "Quantization_and_coding LAR"])
      (use a r t Quantization_widths in \<open>simp_all add: Gsm_LPC_Analysis_def Let_def\<close>)
qed

section \<open>Properties\<close>

text \<open>C32 (autocorrelation): on every frame of words the scaled autocorrelation succeeds without
  overflowing 31 bits; each of the nine values is twice the sum of lagged products of the scaled
  samples, and none exceeds the value at lag zero in magnitude.\<close>

theorem autocorrelation_correct:
  assumes "list_all is_word s" "length s = 160"
  shows "\<exists>s' L_ACF c. Autocorrelation s = Some (s', L_ACF) \<and> length s' = 160 \<and> list_all is_word s'
    \<and> length L_ACF = 9 \<and> L_ACF ! 0 < 2 ^ 31 \<and> scale_auto (max_abs s) = Some c
    \<and> (\<forall>k < 9. \<bar>L_ACF ! k\<bar> \<le> L_ACF ! 0
      \<and> L_ACF ! k = 2 * (\<Sum>i \<in> {k..<160}. scale_samples c s ! i * scale_samples c s ! (i - k)))"
proof -
  obtain s' L where a: "Autocorrelation s = Some (s', L)" "length s' = 160" "list_all is_word s'"
    "length L = 9" "0 \<le> L ! 0" "L ! 0 < 2 ^ 31" "\<And>k. k < 9 \<Longrightarrow> \<bar>L ! k\<bar> \<le> L ! 0"
    "\<And>k c. k < 9 \<Longrightarrow> scale_auto (max_abs s) = Some c \<Longrightarrow>
      L ! k = 2 * (\<Sum>i \<in> {k..<160}. scale_samples c s ! i * scale_samples c s ! (i - k))"
    by (rule Autocorrelation_Some [OF assms]) blast
  obtain c where c: "scale_auto (max_abs s) = Some c"
    using a(1) unfolding Autocorrelation_def by (cases "scale_auto (max_abs s)") auto
  show ?thesis using a c by blast
qed

theorem autocorrelation_correct_witness:
  "\<exists>s' L_ACF. Autocorrelation (replicate 160 (- 32768)) = Some (s', L_ACF) \<and> L_ACF ! 0 < 2 ^ 31"
proof -
  have "list_all is_word (replicate 160 (- 32768))" by (simp add: list_all_replicate is_word_def)
  from autocorrelation_correct [OF this length_replicate] show ?thesis by blast
qed

text \<open>C33 (LPC analysis): every frame of words has log area ratios: the Schur recursion, the
  piecewise-linear transformation and the quantisation all succeed, the reflection coefficients
  are fractions, and the eight codes fit the 6, 6, 5, 5, 4, 4, 3 and 3 bits of their fields.\<close>

theorem LPC_analysis_codes:
  assumes "list_all is_word s" "length s = 160"
  shows "\<exists>s' LARc. Gsm_LPC_Analysis s = Some (s', LARc) \<and> length s' = 160 \<and> list_all is_word s'
    \<and> length LARc = 8 \<and> (\<forall>i < 8. 0 \<le> LARc ! i \<and> LARc ! i < 2 ^ ([6, 6, 5, 5, 4, 4, 3, 3] ! i))"
  using Gsm_LPC_Analysis_Some [OF assms] unfolding lar_widths_def by metis

theorem LPC_analysis_codes_witness:
  "\<exists>s' LARc. Gsm_LPC_Analysis (replicate 160 32767) = Some (s', LARc) \<and> LARc ! 7 < 8"
proof -
  have "list_all is_word (replicate 160 32767)" by (simp add: list_all_replicate is_word_def)
  from LPC_analysis_codes [OF this length_replicate] obtain s' LARc where "Gsm_LPC_Analysis (replicate 160 32767) = Some (s', LARc)"
    "\<forall>i < 8. 0 \<le> LARc ! i \<and> LARc ! i < 2 ^ ([6, 6, 5, 5, 4, 4, 3, 3] ! i)"
    by blast
  from this(2) [THEN spec, of 7] have "LARc ! 7 < 8" by (simp add: eval_nat_numeral)
  with \<open>Gsm_LPC_Analysis _ = _\<close> show ?thesis by blast
qed

end
