(* ===== verification/Gsm_Short_Term.thy ===== *)
theory Gsm_Short_Term
  imports Gsm_Table Gsm_State
begin

text \<open>
  The short-term filters, \<open>telecomm/gsm/src/short_term.c\<close>: decoding of the log-area ratios,
  their interpolation over the frame, conversion to reflection coefficients, and the two
  lattice filters of order eight. The interleaved loops over the filter memories \<open>S->u\<close> and
  \<open>S->v\<close> are folds over the stage number.

  The main lemma is that the synthesis lattice undoes the analysis lattice exactly, sample by
  sample, as long as no addition of the analysis saturates, and that both filters then hold the
  same memory.
\<close>

section \<open>Coefficients\<close>

definition LAR_step :: "int \<Rightarrow> int \<Rightarrow> int \<Rightarrow> int \<Rightarrow> int" where
  "LAR_step B MIC INVA LARc =
     (let temp1 = w16 (shl (GSM_ADD LARc MIC) 10);
          temp1 = GSM_SUB temp1 (shl B 1);
          temp1 = w16 (GSM_MULT_R INVA temp1)
      in GSM_ADD temp1 temp1)"

definition Decoding_of_the_coded_Log_Area_Ratios :: "int list \<Rightarrow> int list" where
  "Decoding_of_the_coded_Log_Area_Ratios LARc =
    [LAR_step 0 (- 32) 13107 (LARc ! 0),
     LAR_step 0 (- 32) 13107 (LARc ! 1),
     LAR_step 2048 (- 16) 13107 (LARc ! 2),
     LAR_step (- 2560) (- 16) 13107 (LARc ! 3),
     LAR_step 94 (- 8) 19223 (LARc ! 4),
     LAR_step (- 1792) (- 8) 17476 (LARc ! 5),
     LAR_step (- 341) (- 4) 31454 (LARc ! 6),
     LAR_step (- 1144) (- 4) 29708 (LARc ! 7)]"

definition Coefficients_0_12 :: "int list \<Rightarrow> int list \<Rightarrow> int list" where
  "Coefficients_0_12 LARpp_j_1 LARpp_j =
     map2 (\<lambda>a b. let LARp = GSM_ADD (sasr a 2) (sasr b 2) in GSM_ADD LARp (sasr a 1)) LARpp_j_1 LARpp_j"

definition Coefficients_13_26 :: "int list \<Rightarrow> int list \<Rightarrow> int list" where
  "Coefficients_13_26 LARpp_j_1 LARpp_j =
     map2 (\<lambda>a b. GSM_ADD (sasr a 1) (sasr b 1)) LARpp_j_1 LARpp_j"

definition Coefficients_27_39 :: "int list \<Rightarrow> int list \<Rightarrow> int list" where
  "Coefficients_27_39 LARpp_j_1 LARpp_j =
     map2 (\<lambda>a b. let LARp = GSM_ADD (sasr a 2) (sasr b 2) in GSM_ADD LARp (sasr b 1)) LARpp_j_1 LARpp_j"

definition Coefficients_40_159 :: "int list \<Rightarrow> int list" where
  "Coefficients_40_159 LARpp_j = map (\<lambda>b. b) LARpp_j"

definition LARp_to_rp :: "int list \<Rightarrow> int list" where
  "LARp_to_rp LARp =
     map (\<lambda>x.
       if x < 0 then
         (let temp = (if x = MIN_WORD then MAX_WORD else - x)
          in w16 (- (if temp < 11059 then shl temp 1
                else if temp < 20070 then temp + 11059
                else GSM_ADD (sasr temp 2) 26112)))
       else
         (let temp = x
          in w16 (if temp < 11059 then shl temp 1
             else if temp < 20070 then temp + 11059
             else GSM_ADD (sasr temp 2) 26112))) LARp"

section \<open>Lattice filters\<close>

definition ana_step :: "int list \<Rightarrow> nat \<Rightarrow> int list \<times> int \<times> int \<Rightarrow> int list \<times> int \<times> int" where
  "ana_step rp i st =
     (case st of (u, di, sav) \<Rightarrow>
        let ui = u ! i;
            rpi = rp ! i;
            u = u[i := sav];
            zzz = w16 (GSM_MULT_R rpi di);
            sav = GSM_ADD ui zzz;
            zzz = w16 (GSM_MULT_R rpi ui);
            di = GSM_ADD di zzz
        in (u, di, sav))"

definition ana_sample :: "int list \<Rightarrow> int list \<Rightarrow> int \<Rightarrow> int list \<times> int" where
  "ana_sample rp u s =
     (let (u, di, sav) = fold (ana_step rp) [0..<8] (u, s, s) in (u, di))"

primrec ana_samples :: "int list \<Rightarrow> int list \<Rightarrow> int list \<Rightarrow> int list \<times> int list" where
  "ana_samples rp u [] = (u, [])"
| "ana_samples rp u (s # ss) =
     (let (u, di) = ana_sample rp u s; (u, ds) = ana_samples rp u ss in (u, di # ds))"

definition Short_term_analysis_filtering ::
    "gsm_state \<Rightarrow> int list \<Rightarrow> nat \<Rightarrow> int list \<Rightarrow> gsm_state \<times> int list" where
  "Short_term_analysis_filtering S rp k_n s =
     (let (u, ds) = ana_samples rp (S_u S) (take k_n s) in (S\<lparr>S_u := u\<rparr>, ds @ drop k_n s))"

definition synth_mult :: "int \<Rightarrow> int \<Rightarrow> int" where
  "synth_mult a b =
     w16 (if a = MIN_WORD \<and> b = MIN_WORD then MAX_WORD else 0x0FFFF AND sasr (a * b + 16384) 15)"

definition synth_step :: "int list \<Rightarrow> nat \<Rightarrow> int list \<times> int \<Rightarrow> int list \<times> int" where
  "synth_step rrp i st =
     (case st of (v, sri) \<Rightarrow>
        let tmp1 = rrp ! i;
            tmp2 = v ! i;
            tmp2 = synth_mult tmp1 tmp2;
            sri = GSM_SUB sri tmp2;
            tmp1 = synth_mult tmp1 sri;
            v = v[i + 1 := GSM_ADD (v ! i) tmp1]
        in (v, sri))"

definition synth_sample :: "int list \<Rightarrow> int list \<Rightarrow> int \<Rightarrow> int list \<times> int" where
  "synth_sample rrp v wt =
     (let (v, sri) = fold (synth_step rrp) (rev [0..<8]) (v, wt) in (v[0 := sri], sri))"

primrec synth_samples :: "int list \<Rightarrow> int list \<Rightarrow> int list \<Rightarrow> int list \<times> int list" where
  "synth_samples rrp v [] = (v, [])"
| "synth_samples rrp v (w # ws) =
     (let (v, sr) = synth_sample rrp v w; (v, srs) = synth_samples rrp v ws in (v, sr # srs))"

definition Short_term_synthesis_filtering ::
    "gsm_state \<Rightarrow> int list \<Rightarrow> nat \<Rightarrow> int list \<Rightarrow> gsm_state \<times> int list" where
  "Short_term_synthesis_filtering S rrp k wt =
     (let (v, sr) = synth_samples rrp (S_v S) (take k wt) in (S\<lparr>S_v := v\<rparr>, sr))"

section \<open>The two filters on a frame\<close>

definition Gsm_Short_Term_Analysis_Filter ::
    "gsm_state \<Rightarrow> int list \<Rightarrow> int list \<Rightarrow> gsm_state \<times> int list" where
  "Gsm_Short_Term_Analysis_Filter S LARc s =
     (let j = S_j S;
          S = S\<lparr>S_j := j XOR 1\<rparr>;
          LARpp_j = Decoding_of_the_coded_Log_Area_Ratios LARc;
          S = S\<lparr>S_LARpp := (S_LARpp S)[j := LARpp_j]\<rparr>;
          LARpp_j_1 = S_LARpp S ! (j XOR 1);
          LARp = LARp_to_rp (Coefficients_0_12 LARpp_j_1 LARpp_j);
          (S, s) = Short_term_analysis_filtering S LARp 13 s;
          LARp = LARp_to_rp (Coefficients_13_26 LARpp_j_1 LARpp_j);
          (S, t) = Short_term_analysis_filtering S LARp 14 (drop 13 s);
          s = take 13 s @ t;
          LARp = LARp_to_rp (Coefficients_27_39 LARpp_j_1 LARpp_j);
          (S, t) = Short_term_analysis_filtering S LARp 13 (drop 27 s);
          s = take 27 s @ t;
          LARp = LARp_to_rp (Coefficients_40_159 LARpp_j);
          (S, t) = Short_term_analysis_filtering S LARp 120 (drop 40 s);
          s = take 40 s @ t
      in (S, s))"

definition Gsm_Short_Term_Synthesis_Filter ::
    "gsm_state \<Rightarrow> int list \<Rightarrow> int list \<Rightarrow> gsm_state \<times> int list" where
  "Gsm_Short_Term_Synthesis_Filter S LARcr wt =
     (let j = S_j S;
          S = S\<lparr>S_j := j XOR 1\<rparr>;
          LARpp_j = Decoding_of_the_coded_Log_Area_Ratios LARcr;
          S = S\<lparr>S_LARpp := (S_LARpp S)[j := LARpp_j]\<rparr>;
          LARpp_j_1 = S_LARpp S ! (j XOR 1);
          LARp = LARp_to_rp (Coefficients_0_12 LARpp_j_1 LARpp_j);
          (S, s1) = Short_term_synthesis_filtering S LARp 13 wt;
          LARp = LARp_to_rp (Coefficients_13_26 LARpp_j_1 LARpp_j);
          (S, s2) = Short_term_synthesis_filtering S LARp 14 (drop 13 wt);
          LARp = LARp_to_rp (Coefficients_27_39 LARpp_j_1 LARpp_j);
          (S, s3) = Short_term_synthesis_filtering S LARp 13 (drop 27 wt);
          LARp = LARp_to_rp (Coefficients_40_159 LARpp_j);
          (S, s4) = Short_term_synthesis_filtering S LARp 120 (drop 40 wt)
      in (S, s1 @ s2 @ s3 @ s4))"

section \<open>Ranges\<close>

definition is_coeff :: "int \<Rightarrow> bool" where
  "is_coeff x \<longleftrightarrow> - 32767 \<le> x \<and> x \<le> 32767"

lemma is_coeff_word: "is_coeff x \<Longrightarrow> is_word x \<and> x \<noteq> MIN_WORD"
  by (auto simp: is_coeff_def is_word_def)

lemma LAR_step_word: "is_word (LAR_step B MIC INVA x)"
  by (simp add: LAR_step_def Let_def)

lemma Decoding_word:
  "length (Decoding_of_the_coded_Log_Area_Ratios LARc) = 8"
  "list_all is_word (Decoding_of_the_coded_Log_Area_Ratios LARc)"
  by (simp_all add: Decoding_of_the_coded_Log_Area_Ratios_def LAR_step_word)

lemma LARp_to_rp_coeff:
  assumes "list_all is_word LARp"
  shows "list_all is_coeff (LARp_to_rp LARp)" "length (LARp_to_rp LARp) = length LARp"
proof -
  have add: "26112 \<le> GSM_ADD (sasr x 2) 26112 \<and> GSM_ADD (sasr x 2) 26112 \<le> 32767"
    if "0 \<le> x" "x \<le> 32767" for x
    using that by (subst (1 2) GSM_ADD_saturate) (auto simp: is_word_def sasr_div saturate_def)
  define f where "f temp = (if temp < 11059 then shl temp 1 else if temp < 20070 then temp + 11059
    else GSM_ADD (sasr temp 2) 26112)" for temp
  have f: "0 \<le> f x \<and> f x \<le> 32767" if "0 \<le> x" "x \<le> 32767" for x
    using that add [OF that] by (auto simp: f_def shl_mult)
  have "LARp_to_rp LARp = map (\<lambda>x. if x < 0 then w16 (- f (if x = MIN_WORD then MAX_WORD else - x))
      else w16 (f x)) LARp"
    by (simp add: LARp_to_rp_def f_def Let_def)
  moreover have "is_coeff (if x < 0 then w16 (- f (if x = MIN_WORD then MAX_WORD else - x)) else w16 (f x))"
    if "is_word x" for x
    using that f [of "if x < 0 then (if x = MIN_WORD then MAX_WORD else - x) else x"]
    by (auto simp: is_coeff_def is_word_def w16_eq split: if_splits)
  ultimately show "list_all is_coeff (LARp_to_rp LARp)" using assms by (simp add: list_all_length)
  show "length (LARp_to_rp LARp) = length LARp" by (simp add: LARp_to_rp_def)
qed

lemma list_all_map2I:
  assumes "list_all P xs" "list_all P ys" "\<And>x y. P x \<Longrightarrow> P y \<Longrightarrow> P (f x y)"
  shows "list_all P (map2 f xs ys)"
  using assms by (auto simp: list_all_iff elim!: in_set_zipE)

lemma Coefficients_word:
  assumes "list_all is_word a" "list_all is_word b"
  shows "list_all is_word (Coefficients_0_12 a b)" "list_all is_word (Coefficients_13_26 a b)"
    "list_all is_word (Coefficients_27_39 a b)" "list_all is_word (Coefficients_40_159 b)"
proof -
  show "list_all is_word (Coefficients_0_12 a b)" unfolding Coefficients_0_12_def
    by (rule list_all_map2I [OF assms]) (auto simp: Let_def intro!: GSM_ADD_word sasr_word)
  show "list_all is_word (Coefficients_13_26 a b)" unfolding Coefficients_13_26_def
    by (rule list_all_map2I [OF assms]) (auto intro!: GSM_ADD_word sasr_word)
  show "list_all is_word (Coefficients_27_39 a b)" unfolding Coefficients_27_39_def
    by (rule list_all_map2I [OF assms]) (auto simp: Let_def intro!: GSM_ADD_word sasr_word)
  show "list_all is_word (Coefficients_40_159 b)" using assms(2) by (simp add: Coefficients_40_159_def)
qed

lemma synth_mult_eq:
  assumes "is_coeff a" "is_word b"
  shows "synth_mult a b = GSM_MULT_R a b" "w16 (GSM_MULT_R a b) = GSM_MULT_R a b"
proof -
  have w: "is_word (GSM_MULT_R a b)" using assms is_coeff_word by blast
  then show "w16 (GSM_MULT_R a b) = GSM_MULT_R a b" by simp
  have "w16 (0x0FFFF AND x) = w16 x" for x using w16_and_ffff [of x] by (simp add: and.commute)
  then show "synth_mult a b = GSM_MULT_R a b"
    using w assms(1) is_coeff_word [of a] by (auto simp: synth_mult_def GSM_MULT_R_def)
qed

section \<open>The lattice\<close>

text \<open>Forward residual and backward residual before stage \<open>i\<close> of the analysis.\<close>

primrec lattice :: "int list \<Rightarrow> int list \<Rightarrow> int \<Rightarrow> nat \<Rightarrow> int \<times> int" where
  "lattice rp u s 0 = (s, s)"
| "lattice rp u s (Suc i) =
     (let (di, sav) = lattice rp u s i
      in (GSM_ADD di (w16 (GSM_MULT_R (rp ! i) (u ! i))), GSM_ADD (u ! i) (w16 (GSM_MULT_R (rp ! i) di))))"

lemma lattice_word:
  assumes "list_all is_word u" "length u = 8" "is_word s" "i \<le> 8"
  shows "is_word (fst (lattice rp u s i)) \<and> is_word (snd (lattice rp u s i))"
  using assms(4)
proof (induction i)
  case (Suc i)
  then have "is_word (u ! i)" using assms(1,2) by (simp add: list_all_length)
  with Suc show ?case by (auto simp: Let_def split: prod.splits)
qed (simp add: assms(3))

lemma ana_steps:
  assumes "length u = 8" "n \<le> 8"
  shows "fold (ana_step rp) [0..<n] (u, s, s) =
    (map (\<lambda>i. snd (lattice rp u s i)) [0..<n] @ drop n u, lattice rp u s n)"
  using assms(2)
proof (induction n)
  case (Suc n)
  let ?u = "map (\<lambda>i. snd (lattice rp u s i)) [0..<n] @ drop n u"
  have "?u ! n = u ! n" using assms(1) Suc.prems by (simp add: nth_append)
  moreover have "?u[n := x] = map (\<lambda>i. snd (lattice rp u s i)) [0..<n] @ x # drop (Suc n) u" for x
    using assms(1) Suc.prems Cons_nth_drop_Suc [of n u] by (simp add: list_update_append flip: Cons_nth_drop_Suc)
  ultimately show ?case
    using Suc by (simp add: ana_step_def Let_def split: prod.splits)
qed simp

lemma ana_sample_lattice:
  assumes "length u = 8"
  shows "ana_sample rp u s = (map (\<lambda>i. snd (lattice rp u s i)) [0..<8], fst (lattice rp u s 8))"
  using ana_steps [OF assms, of 8 rp s] assms by (simp add: ana_sample_def split: prod.splits)

lemma ana_sample_word:
  assumes "list_all is_word u" "length u = 8" "is_word s" "ana_sample rp u s = (u', d)"
  shows "list_all is_word u'" "length u' = 8" "is_word d"
  using assms(4) lattice_word [OF assms(1-3)] unfolding ana_sample_lattice [OF assms(2)]
  by (auto simp: list_all_iff)

lemma ana_samples_word:
  assumes "list_all is_word u" "length u = 8" "list_all is_word ss" "ana_samples rp u ss = (u', ds)"
  shows "list_all is_word u' \<and> length u' = 8 \<and> list_all is_word ds \<and> length ds = length ss"
  using assms
proof (induction ss arbitrary: u u' ds)
  case (Cons s ss)
  obtain u1 d where 1: "ana_sample rp u s = (u1, d)" by force
  obtain u2 ds' where 2: "ana_samples rp u1 ss = (u2, ds')" by force
  have "list_all is_word u1" "length u1 = 8" "is_word d"
    using ana_sample_word [OF Cons.prems(1,2) _ 1] Cons.prems(3) by auto
  with Cons.IH [OF _ _ _ 2] Cons.prems 1 2 show ?case by auto
qed simp

section \<open>The synthesis lattice undoes the analysis lattice\<close>

text \<open>No addition on the forward path of the analysis saturates.\<close>

definition no_clip :: "int list \<Rightarrow> int list \<Rightarrow> int \<Rightarrow> bool" where
  "no_clip rp u s \<longleftrightarrow> (\<forall>i<8. is_word (fst (lattice rp u s i) + GSM_MULT_R (rp ! i) (u ! i)))"

lemma synth_undoes_stage:
  assumes "is_coeff r" "is_word x" "is_word d" "is_word (d + GSM_MULT_R r x)"
  shows "GSM_SUB (GSM_ADD d (w16 (GSM_MULT_R r x))) (synth_mult r x) = d"
  using assms is_coeff_word [OF assms(1)] GSM_MULT_R_word [of r x]
  by (simp add: synth_mult_eq GSM_ADD_saturate saturate_eq GSM_SUB_saturate)

lemma synth_steps_lattice:
  assumes "list_all is_coeff rp" "length rp = 8" "list_all is_word u" "length u = 8" "is_word s"
    and "no_clip rp u s" "take 8 v = u" "length v = 9" "k \<le> 8"
  shows "fold (synth_step rp) (rev [8 - k..<8]) (v, fst (lattice rp u s 8)) =
    (take (9 - k) v @ map (\<lambda>i. snd (lattice rp u s i)) [9 - k..<9], fst (lattice rp u s (8 - k)))"
  using assms(9)
proof (induction k)
  case 0
  then show ?case using assms(8) by simp
next
  case (Suc k)
  let ?d = "\<lambda>i. fst (lattice rp u s i)" and ?b = "\<lambda>i. snd (lattice rp u s i)"
  define i where "i = 7 - k"
  have i: "i < 8" "8 - Suc k = i" "8 - k = Suc i" "9 - Suc k = Suc i" "9 - k = Suc (Suc i)"
    using Suc.prems by (auto simp: i_def)
  let ?v = "take (Suc (Suc i)) v @ map ?b [Suc (Suc i)..<9]"
  have vi: "v ! i = u ! i" "?v ! i = u ! i" using assms(7,8) i(1) by (auto simp: nth_append)
  have w: "is_coeff (rp ! i)" "is_word (u ! i)" "is_word (?d i)"
    using assms(1-4) i(1) lattice_word [OF assms(3-5), of i rp] by (auto simp: list_all_length)
  have d: "GSM_SUB (?d (Suc i)) (synth_mult (rp ! i) (u ! i)) = ?d i"
    using synth_undoes_stage [OF w] assms(6) i(1) by (simp add: no_clip_def Let_def case_prod_beta)
  have b: "GSM_ADD (u ! i) (synth_mult (rp ! i) (?d i)) = ?b (Suc i)"
    using synth_mult_eq [OF w(1,3)] by (simp add: Let_def case_prod_beta)
  have upd: "?v[Suc i := x] = take (Suc i) v @ x # map ?b [Suc (Suc i)..<9]" for x
    using assms(8) i(1) by (simp add: list_update_append take_Suc_conv_app_nth)
  have "rev [8 - Suc k..<8] = rev [Suc i..<8] @ [i]" using i by (simp add: upt_rec)
  moreover have "synth_step rp i (?v, ?d (Suc i)) = (take (Suc i) v @ map ?b [Suc i..<9], ?d i)"
    unfolding synth_step_def Let_def prod.case vi d using i(1) b upd by (simp add: upt_rec [of "Suc i" 9])
  ultimately show ?case using Suc i by simp
qed

lemma synth_sample_inverse:
  assumes "list_all is_coeff rp" "length rp = 8" "list_all is_word u" "length u = 8" "is_word s"
    and "no_clip rp u s" "take 8 v = u" "length v = 9" "ana_sample rp u s = (u', d)"
  obtains v' where "synth_sample rp v d = (v', s)" "take 8 v' = u'" "length v' = 9"
proof -
  have d: "d = fst (lattice rp u s 8)" and u': "u' = map (\<lambda>i. snd (lattice rp u s i)) [0..<8]"
    using assms(9) by (auto simp: ana_sample_lattice [OF assms(4)])
  let ?v = "take 1 v @ map (\<lambda>i. snd (lattice rp u s i)) [1..<9]"
  have r: "synth_sample rp v d = (?v[0 := s], s)"
    using synth_steps_lattice [OF assms(1-8), of 8] by (simp add: synth_sample_def d)
  moreover have "take 8 (?v[0 := s]) = u'"
    using assms(8) unfolding u' by (intro nth_equalityI) (auto simp: nth_list_update nth_append)
  ultimately show ?thesis using that assms(8) by auto
qed

lemma synth_mult_word: "is_word (synth_mult a b)"
  by (simp add: synth_mult_def)

lemma synth_step_word:
  assumes "list_all is_word v" "length v = 9" "i < 8" "is_word w" "synth_step rp i (v, w) = (v', sri)"
  shows "list_all is_word v' \<and> length v' = 9 \<and> is_word sri"
proof -
  have "is_word (v ! i)" using assms(1-3) by (simp add: list_all_length)
  then have "list_all is_word (v[i + 1 := GSM_ADD (v ! i) (synth_mult a b)])" for a b
    using assms(1) synth_mult_word by (intro list_all_update GSM_ADD_word)
  with assms(2,5) show ?thesis by (auto simp: synth_step_def Let_def)
qed

lemma synth_steps_word:
  assumes "list_all is_word v" "length v = 9" "set is \<subseteq> {..<8}" "is_word w"
    "fold (synth_step rp) is (v, w) = (v', sri)"
  shows "list_all is_word v' \<and> length v' = 9 \<and> is_word sri"
  using assms
proof (induction "is" arbitrary: v w)
  case (Cons i "is")
  obtain v1 w1 where 1: "synth_step rp i (v, w) = (v1, w1)" by force
  with synth_step_word [OF Cons.prems(1,2) _ Cons.prems(4) 1] Cons.IH [of v1 w1] Cons.prems show ?case by auto
qed simp

lemma synth_sample_word:
  assumes "list_all is_word v" "length v = 9" "is_word w" "synth_sample rp v w = (v', sr)"
  shows "list_all is_word v' \<and> length v' = 9 \<and> is_word sr"
proof -
  obtain v1 sri where 1: "fold (synth_step rp) (rev [0..<8]) (v, w) = (v1, sri)" by force
  from synth_steps_word [OF assms(1,2) _ assms(3) 1]
  have "list_all is_word v1 \<and> length v1 = 9 \<and> is_word sri" by (simp add: lessThan_atLeast0)
  with assms(4) 1 show ?thesis by (auto simp: synth_sample_def intro: list_all_update)
qed

lemma synth_samples_word:
  assumes "list_all is_word v" "length v = 9" "list_all is_word ws" "synth_samples rp v ws = (v', srs)"
  shows "list_all is_word v' \<and> length v' = 9 \<and> list_all is_word srs \<and> length srs = length ws"
  using assms
proof (induction ws arbitrary: v v' srs)
  case (Cons w ws)
  obtain v1 sr where 1: "synth_sample rp v w = (v1, sr)" by force
  obtain v2 srs' where 2: "synth_samples rp v1 ws = (v2, srs')" by force
  have "list_all is_word v1 \<and> length v1 = 9 \<and> is_word sr"
    using synth_sample_word [OF Cons.prems(1,2) _ 1] Cons.prems(3) by auto
  with Cons.IH [OF _ _ _ 2] Cons.prems 1 2 show ?case by auto
qed simp

section \<open>Whole frames\<close>

text \<open>A frame is filtered in four blocks, each with its own reflection coefficients.\<close>

definition frame_blocks :: "int list \<Rightarrow> int list \<Rightarrow> int list \<Rightarrow> (int list \<times> int list) list" where
  "frame_blocks LARpp_j_1 LARpp_j s =
    [(LARp_to_rp (Coefficients_0_12 LARpp_j_1 LARpp_j), take 13 s),
     (LARp_to_rp (Coefficients_13_26 LARpp_j_1 LARpp_j), take 14 (drop 13 s)),
     (LARp_to_rp (Coefficients_27_39 LARpp_j_1 LARpp_j), take 13 (drop 27 s)),
     (LARp_to_rp (Coefficients_40_159 LARpp_j), take 120 (drop 40 s))]"

primrec ana_blocks :: "(int list \<times> int list) list \<Rightarrow> int list \<Rightarrow> int list \<times> int list" where
  "ana_blocks [] u = (u, [])"
| "ana_blocks (b # bs) u =
     (let (u, ds) = ana_samples (fst b) u (snd b); (u, es) = ana_blocks bs u in (u, ds @ es))"

primrec synth_blocks :: "(int list \<times> int list) list \<Rightarrow> int list \<Rightarrow> int list \<times> int list" where
  "synth_blocks [] v = (v, [])"
| "synth_blocks (b # bs) v =
     (let (v, ds) = synth_samples (fst b) v (snd b); (v, es) = synth_blocks bs v in (v, ds @ es))"

lemma length_ana_samples: "length (snd (ana_samples rp u ss)) = length ss"
  by (induction ss arbitrary: u) (auto simp: Let_def case_prod_beta)

definition frame_LARpp :: "gsm_state \<Rightarrow> int list \<Rightarrow> int list list" where
  "frame_LARpp S LARc = (S_LARpp S)[S_j S := Decoding_of_the_coded_Log_Area_Ratios LARc]"

lemma analysis_filter_blocks:
  assumes "length s = 160"
    and "ana_blocks (frame_blocks (frame_LARpp S LARc ! (S_j S XOR 1))
      (Decoding_of_the_coded_Log_Area_Ratios LARc) s) (S_u S) = (u', d)"
  shows "Gsm_Short_Term_Analysis_Filter S LARc s
    = (S\<lparr>S_u := u', S_LARpp := frame_LARpp S LARc, S_j := S_j S XOR 1\<rparr>, d)"
proof -
  have len: "ana_samples rp u ss = (u', ds) \<Longrightarrow> length ds = length ss" for rp u ss u' ds
    using length_ana_samples [of rp u ss] by simp
  let ?a = "frame_LARpp S LARc ! (S_j S XOR 1)" and ?b = "Decoding_of_the_coded_Log_Area_Ratios LARc"
  obtain u1 d1 where 1: "ana_samples (LARp_to_rp (Coefficients_0_12 ?a ?b)) (S_u S) (take 13 s) = (u1, d1)"
    by force
  obtain u2 d2 where 2: "ana_samples (LARp_to_rp (Coefficients_13_26 ?a ?b)) u1 (take 14 (drop 13 s)) = (u2, d2)"
    by force
  obtain u3 d3 where 3: "ana_samples (LARp_to_rp (Coefficients_27_39 ?a ?b)) u2 (take 13 (drop 27 s)) = (u3, d3)"
    by force
  obtain u4 d4 where 4: "ana_samples (LARp_to_rp (Coefficients_40_159 ?b)) u3 (take 120 (drop 40 s)) = (u4, d4)"
    by force
  have "length d1 = 13" "length d2 = 14" "length d3 = 13" "length d4 = 120"
    using len [OF 1] len [OF 2] len [OF 3] len [OF 4] assms(1) by simp_all
  with assms 1 2 3 4 show ?thesis
    unfolding Gsm_Short_Term_Analysis_Filter_def frame_blocks_def Short_term_analysis_filtering_def
    by (simp add: Let_def flip: frame_LARpp_def)
qed

lemma synthesis_filter_blocks:
  assumes "synth_blocks (frame_blocks (frame_LARpp S LARc ! (S_j S XOR 1))
      (Decoding_of_the_coded_Log_Area_Ratios LARc) wt) (S_v S) = (v', s)"
  shows "Gsm_Short_Term_Synthesis_Filter S LARc wt
    = (S\<lparr>S_v := v', S_LARpp := frame_LARpp S LARc, S_j := S_j S XOR 1\<rparr>, s)"
proof -
  let ?a = "frame_LARpp S LARc ! (S_j S XOR 1)" and ?b = "Decoding_of_the_coded_Log_Area_Ratios LARc"
  obtain v1 s1 where 1: "synth_samples (LARp_to_rp (Coefficients_0_12 ?a ?b)) (S_v S) (take 13 wt) = (v1, s1)"
    by force
  obtain v2 s2 where 2: "synth_samples (LARp_to_rp (Coefficients_13_26 ?a ?b)) v1 (take 14 (drop 13 wt)) = (v2, s2)"
    by force
  obtain v3 s3 where 3: "synth_samples (LARp_to_rp (Coefficients_27_39 ?a ?b)) v2 (take 13 (drop 27 wt)) = (v3, s3)"
    by force
  obtain v4 s4 where 4: "synth_samples (LARp_to_rp (Coefficients_40_159 ?b)) v3 (take 120 (drop 40 wt)) = (v4, s4)"
    by force
  from assms 1 2 3 4 show ?thesis
    unfolding Gsm_Short_Term_Synthesis_Filter_def frame_blocks_def Short_term_synthesis_filtering_def
    by (simp add: Let_def flip: frame_LARpp_def)
qed

lemma ana_blocks_word:
  assumes "list_all is_word u" "length u = 8" "\<forall>b \<in> set bs. list_all is_word (snd b)"
    and "ana_blocks bs u = (u', d)"
  shows "list_all is_word u' \<and> length u' = 8 \<and> list_all is_word d \<and> length d = (\<Sum>b\<leftarrow>bs. length (snd b))"
  using assms
proof (induction bs arbitrary: u u' d)
  case (Cons b bs)
  obtain u1 d1 where 1: "ana_samples (fst b) u (snd b) = (u1, d1)" by force
  obtain u2 d2 where 2: "ana_blocks bs u1 = (u2, d2)" by force
  have "list_all is_word u1 \<and> length u1 = 8 \<and> list_all is_word d1 \<and> length d1 = length (snd b)"
    using ana_samples_word [OF Cons.prems(1,2) _ 1] Cons.prems(3) by simp
  with Cons.IH [OF _ _ _ 2] Cons.prems(3) have "list_all is_word u2 \<and> length u2 = 8
      \<and> list_all is_word d2 \<and> length d2 = (\<Sum>b\<leftarrow>bs. length (snd b))" by simp
  with Cons.prems(4) 1 2 \<open>list_all is_word u1 \<and> _\<close> show ?case by auto
qed simp

lemma synth_blocks_word:
  assumes "list_all is_word v" "length v = 9" "\<forall>b \<in> set bs. list_all is_word (snd b)"
    and "synth_blocks bs v = (v', d)"
  shows "list_all is_word v' \<and> length v' = 9 \<and> list_all is_word d \<and> length d = (\<Sum>b\<leftarrow>bs. length (snd b))"
  using assms
proof (induction bs arbitrary: v v' d)
  case (Cons b bs)
  obtain v1 d1 where 1: "synth_samples (fst b) v (snd b) = (v1, d1)" by force
  obtain v2 d2 where 2: "synth_blocks bs v1 = (v2, d2)" by force
  have "list_all is_word v1 \<and> length v1 = 9 \<and> list_all is_word d1 \<and> length d1 = length (snd b)"
    using synth_samples_word [OF Cons.prems(1,2) _ 1] Cons.prems(3) by simp
  with Cons.IH [OF _ _ _ 2] Cons.prems(3) have "list_all is_word v2 \<and> length v2 = 9
      \<and> list_all is_word d2 \<and> length d2 = (\<Sum>b\<leftarrow>bs. length (snd b))" by simp
  with Cons.prems(4) 1 2 \<open>list_all is_word v1 \<and> _\<close> show ?case by auto
qed simp

lemma frame_blocks_word:
  assumes "list_all is_word s" "length s = 160"
  shows "\<forall>b \<in> set (frame_blocks a c s). list_all is_word (snd b)"
    "(\<Sum>b\<leftarrow>frame_blocks a c s. length (snd b)) = 160"
  using assms by (auto simp: frame_blocks_def list_all_iff dest: in_set_takeD in_set_dropD)

primrec no_clips :: "int list \<Rightarrow> int list \<Rightarrow> int list \<Rightarrow> bool" where
  "no_clips rp u [] = True"
| "no_clips rp u (s # ss) \<longleftrightarrow> no_clip rp u s \<and> no_clips rp (fst (ana_sample rp u s)) ss"

primrec no_clip_blocks :: "(int list \<times> int list) list \<Rightarrow> int list \<Rightarrow> bool" where
  "no_clip_blocks [] u = True"
| "no_clip_blocks (b # bs) u \<longleftrightarrow> no_clips (fst b) u (snd b)
     \<and> no_clip_blocks bs (fst (ana_samples (fst b) u (snd b)))"

lemma synth_samples_inverse:
  assumes "list_all is_coeff rp" "length rp = 8" "list_all is_word u" "length u = 8" "list_all is_word ss"
    and "no_clips rp u ss" "take 8 v = u" "length v = 9" "ana_samples rp u ss = (u', ds)"
  obtains v' where "synth_samples rp v ds = (v', ss)" "take 8 v' = u'" "length v' = 9"
proof -
  have "\<exists>v'. synth_samples rp v ds = (v', ss) \<and> take 8 v' = u' \<and> length v' = 9"
    using assms(3-9)
  proof (induction ss arbitrary: u v u' ds)
    case (Cons s ss)
    obtain u1 d where 1: "ana_sample rp u s = (u1, d)" by force
    obtain u2 ds' where 2: "ana_samples rp u1 ss = (u2, ds')" by force
    have s: "is_word s" "no_clip rp u s" using Cons.prems(3,4) by auto
    obtain v1 where v1: "synth_sample rp v d = (v1, s)" "take 8 v1 = u1" "length v1 = 9"
      using synth_sample_inverse [OF assms(1,2) Cons.prems(1,2) s Cons.prems(5,6) 1] .
    have "list_all is_word u1" "length u1 = 8" using ana_sample_word [OF Cons.prems(1,2) s(1) 1] by auto
    with Cons.IH [OF _ _ _ _ v1(2,3) 2] Cons.prems(3,4) 1
    obtain v2 where "synth_samples rp v1 ds' = (v2, ss)" "take 8 v2 = u2" "length v2 = 9" by auto
    with v1 1 2 Cons.prems(7) show ?case by auto
  qed simp
  then show ?thesis using that by blast
qed

text \<open>The four blocks share the boundary at samples 13, 27 and 40 with the four blocks of the output.\<close>

lemma frame_inverse:
  assumes "list_all is_word a" "length a = 8" "list_all is_word c" "length c = 8"
    and "list_all is_word u" "length u = 8" "list_all is_word s" "length s = 160"
    and "no_clip_blocks (frame_blocks a c s) u" "take 8 v = u" "length v = 9"
    and "ana_blocks (frame_blocks a c s) u = (u', d)"
  obtains v' where "synth_blocks (frame_blocks a c d) v = (v', s)" "take 8 v' = u'" "length v' = 9"
proof -
  let ?r0 = "LARp_to_rp (Coefficients_0_12 a c)" and ?r1 = "LARp_to_rp (Coefficients_13_26 a c)"
    and ?r2 = "LARp_to_rp (Coefficients_27_39 a c)" and ?r3 = "LARp_to_rp (Coefficients_40_159 c)"
  let ?s0 = "take 13 s" and ?s1 = "take 14 (drop 13 s)" and ?s2 = "take 13 (drop 27 s)"
    and ?s3 = "take 120 (drop 40 s)"
  have rp: "list_all is_coeff ?r0" "list_all is_coeff ?r1" "list_all is_coeff ?r2" "list_all is_coeff ?r3"
    "length ?r0 = 8" "length ?r1 = 8" "length ?r2 = 8" "length ?r3 = 8"
    using Coefficients_word [OF assms(1,3)] assms(2,4)
    by (simp_all add: LARp_to_rp_coeff) (simp_all add: Coefficients_0_12_def
        Coefficients_13_26_def Coefficients_27_39_def Coefficients_40_159_def)
  obtain u0 d0 where 0: "ana_samples ?r0 u ?s0 = (u0, d0)" by force
  obtain u1 d1 where 1: "ana_samples ?r1 u0 ?s1 = (u1, d1)" by force
  obtain u2 d2 where 2: "ana_samples ?r2 u1 ?s2 = (u2, d2)" by force
  obtain u3 d3 where 3: "ana_samples ?r3 u2 ?s3 = (u3, d3)" by force
  have d: "d = d0 @ d1 @ d2 @ d3" "u' = u3" using assms(12) by (simp_all add: frame_blocks_def 0 1 2 3)
  have nc: "no_clips ?r0 u ?s0" "no_clips ?r1 u0 ?s1" "no_clips ?r2 u1 ?s2" "no_clips ?r3 u2 ?s3"
    using assms(9) by (simp_all add: frame_blocks_def 0 1 2 3)
  have sw: "list_all is_word ?s0" "list_all is_word ?s1" "list_all is_word ?s2" "list_all is_word ?s3"
    using frame_blocks_word(1) [OF assms(7,8), of a c] by (auto simp: frame_blocks_def)
  note w0 = ana_samples_word [OF assms(5,6) sw(1) 0]
  have w1: "list_all is_word u1" "length u1 = 8" "length d1 = length ?s1"
    using w0 ana_samples_word [OF _ _ sw(2) 1] by auto
  have w2: "list_all is_word u2" "length u2 = 8" "length d2 = length ?s2"
    using ana_samples_word [OF w1(1,2) sw(3) 2] by auto
  have w3: "length d3 = length ?s3" using ana_samples_word [OF w2(1,2) sw(4) 3] by simp
  obtain v0 where v0: "synth_samples ?r0 v d0 = (v0, ?s0)" "take 8 v0 = u0" "length v0 = 9"
    using synth_samples_inverse [OF rp(1,5) assms(5,6) sw(1) nc(1) assms(10,11) 0] .
  obtain v1 where v1: "synth_samples ?r1 v0 d1 = (v1, ?s1)" "take 8 v1 = u1" "length v1 = 9"
    using synth_samples_inverse [OF rp(2,6) _ _ sw(2) nc(2) v0(2,3) 1] w0 by blast
  obtain v2 where v2: "synth_samples ?r2 v1 d2 = (v2, ?s2)" "take 8 v2 = u2" "length v2 = 9"
    using synth_samples_inverse [OF rp(3,7) w1(1,2) sw(3) nc(3) v1(2,3) 2] .
  obtain v3 where v3: "synth_samples ?r3 v2 d3 = (v3, ?s3)" "take 8 v3 = u3" "length v3 = 9"
    using synth_samples_inverse [OF rp(4,8) w2(1,2) sw(4) nc(4) v2(2,3) 3] .
  have "length d0 = 13" "length d1 = 14" "length d2 = 13" "length d3 = 120"
    using w0 w1 w2 w3 assms(8) by simp_all
  moreover have "?s0 @ ?s1 @ ?s2 @ ?s3 = s"
    using assms(8) append_take_drop_id [of 13 s] append_take_drop_id [of 14 "drop 13 s"]
      append_take_drop_id [of 13 "drop 27 s"] by simp
  ultimately have "synth_blocks (frame_blocks a c d) v = (v3, s)"
    unfolding frame_blocks_def d by (simp add: v0 v1 v2 v3)
  then show ?thesis using that v3 d by blast
qed

section \<open>Properties\<close>

lemma lattice_zero: "i \<le> 8 \<Longrightarrow> lattice rp (replicate 8 0) 0 i = (0, 0)"
proof (induction i)
  case (Suc i)
  then show ?case by (simp add: GSM_MULT_R_def GSM_ADD_def sasr_div w16_eq u64_eq)
qed simp

lemma no_clips_zero:
  "no_clips rp (replicate 8 0) (replicate n 0) \<and> fst (ana_samples rp (replicate 8 0) (replicate n 0)) = replicate 8 0"
proof (induction n)
  case (Suc n)
  have "map (\<lambda>i. snd (lattice rp (replicate 8 0) 0 i)) [0..<8] = replicate 8 0"
    by (rule nth_equalityI) (simp_all add: lattice_zero)
  then have "ana_sample rp (replicate 8 0) 0 = (replicate 8 0, 0)"
    using ana_sample_lattice [of "replicate 8 0" rp 0] by (simp add: lattice_zero)
  moreover have "no_clip rp (replicate 8 0) 0"
    by (simp add: no_clip_def lattice_zero GSM_MULT_R_def sasr_div is_word_def)
  ultimately show ?case using Suc by (simp add: case_prod_beta Let_def)
qed simp

text \<open>C25 (synthesis undoes analysis): when coder and decoder hold the same area ratios and the
  decoder's filter memory mirrors the coder's, the synthesis filter returns from the residual of
  \<open>Gsm_Short_Term_Analysis_Filter\<close> exactly the 160 samples that went in, through the four
  interpolated coefficient sets of the frame, and the memories mirror each other again; the only
  condition is that no lattice stage of the analysis saturates.\<close>

theorem short_term_filters_inverse:
  assumes "state_inv S" "state_inv D" "list_all is_word s" "length s = 160"
    and "S_LARpp D = S_LARpp S" "S_j D = S_j S" "take 8 (S_v D) = S_u S"
    and "no_clip_blocks (frame_blocks (frame_LARpp S LARc ! (S_j S XOR 1))
      (Decoding_of_the_coded_Log_Area_Ratios LARc) s) (S_u S)"
    and "Gsm_Short_Term_Analysis_Filter S LARc s = (S', d)"
    and "Gsm_Short_Term_Synthesis_Filter D LARc d = (D', t)"
  shows "t = s \<and> S_LARpp D' = S_LARpp S' \<and> S_j D' = S_j S' \<and> take 8 (S_v D') = S_u S'"
proof -
  let ?a = "frame_LARpp S LARc ! (S_j S XOR 1)" and ?c = "Decoding_of_the_coded_Log_Area_Ratios LARc"
  obtain u' d0 where ana: "ana_blocks (frame_blocks ?a ?c s) (S_u S) = (u', d0)" by force
  have w: "list_all is_word ?a" "length ?a = 8" "list_all is_word ?c" "length ?c = 8"
    "list_all is_word (S_u S)" "length (S_u S) = 8" "length (S_v D) = 9"
    using assms(1,2) Decoding_word [of LARc]
    by (auto simp: state_inv_def frame_LARpp_def list_all_length nth_list_update length_Suc_conv numeral_2_eq_2)
  have S': "S' = S\<lparr>S_u := u', S_LARpp := frame_LARpp S LARc, S_j := S_j S XOR 1\<rparr>" "d = d0"
    using analysis_filter_blocks [OF assms(4) ana] assms(9) by simp_all
  obtain v' where v: "synth_blocks (frame_blocks ?a ?c d) (S_v D) = (v', s)" "take 8 v' = u'"
    using frame_inverse [OF w(1-6) assms(3,4,8,7) w(7) ana] S'(2) by metis
  have fr: "frame_LARpp D LARc = frame_LARpp S LARc" using assms(5,6) by (simp add: frame_LARpp_def)
  have "Gsm_Short_Term_Synthesis_Filter D LARc d
      = (D\<lparr>S_v := v', S_LARpp := frame_LARpp S LARc, S_j := S_j S XOR 1\<rparr>, s)"
    using synthesis_filter_blocks [of D LARc d v' s] v(1) assms(6) by (simp add: fr)
  then show ?thesis using assms(10) S' v(2) by auto
qed

theorem short_term_filters_inverse_witness:
  "let S = gsm_zero\<lparr>S_nrp := 40\<rparr>; (S', d) = Gsm_Short_Term_Analysis_Filter S (replicate 8 5) (replicate 160 0);
     (D', t) = Gsm_Short_Term_Synthesis_Filter S (replicate 8 5) d
   in t = replicate 160 0 \<and> take 8 (S_v D') = S_u S'"
proof -
  let ?S = "gsm_zero\<lparr>S_nrp := 40\<rparr>" and ?L = "replicate 8 (5 :: int)" and ?z = "replicate 160 (0 :: int)"
  have inv: "state_inv ?S" by (rule gsm_create_inv [of True]) (simp add: gsm_create_def)
  have n: "no_clip_blocks (frame_blocks (frame_LARpp ?S ?L ! (S_j ?S XOR 1))
      (Decoding_of_the_coded_Log_Area_Ratios ?L) ?z) (S_u ?S)"
    unfolding frame_blocks_def using no_clips_zero by (simp add: gsm_zero_def)
  obtain S' d D' t where r: "Gsm_Short_Term_Analysis_Filter ?S ?L ?z = (S', d)"
    "Gsm_Short_Term_Synthesis_Filter ?S ?L d = (D', t)" by (metis prod.exhaust)
  have z: "list_all is_word ?z" "length ?z = 160" "take 8 (S_v ?S) = S_u ?S"
    by (simp_all add: list_all_replicate is_word_def gsm_zero_def)
  show ?thesis
    using short_term_filters_inverse [OF inv inv z(1,2) refl refl z(3) n r] by (simp only: r Let_def prod.case)
qed

end
