(* ===== verification/Gsm_Long_Term.thy ===== *)
theory Gsm_Long_Term
  imports Gsm_Rpe
begin

text \<open>
  The long-term predictor, \<open>telecomm/gsm/src/long_term.c\<close> (the integer version that the build
  selects). The residual history is the array \<open>dp0[280]\<close> of the codec state; a pointer into it
  is the list together with an offset, so that the aliasing of \<open>dp\<close> and \<open>dpp\<close> in \<open>code.c\<close> is
  explicit: \<open>dp[k - Nc]\<close> is position \<open>off + k - Nc\<close> and \<open>dpp[k]\<close> position \<open>off + k\<close>. As in
  \<open>Gsm_Rpe\<close>, \<open>e[0..39]\<close> is positions 5 to 44 of the 50-element array.

  The lemmas show that the lag search returns the first lag of maximal cross-correlation, that
  no assertion can fail, and that the analysis filter of the coder and the synthesis filter of
  the decoder predict the same signal (\<open>ltp_estimate\<close>) from the same 120 samples of history.
\<close>

section \<open>Lag and gain\<close>

definition LTP_scal :: "int list \<Rightarrow> int option" where
  "LTP_scal d = do {
     let dmax = max_abs d;
     temp \<leftarrow> (if dmax = 0 then Some 0
       else do { c_assert (dmax > 0); gsm_norm (shl dmax 16) });
     let scal = (if temp > 6 then 0 else 6 - temp);
     c_assert (scal \<ge> 0);
     Some scal
   }"

definition LTP_correlation :: "int list \<Rightarrow> int list \<Rightarrow> nat \<Rightarrow> nat \<Rightarrow> int" where
  "LTP_correlation wt dp0 off lambda =
     fold (\<lambda>k L_result. L_result + wt ! k * dp0 ! (off + k - lambda)) [1..<40]
       (wt ! 0 * dp0 ! (off - lambda))"

definition LTP_search :: "(nat \<Rightarrow> int) \<Rightarrow> nat list \<Rightarrow> int \<times> int \<Rightarrow> int \<times> int" where
  "LTP_search corr = fold (\<lambda>lambda (Nc, L_max).
     let L_result = corr lambda in
     if L_result > L_max then (int lambda, L_result) else (Nc, L_max))"

definition LTP_power :: "int list \<Rightarrow> nat \<Rightarrow> nat \<Rightarrow> int" where
  "LTP_power dp0 off Nc =
     fold (\<lambda>k L_power. let L_temp = sasr (dp0 ! (off + k - Nc)) 3 in L_power + L_temp * L_temp) [0..<40] 0"

definition LTP_gain :: "int \<Rightarrow> int \<Rightarrow> int" where
  "LTP_gain R S =
     (if R \<le> gsm_mult S (gsm_DLB ! 0) then 0
      else if R \<le> gsm_mult S (gsm_DLB ! 1) then 1
      else if R \<le> gsm_mult S (gsm_DLB ! 2) then 2 else 3)"

definition Calculation_of_the_LTP_parameters ::
    "int list \<Rightarrow> int list \<Rightarrow> nat \<Rightarrow> (int \<times> int) option" where
  "Calculation_of_the_LTP_parameters d dp0 off = do {
     scal \<leftarrow> LTP_scal d;
     let wt = map (\<lambda>k. sasr (d ! k) (nat scal)) [0..<40];
     let (Nc, L_max) = LTP_search (LTP_correlation wt dp0 off) [40..<121] (40, 0);
     let L_max = shl L_max 1;
     c_assert (scal \<le> 100 \<and> scal \<ge> - 100);
     let L_max = sasr L_max (nat (6 - scal));
     c_assert (Nc \<le> 120 \<and> Nc \<ge> 40);
     let L_power = shl (LTP_power dp0 off (nat Nc)) 1;
     if L_max \<le> 0 then Some (0, Nc)
     else if L_max \<ge> L_power then Some (3, Nc)
     else do {
       temp \<leftarrow> gsm_norm L_power;
       let R = w16 (sasr (shl L_max (nat temp)) 16);
       let S = w16 (sasr (shl L_power (nat temp)) 16);
       Some (LTP_gain R S, Nc)
     }
   }"

section \<open>Analysis and synthesis filters\<close>

definition LTP_filter_step ::
    "int \<Rightarrow> int \<Rightarrow> nat \<Rightarrow> int list \<Rightarrow> nat \<Rightarrow> int list \<times> int list \<Rightarrow> int list \<times> int list" where
  "LTP_filter_step BP Nc off d k st =
     (case st of (dp0, e) \<Rightarrow>
        let dp0 = dp0[off + k := w16 (GSM_MULT_R BP (dp0 ! (off + k - nat Nc)))];
            e = e[5 + k := GSM_SUB (d ! k) (dp0 ! (off + k))]
        in (dp0, e))"

definition Long_term_analysis_filtering ::
    "int \<Rightarrow> int \<Rightarrow> int list \<Rightarrow> nat \<Rightarrow> int list \<Rightarrow> int list \<Rightarrow> int list \<times> int list" where
  "Long_term_analysis_filtering bc Nc dp0 off d e =
     (if bc = 0 then fold (LTP_filter_step 3277 Nc off d) [0..<40] (dp0, e)
      else if bc = 1 then fold (LTP_filter_step 11469 Nc off d) [0..<40] (dp0, e)
      else if bc = 2 then fold (LTP_filter_step 21299 Nc off d) [0..<40] (dp0, e)
      else if bc = 3 then fold (LTP_filter_step 32767 Nc off d) [0..<40] (dp0, e)
      else (dp0, e))"

definition Gsm_Long_Term_Predictor ::
    "int list \<Rightarrow> int list \<Rightarrow> nat \<Rightarrow> int list \<Rightarrow> (int list \<times> int list \<times> int \<times> int) option" where
  "Gsm_Long_Term_Predictor d dp0 off e = do {
     (bc, Nc) \<leftarrow> Calculation_of_the_LTP_parameters d dp0 off;
     let (dp0, e) = Long_term_analysis_filtering bc Nc dp0 off d e;
     Some (dp0, e, Nc, bc)
   }"

definition LTP_synth_step :: "int \<Rightarrow> int \<Rightarrow> int list \<Rightarrow> nat \<Rightarrow> int list \<Rightarrow> int list" where
  "LTP_synth_step brp Nr erp k dp0 =
     (let drpp = w16 (GSM_MULT_R brp (dp0 ! (120 + k - nat Nr)))
      in dp0[120 + k := GSM_ADD (erp ! k) drpp])"

definition Gsm_Long_Term_Synthesis_Filtering ::
    "int \<Rightarrow> int \<Rightarrow> int \<Rightarrow> int list \<Rightarrow> int list \<Rightarrow> (int \<times> int list) option" where
  "Gsm_Long_Term_Synthesis_Filtering nrp Ncr bcr erp dp0 = do {
     let Nr = (if Ncr < 40 \<or> Ncr > 120 then nrp else Ncr);
     c_assert (Nr \<ge> 40 \<and> Nr \<le> 120);
     let brp = gsm_QLB ! nat bcr;
     c_assert (brp \<noteq> MIN_WORD);
     let dp0 = fold (LTP_synth_step brp Nr erp) [0..<40] dp0;
     let dp0 = fold (\<lambda>k dp0. dp0[k := dp0 ! (40 + k)]) [0..<120] dp0;
     Some (Nr, dp0)
   }"

section \<open>The lag search\<close>

lemma LTP_correlation_sum:
  "LTP_correlation wt dp0 off lambda = (\<Sum>k<40. wt ! k * dp0 ! (off + k - lambda))"
proof -
  have f: "fold (\<lambda>k r. r + g k) xs a = a + sum_list (map g xs)" for g :: "nat \<Rightarrow> int" and xs a
    by (induction xs arbitrary: a) auto
  have "(\<Sum>k<40. wt ! k * dp0 ! (off + k - lambda)) =
      sum_list (map (\<lambda>k. wt ! k * dp0 ! (off + k - lambda)) (0 # [1..<40]))"
    by (simp add: interv_sum_list_conv_sum_set_nat atLeast0LessThan flip: upt_conv_Cons)
  then show ?thesis by (simp add: LTP_correlation_def f)
qed

text \<open>The search keeps the first lag that attains a strictly positive maximum.\<close>

lemma LTP_search_invariant:
  assumes "LTP_search corr [40..<n] (40, 0) = (Nc, L_max)" "40 \<le> n"
  shows "0 \<le> L_max" "\<forall>l \<in> {40..<n}. corr l \<le> L_max"
    "(Nc = 40 \<and> L_max = 0) \<or> (Nc \<in> {40..<int n} \<and> L_max > 0 \<and> corr (nat Nc) = L_max
      \<and> (\<forall>l \<in> {40..<nat Nc}. corr l < L_max))"
proof -
  have "0 \<le> L_max \<and> (\<forall>l \<in> {40..<n}. corr l \<le> L_max) \<and>
    ((Nc = 40 \<and> L_max = 0) \<or> (Nc \<in> {40..<int n} \<and> L_max > 0 \<and> corr (nat Nc) = L_max
      \<and> (\<forall>l \<in> {40..<nat Nc}. corr l < L_max)))"
    using assms(2,1)
  proof (induction n arbitrary: Nc L_max rule: dec_induct)
    case base
    then show ?case by (simp add: LTP_search_def)
  next
    case (step n)
    obtain N M where pre: "LTP_search corr [40..<n] (40, 0) = (N, M)" by force
    have now: "(Nc, L_max) = (if corr n > M then (int n, corr n) else (N, M))"
      using step.prems pre step.hyps(1) by (simp add: LTP_search_def Let_def split: if_splits)
    note IH = step.IH [OF pre]
    show ?case
    proof (cases "corr n > M")
      case True
      with now have "Nc = int n" "L_max = corr n" by auto
      with True IH step.hyps(1) show ?thesis by (force simp: less_Suc_eq)
    next
      case False
      with now have "Nc = N" "L_max = M" by auto
      with False IH step.hyps(1) show ?thesis by (auto simp: less_Suc_eq)
    qed
  qed
  then show "0 \<le> L_max" "\<forall>l \<in> {40..<n}. corr l \<le> L_max"
    "(Nc = 40 \<and> L_max = 0) \<or> (Nc \<in> {40..<int n} \<and> L_max > 0 \<and> corr (nat Nc) = L_max
      \<and> (\<forall>l \<in> {40..<nat Nc}. corr l < L_max))" by blast+
qed

lemma LTP_search_range:
  "LTP_search corr [40..<121] (40, 0) = (Nc, L_max) \<Longrightarrow> 40 \<le> Nc \<and> Nc \<le> 120"
  using LTP_search_invariant(3) [of corr 121 Nc L_max] by auto

section \<open>No assertion fails\<close>

lemma LTP_scal_Some:
  assumes "list_all is_word d"
  obtains scal where "LTP_scal d = Some scal" "0 \<le> scal" "scal \<le> 6"
proof (cases "max_abs d = 0")
  case True
  then show ?thesis by (intro that [of 6]) (simp_all add: LTP_scal_def)
next
  case False
  with max_abs_bounds [OF assms] have m: "0 < shl (max_abs d) 16" "shl (max_abs d) 16 < 2 ^ 31"
    "0 < max_abs d" by (auto simp: shl_mult)
  obtain n where "gsm_norm (shl (max_abs d) 16) = Some (int n)" using gsm_norm_pos [OF m(1,2)] by blast
  with m(3) show ?thesis
    by (intro that [of "if int n > 6 then 0 else 6 - int n"]) (auto simp: LTP_scal_def)
qed

lemma LTP_power_bounds:
  assumes "list_all is_word dp0" "\<And>k. k < 40 \<Longrightarrow> off + k - Nc < length dp0"
  shows "0 \<le> LTP_power dp0 off Nc" "LTP_power dp0 off Nc \<le> 40 * 2 ^ 24"
proof -
  have sq: "0 \<le> sasr x 3 * sasr x 3 \<and> sasr x 3 * sasr x 3 \<le> 2 ^ 24" if "is_word x" for x
  proof -
    have "\<bar>sasr x 3\<bar> \<le> 2 ^ 12" using that by (auto simp: is_word_def sasr_div)
    then have "(sasr x 3)\<^sup>2 \<le> (2 ^ 12)\<^sup>2" by (intro abs_le_square_iff [THEN iffD1]) simp
    then show ?thesis by (simp add: power2_eq_square)
  qed
  have "0 \<le> fold (\<lambda>k L_power. let L_temp = sasr (dp0 ! (off + k - Nc)) 3 in L_power + L_temp * L_temp) xs a
    \<and> fold (\<lambda>k L_power. let L_temp = sasr (dp0 ! (off + k - Nc)) 3 in L_power + L_temp * L_temp) xs a
      \<le> a + int (length xs) * 2 ^ 24" if "set xs \<subseteq> {..<40}" "0 \<le> a" for xs a
    using that
  proof (induction xs arbitrary: a)
    case (Cons k xs)
    have "is_word (dp0 ! (off + k - Nc))" using assms Cons.prems by (auto simp: list_all_length)
    from sq [OF this] Cons.IH [of "a + sasr (dp0 ! (off + k - Nc)) 3 * sasr (dp0 ! (off + k - Nc)) 3"]
      Cons.prems show ?case by (simp add: Let_def algebra_simps)
  qed simp
  from this [of "[0..<40]" 0] show "0 \<le> LTP_power dp0 off Nc" "LTP_power dp0 off Nc \<le> 40 * 2 ^ 24"
    by (auto simp: LTP_power_def lessThan_atLeast0)
qed

lemma LTP_parameters_Some:
  assumes "list_all is_word d" "list_all is_word dp0" "off + 40 \<le> length dp0"
  obtains bc Nc where "Calculation_of_the_LTP_parameters d dp0 off = Some (bc, Nc)"
    "40 \<le> Nc" "Nc \<le> 120" "0 \<le> bc" "bc \<le> 3"
proof -
  obtain scal where sc: "LTP_scal d = Some scal" "0 \<le> scal" "scal \<le> 6" using LTP_scal_Some [OF assms(1)] .
  define wt where "wt = map (\<lambda>k. sasr (d ! k) (nat scal)) [0..<40]"
  obtain Nc M where s: "LTP_search (LTP_correlation wt dp0 off) [40..<121] (40, 0) = (Nc, M)" by force
  note N = LTP_search_range [OF s]
  define L_max L_power where "L_max = sasr (shl M 1) (nat (6 - scal))"
    and "L_power = shl (LTP_power dp0 off (nat Nc)) 1"
  have "LTP_power dp0 off (nat Nc) \<le> 40 * 2 ^ 24"
    by (rule LTP_power_bounds(2) [OF assms(2)]) (use assms(3) in auto)
  then have "L_power < 2 ^ 31" by (simp add: L_power_def shl_mult)
  then have norm: "\<exists>n. gsm_norm L_power = Some n" if "0 < L_power"
    using gsm_norm_pos [OF that] by blast
  have g: "0 \<le> LTP_gain R S \<and> LTP_gain R S \<le> 3" for R S by (simp add: LTP_gain_def)
  have "\<exists>bc. Calculation_of_the_LTP_parameters d dp0 off = Some (bc, Nc) \<and> 0 \<le> bc \<and> bc \<le> 3"
    using norm g sc N s unfolding Calculation_of_the_LTP_parameters_def L_max_def L_power_def
    by (auto simp: Let_def wt_def)
  then show ?thesis using that N by blast
qed

section \<open>Both filters predict the same signal\<close>

definition ltp_estimate :: "int list \<Rightarrow> int \<Rightarrow> nat \<Rightarrow> int list" where
  "ltp_estimate hist b N = map (\<lambda>k. w16 (GSM_MULT_R b (hist ! (120 + k - N)))) [0..<40]"

lemma ltp_estimate_word [simp]: "list_all is_word (ltp_estimate hist b N)" "length (ltp_estimate hist b N) = 40"
  by (simp_all add: ltp_estimate_def list_all_iff)

lemma block_write:
  assumes "off + k < length ys"
  shows "(take off ys @ map h [0..<k] @ drop (off + k) ys)[off + k := h k]
    = take off ys @ map h [0..<Suc k] @ drop (off + Suc k) ys"
proof -
  have "drop (off + k) ys = ys ! (off + k) # drop (off + Suc k) ys"
    using Cons_nth_drop_Suc [OF assms] by simp
  moreover have "length (take off ys) = off" using assms by simp
  ultimately show ?thesis by (simp add: list_update_append)
qed

lemma block_nth:
  assumes "j < off" "off \<le> length ys"
  shows "(take off ys @ zs) ! j = ys ! j"
  using assms by (simp add: nth_append)

lemma analysis_steps:
  fixes b :: int
  assumes "120 \<le> off" "off + 40 \<le> length dp0" "45 \<le> length e" "40 \<le> Nc" "Nc \<le> 120" "n \<le> 40"
  defines "h \<equiv> \<lambda>k. w16 (GSM_MULT_R b (dp0 ! (off + k - nat Nc)))"
  shows "fold (LTP_filter_step b Nc off d) [0..<n] (dp0, e) =
    (take off dp0 @ map h [0..<n] @ drop (off + n) dp0,
     take 5 e @ map (\<lambda>k. GSM_SUB (d ! k) (h k)) [0..<n] @ drop (5 + n) e)"
  using assms(6)
proof (induction n)
  case (Suc n)
  let ?dp = "take off dp0 @ map h [0..<n] @ drop (off + n) dp0"
  have read: "?dp ! (off + n - nat Nc) = dp0 ! (off + n - nat Nc)"
    using assms(1-5) Suc.prems by (intro block_nth) auto
  have hn: "w16 (GSM_MULT_R b (dp0 ! (off + n - nat Nc))) = h n" by (simp add: h_def)
  have new: "?dp[off + n := h n] = take off dp0 @ map h [0..<Suc n] @ drop (off + Suc n) dp0"
    using assms(2) Suc.prems by (intro block_write) simp
  have "(take off dp0 @ map h [0..<Suc n] @ drop (off + Suc n) dp0) ! (off + n) = h n"
    using assms(2) Suc.prems by (simp add: nth_append)
  moreover have "(take 5 e @ map (\<lambda>k. GSM_SUB (d ! k) (h k)) [0..<n] @ drop (5 + n) e)[5 + n := GSM_SUB (d ! n) (h n)]
     = take 5 e @ map (\<lambda>k. GSM_SUB (d ! k) (h k)) [0..<Suc n] @ drop (5 + Suc n) e"
    using assms(3) Suc.prems by (intro block_write) simp
  ultimately have "LTP_filter_step b Nc off d n (?dp, take 5 e @ map (\<lambda>k. GSM_SUB (d ! k) (h k)) [0..<n] @ drop (5 + n) e)
    = (take off dp0 @ map h [0..<Suc n] @ drop (off + Suc n) dp0,
       take 5 e @ map (\<lambda>k. GSM_SUB (d ! k) (h k)) [0..<Suc n] @ drop (5 + Suc n) e)"
    unfolding LTP_filter_step_def Let_def prod.case read hn new by simp
  with Suc show ?case by simp
qed simp

lemma estimate_window:
  assumes "120 \<le> off" "off \<le> length dp0" "40 \<le> Nc" "Nc \<le> 120"
  shows "map (\<lambda>k. w16 (GSM_MULT_R b (dp0 ! (off + k - nat Nc)))) [0..<40]
    = ltp_estimate (take 120 (drop (off - 120) dp0)) b (nat Nc)"
  unfolding ltp_estimate_def
proof (rule map_cong [OF refl])
  fix k assume "k \<in> set [0..<40]"
  then have "k < 40" by simp
  then have "120 + k - nat Nc < 120" "off - 120 + (120 + k - nat Nc) = off + k - nat Nc"
    using assms by auto
  then show "w16 (GSM_MULT_R b (dp0 ! (off + k - nat Nc)))
    = w16 (GSM_MULT_R b (take 120 (drop (off - 120) dp0) ! (120 + k - nat Nc)))"
    using assms by simp
qed

lemma Long_term_analysis_filtering_eq:
  assumes "120 \<le> off" "off + 40 \<le> length dp0" "45 \<le> length e" "40 \<le> Nc" "Nc \<le> 120"
    and "0 \<le> bc" "bc \<le> 3"
  defines "est \<equiv> ltp_estimate (take 120 (drop (off - 120) dp0)) (gsm_QLB ! nat bc) (nat Nc)"
  shows "Long_term_analysis_filtering bc Nc dp0 off d e =
    (take off dp0 @ est @ drop (off + 40) dp0,
     take 5 e @ map (\<lambda>k. GSM_SUB (d ! k) (est ! k)) [0..<40] @ drop 45 e)"
proof -
  have "bc = 0 \<or> bc = 1 \<or> bc = 2 \<or> bc = 3" using assms(6,7) by presburger
  then have "Long_term_analysis_filtering bc Nc dp0 off d e =
      fold (LTP_filter_step (gsm_QLB ! nat bc) Nc off d) [0..<40] (dp0, e)"
    by (auto simp: Long_term_analysis_filtering_def gsm_QLB_def)
  also have "\<dots> = (take off dp0 @ est @ drop (off + 40) dp0,
     take 5 e @ map (\<lambda>k. GSM_SUB (d ! k) (est ! k)) [0..<40] @ drop 45 e)"
  proof -
    have est: "est = map (\<lambda>k. w16 (GSM_MULT_R (gsm_QLB ! nat bc) (dp0 ! (off + k - nat Nc)))) [0..<40]"
      unfolding est_def using assms(1-5) by (subst estimate_window) auto
    show ?thesis
      unfolding analysis_steps [OF assms(1-5) order.refl] by (simp add: est)
  qed
  finally show ?thesis .
qed

lemma Gsm_Long_Term_Predictor_Some:
  assumes "list_all is_word d" "list_all is_word dp0" "120 \<le> off" "off + 40 \<le> length dp0" "45 \<le> length e"
  obtains Nc bc est where "40 \<le> Nc" "Nc \<le> 120" "0 \<le> bc" "bc \<le> 3"
    "est = ltp_estimate (take 120 (drop (off - 120) dp0)) (gsm_QLB ! nat bc) (nat Nc)"
    "Gsm_Long_Term_Predictor d dp0 off e = Some (take off dp0 @ est @ drop (off + 40) dp0,
     take 5 e @ map (\<lambda>k. GSM_SUB (d ! k) (est ! k)) [0..<40] @ drop 45 e, Nc, bc)"
proof -
  obtain bc Nc where p: "Calculation_of_the_LTP_parameters d dp0 off = Some (bc, Nc)"
    "40 \<le> Nc" "Nc \<le> 120" "0 \<le> bc" "bc \<le> 3" using LTP_parameters_Some [OF assms(1,2,4)] .
  show ?thesis
    by (rule that [OF p(2-5) refl])
      (simp add: Gsm_Long_Term_Predictor_def p(1) Long_term_analysis_filtering_eq [OF assms(3-5) p(2-5)])
qed

section \<open>The synthesis filter\<close>

lemma synth_steps:
  fixes b :: int and erp :: "int list"
  assumes "160 \<le> length dp0" "40 \<le> Nr" "Nr \<le> 120" "n \<le> 40"
  defines "h \<equiv> \<lambda>k. GSM_ADD (erp ! k) (w16 (GSM_MULT_R b (dp0 ! (120 + k - nat Nr))))"
  shows "fold (LTP_synth_step b Nr erp) [0..<n] dp0 = take 120 dp0 @ map h [0..<n] @ drop (120 + n) dp0"
  using assms(4)
proof (induction n)
  case (Suc n)
  let ?dp = "take 120 dp0 @ map h [0..<n] @ drop (120 + n) dp0"
  have "?dp ! (120 + n - nat Nr) = dp0 ! (120 + n - nat Nr)"
    using assms(1-3) Suc.prems by (intro block_nth) auto
  then have "LTP_synth_step b Nr erp n ?dp = ?dp[120 + n := h n]"
    by (simp add: LTP_synth_step_def h_def)
  also have "\<dots> = take 120 dp0 @ map h [0..<Suc n] @ drop (120 + Suc n) dp0"
    using assms(1) Suc.prems by (intro block_write) simp
  finally show ?case using Suc by simp
qed simp

lemma shift_steps:
  assumes "160 \<le> length dp" "n \<le> 120"
  shows "fold (\<lambda>k dp. dp[k := dp ! (40 + k)]) [0..<n] dp = take n (drop 40 dp) @ drop n dp"
  using assms(2)
proof (induction n)
  case (Suc n)
  let ?dp = "take n (drop 40 dp) @ drop n dp"
  have "?dp ! (40 + n) = dp ! (40 + n)" using assms(1) Suc.prems by (simp add: nth_append add.commute [of n 40])
  moreover have "?dp[n := x] = take n (drop 40 dp) @ x # drop (Suc n) dp" for x
    using assms(1) Suc.prems Cons_nth_drop_Suc [of n dp] by (simp add: list_update_append flip: Cons_nth_drop_Suc)
  moreover have "take (Suc n) (drop 40 dp) = take n (drop 40 dp) @ [dp ! (40 + n)]"
    using assms(1) Suc.prems by (simp add: take_Suc_conv_app_nth add.commute [of n 40])
  ultimately show ?case using Suc by simp
qed simp

lemma Gsm_Long_Term_Synthesis_Filtering_eq:
  fixes erp :: "int list"
  assumes "160 \<le> length dp0" "40 \<le> Nr" "Nr \<le> 120" "Nr = (if Ncr < 40 \<or> Ncr > 120 then nrp else Ncr)"
    and "0 \<le> bcr" "bcr \<le> 3"
  defines "drp \<equiv> map2 GSM_ADD erp (ltp_estimate (take 120 dp0) (gsm_QLB ! nat bcr) (nat Nr))"
  assumes "length erp = 40"
  shows "Gsm_Long_Term_Synthesis_Filtering nrp Ncr bcr erp dp0 =
    Some (Nr, take 80 (drop 40 dp0) @ drp @ drp @ drop 160 dp0)"
proof -
  have brp: "gsm_QLB ! nat bcr \<noteq> MIN_WORD"
  proof -
    have "bcr = 0 \<or> bcr = 1 \<or> bcr = 2 \<or> bcr = 3" using assms(5,6) by presburger
    then show ?thesis by (auto simp: gsm_QLB_def)
  qed
  have drp: "map (\<lambda>k. GSM_ADD (erp ! k) (w16 (GSM_MULT_R (gsm_QLB ! nat bcr) (dp0 ! (120 + k - nat Nr))))) [0..<40] = drp"
  proof -
    have "ltp_estimate (take 120 dp0) (gsm_QLB ! nat bcr) (nat Nr) =
        map (\<lambda>k. w16 (GSM_MULT_R (gsm_QLB ! nat bcr) (dp0 ! (120 + k - nat Nr)))) [0..<40]"
      using estimate_window [of 120 dp0 Nr] assms(1-3) by simp
    then show ?thesis unfolding drp_def using assms(8) by (intro nth_equalityI) auto
  qed
  have "fold (LTP_synth_step (gsm_QLB ! nat bcr) Nr erp) [0..<40] dp0 = take 120 dp0 @ drp @ drop 160 dp0"
    using synth_steps [OF assms(1-3) order.refl] drp by simp
  moreover have "fold (\<lambda>k dp. dp[k := dp ! (40 + k)]) [0..<120] (take 120 dp0 @ drp @ drop 160 dp0)
      = take 80 (drop 40 dp0) @ drp @ drp @ drop 160 dp0"
    using assms(1,8) by (subst shift_steps) (auto simp: drp_def drop_take)
  ultimately show ?thesis
    using assms(2,3) brp unfolding Gsm_Long_Term_Synthesis_Filtering_def Let_def assms(4) [symmetric]
    by simp
qed

section \<open>Properties\<close>

lemma LTP_parameters_search:
  assumes "Calculation_of_the_LTP_parameters d dp0 off = Some (bc, Nc)"
  shows "\<exists>scal L. LTP_scal d = Some scal
    \<and> LTP_search (LTP_correlation (map (\<lambda>k. sasr (d ! k) (nat scal)) [0..<40]) dp0 off) [40..<121] (40, 0) = (Nc, L)"
proof -
  obtain scal where scal: "LTP_scal d = Some scal"
    using assms unfolding Calculation_of_the_LTP_parameters_def by (cases "LTP_scal d") auto
  obtain N L where s: "LTP_search (LTP_correlation (map (\<lambda>k. sasr (d ! k) (nat scal)) [0..<40]) dp0 off) [40..<121] (40, 0) = (N, L)"
    by force
  have "Nc = N"
    using assms unfolding Calculation_of_the_LTP_parameters_def scal bind.simps Let_def s
    by (auto simp: bind_eq_Some_conv split: if_splits)
  with scal s show ?thesis by blast
qed

text \<open>C28 (lag search): the search of \<open>Calculation_of_the_LTP_parameters\<close> never fails on words. If the
  cross-correlation of the scaled sub-segment with the reconstructed signal is positive for some lag of
  the search range 40 to 120, the lag it returns maximises it, and is the smallest that does; if it is
  positive for none, the lag is 40, which then need not be a maximum, since the search starts from the value 0. The
  lag and the coded gain fit their fields.\<close>

theorem LTP_lag_maximises_correlation:
  assumes "list_all is_word d" "list_all is_word dp0" "off + 40 \<le> length dp0"
  shows "\<exists>bc Nc scal. Calculation_of_the_LTP_parameters d dp0 off = Some (bc, Nc)
    \<and> 40 \<le> Nc \<and> Nc \<le> 120 \<and> 0 \<le> bc \<and> bc \<le> 3 \<and> LTP_scal d = Some scal
    \<and> (let corr = \<lambda>l. \<Sum>k<40. sasr (d ! k) (nat scal) * dp0 ! (off + k - l)
       in if \<exists>l \<in> {40..<121}. 0 < corr l
          then (\<forall>l \<in> {40..<121}. corr l \<le> corr (nat Nc)) \<and> (\<forall>l \<in> {40..<nat Nc}. corr l < corr (nat Nc))
          else Nc = 40)"
proof -
  obtain bc Nc where p: "Calculation_of_the_LTP_parameters d dp0 off = Some (bc, Nc)"
    "40 \<le> Nc" "Nc \<le> 120" "0 \<le> bc" "bc \<le> 3" using LTP_parameters_Some [OF assms] .
  obtain scal L where s: "LTP_scal d = Some scal"
    "LTP_search (LTP_correlation (map (\<lambda>k. sasr (d ! k) (nat scal)) [0..<40]) dp0 off) [40..<121] (40, 0) = (Nc, L)"
    using LTP_parameters_search [OF p(1)] by blast
  let ?corr = "\<lambda>l. \<Sum>k<40. sasr (d ! k) (nat scal) * dp0 ! (off + k - l)"
  have corr: "LTP_correlation (map (\<lambda>k. sasr (d ! k) (nat scal)) [0..<40]) dp0 off l = ?corr l" for l
    unfolding LTP_correlation_sum by (rule sum.cong) auto
  have "(40 :: nat) \<le> 121" by simp
  note inv = LTP_search_invariant [OF s(2) this, unfolded corr]
  have "if \<exists>l \<in> {40..<121}. 0 < ?corr l
      then (\<forall>l \<in> {40..<121}. ?corr l \<le> ?corr (nat Nc)) \<and> (\<forall>l \<in> {40..<nat Nc}. ?corr l < ?corr (nat Nc)) else Nc = 40"
  proof (cases "L = 0")
    case True
    then have "\<not> (\<exists>l \<in> {40..<121}. 0 < ?corr l)" "Nc = 40" using inv(2,3) by (force simp: not_less)+
    then show ?thesis by (simp only: if_False)
  next
    case False
    then have N: "?corr (nat Nc) = L" "0 < L" "\<forall>l \<in> {40..<nat Nc}. ?corr l < L" using inv(3) by blast+
    have "nat Nc \<in> {40..<121}" using p(2,3) by auto
    then have "\<exists>l \<in> {40..<121}. 0 < ?corr l" using N(1,2) by (intro bexI [of _ "nat Nc"]) (simp only: N(1))
    then show ?thesis using inv(2) N(1,3) by (simp only: if_True)
  qed
  then show ?thesis
    unfolding Let_def
    by (intro exI [of _ bc] exI [of _ Nc] exI [of _ scal] conjI p s(1))
qed

theorem LTP_lag_maximises_correlation_witness:
  "\<exists>bc Nc. Calculation_of_the_LTP_parameters (replicate 40 1) (replicate 280 2) 120 = Some (bc, Nc)
     \<and> 40 \<le> Nc \<and> Nc \<le> 120"
  using LTP_lag_maximises_correlation [of "replicate 40 1" "replicate 280 2" 120]
  unfolding is_word_def list_all_replicate length_replicate by auto

text \<open>C29 (long-term filters): the predictor of the coder writes the estimate for the chosen lag and
  gain behind the history it reads and the residual into \<open>e\<close>; the synthesis filter of the decoder
  adds the same estimate to the received residual, falls back to the last valid lag when the
  received one is out of range, and shifts its history by one sub-frame.\<close>

theorem long_term_filters:
  assumes "list_all is_word d" "list_all is_word dp0" "length dp0 = 280" "off \<in> {120, 160, 200, 240}"
    and "length e = 50" "length erp = 40" "40 \<le> nrp" "nrp \<le> 120" "0 \<le> bcr" "bcr \<le> 3"
  shows "(\<exists>Nc bc est. 40 \<le> Nc \<and> Nc \<le> 120 \<and> 0 \<le> bc \<and> bc \<le> 3
      \<and> est = ltp_estimate (take 120 (drop (off - 120) dp0)) (gsm_QLB ! nat bc) (nat Nc)
      \<and> Gsm_Long_Term_Predictor d dp0 off e = Some (take off dp0 @ est @ drop (off + 40) dp0,
          take 5 e @ map (\<lambda>k. GSM_SUB (d ! k) (est ! k)) [0..<40] @ drop 45 e, Nc, bc))
    \<and> (let Nr = if Ncr < 40 \<or> Ncr > 120 then nrp else Ncr;
           drp = map2 GSM_ADD erp (ltp_estimate (take 120 dp0) (gsm_QLB ! nat bcr) (nat Nr))
       in Gsm_Long_Term_Synthesis_Filtering nrp Ncr bcr erp dp0
         = Some (Nr, take 80 (drop 40 dp0) @ drp @ drp @ drop 160 dp0))"
proof (intro conjI)
  have off: "120 \<le> off" "off + 40 \<le> length dp0" "45 \<le> length e" using assms(3-5) by auto
  show "\<exists>Nc bc est. 40 \<le> Nc \<and> Nc \<le> 120 \<and> 0 \<le> bc \<and> bc \<le> 3
      \<and> est = ltp_estimate (take 120 (drop (off - 120) dp0)) (gsm_QLB ! nat bc) (nat Nc)
      \<and> Gsm_Long_Term_Predictor d dp0 off e = Some (take off dp0 @ est @ drop (off + 40) dp0,
          take 5 e @ map (\<lambda>k. GSM_SUB (d ! k) (est ! k)) [0..<40] @ drop 45 e, Nc, bc)"
    by (rule Gsm_Long_Term_Predictor_Some [OF assms(1,2) off]) blast
  define Nr where "Nr = (if Ncr < 40 \<or> Ncr > 120 then nrp else Ncr)"
  have "160 \<le> length dp0" "40 \<le> Nr" "Nr \<le> 120" using assms(3,7,8) by (auto simp: Nr_def)
  from Gsm_Long_Term_Synthesis_Filtering_eq [OF this Nr_def assms(9,10,6)]
  show "let Nr = if Ncr < 40 \<or> Ncr > 120 then nrp else Ncr;
           drp = map2 GSM_ADD erp (ltp_estimate (take 120 dp0) (gsm_QLB ! nat bcr) (nat Nr))
       in Gsm_Long_Term_Synthesis_Filtering nrp Ncr bcr erp dp0
         = Some (Nr, take 80 (drop 40 dp0) @ drp @ drp @ drop 160 dp0)"
    unfolding Let_def Nr_def .
qed

theorem long_term_filters_witness:
  "map_option fst (Gsm_Long_Term_Synthesis_Filtering 77 0 1 (replicate 40 5) (replicate 280 2)) = Some 77"
  using long_term_filters [of "replicate 40 1" "replicate 280 2" 120 "replicate 50 0" "replicate 40 5" 77 1 0]
  by (auto simp: is_word_def list_all_replicate Let_def)

end
