(* ===== verification/Lockstep.thy ===== *)
theory Lockstep
  imports Prelude
begin

text \<open>
  A codec whose encoder runs a copy of the decoder: the contract that encoder and decoder
  state stay related, and what follows for a whole stream. \<open>run_all\<close> is the loop that hands
  one block after the other to a codec.
\<close>

primrec run_all :: "('s \<Rightarrow> 'a \<Rightarrow> ('s \<times> 'b) option) \<Rightarrow> 's \<Rightarrow> 'a list \<Rightarrow> ('s \<times> 'b list) option" where
  "run_all f s [] = Some (s, [])"
| "run_all f s (x # xs) = do {
     (s, y) \<leftarrow> f s x;
     (s, ys) \<leftarrow> run_all f s xs;
     Some (s, y # ys)
   }"

lemma run_all_length: "run_all f s xs = Some (s', ys) \<Longrightarrow> length ys = length xs"
  by (induction xs arbitrary: s ys) (auto simp: bind_eq_Some_conv)

lemma run_all_append:
  "run_all f s (xs @ ys) = do {
     (s, us) \<leftarrow> run_all f s xs;
     (s, vs) \<leftarrow> run_all f s ys;
     Some (s, us @ vs)
   }"
proof (induction xs arbitrary: s)
  case Nil
  then show ?case by (cases "run_all f s ys") auto
next
  case (Cons x xs)
  show ?case
  proof (cases "f s x")
    case (Some p)
    obtain s1 y where p: "p = (s1, y)" by force
    show ?thesis
      using Cons [of s1] Some p by (cases "run_all f s1 xs") (auto split: bind_split)
  qed simp
qed

locale lockstep_codec =
  fixes enc :: "'se \<Rightarrow> 'x \<Rightarrow> ('se \<times> 'c) option"
    and dec :: "'sd \<Rightarrow> 'c \<Rightarrow> ('sd \<times> 'y) option"
    and rel :: "'se \<Rightarrow> 'sd \<Rightarrow> bool"
    and valid :: "'x \<Rightarrow> bool"
    and shape :: "'y \<Rightarrow> bool"
  assumes step: "rel se sd \<Longrightarrow> valid x \<Longrightarrow>
    \<exists>se' c sd' y. enc se x = Some (se', c) \<and> dec sd c = Some (sd', y) \<and> rel se' sd' \<and> shape y"
begin

lemma stream:
  assumes "rel se sd" "\<forall>x \<in> set xs. valid x"
  shows "\<exists>se' cs sd' ys. run_all enc se xs = Some (se', cs) \<and> run_all dec sd cs = Some (sd', ys)
    \<and> rel se' sd' \<and> length ys = length xs \<and> (\<forall>y \<in> set ys. shape y)"
  using assms
proof (induction xs arbitrary: se sd)
  case (Cons x xs)
  from step [OF Cons.prems(1)] Cons.prems(2) obtain se1 c sd1 y where
    1: "enc se x = Some (se1, c)" "dec sd c = Some (sd1, y)" "rel se1 sd1" "shape y" by fastforce
  from Cons.IH [OF 1(3)] Cons.prems(2) obtain se' cs sd' ys where
    "run_all enc se1 xs = Some (se', cs)" "run_all dec sd1 cs = Some (sd', ys)" "rel se' sd'"
    "length ys = length xs" "\<forall>y \<in> set ys. shape y" by auto
  with 1 show ?case by auto
qed simp

end

end
