(* ===== verification/Gsm_Codec.thy ===== *)
theory Gsm_Codec
  imports Gsm_Preprocess Gsm_Lpc Gsm_Short_Term Gsm_Long_Term Gsm_Frame Lockstep
begin

text \<open>
  The frame-level codec: \<open>Gsm_Coder\<close> (\<open>telecomm/gsm/src/code.c\<close>), \<open>Postprocessing\<close> and
  \<open>Gsm_Decoder\<close> (\<open>decode.c\<close>), \<open>gsm_encode\<close> and \<open>gsm_decode\<close>. The array \<open>static word e[50]\<close> of
  \<open>Gsm_Coder\<close> is shared by all handles and kept between calls: it is an argument and a result.

  The lemmas show that neither the coder nor the decoder can hit an assertion from a state that
  satisfies \<open>state_inv\<close>, that the coded parameters fit their fields, that a decoder accepts every
  frame the coder writes, and that the decoder's residual history and coefficients after each
  frame are those the coder predicted from.
\<close>

section \<open>Coder\<close>

definition coder_update :: "int list \<Rightarrow> nat \<Rightarrow> nat \<Rightarrow> int list \<Rightarrow> int list" where
  "coder_update e off i dp0 = dp0[off + i := GSM_ADD (e ! (5 + i)) (dp0 ! (off + i))]"

definition coder_subframe ::
    "int list \<Rightarrow> nat \<Rightarrow> int list \<times> int list \<times> params \<Rightarrow> (int list \<times> int list \<times> params) option" where
  "coder_subframe so k st = (case st of (dp0, e, P) \<Rightarrow> do {
     let off = 120 + 40 * k;
     (dp0, e, Nck, bck) \<leftarrow> Gsm_Long_Term_Predictor (take 40 (drop (k * 40) so)) dp0 off e;
     (e, xmaxck, Mck, xMck) \<leftarrow> Gsm_RPE_Encoding e;
     let dp0 = fold (coder_update e off) [0..<40] dp0;
     Some (dp0, e, P\<lparr>Nc := Nc P @ [Nck], bc := bc P @ [bck], Mc := Mc P @ [Mck],
       xmaxc := xmaxc P @ [xmaxck], xmc := xmc P @ xMck\<rparr>)
   })"

definition Gsm_Coder :: "gsm_state \<Rightarrow> int list \<Rightarrow> int list \<Rightarrow> (gsm_state \<times> int list \<times> params) option" where
  "Gsm_Coder S e s = do {
     (S, so) \<leftarrow> Gsm_Preprocess S s;
     (so, LARs) \<leftarrow> Gsm_LPC_Analysis so;
     let (S, so) = Gsm_Short_Term_Analysis_Filter S LARs so;
     (dp0, e, P) \<leftarrow> fold_opt (coder_subframe so) [0..<4]
       (S_dp0 S, e, \<lparr>LARc = LARs, Nc = [], bc = [], Mc = [], xmaxc = [], xmc = []\<rparr>);
     let dp0 = take 120 (drop 160 dp0) @ drop 120 dp0;
     Some (S\<lparr>S_dp0 := dp0\<rparr>, e, P)
   }"

definition gsm_encode :: "gsm_state \<Rightarrow> int list \<Rightarrow> int list \<Rightarrow> (gsm_state \<times> int list \<times> int list) option" where
  "gsm_encode s e source = do {
     (s, e, P) \<leftarrow> Gsm_Coder s e source;
     Some (s, e, encode_frame P)
   }"

section \<open>Decoder\<close>

definition post_step :: "int \<Rightarrow> int \<Rightarrow> int \<times> int" where
  "post_step msr s =
     (let tmp = w16 (GSM_MULT_R msr 28180);
          msr = GSM_ADD s tmp;
          s = w16 (GSM_ADD msr msr AND 0xFFF8)
      in (msr, s))"

primrec post_loop :: "int \<Rightarrow> int list \<Rightarrow> int \<times> int list" where
  "post_loop msr [] = (msr, [])"
| "post_loop msr (s # ss) =
     (let (msr, s) = post_step msr s; (msr, ss) = post_loop msr ss in (msr, s # ss))"

definition Postprocessing :: "gsm_state \<Rightarrow> int list \<Rightarrow> gsm_state \<times> int list" where
  "Postprocessing S s = (let (msr, s) = post_loop (S_msr S) (take 160 s) in (S\<lparr>S_msr := msr\<rparr>, s))"

definition decoder_subframe ::
    "params \<Rightarrow> nat \<Rightarrow> gsm_state \<times> int list \<Rightarrow> (gsm_state \<times> int list) option" where
  "decoder_subframe P j st = (case st of (S, wt) \<Rightarrow> do {
     erp \<leftarrow> Gsm_RPE_Decoding (xmaxc P ! j) (Mc P ! j) (take 13 (drop (13 * j) (xmc P)));
     (nrp, dp0) \<leftarrow> Gsm_Long_Term_Synthesis_Filtering (S_nrp S) (Nc P ! j) (bc P ! j) erp (S_dp0 S);
     let S = S\<lparr>S_nrp := nrp, S_dp0 := dp0\<rparr>;
     Some (S, wt @ take 40 (drop 120 dp0))
   })"

definition Gsm_Decoder :: "gsm_state \<Rightarrow> params \<Rightarrow> (gsm_state \<times> int list) option" where
  "Gsm_Decoder S P = do {
     (S, wt) \<leftarrow> fold_opt (decoder_subframe P) [0..<4] (S, []);
     let (S, s) = Gsm_Short_Term_Synthesis_Filter S (LARc P) wt;
     Some (Postprocessing S s)
   }"

definition gsm_decode :: "gsm_state \<Rightarrow> int list \<Rightarrow> int list \<Rightarrow> (gsm_state \<times> int \<times> int list) option" where
  "gsm_decode s c target =
     (case decode_frame c of None \<Rightarrow> Some (s, - 1, target)
      | Some P \<Rightarrow> do { (s, target) \<leftarrow> Gsm_Decoder s P; Some (s, 0, target) })"

section \<open>Parameters that fit their fields\<close>

definition params_ok :: "params \<Rightarrow> bool" where
  "params_ok P \<longleftrightarrow> params_shape P
     \<and> (\<forall>i<8. 0 \<le> LARc P ! i \<and> LARc P ! i < 2 ^ (lar_widths ! i))
     \<and> list_all (\<lambda>x. 0 \<le> x \<and> x < 128) (Nc P) \<and> list_all (\<lambda>x. 0 \<le> x \<and> x \<le> 3) (bc P)
     \<and> list_all (\<lambda>x. 0 \<le> x \<and> x \<le> 3) (Mc P) \<and> list_all (\<lambda>x. 0 \<le> x \<and> x < 64) (xmaxc P)
     \<and> list_all is_code3 (xmc P)"

definition e_inv :: "int list \<Rightarrow> bool" where
  "e_inv e \<longleftrightarrow> length e = 50 \<and> take 5 e = replicate 5 0 \<and> drop 45 e = replicate 5 0"

section \<open>One sub-frame of the coder\<close>

lemma coder_updates:
  assumes "off + n \<le> length dp0"
  shows "fold (coder_update e off) [0..<n] dp0 =
    take off dp0 @ map (\<lambda>i. GSM_ADD (e ! (5 + i)) (dp0 ! (off + i))) [0..<n] @ drop (off + n) dp0"
  using assms
proof (induction n)
  case (Suc n)
  let ?h = "\<lambda>i. GSM_ADD (e ! (5 + i)) (dp0 ! (off + i))"
  let ?dp = "take off dp0 @ map ?h [0..<n] @ drop (off + n) dp0"
  have "?dp ! (off + n) = dp0 ! (off + n)" using Suc.prems by (simp add: nth_append)
  then have "coder_update e off n ?dp = ?dp[off + n := ?h n]" by (simp add: coder_update_def)
  also have "\<dots> = take off dp0 @ map ?h [0..<Suc n] @ drop (off + Suc n) dp0"
    using Suc.prems by (intro block_write) simp
  finally show ?case using Suc by simp
qed simp

definition history :: "nat \<Rightarrow> int list \<Rightarrow> int list" where
  "history k dp0 = take 120 (drop (40 * k) dp0)"

definition synth_history :: "int list \<Rightarrow> int \<Rightarrow> int \<Rightarrow> int list \<Rightarrow> int list" where
  "synth_history hist Nck bck ep =
     map2 GSM_ADD ep (ltp_estimate hist (gsm_QLB ! nat bck) (nat Nck))"

lemma coder_subframe_Some:
  assumes "list_all is_word so" "length so = 160" "k < 4" "length dp0 = 280" "list_all is_word dp0" "e_inv e"
  obtains dp0' e' Nck bck Mck xmaxck xMck ep where
    "coder_subframe so k (dp0, e, P) = Some (dp0', e', P\<lparr>Nc := Nc P @ [Nck], bc := bc P @ [bck],
       Mc := Mc P @ [Mck], xmaxc := xmaxc P @ [xmaxck], xmc := xmc P @ xMck\<rparr>)"
    "40 \<le> Nck" "Nck \<le> 120" "0 \<le> bck" "bck \<le> 3" "0 \<le> xmaxck" "xmaxck < 64" "0 \<le> Mck" "Mck \<le> 3"
    "length xMck = 13" "list_all is_code3 xMck"
    "Gsm_RPE_Decoding xmaxck Mck xMck = Some ep" "length ep = 40"
    "length dp0' = 280" "list_all is_word dp0'" "e_inv e'"
    "history (Suc k) dp0' = drop 40 (history k dp0) @ synth_history (history k dp0) Nck bck ep"
proof -
  let ?d = "take 40 (drop (k * 40) so)" and ?off = "120 + 40 * k"
  have d: "list_all is_word ?d" using assms(1) by (auto simp: list_all_iff dest!: in_set_takeD in_set_dropD)
  have off: "120 \<le> ?off" "?off + 40 \<le> length dp0" "45 \<le> length e"
    using assms(3,4,6) by (auto simp: e_inv_def)
  obtain Nck bck est where p: "40 \<le> Nck" "Nck \<le> 120" "0 \<le> bck" "bck \<le> 3"
    "est = ltp_estimate (take 120 (drop (?off - 120) dp0)) (gsm_QLB ! nat bck) (nat Nck)"
    "Gsm_Long_Term_Predictor ?d dp0 ?off e = Some (take ?off dp0 @ est @ drop (?off + 40) dp0,
       take 5 e @ map (\<lambda>k. GSM_SUB (?d ! k) (est ! k)) [0..<40] @ drop 45 e, Nck, bck)"
    using Gsm_Long_Term_Predictor_Some [OF d assms(5) off] by blast
  define e1 where "e1 = take 5 e @ map (\<lambda>k. GSM_SUB (?d ! k) (est ! k)) [0..<40] @ drop 45 e"
  have e1: "length e1 = 50" "take 5 e1 = replicate 5 0" "drop 45 e1 = replicate 5 0"
    using assms(6) by (auto simp: e1_def e_inv_def)
  obtain ep xmaxck Mck xMck where r: "Gsm_RPE_Encoding e1 = Some (take 5 e1 @ ep @ drop 45 e1, xmaxck, Mck, xMck)"
    "Gsm_RPE_Decoding xmaxck Mck xMck = Some ep" "length ep = 40" "list_all is_word ep"
    "0 \<le> xmaxck" "xmaxck < 64" "0 \<le> Mck" "Mck \<le> 3" "length xMck = 13" "list_all is_code3 xMck"
    using Gsm_RPE_Encoding_Some [OF e1(1)] by blast
  define e2 where "e2 = take 5 e1 @ ep @ drop 45 e1"
  have e2: "e_inv e2" "\<And>i. i < 40 \<Longrightarrow> e2 ! (5 + i) = ep ! i"
    using e1 r(3) by (auto simp: e2_def e_inv_def nth_append)
  have est: "length est = 40" "list_all is_word est" unfolding p(5) by simp_all
  let ?dp = "take ?off dp0 @ est @ drop (?off + 40) dp0"
  have "length ?dp = 280" using off(2) est(1) assms(4) by simp
  then have "fold (coder_update e2 ?off) [0..<40] ?dp =
      take ?off ?dp @ map (\<lambda>i. GSM_ADD (e2 ! (5 + i)) (?dp ! (?off + i))) [0..<40] @ drop (?off + 40) ?dp"
    using assms(3) by (intro coder_updates) simp
  also have "map (\<lambda>i. GSM_ADD (e2 ! (5 + i)) (?dp ! (?off + i))) [0..<40] = map2 GSM_ADD ep est"
    using e2(2) r(3) est(1) off(2) by (intro nth_equalityI) (auto simp: nth_append)
  finally have upd: "fold (coder_update e2 ?off) [0..<40] ?dp
      = take ?off dp0 @ map2 GSM_ADD ep est @ drop (?off + 40) dp0"
    using off(2) est(1) by simp
  define dp' where "dp' = take ?off dp0 @ map2 GSM_ADD ep est @ drop (?off + 40) dp0"
  have dp': "length dp' = 280" "list_all is_word dp'"
  proof -
    show "length dp' = 280" using off(2) est(1) r(3) assms(4) by (simp add: dp'_def)
    have "list_all is_word (map2 GSM_ADD ep est)" by (rule list_all_map2I [OF r(4) est(2)]) auto
    then show "list_all is_word dp'" using assms(5)
      by (auto simp: dp'_def list_all_iff dest!: in_set_takeD in_set_dropD)
  qed
  have sub: "coder_subframe so k (dp0, e, P) = Some (dp', e2, P\<lparr>Nc := Nc P @ [Nck], bc := bc P @ [bck],
       Mc := Mc P @ [Mck], xmaxc := xmaxc P @ [xmaxck], xmc := xmc P @ xMck\<rparr>)"
    unfolding coder_subframe_def prod.case Let_def p(6) e1_def [symmetric]
    using upd by (simp add: r(1) e2_def [symmetric] dp'_def)
  have "history (Suc k) dp' = drop 40 (history k dp0) @ map2 GSM_ADD ep est"
    using off(2) est(1) r(3) assms(4) by (simp add: history_def dp'_def drop_take add.commute)
  also have "map2 GSM_ADD ep est = synth_history (history k dp0) Nck bck ep"
    by (simp add: synth_history_def p(5) history_def)
  finally show ?thesis using that sub p(1-4) r(2,3,5-10) dp' e2(1) by blast
qed

section \<open>One sub-frame of the decoder\<close>

lemma synth_history_word:
  assumes "length ep = 40" "list_all is_word ep"
  shows "length (synth_history hist N b ep) = 40" "list_all is_word (synth_history hist N b ep)"
  using assms by (auto simp: synth_history_def intro!: list_all_map2I)

lemma decoder_subframe_Some:
  assumes "state_inv S" "Gsm_RPE_Decoding (xmaxc P ! j) (Mc P ! j) (take 13 (drop (13 * j) (xmc P))) = Some ep"
    and "length ep = 40" "list_all is_word ep" "0 \<le> bc P ! j" "bc P ! j \<le> 3"
  defines "Nr \<equiv> if Nc P ! j < 40 \<or> Nc P ! j > 120 then S_nrp S else Nc P ! j"
  defines "drp \<equiv> synth_history (history 0 (S_dp0 S)) Nr (bc P ! j) ep"
  obtains S' where "decoder_subframe P j (S, wt) = Some (S', wt @ drp)" "state_inv S'"
    "history 0 (S_dp0 S') = drop 40 (history 0 (S_dp0 S)) @ drp"
    "S' = S\<lparr>S_nrp := Nr, S_dp0 := S_dp0 S'\<rparr>"
proof -
  have inv: "length (S_dp0 S) = 280" "list_all is_word (S_dp0 S)" "40 \<le> S_nrp S" "S_nrp S \<le> 120"
    using assms(1) by (simp_all add: state_inv_def)
  have Nr: "40 \<le> Nr" "Nr \<le> 120" using inv(3,4) by (auto simp: Nr_def)
  have drp: "drp = map2 GSM_ADD ep (ltp_estimate (take 120 (S_dp0 S)) (gsm_QLB ! nat (bc P ! j)) (nat Nr))"
    by (simp add: drp_def synth_history_def history_def)
  define dp' where "dp' = take 80 (drop 40 (S_dp0 S)) @ drp @ drp @ drop 160 (S_dp0 S)"
  have f: "Gsm_Long_Term_Synthesis_Filtering (S_nrp S) (Nc P ! j) (bc P ! j) ep (S_dp0 S) = Some (Nr, dp')"
    unfolding dp'_def drp using inv(1) assms(3,5,6) Nr
    by (intro Gsm_Long_Term_Synthesis_Filtering_eq) (simp_all add: Nr_def)
  have w: "length drp = 40" "list_all is_word drp"
    unfolding drp_def by (simp_all add: synth_history_word assms(3,4))
  have dp': "length dp' = 280" "list_all is_word dp'"
    using inv w by (auto simp: dp'_def list_all_iff dest!: in_set_takeD in_set_dropD)
  have "decoder_subframe P j (S, wt) = Some (S\<lparr>S_nrp := Nr, S_dp0 := dp'\<rparr>, wt @ drp)"
    unfolding decoder_subframe_def prod.case using f w inv(1) by (simp add: assms(2) dp'_def)
  moreover have "state_inv (S\<lparr>S_nrp := Nr, S_dp0 := dp'\<rparr>)"
    using assms(1) dp' Nr by (simp add: state_inv_def)
  moreover have "history 0 dp' = drop 40 (history 0 (S_dp0 S)) @ drp"
    using inv(1) w(1) by (simp add: history_def dp'_def drop_take)
  ultimately show ?thesis by (intro that [of "S\<lparr>S_nrp := Nr, S_dp0 := dp'\<rparr>"]) simp_all
qed

text \<open>The decoder's fold over the four sub-frames.\<close>

text \<open>
  The residual history that the parameters of a frame produce from a given history: what
  both sides have to agree on.
\<close>

primrec param_history :: "params \<Rightarrow> int list \<Rightarrow> nat \<Rightarrow> int list" where
  "param_history P h 0 = h"
| "param_history P h (Suc j) =
     (let g = param_history P h j in
      drop 40 g @ synth_history g (Nc P ! j) (bc P ! j)
        (the (Gsm_RPE_Decoding (xmaxc P ! j) (Mc P ! j) (take 13 (drop (13 * j) (xmc P))))))"

definition lags_ok :: "params \<Rightarrow> bool" where
  "lags_ok P \<longleftrightarrow> list_all (\<lambda>x. 40 \<le> x \<and> x \<le> 120) (Nc P)"

definition decoder_state_ok :: "params \<Rightarrow> gsm_state \<Rightarrow> nat \<Rightarrow> gsm_state \<times> int list \<Rightarrow> bool" where
  "decoder_state_ok P S0 j st \<longleftrightarrow> (case st of (S, wt) \<Rightarrow> state_inv S \<and> length wt = 40 * j
     \<and> list_all is_word wt \<and> (\<exists>n d. S = S0\<lparr>S_nrp := n, S_dp0 := d\<rparr>)
     \<and> (lags_ok P \<longrightarrow> history 0 (S_dp0 S) = param_history P (history 0 (S_dp0 S0)) j))"

lemma decoder_subframe_ok:
  assumes "params_ok P" "j < 4" "decoder_state_ok P S0 j st"
  shows "\<exists>st'. decoder_subframe P j st = Some st' \<and> decoder_state_ok P S0 (Suc j) st'"
proof -
  obtain S wt where st: "st = (S, wt)" by force
  obtain n d where S: "state_inv S" "length wt = 40 * j" "list_all is_word wt" "S = S0\<lparr>S_nrp := n, S_dp0 := d\<rparr>"
    and h: "lags_ok P \<Longrightarrow> history 0 (S_dp0 S) = param_history P (history 0 (S_dp0 S0)) j"
    using assms(3) by (auto simp: decoder_state_ok_def st)
  have ok: "0 \<le> xmaxc P ! j" "xmaxc P ! j < 64" "0 \<le> Mc P ! j" "Mc P ! j \<le> 3" "0 \<le> bc P ! j" "bc P ! j \<le> 3"
    "length (take 13 (drop (13 * j) (xmc P))) = 13" "list_all is_code3 (take 13 (drop (13 * j) (xmc P)))"
    using assms(1,2) by (auto simp: params_ok_def params_shape_def list_all_length)
  obtain ep where ep: "Gsm_RPE_Decoding (xmaxc P ! j) (Mc P ! j) (take 13 (drop (13 * j) (xmc P))) = Some ep"
    "length ep = 40" "list_all is_word ep" using Gsm_RPE_Decoding_Some [OF ok(1-4,7,8)] .
  define Nr where "Nr = (if Nc P ! j < 40 \<or> Nc P ! j > 120 then S_nrp S else Nc P ! j)"
  define drp where "drp = synth_history (history 0 (S_dp0 S)) Nr (bc P ! j) ep"
  obtain S' where S': "decoder_subframe P j (S, wt) = Some (S', wt @ drp)" "state_inv S'"
    "S' = S\<lparr>S_nrp := Nr, S_dp0 := S_dp0 S'\<rparr>"
    "history 0 (S_dp0 S') = drop 40 (history 0 (S_dp0 S)) @ drp"
    using decoder_subframe_Some [OF S(1) ep ok(5,6), of wt] unfolding drp_def Nr_def by metis
  have "length drp = 40" "list_all is_word drp"
    unfolding drp_def by (simp_all add: synth_history_word ep)
  moreover have "S' = S0\<lparr>S_nrp := Nr, S_dp0 := S_dp0 S'\<rparr>" by (subst S'(3)) (simp add: S(4))
  moreover have "history 0 (S_dp0 S') = param_history P (history 0 (S_dp0 S0)) (Suc j)" if "lags_ok P"
  proof -
    have "Nr = Nc P ! j" using that assms(1,2)
      by (auto simp: Nr_def lags_ok_def params_ok_def params_shape_def list_all_length)
    then show ?thesis using S'(4) h [OF that] ep(1) by (simp add: drp_def Let_def)
  qed
  ultimately show ?thesis using S'(1,2) S(2,3) by (auto simp: decoder_state_ok_def st)
qed

lemma fold_opt_upt:
  assumes "P 0 s" "\<And>i s. i < n \<Longrightarrow> P i s \<Longrightarrow> \<exists>s'. f i s = Some s' \<and> P (Suc i) s'"
  shows "\<exists>s'. fold_opt f [0..<n] s = Some s' \<and> P n s'"
  using assms(2)
proof (induction n)
  case 0
  then show ?case using assms(1) by simp
next
  case (Suc n)
  have app: "fold_opt f (xs @ [x]) t = Option.bind (fold_opt f xs t) (f x)" for xs x t
    by (induction xs arbitrary: t) (auto split: bind_split)
  from Suc obtain s1 where "fold_opt f [0..<n] s = Some s1" "P n s1" by auto
  with Suc.prems [of n s1] show ?case by (simp add: app)
qed

section \<open>Post-processing\<close>

lemma post_step_word:
  assumes "is_word msr" "is_word s" "post_step msr s = (msr', s')"
  shows "is_word msr'" "is_word s'" "s' mod 8 = 0"
proof -
  show m: "is_word msr'" "is_word s'" using assms by (auto simp: post_step_def Let_def)
  have s': "s' = w16 (GSM_ADD msr' msr' AND 0xFFF8)" using assms(3) by (auto simp: post_step_def Let_def)
  have mask: "(0xFFF8 :: int) = push_bit 3 (mask 13)" by (simp add: mask_eq_exp_minus_1 push_bit_eq_mult)
  have "take_bit 3 s' = 0"
    unfolding s' w16_def mask and_field by (simp add: take_bit_signed_take_bit take_bit_push_bit)
  then show "s' mod 8 = 0" by (simp add: take_bit_eq_mod)
qed

lemma post_loop_word:
  assumes "is_word msr" "list_all is_word ss" "post_loop msr ss = (msr', out)"
  shows "is_word msr' \<and> length out = length ss \<and> list_all (\<lambda>x. is_word x \<and> x mod 8 = 0) out"
  using assms
proof (induction ss arbitrary: msr msr' out)
  case (Cons s ss)
  obtain m1 s1 where 1: "post_step msr s = (m1, s1)" by force
  obtain m2 out2 where 2: "post_loop m1 ss = (m2, out2)" by force
  have s: "is_word s" "list_all is_word ss" using Cons.prems(2) by auto
  note w = post_step_word [OF Cons.prems(1) s(1) 1]
  with Cons.IH [OF w(1) s(2) 2] Cons.prems(3) 1 2 show ?case by auto
qed simp

lemma Postprocessing_Some:
  assumes "state_inv S" "list_all is_word s" "length s = 160"
  obtains S' out where "Postprocessing S s = (S', out)" "state_inv S'" "length out = 160"
    "list_all (\<lambda>x. is_word x \<and> x mod 8 = 0) out" "S' = S\<lparr>S_msr := S_msr S'\<rparr>"
proof -
  obtain m out where p: "post_loop (S_msr S) s = (m, out)" by force
  have "is_word (S_msr S)" using assms(1) by (simp add: state_inv_def)
  from post_loop_word [OF this assms(2) p] assms(1,3) p show ?thesis
    by (intro that [of "S\<lparr>S_msr := m\<rparr>" out]) (auto simp: Postprocessing_def state_inv_def)
qed

section \<open>The decoder never aborts\<close>

lemma xor_1_cases: "j = 0 \<or> j = 1 \<Longrightarrow> (j XOR 1 = 0 \<or> j XOR 1 = 1) \<and> j XOR 1 < 2" for j :: nat
  by auto

lemma state_inv_filter_update:
  assumes "state_inv S" "length u = 8" "list_all is_word u" "length v = 9" "list_all is_word v"
  shows "state_inv (S\<lparr>S_u := u, S_v := v, S_LARpp := frame_LARpp S LARs, S_j := S_j S XOR 1\<rparr>)"
  using assms xor_1_cases [of "S_j S"]
  by (auto simp: state_inv_def frame_LARpp_def Decoding_word intro!: list_all_update)

lemma synthesis_filter_inv:
  assumes "state_inv S" "list_all is_word wt" "length wt = 160"
    "Gsm_Short_Term_Synthesis_Filter S LARs wt = (S', s)"
  shows "state_inv S'" "list_all is_word s" "length s = 160"
    "S' = S\<lparr>S_v := S_v S', S_LARpp := frame_LARpp S LARs, S_j := S_j S XOR 1\<rparr>"
proof -
  obtain v' s' where b: "synth_blocks (frame_blocks (frame_LARpp S LARs ! (S_j S XOR 1))
      (Decoding_of_the_coded_Log_Area_Ratios LARs) wt) (S_v S) = (v', s')" by force
  have v: "list_all is_word (S_v S)" "length (S_v S) = 9" "list_all is_word (S_u S)" "length (S_u S) = 8"
    using assms(1) by (simp_all add: state_inv_def)
  note w = synth_blocks_word [OF v(1,2) frame_blocks_word(1) [OF assms(2,3)] b]
  have eq: "S' = S\<lparr>S_v := v', S_LARpp := frame_LARpp S LARs, S_j := S_j S XOR 1\<rparr>" "s = s'"
    using assms(4) synthesis_filter_blocks [OF b] by auto
  show "S' = S\<lparr>S_v := S_v S', S_LARpp := frame_LARpp S LARs, S_j := S_j S XOR 1\<rparr>" by (simp add: eq)
  show "list_all is_word s" "length s = 160"
    using w eq(2) frame_blocks_word(2) [OF assms(2,3)] by auto
  show "state_inv S'"
    using state_inv_filter_update [OF assms(1) v(4,3), of v' LARs] w unfolding eq(1) by simp
qed

lemma Gsm_Decoder_subframes:
  assumes "state_inv S" "params_ok P"
  obtains S1 wt n d where "fold_opt (decoder_subframe P) [0..<4] (S, []) = Some (S1, wt)" "state_inv S1"
    "length wt = 160" "list_all is_word wt" "S1 = S\<lparr>S_nrp := n, S_dp0 := d\<rparr>"
    "lags_ok P \<Longrightarrow> history 0 d = param_history P (history 0 (S_dp0 S)) 4"
proof -
  have 0: "decoder_state_ok P S 0 (S, [])" using assms(1)
    by (auto simp: decoder_state_ok_def intro!: exI [of _ "S_nrp S"] exI [of _ "S_dp0 S"])
  have "\<exists>st. fold_opt (decoder_subframe P) [0..<4] (S, []) = Some st \<and> decoder_state_ok P S 4 st"
    by (rule fold_opt_upt [where P = "decoder_state_ok P S", OF 0]) (rule decoder_subframe_ok [OF assms(2)])
  then obtain S1 wt n d where "fold_opt (decoder_subframe P) [0..<4] (S, []) = Some (S1, wt)" "state_inv S1"
    "length wt = 160" "list_all is_word wt" "S1 = S\<lparr>S_nrp := n, S_dp0 := d\<rparr>"
    "lags_ok P \<longrightarrow> history 0 (S_dp0 S1) = param_history P (history 0 (S_dp0 S)) 4"
    by (auto simp: decoder_state_ok_def)
  then show ?thesis by (intro that [of S1 wt d n]) simp_all
qed

lemma Gsm_Decoder_Some:
  assumes "state_inv S" "params_ok P"
  obtains S' s where "Gsm_Decoder S P = Some (S', s)" "state_inv S'" "length s = 160"
    "list_all (\<lambda>x. is_word x \<and> x mod 8 = 0) s"
    "S_LARpp S' = frame_LARpp S (LARc P)" "S_j S' = S_j S XOR 1"
    "lags_ok P \<longrightarrow> history 0 (S_dp0 S') = param_history P (history 0 (S_dp0 S)) 4"
proof -
  obtain S1 wt n d where f: "fold_opt (decoder_subframe P) [0..<4] (S, []) = Some (S1, wt)" "state_inv S1"
    "length wt = 160" "list_all is_word wt" and S1: "S1 = S\<lparr>S_nrp := n, S_dp0 := d\<rparr>"
    and h: "lags_ok P \<Longrightarrow> history 0 d = param_history P (history 0 (S_dp0 S)) 4"
    using Gsm_Decoder_subframes [OF assms] by metis
  obtain S2 s where g: "Gsm_Short_Term_Synthesis_Filter S1 (LARc P) wt = (S2, s)" by force
  note w = synthesis_filter_inv [OF f(2,4,3) g]
  obtain v where S2: "S2 = S1\<lparr>S_v := v, S_LARpp := frame_LARpp S1 (LARc P), S_j := S_j S1 XOR 1\<rparr>"
    using w(4) by blast
  obtain S3 out m where p: "Postprocessing S2 s = (S3, out)" "state_inv S3" "length out = 160"
    "list_all (\<lambda>x. is_word x \<and> x mod 8 = 0) out" "S3 = S2\<lparr>S_msr := m\<rparr>"
    using Postprocessing_Some [OF w(1-3)] by metis
  have "Gsm_Decoder S P = Some (S3, out)" using f(1) g p(1) by (simp add: Gsm_Decoder_def)
  moreover have "S_LARpp S3 = frame_LARpp S (LARc P)" "S_j S3 = S_j S XOR 1" "S_dp0 S3 = d"
    by (simp_all add: p(5) S2 S1 frame_LARpp_def)
  ultimately show ?thesis using p(2-4) h by (intro that [of S3 out]) simp_all
qed

section \<open>The coder never aborts\<close>

definition coder_state_ok :: "int list \<Rightarrow> int list \<Rightarrow> nat \<Rightarrow> int list \<times> int list \<times> params \<Rightarrow> bool" where
  "coder_state_ok h LARs k st \<longleftrightarrow> (case st of (dp0, e, P) \<Rightarrow>
     length dp0 = 280 \<and> list_all is_word dp0 \<and> e_inv e \<and> LARc P = LARs
     \<and> length (Nc P) = k \<and> length (bc P) = k \<and> length (Mc P) = k \<and> length (xmaxc P) = k
     \<and> length (xmc P) = 13 * k \<and> lags_ok P \<and> list_all (\<lambda>x. 0 \<le> x \<and> x \<le> 3) (bc P)
     \<and> list_all (\<lambda>x. 0 \<le> x \<and> x \<le> 3) (Mc P) \<and> list_all (\<lambda>x. 0 \<le> x \<and> x < 64) (xmaxc P)
     \<and> list_all is_code3 (xmc P) \<and> history k dp0 = param_history P h k)"

lemma param_history_extend:
  assumes "length (Nc P) = k" "length (bc P) = k" "length (Mc P) = k" "length (xmaxc P) = k"
    "length (xmc P) = 13 * k" "j \<le> k"
  shows "param_history (P\<lparr>Nc := Nc P @ ns, bc := bc P @ bs, Mc := Mc P @ ms, xmaxc := xmaxc P @ xs,
     xmc := xmc P @ cs\<rparr>) h j = param_history P h j"
  using assms(6)
proof (induction j)
  case (Suc j)
  then have "13 * j + 13 \<le> length (xmc P)" using assms(5) by simp
  then have "take 13 (drop (13 * j) (xmc P @ cs)) = take 13 (drop (13 * j) (xmc P))" by simp
  with Suc assms(1-4) show ?case by (simp add: nth_append Let_def del: take_append drop_append)
qed simp

lemma coder_subframe_ok:
  assumes "list_all is_word so" "length so = 160" "k < 4" "coder_state_ok h LARs k st"
  shows "\<exists>st'. coder_subframe so k st = Some st' \<and> coder_state_ok h LARs (Suc k) st'"
proof -
  obtain dp0 e P where st: "st = (dp0, e, P)" by (cases st)
  have ok: "length dp0 = 280" "list_all is_word dp0" "e_inv e" "LARc P = LARs"
    "length (Nc P) = k" "length (bc P) = k" "length (Mc P) = k" "length (xmaxc P) = k"
    "length (xmc P) = 13 * k" "lags_ok P" "list_all (\<lambda>x. 0 \<le> x \<and> x \<le> 3) (bc P)"
    "list_all (\<lambda>x. 0 \<le> x \<and> x \<le> 3) (Mc P)" "list_all (\<lambda>x. 0 \<le> x \<and> x < 64) (xmaxc P)"
    "list_all is_code3 (xmc P)" "history k dp0 = param_history P h k"
    using assms(4) by (simp_all add: coder_state_ok_def st)
  obtain dp0' e' Nck bck Mck xmaxck xMck ep where
    s: "coder_subframe so k (dp0, e, P) = Some (dp0', e', P\<lparr>Nc := Nc P @ [Nck], bc := bc P @ [bck],
       Mc := Mc P @ [Mck], xmaxc := xmaxc P @ [xmaxck], xmc := xmc P @ xMck\<rparr>)"
    and r: "40 \<le> Nck" "Nck \<le> 120" "0 \<le> bck" "bck \<le> 3" "0 \<le> xmaxck" "xmaxck < 64" "0 \<le> Mck" "Mck \<le> 3"
    "length xMck = 13" "list_all is_code3 xMck"
    and ep: "Gsm_RPE_Decoding xmaxck Mck xMck = Some ep" "length ep = 40"
    and i: "length dp0' = 280" "list_all is_word dp0'" "e_inv e'"
    and h: "history (Suc k) dp0' = drop 40 (history k dp0) @ synth_history (history k dp0) Nck bck ep"
    using coder_subframe_Some [OF assms(1-3) ok(1-3)] by metis
  let ?P = "P\<lparr>Nc := Nc P @ [Nck], bc := bc P @ [bck],
       Mc := Mc P @ [Mck], xmaxc := xmaxc P @ [xmaxck], xmc := xmc P @ xMck\<rparr>"
  have "param_history ?P h (Suc k) = history (Suc k) dp0'"
    using param_history_extend [OF ok(5-9) order.refl] ok(5-9,15) ep r(9) h by (simp add: Let_def nth_append)
  then have "coder_state_ok h LARs (Suc k) (dp0', e', ?P)"
    using ok r i by (simp add: coder_state_ok_def lags_ok_def)
  with s show ?thesis by (simp add: st)
qed

lemma analysis_filter_inv:
  assumes "state_inv S" "list_all is_word so" "length so = 160"
    "Gsm_Short_Term_Analysis_Filter S LARs so = (S', d)"
  shows "state_inv S'" "list_all is_word d" "length d = 160"
    "S' = S\<lparr>S_u := S_u S', S_LARpp := frame_LARpp S LARs, S_j := S_j S XOR 1\<rparr>"
proof -
  obtain u' d' where b: "ana_blocks (frame_blocks (frame_LARpp S LARs ! (S_j S XOR 1))
      (Decoding_of_the_coded_Log_Area_Ratios LARs) so) (S_u S) = (u', d')" by force
  have v: "list_all is_word (S_v S)" "length (S_v S) = 9" "list_all is_word (S_u S)" "length (S_u S) = 8"
    using assms(1) by (simp_all add: state_inv_def)
  note w = ana_blocks_word [OF v(3,4) frame_blocks_word(1) [OF assms(2,3)] b]
  have eq: "S' = S\<lparr>S_u := u', S_LARpp := frame_LARpp S LARs, S_j := S_j S XOR 1\<rparr>" "d = d'"
    using assms(4) analysis_filter_blocks [OF assms(3) b] by auto
  show "S' = S\<lparr>S_u := S_u S', S_LARpp := frame_LARpp S LARs, S_j := S_j S XOR 1\<rparr>" by (simp add: eq)
  show "list_all is_word d" "length d = 160"
    using w eq(2) frame_blocks_word(2) [OF assms(2,3)] by auto
  show "state_inv S'"
    using state_inv_filter_update [OF assms(1) _ _ v(2,1), of u' LARs] w unfolding eq(1) by simp
qed

lemma Gsm_Coder_Some:
  assumes "state_inv S" "e_inv e" "list_all is_word s" "length s = 160"
  obtains S' e' P where "Gsm_Coder S e s = Some (S', e', P)" "state_inv S'" "e_inv e'" "params_ok P" "lags_ok P"
    "S_LARpp S' = frame_LARpp S (LARc P)" "S_j S' = S_j S XOR 1"
    "history 0 (S_dp0 S') = param_history P (history 0 (S_dp0 S)) 4"
proof -
  obtain S1 so z l m where p: "Gsm_Preprocess S s = Some (S1, so)" "state_inv S1" "length so = 160" "list_all is_word so"
    and S1: "S1 = S\<lparr>S_z1 := z, S_L_z2 := l, S_mp := m\<rparr>"
    using Gsm_Preprocess_Some [OF assms(1,3,4)] by metis
  obtain so' LARs where a: "Gsm_LPC_Analysis so = Some (so', LARs)" "length so' = 160" "list_all is_word so'"
    "length LARs = 8" "\<And>i. i < 8 \<Longrightarrow> 0 \<le> LARs ! i \<and> LARs ! i < 2 ^ (lar_widths ! i)"
    using Gsm_LPC_Analysis_Some [OF p(4,3)] by metis
  obtain S2 d where f: "Gsm_Short_Term_Analysis_Filter S1 LARs so' = (S2, d)" by force
  note i = analysis_filter_inv [OF p(2) a(3,2) f]
  obtain u where S2: "S2 = S1\<lparr>S_u := u, S_LARpp := frame_LARpp S1 LARs, S_j := S_j S1 XOR 1\<rparr>"
    using i(4) by blast
  let ?P0 = "\<lparr>LARc = LARs, Nc = [], bc = [], Mc = [], xmaxc = [], xmc = []\<rparr>"
  have "coder_state_ok (history 0 (S_dp0 S2)) LARs 0 (S_dp0 S2, e, ?P0)"
    using i(1) assms(2) by (simp add: coder_state_ok_def state_inv_def lags_ok_def)
  then have "\<exists>st. fold_opt (coder_subframe d) [0..<4] (S_dp0 S2, e, ?P0) = Some st
      \<and> coder_state_ok (history 0 (S_dp0 S2)) LARs 4 st"
    by (rule fold_opt_upt [where P = "coder_state_ok (history 0 (S_dp0 S2)) LARs"])
      (rule coder_subframe_ok [OF i(2,3)])
  then obtain dp0 e' P where g: "fold_opt (coder_subframe d) [0..<4] (S_dp0 S2, e, ?P0) = Some (dp0, e', P)"
    and ok: "coder_state_ok (history 0 (S_dp0 S2)) LARs 4 (dp0, e', P)" by auto
  let ?dp = "take 120 (drop 160 dp0) @ drop 120 dp0"
  have c: "Gsm_Coder S e s = Some (S2\<lparr>S_dp0 := ?dp\<rparr>, e', P)"
    using p(1) a(1) f g by (simp add: Gsm_Coder_def)
  have dp: "length ?dp = 280" "list_all is_word ?dp" "history 0 ?dp = history 4 dp0"
  proof -
    have l: "length dp0 = 280" "list_all is_word dp0" using ok by (simp_all add: coder_state_ok_def)
    then show "length ?dp = 280" "history 0 ?dp = history 4 dp0" by (simp_all add: history_def)
    from l(2) show "list_all is_word ?dp" by (auto simp: list_all_iff dest!: in_set_takeD in_set_dropD)
  qed
  have P: "params_ok P" "lags_ok P" "LARc P = LARs" "e_inv e'" "history 4 dp0 = param_history P (history 0 (S_dp0 S2)) 4"
    using ok a(4,5) by (auto simp: coder_state_ok_def params_ok_def params_shape_def lags_ok_def list_all_iff)
  show ?thesis
    by (rule that [OF c]) (use i(1) dp P in \<open>simp_all add: state_inv_def S1 S2 frame_LARpp_def\<close>)
qed

section \<open>Frames\<close>

lemma and_range: "0 \<le> m \<Longrightarrow> 0 \<le> x AND m \<and> x AND m \<le> m" for x m :: int
  by simp

lemma shl_or_less:
  assumes "0 \<le> a" "a < 2 ^ n" "0 \<le> b" "b < 2 ^ k"
  shows "0 \<le> shl a k OR b \<and> shl a k OR b < 2 ^ (n + k)"
proof -
  have "a * 2 ^ k < 2 ^ n * 2 ^ k" using assms(2) by simp
  moreover have "(2::int) ^ k \<le> 2 ^ (n + k)" by (intro power_increasing) auto
  ultimately have "a * 2 ^ k < 2 ^ (n + k)" "b < 2 ^ (n + k)"
    using assms(4) by (simp add: power_add, linarith)
  then show ?thesis using assms(1,3) OR_upper [of "a * 2 ^ k" "n + k" b] by (simp add: shl_mult)
qed

lemma mask_ranges:
  fixes x :: int
  shows "0 \<le> x AND 0x1 \<and> x AND 0x1 < 2 ^ 1" "0 \<le> x AND 0x3 \<and> x AND 0x3 < 2 ^ 2"
    "0 \<le> x AND 0x7 \<and> x AND 0x7 < 2 ^ 3" "0 \<le> x AND 0xF \<and> x AND 0xF < 2 ^ 4"
    "0 \<le> x AND 0x1F \<and> x AND 0x1F < 2 ^ 5" "0 \<le> x AND 0x3F \<and> x AND 0x3F < 2 ^ 6"
    "0 \<le> x AND 0x7F \<and> x AND 0x7F < 2 ^ 7"
  using and_range [of "0x1" x] and_range [of "0x3" x] and_range [of "0x7" x] and_range [of "0xF" x]
    and_range [of "0x1F" x] and_range [of "0x3F" x] and_range [of "0x7F" x] by auto

lemma lar_fields_range:
  "list_all2 (\<lambda>w x. 0 \<le> x \<and> x < 2 ^ w) lar_widths (lar_fields c)"
proof -
  note or = shl_or_less [OF conjunct1 conjunct2 conjunct1 conjunct2, OF mask_ranges(4,4) mask_ranges(2,2)]
    shl_or_less [OF conjunct1 conjunct2 conjunct1 conjunct2, OF mask_ranges(3,3) mask_ranges(2,2)]
    shl_or_less [OF conjunct1 conjunct2 conjunct1 conjunct2, OF mask_ranges(2,2) mask_ranges(2,2)]
  show ?thesis
    unfolding lar_fields_def lar_widths_def list_all2_Cons list_all2_Nil
    using or mask_ranges by (intro conjI TrueI; simp)
qed

lemma seg_fields_range:
  "list_all2 (\<lambda>w x. 0 \<le> x \<and> x < 2 ^ w) seg_widths (seg_fields c)"
proof -
  have w: "seg_widths = [7, 2, 2, 6, 3, 3, 3, 3, 3, 3, 3, 3, 3, 3, 3, 3, 3]" by code_simp
  note or = shl_or_less [OF conjunct1 conjunct2 conjunct1 conjunct2, OF mask_ranges(1,1) mask_ranges(1,1)]
    shl_or_less [OF conjunct1 conjunct2 conjunct1 conjunct2, OF mask_ranges(5,5) mask_ranges(1,1)]
    shl_or_less [OF conjunct1 conjunct2 conjunct1 conjunct2, OF mask_ranges(1,1) mask_ranges(2,2)]
    shl_or_less [OF conjunct1 conjunct2 conjunct1 conjunct2, OF mask_ranges(2,2) mask_ranges(1,1)]
  show ?thesis
    unfolding seg_fields_def w list_all2_Cons list_all2_Nil
    using or mask_ranges by (intro conjI TrueI; simp)
qed

lemma seg_fields_bounds:
  "0 \<le> seg_fields c ! 0 \<and> seg_fields c ! 0 < 128" "0 \<le> seg_fields c ! 1 \<and> seg_fields c ! 1 \<le> 3"
  "0 \<le> seg_fields c ! 2 \<and> seg_fields c ! 2 \<le> 3" "0 \<le> seg_fields c ! 3 \<and> seg_fields c ! 3 < 64"
  "list_all is_code3 (drop 4 (seg_fields c))"
proof -
  have r: "0 \<le> seg_fields c ! i \<and> seg_fields c ! i < 2 ^ (seg_widths ! i)" if "i < 17" for i
    using seg_fields_range [of c] that by (simp add: list_all2_conv_all_nth length_widths)
  have w: "seg_widths ! 0 = 7" "seg_widths ! 1 = 2" "seg_widths ! 2 = 2" "seg_widths ! 3 = 6"
    "\<And>i. i < 13 \<Longrightarrow> seg_widths ! (4 + i) = 3" by (simp_all add: seg_widths_def nth_append)
  show "0 \<le> seg_fields c ! 0 \<and> seg_fields c ! 0 < 128" "0 \<le> seg_fields c ! 1 \<and> seg_fields c ! 1 \<le> 3"
    "0 \<le> seg_fields c ! 2 \<and> seg_fields c ! 2 \<le> 3" "0 \<le> seg_fields c ! 3 \<and> seg_fields c ! 3 < 64"
    using r [of 0] r [of 1] r [of 2] r [of 3] unfolding w by auto
  have "is_code3 (seg_fields c ! (4 + i))" if "i < 13" for i
    using r [of "4 + i"] w(5) [OF that] that by (simp add: is_code3_def)
  then show "list_all is_code3 (drop 4 (seg_fields c))" by (simp add: list_all_length)
qed

lemma decode_frame_ok:
  assumes "decode_frame c = Some P"
  shows "params_ok P"
proof -
  let ?g = "\<lambda>i. seg_fields (take 7 (drop i c))"
  have "P = \<lparr>LARc = lar_fields (take 5 c), Nc = map (\<lambda>i. ?g i ! 0) [5, 12, 19, 26],
      bc = map (\<lambda>i. ?g i ! 1) [5, 12, 19, 26], Mc = map (\<lambda>i. ?g i ! 2) [5, 12, 19, 26],
      xmaxc = map (\<lambda>i. ?g i ! 3) [5, 12, 19, 26], xmc = concat (map (\<lambda>i. drop 4 (?g i)) [5, 12, 19, 26])\<rparr>"
    using assms by (auto simp: decode_frame_def Let_def decode_LARc_def decode_seg0_def decode_seg1_def
        decode_seg2_def decode_seg3_def split: if_splits)
  moreover have "0 \<le> lar_fields (take 5 c) ! i \<and> lar_fields (take 5 c) ! i < 2 ^ (lar_widths ! i)" if "i < 8" for i
    using lar_fields_range [of "take 5 c"] that by (simp add: list_all2_conv_all_nth length_widths)
  ultimately show ?thesis
    using decode_frame_explode(1) [OF assms] seg_fields_bounds
    unfolding params_ok_def by (simp add: list_all_append)
qed

lemma take_bit_widths:
  fixes xs :: "int list"
  assumes "list_all2 (\<lambda>w x. 0 \<le> x \<and> x < 2 ^ w) ws xs"
  shows "map2 take_bit ws xs = xs"
  using assms by (induction rule: list_all2_induct) (auto simp: take_bit_int_eq_self)

lemma flatten_widths:
  assumes "params_ok P"
  shows "list_all2 (\<lambda>w x. 0 \<le> x \<and> x < 2 ^ w) frame_widths (flatten P)"
proof -
  let ?R = "\<lambda>w x. 0 \<le> x \<and> x < (2::int) ^ w"
  have l: "list_all2 ?R lar_widths (LARc P)"
    using assms by (auto simp: params_ok_def params_shape_def list_all2_conv_all_nth length_widths)
  have x: "list_all2 ?R (replicate 13 3) (take 13 (drop (13 * j) (xmc P)))" if "j < 4" for j
  proof -
    have c: "0 \<le> xmc P ! n \<and> xmc P ! n < 2 ^ 3" if "n < 52" for n
      using assms that by (force simp: params_ok_def params_shape_def list_all_length is_code3_def)
    have "length (xmc P) = 52" using assms by (simp add: params_ok_def params_shape_def)
    with c that show ?thesis by (simp add: list_all2_conv_all_nth)
  qed
  have g: "list_all2 ?R seg_widths ([Nc P ! j, bc P ! j, Mc P ! j, xmaxc P ! j] @ take 13 (drop (13 * j) (xmc P)))"
    if "j < 4" for j
    using assms that unfolding seg_widths_def
    by (intro list_all2_appendI x) (auto simp: params_ok_def params_shape_def list_all_length)
  have "flatten P = LARc P
     @ ([Nc P ! 0, bc P ! 0, Mc P ! 0, xmaxc P ! 0] @ take 13 (drop (13 * 0) (xmc P)))
     @ ([Nc P ! 1, bc P ! 1, Mc P ! 1, xmaxc P ! 1] @ take 13 (drop (13 * 1) (xmc P)))
     @ ([Nc P ! 2, bc P ! 2, Mc P ! 2, xmaxc P ! 2] @ take 13 (drop (13 * 2) (xmc P)))
     @ ([Nc P ! 3, bc P ! 3, Mc P ! 3, xmaxc P ! 3] @ take 13 (drop (13 * 3) (xmc P)))"
    by (simp add: flatten_def)
  moreover have "list_all2 ?R frame_widths \<dots>"
    unfolding frame_widths_def by (intro list_all2_appendI l g) simp_all
  ultimately show ?thesis by simp
qed

lemma list4_eq: "length xs = 4 \<Longrightarrow> xs = [xs ! 0, xs ! 1, xs ! 2, xs ! 3]"
  by (auto simp: numeral_eq_Suc length_Suc_conv)

lemma flatten_inj:
  assumes "params_shape P" "params_shape Q" "flatten P = flatten Q"
  shows "P = Q"
proof -
  have len: "length (LARc P) = 8" "length (LARc Q) = 8" "length (xmc P) = 52" "length (xmc Q) = 52"
    using assms(1,2) by (simp_all add: params_shape_def)
  from assms(3) have eqs: "LARc P = LARc Q"
    "\<forall>i \<in> {0, 1, 2, 3}. Nc P ! i = Nc Q ! i \<and> bc P ! i = bc Q ! i \<and> Mc P ! i = Mc Q ! i \<and> xmaxc P ! i = xmaxc Q ! i"
    "take 13 (xmc P) = take 13 (xmc Q)" "take 13 (drop 13 (xmc P)) = take 13 (drop 13 (xmc Q))"
    "take 13 (drop 26 (xmc P)) = take 13 (drop 26 (xmc Q))" "take 13 (drop 39 (xmc P)) = take 13 (drop 39 (xmc Q))"
    using len by (simp_all add: flatten_def)
  have split: "xs = take 13 xs @ take 13 (drop 13 xs) @ take 13 (drop 26 xs) @ take 13 (drop 39 xs)"
    if "length xs = 52" for xs :: "int list"
    using that append_take_drop_id [of 13 xs] append_take_drop_id [of 13 "drop 13 xs"]
      append_take_drop_id [of 13 "drop 26 xs"] by simp
  have "xmc P = xmc Q" using split [OF len(3)] split [OF len(4)] eqs(3-6) by simp
  moreover have "Nc P = Nc Q" "bc P = bc Q" "Mc P = Mc Q" "xmaxc P = xmaxc Q"
    using assms(1,2) eqs(2) list4_eq [of "Nc P"] list4_eq [of "Nc Q"] list4_eq [of "bc P"]
      list4_eq [of "bc Q"] list4_eq [of "Mc P"] list4_eq [of "Mc Q"] list4_eq [of "xmaxc P"] list4_eq [of "xmaxc Q"]
    unfolding params_shape_def by simp_all
  ultimately show ?thesis using eqs(1) by simp
qed

lemma decode_frame_encode_frame:
  assumes "params_ok P"
  shows "decode_frame (encode_frame P) = Some P"
proof -
  have sh: "params_shape P" using assms by (simp add: params_ok_def)
  have x: "gsm_explode (encode_frame P) [] = (0, flatten P)"
    unfolding encode_frame_implode [OF sh] gsm_explode_implode [OF length_flatten [OF sh]]
    by (simp add: take_bit_widths [OF flatten_widths [OF assms]])
  then have "decode_frame (encode_frame P) \<noteq> None"
    by (simp add: decode_frame_None [where target = "[]"])
  then obtain Q where Q: "decode_frame (encode_frame P) = Some Q" by blast
  from decode_frame_explode [OF Q] x have "params_shape Q" "flatten Q = flatten P" by auto
  then show ?thesis using Q flatten_inj [OF _ sh] by simp
qed

section \<open>The calls of an application\<close>

lemma gsm_encode_Some:
  assumes "state_inv S" "e_inv e" "list_all is_word s" "length s = 160"
  obtains S' e' P where "gsm_encode S e s = Some (S', e', encode_frame P)" "state_inv S'" "e_inv e'"
    "params_ok P" "lags_ok P" "S_LARpp S' = frame_LARpp S (LARc P)" "S_j S' = S_j S XOR 1"
    "history 0 (S_dp0 S') = param_history P (history 0 (S_dp0 S)) 4"
proof -
  obtain S' e' P where "Gsm_Coder S e s = Some (S', e', P)" "state_inv S'" "e_inv e'"
    "params_ok P" "lags_ok P" "S_LARpp S' = frame_LARpp S (LARc P)" "S_j S' = S_j S XOR 1"
    "history 0 (S_dp0 S') = param_history P (history 0 (S_dp0 S)) 4"
    using Gsm_Coder_Some [OF assms] .
  then show ?thesis by (intro that [of S' e' P]) (simp_all add: gsm_encode_def)
qed

lemma gsm_decode_reject:
  "decode_frame c = None \<Longrightarrow> gsm_decode S c target = Some (S, - 1, target)"
  by (simp add: gsm_decode_def)

lemma gsm_decode_accept:
  assumes "state_inv S" "decode_frame c = Some P"
  obtains S' s where "gsm_decode S c target = Some (S', 0, s)" "state_inv S'" "length s = 160"
    "list_all (\<lambda>x. is_word x \<and> x mod 8 = 0) s" "S_LARpp S' = frame_LARpp S (LARc P)" "S_j S' = S_j S XOR 1"
    "lags_ok P \<longrightarrow> history 0 (S_dp0 S') = param_history P (history 0 (S_dp0 S)) 4"
proof -
  obtain S' s where d: "Gsm_Decoder S P = Some (S', s)" and r: "state_inv S'" "length s = 160"
    "list_all (\<lambda>x. is_word x \<and> x mod 8 = 0) s" "S_LARpp S' = frame_LARpp S (LARc P)" "S_j S' = S_j S XOR 1"
    "lags_ok P \<longrightarrow> history 0 (S_dp0 S') = param_history P (history 0 (S_dp0 S)) 4"
    using Gsm_Decoder_Some [OF assms(1) decode_frame_ok [OF assms(2)]] .
  have "gsm_decode S c target = Some (S', 0, s)" by (simp add: gsm_decode_def assms(2) d)
  then show ?thesis using r by (intro that [of S' s]) simp_all
qed

text \<open>One frame through a coder handle and through a decoder handle.\<close>

definition encode_call :: "gsm_state \<times> int list \<Rightarrow> int list \<Rightarrow> ((gsm_state \<times> int list) \<times> int list) option" where
  "encode_call st s = (case st of (S, e) \<Rightarrow> do { (S, e, c) \<leftarrow> gsm_encode S e s; Some ((S, e), c) })"

definition decode_call :: "gsm_state \<Rightarrow> int list \<Rightarrow> (gsm_state \<times> int list) option" where
  "decode_call S c = do { (S, r, s) \<leftarrow> gsm_decode S c (replicate 160 0); if r = 0 then Some (S, s) else None }"

text \<open>What coder and decoder have to agree on between frames.\<close>

definition codec_rel :: "gsm_state \<times> int list \<Rightarrow> gsm_state \<Rightarrow> bool" where
  "codec_rel st D \<longleftrightarrow> (case st of (S, e) \<Rightarrow> state_inv S \<and> e_inv e \<and> state_inv D
     \<and> history 0 (S_dp0 S) = history 0 (S_dp0 D) \<and> S_LARpp S = S_LARpp D \<and> S_j S = S_j D)"

definition is_frame :: "int list \<Rightarrow> bool" where
  "is_frame s \<longleftrightarrow> length s = 160 \<and> list_all is_word s"

definition is_output :: "int list \<Rightarrow> bool" where
  "is_output s \<longleftrightarrow> length s = 160 \<and> list_all (\<lambda>x. is_word x \<and> x mod 8 = 0) s"

lemma codec_step:
  assumes "codec_rel st D" "is_frame s"
  shows "\<exists>st' c D' y. encode_call st s = Some (st', c) \<and> decode_call D c = Some (D', y)
    \<and> codec_rel st' D' \<and> is_output y"
proof -
  obtain S e where st: "st = (S, e)" by force
  have r: "state_inv S" "e_inv e" "state_inv D" "history 0 (S_dp0 S) = history 0 (S_dp0 D)"
    "S_LARpp S = S_LARpp D" "S_j S = S_j D" using assms(1) by (simp_all add: codec_rel_def st)
  have f: "list_all is_word s" "length s = 160" using assms(2) by (simp_all add: is_frame_def)
  obtain S' e' P where e: "gsm_encode S e s = Some (S', e', encode_frame P)" "state_inv S'" "e_inv e'"
    "params_ok P" "lags_ok P" "S_LARpp S' = frame_LARpp S (LARc P)" "S_j S' = S_j S XOR 1"
    "history 0 (S_dp0 S') = param_history P (history 0 (S_dp0 S)) 4"
    using gsm_encode_Some [OF r(1,2) f] .
  note fr = decode_frame_encode_frame [OF e(4)]
  obtain D' y where d: "gsm_decode D (encode_frame P) (replicate 160 0) = Some (D', 0, y)" "state_inv D'"
    "length y = 160" "list_all (\<lambda>x. is_word x \<and> x mod 8 = 0) y" "S_LARpp D' = frame_LARpp D (LARc P)"
    "S_j D' = S_j D XOR 1" "lags_ok P \<longrightarrow> history 0 (S_dp0 D') = param_history P (history 0 (S_dp0 D)) 4"
    using gsm_decode_accept [OF r(3) fr, of "replicate 160 0"] .
  have "codec_rel (S', e') D'" using e d r by (simp add: codec_rel_def frame_LARpp_def)
  then show ?thesis
    using e(1) d(1,3,4)
    by (intro exI [of _ "(S', e')"] exI [of _ "encode_frame P"] exI [of _ D'] exI [of _ y])
      (simp add: encode_call_def decode_call_def st is_output_def)
qed

interpretation gsm: lockstep_codec encode_call decode_call codec_rel is_frame is_output
  by unfold_locales (rule codec_step)

section \<open>Properties\<close>

lemma fresh_rel: "gsm_create m = Some S \<Longrightarrow> gsm_create m' = Some D \<Longrightarrow> codec_rel (S, replicate 50 0) D"
  using gsm_create_inv [of m S] gsm_create_inv [of m' D]
  by (auto simp: codec_rel_def e_inv_def list_all_replicate is_word_def gsm_create_def split: if_splits)

text \<open>C1 (a whole conversation): start the coder and the decoder on two handles of \<open>gsm_create\<close> and
  feed the coder any sequence of frames of 160 words. No assertion fails in either, every frame
  is encoded, the decoder accepts every encoded frame and returns for each 160 words whose three
  low bits are zero, and at the end both sides still agree on the reconstructed short-term
  residual, the area ratios and the parity bit: the decoder never drifts away from what the
  coder assumes.\<close>

theorem codec_conversation:
  assumes "gsm_create True = Some S" "gsm_create True = Some D" "\<forall>s \<in> set frames. is_frame s"
  shows "\<exists>st cs D' ys. run_all encode_call (S, replicate 50 0) frames = Some (st, cs)
    \<and> run_all decode_call D cs = Some (D', ys) \<and> codec_rel st D'
    \<and> length ys = length frames \<and> (\<forall>y \<in> set ys. is_output y)"
  by (rule gsm.stream [OF fresh_rel [OF assms(1,2)] assms(3)])

theorem codec_conversation_witness:
  "\<exists>S D st cs D' ys. gsm_create True = Some S \<and> gsm_create True = Some D
    \<and> run_all encode_call (S, replicate 50 0) [replicate 160 1000, replicate 160 (- 1000)] = Some (st, cs)
    \<and> run_all decode_call D cs = Some (D', ys) \<and> length ys = 2"
proof -
  obtain S where S: "gsm_create True = Some S" by (simp add: gsm_create_def)
  have "\<forall>s \<in> set [replicate 160 1000, replicate 160 (- 1000)]. is_frame s"
    by (simp add: is_frame_def list_all_replicate is_word_def)
  from codec_conversation [OF S S this] S show ?thesis by (simp only: list.size) auto
qed

text \<open>C2 (encoding is total): in every state that satisfies the invariant, \<open>gsm_encode\<close> encodes every
  frame of 160 words without failing an assertion. The 33 bytes carry parameters within the widths
  of their fields, whose lags the decoder need not replace, and the coder's own reconstruction of
  the residual is the one those parameters determine.\<close>

theorem gsm_encode_total:
  assumes "state_inv S" "e_inv e" "list_all is_word s" "length s = 160"
  shows "\<exists>S' e' P. gsm_encode S e s = Some (S', e', encode_frame P) \<and> state_inv S' \<and> e_inv e'
    \<and> params_ok P \<and> lags_ok P \<and> history 0 (S_dp0 S') = param_history P (history 0 (S_dp0 S)) 4
    \<and> decode_frame (encode_frame P) = Some P"
  using gsm_encode_Some [OF assms] decode_frame_encode_frame by metis

theorem gsm_encode_total_witness:
  "\<exists>S' e' P. gsm_encode (gsm_zero\<lparr>S_nrp := 40\<rparr>) (replicate 50 0) (replicate 160 (- 32768))
    = Some (S', e', encode_frame P) \<and> params_ok P"
proof -
  have "state_inv (gsm_zero\<lparr>S_nrp := 40\<rparr>)" by (rule gsm_create_inv [of True]) (simp add: gsm_create_def)
  moreover have "e_inv (replicate 50 0)" "list_all is_word (replicate 160 (- 32768))"
    by (simp_all add: e_inv_def list_all_replicate is_word_def)
  ultimately show ?thesis using gsm_encode_total [OF _ _ _ length_replicate] by blast
qed

text \<open>C3 (decoding is total and rejects cleanly): in every state that satisfies the invariant,
  \<open>gsm_decode\<close> returns on every input. A frame without the magic nibble gives -1 and leaves the
  handle and the caller's buffer as they were; every other frame, damaged or not, is decoded
  without failing an assertion to 160 words with their three low bits clear, and the invariant
  holds again.\<close>

theorem gsm_decode_total:
  assumes "state_inv S"
  shows "(decode_frame c = None \<longrightarrow> gsm_decode S c target = Some (S, - 1, target))
    \<and> (decode_frame c \<noteq> None \<longrightarrow> (\<exists>S' s. gsm_decode S c target = Some (S', 0, s) \<and> state_inv S'
        \<and> length s = 160 \<and> list_all (\<lambda>x. is_word x \<and> x mod 8 = 0) s))
    \<and> (decode_frame c = None \<longleftrightarrow> sasr (c ! 0) 4 AND 0x0F \<noteq> 0xD)"
proof (intro conjI impI)
  show "gsm_decode S c target = Some (S, - 1, target)" if "decode_frame c = None"
    using that by (rule gsm_decode_reject)
  show "\<exists>S' s. gsm_decode S c target = Some (S', 0, s) \<and> state_inv S'
        \<and> length s = 160 \<and> list_all (\<lambda>x. is_word x \<and> x mod 8 = 0) s" if "decode_frame c \<noteq> None"
    using that gsm_decode_accept [OF assms] by (metis option.exhaust)
  show "decode_frame c = None \<longleftrightarrow> sasr (c ! 0) 4 AND 0x0F \<noteq> 0xD" by (simp add: decode_frame_def)
qed

theorem gsm_decode_total_witness:
  "gsm_decode (gsm_zero\<lparr>S_nrp := 40\<rparr>) (replicate 33 0) [7] = Some (gsm_zero\<lparr>S_nrp := 40\<rparr>, - 1, [7])
   \<and> (\<exists>S' s. gsm_decode (gsm_zero\<lparr>S_nrp := 40\<rparr>) (0xD3 # replicate 32 255) [7] = Some (S', 0, s) \<and> length s = 160)"
proof -
  have inv: "state_inv (gsm_zero\<lparr>S_nrp := 40\<rparr>)" by (rule gsm_create_inv [of True]) (simp add: gsm_create_def)
  have "sasr (replicate 33 0 ! 0) 4 AND 0x0F \<noteq> 0xD" "\<not> sasr ((0xD3 # replicate 32 255) ! 0) 4 AND 0x0F \<noteq> 0xD"
    by (simp_all add: sasr_def)
  with gsm_decode_total [OF inv, of "replicate 33 0" "[7]"] gsm_decode_total [OF inv, of "0xD3 # replicate 32 255" "[7]"]
  show ?thesis by meson
qed

end
