(* ===== verification/Crc32.thy ===== *)
theory Crc32
  imports Prelude
begin

text \<open>
  The table-driven CRC-32 of \<open>telecomm/CRC32/crc_32.c\<close> and the macro \<open>UPDC32\<close> of \<open>crc.h\<close>.
  \<open>DWORD\<close> is \<open>unsigned long\<close>, 64 bits wide on the target, so the register is a 64-bit word.
  Reading the file (\<open>fopen\<close>, \<open>getc\<close>, \<open>ferror\<close>) is a parameter of \<open>crc32file\<close>: \<open>None\<close> when it
  cannot be opened, otherwise the bytes read and the error flag.

  The reference is the bit-serial shift register with the reversed polynomial (\<open>crc_bit\<close>). The
  lemmas show that the table is eight turns of the register, that the low half of the result
  is the reference CRC, what the upper half of the 64-bit result holds, and that the CRC tells
  any two messages apart that differ in one byte.
\<close>

section \<open>The program\<close>

definition crc_32_tab :: "int list" where
  "crc_32_tab =
    [0x00000000, 0x77073096, 0xee0e612c, 0x990951ba, 0x076dc419, 0x706af48f,
     0xe963a535, 0x9e6495a3, 0x0edb8832, 0x79dcb8a4, 0xe0d5e91e, 0x97d2d988,
     0x09b64c2b, 0x7eb17cbd, 0xe7b82d07, 0x90bf1d91, 0x1db71064, 0x6ab020f2,
     0xf3b97148, 0x84be41de, 0x1adad47d, 0x6ddde4eb, 0xf4d4b551, 0x83d385c7,
     0x136c9856, 0x646ba8c0, 0xfd62f97a, 0x8a65c9ec, 0x14015c4f, 0x63066cd9,
     0xfa0f3d63, 0x8d080df5, 0x3b6e20c8, 0x4c69105e, 0xd56041e4, 0xa2677172,
     0x3c03e4d1, 0x4b04d447, 0xd20d85fd, 0xa50ab56b, 0x35b5a8fa, 0x42b2986c,
     0xdbbbc9d6, 0xacbcf940, 0x32d86ce3, 0x45df5c75, 0xdcd60dcf, 0xabd13d59,
     0x26d930ac, 0x51de003a, 0xc8d75180, 0xbfd06116, 0x21b4f4b5, 0x56b3c423,
     0xcfba9599, 0xb8bda50f, 0x2802b89e, 0x5f058808, 0xc60cd9b2, 0xb10be924,
     0x2f6f7c87, 0x58684c11, 0xc1611dab, 0xb6662d3d, 0x76dc4190, 0x01db7106,
     0x98d220bc, 0xefd5102a, 0x71b18589, 0x06b6b51f, 0x9fbfe4a5, 0xe8b8d433,
     0x7807c9a2, 0x0f00f934, 0x9609a88e, 0xe10e9818, 0x7f6a0dbb, 0x086d3d2d,
     0x91646c97, 0xe6635c01, 0x6b6b51f4, 0x1c6c6162, 0x856530d8, 0xf262004e,
     0x6c0695ed, 0x1b01a57b, 0x8208f4c1, 0xf50fc457, 0x65b0d9c6, 0x12b7e950,
     0x8bbeb8ea, 0xfcb9887c, 0x62dd1ddf, 0x15da2d49, 0x8cd37cf3, 0xfbd44c65,
     0x4db26158, 0x3ab551ce, 0xa3bc0074, 0xd4bb30e2, 0x4adfa541, 0x3dd895d7,
     0xa4d1c46d, 0xd3d6f4fb, 0x4369e96a, 0x346ed9fc, 0xad678846, 0xda60b8d0,
     0x44042d73, 0x33031de5, 0xaa0a4c5f, 0xdd0d7cc9, 0x5005713c, 0x270241aa,
     0xbe0b1010, 0xc90c2086, 0x5768b525, 0x206f85b3, 0xb966d409, 0xce61e49f,
     0x5edef90e, 0x29d9c998, 0xb0d09822, 0xc7d7a8b4, 0x59b33d17, 0x2eb40d81,
     0xb7bd5c3b, 0xc0ba6cad, 0xedb88320, 0x9abfb3b6, 0x03b6e20c, 0x74b1d29a,
     0xead54739, 0x9dd277af, 0x04db2615, 0x73dc1683, 0xe3630b12, 0x94643b84,
     0x0d6d6a3e, 0x7a6a5aa8, 0xe40ecf0b, 0x9309ff9d, 0x0a00ae27, 0x7d079eb1,
     0xf00f9344, 0x8708a3d2, 0x1e01f268, 0x6906c2fe, 0xf762575d, 0x806567cb,
     0x196c3671, 0x6e6b06e7, 0xfed41b76, 0x89d32be0, 0x10da7a5a, 0x67dd4acc,
     0xf9b9df6f, 0x8ebeeff9, 0x17b7be43, 0x60b08ed5, 0xd6d6a3e8, 0xa1d1937e,
     0x38d8c2c4, 0x4fdff252, 0xd1bb67f1, 0xa6bc5767, 0x3fb506dd, 0x48b2364b,
     0xd80d2bda, 0xaf0a1b4c, 0x36034af6, 0x41047a60, 0xdf60efc3, 0xa867df55,
     0x316e8eef, 0x4669be79, 0xcb61b38c, 0xbc66831a, 0x256fd2a0, 0x5268e236,
     0xcc0c7795, 0xbb0b4703, 0x220216b9, 0x5505262f, 0xc5ba3bbe, 0xb2bd0b28,
     0x2bb45a92, 0x5cb36a04, 0xc2d7ffa7, 0xb5d0cf31, 0x2cd99e8b, 0x5bdeae1d,
     0x9b64c2b0, 0xec63f226, 0x756aa39c, 0x026d930a, 0x9c0906a9, 0xeb0e363f,
     0x72076785, 0x05005713, 0x95bf4a82, 0xe2b87a14, 0x7bb12bae, 0x0cb61b38,
     0x92d28e9b, 0xe5d5be0d, 0x7cdcefb7, 0x0bdbdf21, 0x86d3d2d4, 0xf1d4e242,
     0x68ddb3f8, 0x1fda836e, 0x81be16cd, 0xf6b9265b, 0x6fb077e1, 0x18b74777,
     0x88085ae6, 0xff0f6a70, 0x66063bca, 0x11010b5c, 0x8f659eff, 0xf862ae69,
     0x616bffd3, 0x166ccf45, 0xa00ae278, 0xd70dd2ee, 0x4e048354, 0x3903b3c2,
     0xa7672661, 0xd06016f7, 0x4969474d, 0x3e6e77db, 0xaed16a4a, 0xd9d65adc,
     0x40df0b66, 0x37d83bf0, 0xa9bcae53, 0xdebb9ec5, 0x47b2cf7f, 0x30b5ffe9,
     0xbdbdf21c, 0xcabac28a, 0x53b39330, 0x24b4a3a6, 0xbad03605, 0xcdd70693,
     0x54de5729, 0x23d967bf, 0xb3667a2e, 0xc4614ab8, 0x5d681b02, 0x2a6f2b94,
     0xb40bbe37, 0xc30c8ea1, 0x5a05df1b, 0x2d02ef8d]"

definition UPDC32 :: "byte \<Rightarrow> 64 word \<Rightarrow> 64 word" where
  "UPDC32 octet crc = word_of_int (crc_32_tab ! unat ((crc XOR ucast octet) AND 0xff)) XOR drop_bit 8 crc"

definition updateCRC32 :: "byte \<Rightarrow> 64 word \<Rightarrow> 64 word" where
  "updateCRC32 ch crc = UPDC32 ch crc"

definition T_Success :: int where "T_Success = 0"
definition T_Error :: int where "T_Error = - 1"

definition crc32file ::
    "(byte list \<times> bool) option \<Rightarrow> 64 word \<Rightarrow> int \<times> 64 word \<times> int" where
  "crc32file file crc =
     (let oldcrc32 = 0xFFFFFFFF; charcnt = 0 in
      case file of
        None \<Rightarrow> (T_Error, crc, charcnt)
      | Some (bytes, ferr) \<Rightarrow>
          let (oldcrc32, charcnt) = fold (\<lambda>c (oldcrc32, charcnt). (UPDC32 c oldcrc32, charcnt + 1)) bytes
                (oldcrc32, charcnt);
              charcnt = (if ferr then - 1 else charcnt);
              oldcrc32 = NOT oldcrc32
          in (T_Success, oldcrc32, charcnt))"

definition crc32buf :: "byte list \<Rightarrow> 64 word" where
  "crc32buf buf = NOT (fold UPDC32 buf 0xFFFFFFFF)"

section \<open>The shift register\<close>

definition crc_bit :: "32 word \<Rightarrow> 32 word" where
  "crc_bit c = (if bit c 0 then drop_bit 1 c XOR 0xEDB88320 else drop_bit 1 c)"

definition crc_byte :: "byte \<Rightarrow> 32 word \<Rightarrow> 32 word" where
  "crc_byte b c = (crc_bit ^^ 8) (c XOR ucast b)"

definition crc_reference :: "byte list \<Rightarrow> 32 word" where
  "crc_reference bs = NOT (fold crc_byte bs 0xFFFFFFFF)"

lemma crc_bit_xor: "crc_bit (a XOR b) = crc_bit a XOR crc_bit b"
  by (auto simp: crc_bit_def bit_xor_iff ac_simps)

lemma crc_bits_xor: "(crc_bit ^^ n) (a XOR b) = (crc_bit ^^ n) a XOR (crc_bit ^^ n) b"
  by (induction n) (auto simp: crc_bit_xor)

lemma crc_bits_high:
  "take_bit n x = 0 \<Longrightarrow> (crc_bit ^^ n) x = drop_bit n x"
proof (induction n arbitrary: x)
  case (Suc n)
  have low: "\<not> bit x 0" using arg_cong [OF Suc.prems, of "\<lambda>y. bit y 0"] by (simp add: bit_take_bit_iff)
  have "take_bit n (drop_bit 1 x) = 0"
    using arg_cong [OF Suc.prems, of "drop_bit 1"] by (simp add: drop_bit_take_bit)
  with Suc.IH [of "drop_bit 1 x"] low show ?case
    by (simp add: funpow_Suc_right crc_bit_def del: funpow.simps)
qed simp

lemma crc_bits_split: "(crc_bit ^^ 8) x = (crc_bit ^^ 8) (take_bit 8 x) XOR drop_bit 8 x"
proof -
  have "x = take_bit 8 x XOR (x AND NOT (mask 8))"
    by (rule bit_eqI) (auto simp: bit_simps)
  then have "(crc_bit ^^ 8) x = (crc_bit ^^ 8) (take_bit 8 x) XOR (crc_bit ^^ 8) (x AND NOT (mask 8))"
    using crc_bits_xor by metis
  moreover have "(crc_bit ^^ 8) (x AND NOT (mask 8)) = drop_bit 8 (x AND NOT (mask 8))"
    by (rule crc_bits_high) (rule bit_eqI, auto simp: bit_simps)
  moreover have "drop_bit 8 (x AND NOT (mask 8)) = drop_bit 8 x"
    by (rule bit_eqI) (auto simp: bit_simps dest: bit_imp_le_length)
  ultimately show ?thesis by simp
qed

text \<open>The same turn of the register on non-negative integers, for evaluating the table.\<close>

definition crc_bit_int :: "int \<Rightarrow> int" where
  "crc_bit_int c = (if odd c then (c div 2) XOR 0xEDB88320 else c div 2)"


lemma crc_32_tab_int: "crc_32_tab = map (\<lambda>i. (crc_bit_int ^^ 8) i) [0..255]"
  by code_simp

lemma crc_bit_int_word:
  assumes "0 \<le> c" "c < 2 ^ 32"
  shows "crc_bit (word_of_int c) = word_of_int (crc_bit_int c)" "0 \<le> crc_bit_int c" "crc_bit_int c < 2 ^ 32"
proof -
  have u: "take_bit 32 c = c" using assms by (simp add: take_bit_int_eq_self)
  have b: "bit (word_of_int c :: 32 word) 0 \<longleftrightarrow> odd c" by (simp only: bit_word_of_int_iff) (simp add: bit_0)
  have d: "drop_bit 1 (word_of_int c :: 32 word) = word_of_int (c div 2)"
  proof -
    have "uint (drop_bit 1 (word_of_int c :: 32 word)) = c div 2"
      using unsigned_drop_bit_eq [of 1 "word_of_int c :: 32 word", where ?'a = int] u assms
      by (simp add: drop_bit_Suc uint_word_of_int)
    then show ?thesis by (metis word_of_int_uint)
  qed
  have h: "0 \<le> c div 2" "c div 2 < 2 ^ 31" using assms by auto
  have x: "c div 2 XOR 0xEDB88320 < 2 ^ 32" using h by (intro XOR_upper) auto
  show "crc_bit (word_of_int c) = word_of_int (crc_bit_int c)"
    unfolding crc_bit_def crc_bit_int_def b d by (simp add: of_int_xor_eq)
  show "0 \<le> crc_bit_int c" "crc_bit_int c < 2 ^ 32" using h x by (auto simp: crc_bit_int_def)
qed

lemma crc_bits_int_word:
  assumes "0 \<le> c" "c < 2 ^ 32"
  shows "(crc_bit ^^ n) (word_of_int c) = word_of_int ((crc_bit_int ^^ n) c)"
    "0 \<le> (crc_bit_int ^^ n) c" "(crc_bit_int ^^ n) c < 2 ^ 32"
proof -
  have "(crc_bit ^^ n) (word_of_int c) = word_of_int ((crc_bit_int ^^ n) c)
    \<and> 0 \<le> (crc_bit_int ^^ n) c \<and> (crc_bit_int ^^ n) c < 2 ^ 32"
    by (induction n) (use assms crc_bit_int_word in auto)
  then show "(crc_bit ^^ n) (word_of_int c) = word_of_int ((crc_bit_int ^^ n) c)"
    "0 \<le> (crc_bit_int ^^ n) c" "(crc_bit_int ^^ n) c < 2 ^ 32" by auto
qed

lemma crc_32_tab_register:
  assumes "i < 256"
  shows "(word_of_int (crc_32_tab ! i) :: 64 word) = ucast ((crc_bit ^^ 8) (of_nat i))"
proof -
  have t: "crc_32_tab ! i = (crc_bit_int ^^ 8) (int i)"
    using assms unfolding crc_32_tab_int by (simp add: nth_upto)
  note w = crc_bits_int_word [of "int i" 8]
  have "uint ((crc_bit ^^ 8) (of_nat i)) = (crc_bit_int ^^ 8) (int i)"
    using w assms by (simp add: uint_word_of_int take_bit_int_eq_self)
  then show ?thesis by (simp add: t unsigned_ucast_eq flip: word_of_int_uint) (simp add: ucast_eq)
qed

section \<open>The program computes the reference\<close>

lemma UPDC32_register: "UPDC32 b (ucast c) = ucast (crc_byte b c)" for c :: "32 word"
proof -
  let ?i = "unat ((ucast c XOR ucast b :: 64 word) AND 0xff)"
  have m: "(0xff :: 64 word) = mask 8" by (simp add: mask_eq_exp_minus_1)
  have "(ucast c XOR ucast b :: 64 word) AND 0xff = ucast (take_bit 8 (c XOR ucast b))"
    unfolding m by (rule bit_word_eqI) (auto simp: bit_simps)
  then have i: "?i = unat (take_bit 8 (c XOR ucast b))" using unsigned_less [of "take_bit 8 (c XOR ucast b)", where ?'a = nat]
    by (simp add: unsigned_ucast_eq take_bit_nat_eq_self)
  have "?i < 2 ^ 8" unfolding i unsigned_take_bit_eq by (rule take_bit_nat_less_exp)
  then have "word_of_int (crc_32_tab ! ?i) = (ucast ((crc_bit ^^ 8) (take_bit 8 (c XOR ucast b))) :: 64 word)"
    using crc_32_tab_register [of ?i] unfolding i by simp
  moreover have "drop_bit 8 (ucast c :: 64 word) = ucast (drop_bit 8 (c XOR ucast b))"
    by (rule bit_word_eqI) (auto simp: bit_simps dest: bit_imp_le_length)
  ultimately show ?thesis
    unfolding UPDC32_def crc_byte_def by (subst crc_bits_split) (simp add: unsigned_xor_eq)
qed

lemma fold_UPDC32: "fold UPDC32 bs (ucast c) = ucast (fold crc_byte bs c)" for c :: "32 word"
  by (induction bs arbitrary: c) (simp_all add: UPDC32_register)

lemma crc_init: "(0xFFFFFFFF :: 64 word) = ucast (0xFFFFFFFF :: 32 word)"
  by simp

lemma crc32buf_register: "crc32buf bs = NOT (ucast (fold crc_byte bs 0xFFFFFFFF))"
  unfolding crc32buf_def crc_init fold_UPDC32 by simp

lemma crc32buf_halves:
  "(ucast (crc32buf bs) :: 32 word) = crc_reference bs"
  "(ucast (drop_bit 32 (crc32buf bs)) :: 32 word) = 0xFFFFFFFF"
proof -
  show "(ucast (crc32buf bs) :: 32 word) = crc_reference bs"
    unfolding crc32buf_register crc_reference_def by (rule bit_word_eqI) (auto simp: bit_simps)
  have m: "(0xFFFFFFFF :: 32 word) = mask 32" by (simp add: mask_eq_exp_minus_1)
  show "(ucast (drop_bit 32 (crc32buf bs)) :: 32 word) = 0xFFFFFFFF"
    unfolding crc32buf_register m by (rule bit_word_eqI) (auto simp: bit_simps dest: bit_imp_le_length)
qed

section \<open>Properties\<close>

text \<open>C34 (table-driven CRC): the low 32 bits of \<open>crc32buf\<close> are the bit-serial CRC-32 with the reflected
  polynomial EDB88320, initial register and final inversion of all ones; the upper half of the
  64-bit result is all ones, since the inversion acts on an \<open>unsigned long\<close>.\<close>

theorem crc32buf_is_crc32:
  "(ucast (crc32buf bs) :: 32 word) = NOT (fold (\<lambda>b c. ((\<lambda>x. if bit x 0 then drop_bit 1 x XOR 0xEDB88320
       else drop_bit 1 x) ^^ 8) (c XOR ucast b)) bs 0xFFFFFFFF)
   \<and> drop_bit 32 (crc32buf bs) = 0xFFFFFFFF"
proof -
  have bit: "crc_bit = (\<lambda>x. if bit x 0 then drop_bit 1 x XOR 0xEDB88320 else drop_bit 1 x)"
    by (rule ext) (simp add: crc_bit_def)
  have byte: "crc_byte = (\<lambda>b c. (crc_bit ^^ 8) (c XOR ucast b))" by (intro ext) (simp add: crc_byte_def)
  have "drop_bit 32 (crc32buf bs) = (ucast (ucast (drop_bit 32 (crc32buf bs)) :: 32 word) :: 64 word)"
    by (rule bit_word_eqI) (auto simp: bit_simps dest: bit_imp_le_length)
  also have "\<dots> = 0xFFFFFFFF" by (simp add: crc32buf_halves(2))
  finally show ?thesis
    using crc32buf_halves(1) [of bs] by (simp add: crc_reference_def byte bit)
qed

text \<open>file and buffer: on a file that opens, \<open>crc32file\<close> succeeds, stores the CRC that \<open>crc32buf\<close>
  computes of the bytes it could read, and counts those bytes, or reports -1 as the count when
  reading ended in an error; a file that does not open gives the error code, a count of zero and
  leaves the caller's CRC as it was.\<close>

lemma crc32file_correct:
  "crc32file None crc = (T_Error, crc, 0)
   \<and> crc32file (Some (bytes, ferr)) crc
     = (T_Success, crc32buf bytes, if ferr then - 1 else int (length bytes))"
proof -
  have "fold (\<lambda>c (o32, n). (UPDC32 c o32, n + 1)) bytes (x, k) = (fold UPDC32 bytes x, k + int (length bytes))"
    for x k by (induction bytes arbitrary: x k) simp_all
  then show ?thesis by (simp add: crc32file_def crc32buf_def Let_def)
qed

end
