(* ===== verification/Crc32_Detection.thy ===== *)
theory Crc32_Detection
  imports Crc32
begin

text \<open>
  What the CRC of \<open>telecomm/CRC32/crc_32.c\<close> detects: the contract of a byte-wise checksum and
  its interpretation on \<open>UPDC32\<close>.
\<close>

text \<open>
  A checksum that absorbs one byte at a time and loses neither the byte nor the register tells
  apart messages that differ in a single byte.
\<close>

locale byte_checksum =
  fixes step :: "'b \<Rightarrow> 's \<Rightarrow> 's" and ok :: "'s \<Rightarrow> bool"
  assumes ok_step: "ok s \<Longrightarrow> ok (step b s)"
    and inj_state: "ok s \<Longrightarrow> ok t \<Longrightarrow> step b s = step b t \<Longrightarrow> s = t"
    and inj_byte: "ok s \<Longrightarrow> step a s = step b s \<Longrightarrow> a = b"
begin

lemma ok_fold: "ok s \<Longrightarrow> ok (fold step bs s)"
  by (induction bs arbitrary: s) (simp_all add: ok_step)

lemma fold_inj: "ok s \<Longrightarrow> ok t \<Longrightarrow> fold step bs s = fold step bs t \<Longrightarrow> s = t"
proof (induction bs arbitrary: s t)
  case (Cons b bs)
  then have "step b s = step b t" by (simp add: ok_step)
  with Cons.prems show ?case by (blast intro: inj_state)
qed simp

lemma substitution_detected:
  assumes "ok s" "fold step (xs @ a # ys) s = fold step (xs @ b # ys) s"
  shows "a = b"
proof -
  let ?m = "fold step xs s"
  have "ok ?m" using assms(1) by (rule ok_fold)
  moreover have "step a ?m = step b ?m"
  proof (rule fold_inj)
    show "fold step ys (step a ?m) = fold step ys (step b ?m)" using assms(2) by simp
  qed (simp_all add: ok_step \<open>ok ?m\<close>)
  ultimately show ?thesis by (rule inj_byte)
qed

end

lemma crc_bit_zero: "crc_bit x = 0 \<Longrightarrow> x = 0"
proof -
  assume z: "crc_bit x = 0"
  have p: "bit (0xEDB88320 :: 32 word) 31" by simp
  show "x = 0"
  proof (cases "bit x 0")
    case True
    with z have "drop_bit 1 x XOR 0xEDB88320 = 0" by (simp add: crc_bit_def)
    then have "bit (drop_bit 1 x XOR 0xEDB88320) 31 = bit (0 :: 32 word) 31" by simp
    with p show ?thesis by (auto simp: bit_xor_iff bit_drop_bit_eq dest: bit_imp_le_length)
  next
    case False
    with z have d: "drop_bit 1 x = 0" by (simp add: crc_bit_def)
    show ?thesis
    proof (rule bit_word_eqI)
      fix n :: nat
      have "\<not> bit x n"
      proof (cases n)
        case (Suc m)
        have "bit (drop_bit 1 x) m = bit (0 :: 32 word) m" using d by simp
        then show ?thesis by (simp add: bit_drop_bit_eq Suc)
      qed (use False in simp)
      then show "bit x n = bit 0 n" by simp
    qed
  qed
qed

lemma crc_bits_inj: "(crc_bit ^^ n) x = (crc_bit ^^ n) y \<Longrightarrow> x = y"
proof (induction n arbitrary: x y)
  case (Suc n)
  have "crc_bit ((crc_bit ^^ n) x XOR (crc_bit ^^ n) y) = 0"
    using Suc.prems by (simp add: crc_bit_xor)
  then have "(crc_bit ^^ n) x XOR (crc_bit ^^ n) y = 0" by (rule crc_bit_zero)
  then have "((crc_bit ^^ n) x XOR (crc_bit ^^ n) y) XOR (crc_bit ^^ n) y = (crc_bit ^^ n) y" by simp
  then show ?case using Suc.IH by (simp add: xor.assoc)
qed simp

lemma crc_byte_inj:
  "crc_byte b c = crc_byte b d \<Longrightarrow> c = d" "crc_byte a c = crc_byte b c \<Longrightarrow> a = b"
proof -
  show "c = d" if "crc_byte b c = crc_byte b d"
  proof -
    from crc_bits_inj that have "c XOR ucast b = d XOR ucast b" unfolding crc_byte_def by blast
    then have "(c XOR ucast b) XOR ucast b = (d XOR ucast b) XOR ucast b" by simp
    then show ?thesis by (simp add: xor.assoc)
  qed
  show "a = b" if "crc_byte a c = crc_byte b c"
  proof -
    from crc_bits_inj that have "c XOR ucast a = c XOR ucast b" unfolding crc_byte_def by blast
    then have "c XOR (c XOR ucast a) = c XOR (c XOR ucast b)" by simp
    then have u: "(ucast a :: 32 word) = ucast b" by (simp flip: xor.assoc)
    show ?thesis
    proof (rule bit_word_eqI)
      fix n :: nat assume "n < LENGTH(8)"
      then show "bit a n = bit b n" using arg_cong [OF u, of "\<lambda>w. bit w n"] by (simp add: bit_ucast_iff)
    qed
  qed
qed

lemma low_half_ucast: "drop_bit 32 w = 0 \<Longrightarrow> w = ucast (ucast w :: 32 word)" for w :: "64 word"
proof (rule bit_word_eqI)
  fix n :: nat
  assume d: "drop_bit 32 w = 0" and "n < LENGTH(64)"
  have "\<not> bit w n" if "32 \<le> n"
    using arg_cong [OF d, of "\<lambda>w. bit w (n - 32)"] that by (simp add: bit_drop_bit_eq)
  then show "bit w n = bit (ucast (ucast w :: 32 word) :: 64 word) n"
    using \<open>n < LENGTH(64)\<close> by (cases "32 \<le> n") (auto simp: bit_simps)
qed

lemma ucast_half_inj:
  fixes x y :: "32 word"
  assumes "(ucast x :: 64 word) = ucast y"
  shows "x = y"
proof (rule bit_word_eqI)
  fix n :: nat
  assume n: "n < LENGTH(32)"
  from assms have "bit (ucast x :: 64 word) n = bit (ucast y :: 64 word) n" by simp
  with n show "bit x n = bit y n" by (simp add: bit_simps)
qed

lemma drop_half_ucast: "drop_bit 32 (ucast x :: 64 word) = 0" for x :: "32 word"
  by (rule bit_word_eqI) (auto simp: bit_simps dest: bit_imp_le_length)

interpretation crc: byte_checksum UPDC32 "\<lambda>c. drop_bit 32 c = 0"
proof
  fix s t :: "64 word" and a b :: byte
  assume s: "drop_bit 32 s = 0"
  note s' = low_half_ucast [OF s]
  show "drop_bit 32 (UPDC32 b s) = 0"
    by (subst s') (simp add: UPDC32_register drop_half_ucast)
  show "a = b" if "UPDC32 a s = UPDC32 b s"
  proof -
    have "UPDC32 a (ucast (ucast s :: 32 word)) = UPDC32 b (ucast (ucast s :: 32 word))"
      using that s' by simp
    then show ?thesis unfolding UPDC32_register by (intro crc_byte_inj(2) [OF ucast_half_inj])
  qed
  show "s = t" if "drop_bit 32 t = 0" "UPDC32 b s = UPDC32 b t"
  proof -
    note t' = low_half_ucast [OF that(1)]
    have "UPDC32 b (ucast (ucast s :: 32 word)) = UPDC32 b (ucast (ucast t :: 32 word))"
      using that(2) s' t' by simp
    then have "(ucast s :: 32 word) = ucast t"
      unfolding UPDC32_register by (intro crc_byte_inj(1) [OF ucast_half_inj])
    then show ?thesis using s' t' by metis
  qed
qed

section \<open>Properties\<close>

text \<open>C35 (one wrong byte is always detected): two buffers that differ in exactly one byte, however
  long and wherever the byte is, have different CRCs.\<close>

theorem crc32buf_detects_substitution:
  assumes "a \<noteq> b"
  shows "crc32buf (xs @ a # ys) \<noteq> crc32buf (xs @ b # ys)"
proof
  assume "crc32buf (xs @ a # ys) = crc32buf (xs @ b # ys)"
  then have "fold UPDC32 (xs @ a # ys) 0xFFFFFFFF = fold UPDC32 (xs @ b # ys) 0xFFFFFFFF"
    unfolding crc32buf_def by simp
  with crc.substitution_detected [of "0xFFFFFFFF" xs a ys b] assms show False by simp
qed

theorem crc32buf_detects_substitution_witness:
  "crc32buf ([1, 2] @ 3 # [4]) \<noteq> crc32buf ([1, 2] @ 7 # [4])"
  using crc32buf_detects_substitution [of 3 7 "[1, 2]" "[4]"] by simp

end
