(* ===== verification/Adpcm.thy ===== *)
theory Adpcm
  imports Prelude Lockstep
begin

text \<open>
  The Intel/DVI ADPCM coder and decoder, \<open>telecomm/adpcm/src/adpcm.c\<close>. The locals that a loop
  carries from sample to sample (\<open>valpred\<close>, \<open>index\<close>, \<open>step\<close>) are a triple; \<open>coder_sample\<close> and
  \<open>decoder_sample\<close> are steps 1 to 5 and 2 to 6 of the two loop bodies, and the loops add the
  packing of two 4-bit codes into a byte. All values are \<open>int\<close>s; a byte of the output array is
  a \<open>signed char\<close> (\<open>s8\<close>).

  The lemmas show that the decoder, started in the coder's state, follows the coder's predictor
  exactly, that the predictor stays in 16 bits and the table index in the table, how many bytes
  are written, and how far the prediction can be from the sample.
\<close>

record adpcm_state =
  st_valprev :: int
  st_index :: int

definition indexTable :: "int list" where
  "indexTable = [- 1, - 1, - 1, - 1, 2, 4, 6, 8, - 1, - 1, - 1, - 1, 2, 4, 6, 8]"

definition stepsizeTable :: "int list" where
  "stepsizeTable =
    [7, 8, 9, 10, 11, 12, 13, 14, 16, 17,
     19, 21, 23, 25, 28, 31, 34, 37, 41, 45,
     50, 55, 60, 66, 73, 80, 88, 97, 107, 118,
     130, 143, 157, 173, 190, 209, 230, 253, 279, 307,
     337, 371, 408, 449, 494, 544, 598, 658, 724, 796,
     876, 963, 1060, 1166, 1282, 1411, 1552, 1707, 1878, 2066,
     2272, 2499, 2749, 3024, 3327, 3660, 4026, 4428, 4871, 5358,
     5894, 6484, 7132, 7845, 8630, 9493, 10442, 11487, 12635, 13899,
     15289, 16818, 18500, 20350, 22385, 24623, 27086, 29794, 32767]"

definition s8 :: "int \<Rightarrow> int" where
  "s8 x = signed_take_bit 7 x"

text \<open>Two groups of statements that coder and decoder share.\<close>

definition clamp16 :: "int \<Rightarrow> int" where
  "clamp16 valpred = (if valpred > 32767 then 32767 else if valpred < - 32768 then - 32768 else valpred)"

definition next_index :: "int \<Rightarrow> int \<Rightarrow> int" where
  "next_index index delta =
     (let index = index + indexTable ! nat delta;
          index = (if index < 0 then 0 else index);
          index = (if index > 88 then 88 else index)
      in index)"

section \<open>Coder\<close>

definition coder_sample :: "int \<times> int \<times> int \<Rightarrow> int \<Rightarrow> (int \<times> int \<times> int) \<times> int" where
  "coder_sample st val = (case st of (valpred, index, step) \<Rightarrow>
     let diff = val - valpred;
         sign = (if diff < 0 then 8 else 0);
         diff = (if sign \<noteq> 0 then - diff else diff);
         delta = 0;
         vpdiff = sasr step 3;
         (delta, diff, vpdiff) =
           (if diff \<ge> step then (4, diff - step, vpdiff + step) else (delta, diff, vpdiff));
         step = sasr step 1;
         (delta, diff, vpdiff) =
           (if diff \<ge> step then (delta OR 2, diff - step, vpdiff + step) else (delta, diff, vpdiff));
         step = sasr step 1;
         (delta, vpdiff) =
           (if diff \<ge> step then (delta OR 1, vpdiff + step) else (delta, vpdiff));
         valpred = (if sign \<noteq> 0 then valpred - vpdiff else valpred + vpdiff);
         valpred = clamp16 valpred;
         delta = delta OR sign;
         index = next_index index delta;
         step = stepsizeTable ! nat index
     in ((valpred, index, step), delta))"

primrec coder_loop ::
    "int list \<Rightarrow> int \<times> int \<times> int \<Rightarrow> bool \<Rightarrow> int \<Rightarrow> (int \<times> int \<times> int) \<times> bool \<times> int \<times> int list" where
  "coder_loop [] st bufferstep outputbuffer = (st, bufferstep, outputbuffer, [])"
| "coder_loop (val # inp) st bufferstep outputbuffer =
     (let (st, delta) = coder_sample st val in
      if bufferstep then coder_loop inp st False (shl delta 4 AND 0xf0)
      else let (st', b', o', outp) = coder_loop inp st True outputbuffer
           in (st', b', o', s8 ((delta AND 0x0f) OR outputbuffer) # outp))"

text \<open>\<open>outputbuffer\<close> is not initialised by the code and is written before it is read.\<close>

definition adpcm_coder :: "int list \<Rightarrow> adpcm_state \<Rightarrow> int list \<times> adpcm_state" where
  "adpcm_coder indata state =
     (let valpred = st_valprev state;
          index = st_index state;
          step = stepsizeTable ! nat index;
          ((valpred, index, step), bufferstep, outputbuffer, outp) =
            coder_loop indata (valpred, index, step) True 0;
          outp = (if \<not> bufferstep then outp @ [s8 outputbuffer] else outp)
      in (outp, \<lparr>st_valprev = valpred, st_index = index\<rparr>))"

section \<open>Decoder\<close>

definition decoder_sample :: "int \<times> int \<times> int \<Rightarrow> int \<Rightarrow> int \<times> int \<times> int" where
  "decoder_sample st delta = (case st of (valpred, index, step) \<Rightarrow>
     let index = next_index index delta;
         sign = delta AND 8;
         delta = delta AND 7;
         vpdiff = sasr step 3;
         vpdiff = (if delta AND 4 \<noteq> 0 then vpdiff + step else vpdiff);
         vpdiff = (if delta AND 2 \<noteq> 0 then vpdiff + sasr step 1 else vpdiff);
         vpdiff = (if delta AND 1 \<noteq> 0 then vpdiff + sasr step 2 else vpdiff);
         valpred = (if sign \<noteq> 0 then valpred - vpdiff else valpred + vpdiff);
         valpred = clamp16 valpred;
         step = stepsizeTable ! nat index
     in (valpred, index, step))"

text \<open>Reading past the end of the input is \<open>None\<close>.\<close>

primrec decoder_loop ::
    "nat \<Rightarrow> int list \<Rightarrow> int \<times> int \<times> int \<Rightarrow> bool \<Rightarrow> int \<Rightarrow> ((int \<times> int \<times> int) \<times> int list) option" where
  "decoder_loop 0 inp st bufferstep inputbuffer = Some (st, [])"
| "decoder_loop (Suc len) inp st bufferstep inputbuffer =
     (if bufferstep then do {
        let delta = inputbuffer AND 0xf;
        let st = decoder_sample st delta;
        (st', outp) \<leftarrow> decoder_loop len inp st False inputbuffer;
        Some (st', fst st # outp)
      }
      else (case inp of [] \<Rightarrow> None | inputbuffer # inp \<Rightarrow> do {
        let delta = sasr inputbuffer 4 AND 0xf;
        let st = decoder_sample st delta;
        (st', outp) \<leftarrow> decoder_loop len inp st True inputbuffer;
        Some (st', fst st # outp)
      }))"

definition adpcm_decoder :: "int list \<Rightarrow> nat \<Rightarrow> adpcm_state \<Rightarrow> (int list \<times> adpcm_state) option" where
  "adpcm_decoder indata len state = do {
     let valpred = st_valprev state;
     let index = st_index state;
     let step = stepsizeTable ! nat index;
     ((valpred, index, step), outp) \<leftarrow> decoder_loop len indata (valpred, index, step) False 0;
     Some (outp, \<lparr>st_valprev = valpred, st_index = index\<rparr>)
   }"

section \<open>Predictor state\<close>

definition predictor_ok :: "int \<times> int \<times> int \<Rightarrow> bool" where
  "predictor_ok st \<longleftrightarrow> (case st of (valpred, index, step) \<Rightarrow>
     is_word valpred \<and> 0 \<le> index \<and> index \<le> 88 \<and> step = stepsizeTable ! nat index)"

definition state_ok :: "adpcm_state \<Rightarrow> bool" where
  "state_ok st \<longleftrightarrow> is_word (st_valprev st) \<and> 0 \<le> st_index st \<and> st_index st \<le> 88"

lemma stepsizeTable_length: "length stepsizeTable = 89"
  by (simp add: stepsizeTable_def)

lemma stepsizeTable_range: "list_all (\<lambda>s. 7 \<le> s \<and> s \<le> 32767) stepsizeTable"
  by (simp add: stepsizeTable_def)

lemma clamp16_word [simp]: "is_word (clamp16 v)"
  by (simp add: clamp16_def is_word_def)

lemma clamp16_closer: "is_word x \<Longrightarrow> \<bar>x - clamp16 v\<bar> \<le> \<bar>x - v\<bar>"
  by (auto simp: clamp16_def is_word_def)

lemma next_index_range [simp]: "0 \<le> next_index i d" "next_index i d \<le> 88"
  by (simp_all add: next_index_def Let_def)

lemma decoder_sample_ok:
  "predictor_ok (decoder_sample st delta)"
  by (cases st) (simp add: decoder_sample_def predictor_ok_def Let_def)

lemma coder_sample_ok:
  assumes "coder_sample st val = (st', delta)"
  shows "predictor_ok st'" "0 \<le> delta" "delta < 16"
  using assms by (cases st; auto simp: coder_sample_def predictor_ok_def Let_def split: if_splits)+

lemma decoder_follows_coder:
  assumes "coder_sample st val = (st', delta)"
  shows "decoder_sample st delta = st'"
proof -
  have shift: "sasr (sasr s (Suc 0)) (Suc 0) = sasr s 2" for s by (simp add: sasr_def numeral_2_eq_2)
  show ?thesis
    using assms by (cases st) (auto simp: coder_sample_def decoder_sample_def Let_def shift split: if_splits)
qed

section \<open>Packing\<close>

lemma nibbles_table:
  "\<forall>d1 \<in> set [0..15]. \<forall>d2 \<in> set [0..15].
     sasr (s8 ((d2 AND 0x0f) OR (shl d1 4 AND 0xf0))) 4 AND 0xf = d1
   \<and> s8 ((d2 AND 0x0f) OR (shl d1 4 AND 0xf0)) AND 0xf = d2
   \<and> sasr (s8 (shl d1 4 AND 0xf0)) 4 AND 0xf = d1"
  by code_simp

lemma nibbles:
  assumes "0 \<le> d1" "d1 < 16" "0 \<le> d2" "d2 < 16"
  shows "sasr (s8 ((d2 AND 0x0f) OR (shl d1 4 AND 0xf0))) 4 AND 0xf = d1"
    "s8 ((d2 AND 0x0f) OR (shl d1 4 AND 0xf0)) AND 0xf = d2"
    "sasr (s8 (shl d1 4 AND 0xf0)) 4 AND 0xf = d1"
proof -
  have "d1 \<in> set [0..15]" "d2 \<in> set [0..15]" using assms by auto
  with nibbles_table show "sasr (s8 ((d2 AND 0x0f) OR (shl d1 4 AND 0xf0))) 4 AND 0xf = d1"
    "s8 ((d2 AND 0x0f) OR (shl d1 4 AND 0xf0)) AND 0xf = d2"
    "sasr (s8 (shl d1 4 AND 0xf0)) 4 AND 0xf = d1" by blast+
qed

lemma decoder_loop_inputbuffer:
  "decoder_loop n inp st False x = decoder_loop n inp st False y"
  by (cases n) simp_all

text \<open>The predictor values after each sample.\<close>

primrec predictions :: "int \<times> int \<times> int \<Rightarrow> int list \<Rightarrow> (int \<times> int \<times> int) \<times> int list" where
  "predictions st [] = (st, [])"
| "predictions st (val # vals) =
     (let (st, delta) = coder_sample st val; (st', ps) = predictions st vals in (st', fst st # ps))"

definition flush :: "bool \<Rightarrow> int \<Rightarrow> int list \<Rightarrow> int list" where
  "flush bufferstep outputbuffer outp = (if \<not> bufferstep then outp @ [s8 outputbuffer] else outp)"

lemma flush_Cons: "flush b ob (x # xs) = x # flush b ob xs"
  by (simp add: flush_def)

lemma loops_agree:
  assumes "coder_loop vals st True ob = (st', b', ob', outp)"
  shows "decoder_loop (length vals) (flush b' ob' outp) st False ib = Some (predictions st vals)
    \<and> fst (predictions st vals) = st' \<and> length (flush b' ob' outp) = (length vals + 1) div 2"
  using assms
proof (induction vals arbitrary: st st' ob ib b' ob' outp rule: induct_list012)
  case 1
  then show ?case by (auto simp: flush_def)
next
  case (2 val)
  obtain st1 d1 where 1: "coder_sample st val = (st1, d1)" by (cases "coder_sample st val")
  note r = coder_sample_ok [OF 1]
  from 2 1 nibbles(3) [OF r(2,3) r(2,3)] decoder_follows_coder [OF 1] show ?case
    by (auto simp: flush_def)
next
  case (3 v1 v2 vals)
  obtain st1 d1 where 1: "coder_sample st v1 = (st1, d1)" by (cases "coder_sample st v1")
  obtain st2 d2 where 2: "coder_sample st1 v2 = (st2, d2)" by (cases "coder_sample st1 v2")
  let ?b = "s8 ((d2 AND 0x0f) OR (shl d1 4 AND 0xf0))"
  obtain st3 b3 ob3 outp3 where rec: "coder_loop vals st2 True (shl d1 4 AND 0xf0) = (st3, b3, ob3, outp3)"
    by (metis prod_cases4)
  have res: "st' = st3" "b' = b3" "ob' = ob3" "outp = ?b # outp3"
    using 3(3) 1 2 rec by auto
  note n = nibbles [OF coder_sample_ok(2,3) [OF 1] coder_sample_ok(2,3) [OF 2]]
  obtain st4 ps where ps: "predictions st2 vals = (st4, ps)" by (cases "predictions st2 vals")
  from 3(1) [OF rec, of ?b] ps have "decoder_loop (length vals) (flush b3 ob3 outp3) st2 False ?b = Some (st4, ps)"
    "st4 = st3" "length (flush b3 ob3 outp3) = (length vals + 1) div 2" by auto
  then show ?case
    using 1 2 n ps decoder_follows_coder [OF 1] decoder_follows_coder [OF 2] by (simp add: res flush_Cons)
qed

lemma predictions_ok:
  assumes "predictor_ok st" "predictions st vals = (st', ps)"
  shows "predictor_ok st' \<and> length ps = length vals \<and> list_all is_word ps"
  using assms
proof (induction vals arbitrary: st st' ps)
  case (Cons val vals)
  obtain st1 d where 1: "coder_sample st val = (st1, d)" by (cases "coder_sample st val")
  obtain st2 ps2 where 2: "predictions st1 vals = (st2, ps2)" by (cases "predictions st1 vals")
  note ok = coder_sample_ok(1) [OF 1]
  from ok have "is_word (fst st1)" by (auto simp: predictor_ok_def)
  with Cons.IH [OF ok] Cons.prems(2) 1 2 show ?case by auto
qed simp

section \<open>Accuracy\<close>

lemma coder_sample_error:
  assumes "predictor_ok (valpred, index, step)" "is_word val" "\<bar>val - valpred\<bar> < 2 * step"
    and "coder_sample (valpred, index, step) val = ((valpred', index', step'), delta)"
  shows "\<bar>val - valpred'\<bar> \<le> step div 8 + 3"
proof -
  define h q e where "h = step div 2" and "q = step div 4" and "e = step div 8"
  have d: "2 * h \<le> step" "step \<le> 2 * h + 1" "4 * q \<le> step" "step \<le> 4 * q + 3" "8 * e \<le> step" "step \<le> 8 * e + 7"
    unfolding h_def q_def e_def by linarith+
  have s: "sasr step 1 = h" "sasr (sasr step 1) 1 = q" "sasr step 3 = e"
    by (simp_all add: sasr_div h_def q_def e_def div_mult2_eq [symmetric])
  have w: "- 32768 \<le> val" "val \<le> 32767" using assms(2) by (auto simp: is_word_def)
  show ?thesis
    using assms(3,4) d w unfolding coder_sample_def prod.case Let_def s(1) s(2) [unfolded s(1)] s(3) e_def [symmetric]
    by (auto split: if_splits intro!: order_trans [OF clamp16_closer [OF assms(2)]])
qed

section \<open>The codec contract\<close>

definition enc_call :: "int \<times> int \<times> int \<Rightarrow> int \<Rightarrow> ((int \<times> int \<times> int) \<times> int) option" where
  "enc_call st val = Some (coder_sample st val)"

definition dec_call :: "int \<times> int \<times> int \<Rightarrow> int \<Rightarrow> ((int \<times> int \<times> int) \<times> int) option" where
  "dec_call st delta = (let st' = decoder_sample st delta in Some (st', fst st'))"

interpretation adpcm: lockstep_codec enc_call dec_call
    "\<lambda>s t. s = t \<and> predictor_ok s" "\<lambda>_. True" is_word
proof
  fix se sd :: "int \<times> int \<times> int" and x :: int
  assume r: "se = sd \<and> predictor_ok se"
  obtain st d where 1: "coder_sample se x = (st, d)" by (cases "coder_sample se x")
  note ok = coder_sample_ok(1) [OF 1]
  then have "is_word (fst st)" by (auto simp: predictor_ok_def)
  with 1 ok decoder_follows_coder [OF 1] r show "\<exists>se' c sd' y. enc_call se x = Some (se', c)
      \<and> dec_call sd c = Some (sd', y) \<and> (se' = sd' \<and> predictor_ok se') \<and> is_word y"
    by (simp add: enc_call_def dec_call_def Let_def)
qed

lemma adpcm_state_predictor:
  "state_ok S \<Longrightarrow> predictor_ok (st_valprev S, st_index S, stepsizeTable ! nat (st_index S))"
  by (simp add: state_ok_def predictor_ok_def)

lemma adpcm_agree:
  assumes "adpcm_coder vals S = (outp, S')" "state_ok S"
  obtains ps where "adpcm_decoder outp (length vals) S = Some (ps, S')" "state_ok S'"
    "length ps = length vals" "list_all is_word ps" "length outp = (length vals + 1) div 2"
    "ps = snd (predictions (st_valprev S, st_index S, stepsizeTable ! nat (st_index S)) vals)"
proof -
  let ?st = "(st_valprev S, st_index S, stepsizeTable ! nat (st_index S))"
  obtain st' b ob o1 where c: "coder_loop vals ?st True 0 = (st', b, ob, o1)" by (metis prod_cases4)
  obtain v i s where st': "st' = (v, i, s)" by (cases st')
  have res: "outp = flush b ob o1" "S' = \<lparr>st_valprev = v, st_index = i\<rparr>"
    using assms(1) c by (auto simp: adpcm_coder_def st' flush_def)
  obtain ps where ps: "predictions ?st vals = (st', ps)" using loops_agree [OF c] by (metis surjective_pairing)
  from predictions_ok [OF adpcm_state_predictor [OF assms(2)] ps] loops_agree [OF c, of 0] ps show ?thesis
    by (intro that [of ps]) (auto simp: res adpcm_decoder_def st' state_ok_def predictor_ok_def)
qed

section \<open>Properties\<close>

text \<open>C36 (ADPCM round trip): whatever samples are encoded, decoding the packed nibbles from the same
  initial state runs to the end, returns as many samples and finishes in the coder's final state;
  the decoded samples are exactly the coder's own predictions and are words, and two samples
  share each byte, the last byte included when their number is odd.\<close>

theorem adpcm_decoder_reproduces_predictions:
  assumes "adpcm_coder vals S = (outp, S')" "state_ok S"
  shows "\<exists>ps. adpcm_decoder outp (length vals) S = Some (ps, S') \<and> state_ok S'
    \<and> length ps = length vals \<and> list_all is_word ps \<and> length outp = (length vals + 1) div 2
    \<and> ps = snd (predictions (st_valprev S, st_index S, stepsizeTable ! nat (st_index S)) vals)"
  using adpcm_agree [OF assms] by metis

theorem adpcm_decoder_reproduces_predictions_witness:
  "case adpcm_coder [100, - 200, 300] \<lparr>st_valprev = 0, st_index = 0\<rparr> of (outp, S') \<Rightarrow>
     (\<exists>ps. adpcm_decoder outp 3 \<lparr>st_valprev = 0, st_index = 0\<rparr> = Some (ps, S') \<and> length outp = 2)"
proof -
  obtain outp S' where c: "adpcm_coder [100, - 200, 300] \<lparr>st_valprev = 0, st_index = 0\<rparr> = (outp, S')" by force
  have "state_ok \<lparr>st_valprev = 0, st_index = 0\<rparr>" by (simp add: state_ok_def is_word_def)
  from adpcm_decoder_reproduces_predictions [OF c this] show ?thesis by (auto simp: c numeral_3_eq_3)
qed

text \<open>C37 (ADPCM error): as long as a sample lies within two steps of the prediction, the value both
  sides reconstruct for it differs from the sample by at most an eighth of the step plus three.\<close>

theorem adpcm_sample_error:
  assumes "predictor_ok (valpred, index, step)" "is_word val" "\<bar>val - valpred\<bar> < 2 * step"
  shows "case coder_sample (valpred, index, step) val of ((valpred', index', step'), delta) \<Rightarrow>
    \<bar>val - valpred'\<bar> \<le> step div 8 + 3
    \<and> decoder_sample (valpred, index, step) delta = (valpred', index', step')"
proof -
  obtain v i s d where c: "coder_sample (valpred, index, step) val = ((v, i, s), d)" by (metis surj_pair)
  show ?thesis using coder_sample_error [OF assms c] decoder_follows_coder [OF c] by (simp add: c)
qed

theorem adpcm_sample_error_witness:
  "case coder_sample (0, 0, 7) 13 of ((valpred', index', step'), delta) \<Rightarrow> \<bar>13 - valpred'\<bar> \<le> 3"
proof -
  have "predictor_ok (0, 0, 7)" by (simp add: predictor_ok_def is_word_def stepsizeTable_def)
  from adpcm_sample_error [OF this, of 13] show ?thesis by (auto simp: is_word_def split: prod.splits)
qed

end
