(* ===== verification/Bitcount.thy ===== *)
theory Bitcount
  imports Prelude
begin

text \<open>
  The bit counters of \<open>automotive/bitcount\<close>: \<open>bitcnt_1.c\<close> to \<open>bitcnt_4.c\<close> and \<open>bit_shifter\<close> of
  \<open>bitcnts.c\<close>. A \<open>long\<close> is a 64-bit word where the code only tests bits; the recursive counters
  of \<open>bitcnt_4.c\<close> shift a signed \<open>long\<close> to the right, so they take an integer and are
  \<open>partial_function\<close>s: \<open>None\<close> is a recursion that does not end.

  The reference is \<open>popcount\<close>. The contract of a bit counter is a locale; every total counter is
  an interpretation, with the number of low bits it looks at (64, or 32 where the code was
  written for a 32-bit \<open>long\<close>).
\<close>

section \<open>Reference\<close>

fun popcount :: "nat \<Rightarrow> nat" where
  "popcount n = (if n = 0 then 0 else n mod 2 + popcount (n div 2))"

declare popcount.simps [simp del]

section \<open>The counters\<close>

text \<open>The loop of \<open>bit_count\<close> from the increment on.\<close>

lemma nat_and_le: "a AND b \<le> b" for a b :: nat
proof -
  have "int a AND int b \<le> int b" by (rule AND_upper2) simp
  then show ?thesis by (simp flip: of_nat_and_eq)
qed

lemma and_minus_one_less: "x AND (x - 1) \<noteq> 0 \<Longrightarrow> unat (x AND (x - 1)) < unat x" for x :: "64 word"
proof -
  assume "x AND (x - 1) \<noteq> 0"
  then have "x \<noteq> 0" by auto
  then have "unat (x - 1) = unat x - 1" by (simp add: unat_minus_one)
  moreover have "unat (x AND (x - 1)) \<le> unat (x - 1)"
    by (simp add: unsigned_and_eq nat_and_le)
  ultimately show ?thesis using \<open>x \<noteq> 0\<close> by (metis diff_less less_numeral_extra(1) order_le_less_trans unat_gt_0)
qed

function bit_count_loop :: "64 word \<Rightarrow> int \<Rightarrow> int" where
  "bit_count_loop x n =
     (let n = n + 1; x = x AND (x - 1) in if 0 \<noteq> x then bit_count_loop x n else n)"
  by auto
termination
  by (relation "measure (\<lambda>(x, n). unat x)") (auto intro: and_minus_one_less)

declare bit_count_loop.simps [simp del]

definition bit_count :: "64 word \<Rightarrow> int" where
  "bit_count x = (let n = 0 in if x \<noteq> 0 then bit_count_loop x n else n)"

definition bitcount :: "64 word \<Rightarrow> int" where
  "bitcount i =
     (let i = drop_bit 1 (i AND 0xAAAAAAAA) + (i AND 0x55555555);
          i = drop_bit 2 (i AND 0xCCCCCCCC) + (i AND 0x33333333);
          i = drop_bit 4 (i AND 0xF0F0F0F0) + (i AND 0x0F0F0F0F);
          i = drop_bit 8 (i AND 0xFF00FF00) + (i AND 0x00FF00FF);
          i = drop_bit 16 (i AND 0xFFFF0000) + (i AND 0x0000FFFF)
      in i32 (sint i))"

definition bits :: "int list" where
  "bits =
    [0, 1, 1, 2, 1, 2, 2, 3, 1, 2, 2, 3, 2, 3, 3, 4,
     1, 2, 2, 3, 2, 3, 3, 4, 2, 3, 3, 4, 3, 4, 4, 5,
     1, 2, 2, 3, 2, 3, 3, 4, 2, 3, 3, 4, 3, 4, 4, 5,
     2, 3, 3, 4, 3, 4, 4, 5, 3, 4, 4, 5, 4, 5, 5, 6,
     1, 2, 2, 3, 2, 3, 3, 4, 2, 3, 3, 4, 3, 4, 4, 5,
     2, 3, 3, 4, 3, 4, 4, 5, 3, 4, 4, 5, 4, 5, 5, 6,
     2, 3, 3, 4, 3, 4, 4, 5, 3, 4, 4, 5, 4, 5, 5, 6,
     3, 4, 4, 5, 4, 5, 5, 6, 4, 5, 5, 6, 5, 6, 6, 7,
     1, 2, 2, 3, 2, 3, 3, 4, 2, 3, 3, 4, 3, 4, 4, 5,
     2, 3, 3, 4, 3, 4, 4, 5, 3, 4, 4, 5, 4, 5, 5, 6,
     2, 3, 3, 4, 3, 4, 4, 5, 3, 4, 4, 5, 4, 5, 5, 6,
     3, 4, 4, 5, 4, 5, 5, 6, 4, 5, 5, 6, 5, 6, 6, 7,
     2, 3, 3, 4, 3, 4, 4, 5, 3, 4, 4, 5, 4, 5, 5, 6,
     3, 4, 4, 5, 4, 5, 5, 6, 4, 5, 5, 6, 5, 6, 6, 7,
     3, 4, 4, 5, 4, 5, 5, 6, 4, 5, 5, 6, 5, 6, 6, 7,
     4, 5, 5, 6, 5, 6, 6, 7, 5, 6, 6, 7, 6, 7, 7, 8]"

definition ntbl_bitcount :: "64 word \<Rightarrow> int" where
  "ntbl_bitcount x =
     bits ! unat (x AND 0x0000000F)
   + bits ! unat (drop_bit 4 (x AND 0x000000F0))
   + bits ! unat (drop_bit 8 (x AND 0x00000F00))
   + bits ! unat (drop_bit 12 (x AND 0x0000F000))
   + bits ! unat (drop_bit 16 (x AND 0x000F0000))
   + bits ! unat (drop_bit 20 (x AND 0x00F00000))
   + bits ! unat (drop_bit 24 (x AND 0x0F000000))
   + bits ! unat (drop_bit 28 (x AND 0xF0000000))"

text \<open>Byte \<open>k\<close> of a \<open>long\<close> in memory (little endian), as the union and the pointer read it.\<close>

definition long_byte :: "64 word \<Rightarrow> nat \<Rightarrow> byte" where
  "long_byte x k = ucast (drop_bit (8 * k) x)"

definition BW_btbl_bitcount :: "64 word \<Rightarrow> int" where
  "BW_btbl_bitcount x =
     bits ! unat (long_byte x 0) + bits ! unat (long_byte x 1)
   + bits ! unat (long_byte x 3) + bits ! unat (long_byte x 2)"

definition AR_btbl_bitcount :: "64 word \<Rightarrow> int" where
  "AR_btbl_bitcount x =
     (let Accu = bits ! unat (long_byte x 0);
          Accu = Accu + bits ! unat (long_byte x 1);
          Accu = Accu + bits ! unat (long_byte x 2);
          Accu = Accu + bits ! unat (long_byte x 3)
      in Accu)"

partial_function (option) ntbl_bitcnt :: "int \<Rightarrow> int option" where
  "ntbl_bitcnt x =
     (let cnt = bits ! nat (x AND 0x0000000F);
          x = sasr x 4
      in if 0 \<noteq> x then do { c \<leftarrow> ntbl_bitcnt x; Some (cnt + c) } else Some cnt)"

partial_function (option) btbl_bitcnt :: "int \<Rightarrow> int option" where
  "btbl_bitcnt x =
     (let cnt = bits ! nat (take_bit 8 x AND 0xFF);
          x = sasr x 8
      in if 0 \<noteq> x then do { c \<leftarrow> btbl_bitcnt x; Some (cnt + c) } else Some cnt)"

declare ntbl_bitcnt.simps [code] btbl_bitcnt.simps [code]

text \<open>The loop of \<open>bit_shifter\<close> with \<open>r\<close> turns left of the \<open>sizeof(long) * CHAR_BIT\<close>.\<close>

primrec bit_shifter_loop :: "nat \<Rightarrow> int \<Rightarrow> int \<Rightarrow> int" where
  "bit_shifter_loop 0 x n = n"
| "bit_shifter_loop (Suc r) x n =
     (if x \<noteq> 0 then bit_shifter_loop r (sasr x 1) (n + (x AND 1)) else n)"

definition bit_shifter :: "64 word \<Rightarrow> int" where
  "bit_shifter x = bit_shifter_loop 64 (sint x) 0"

text \<open>The functions the benchmark times and its loop: \<open>f\<close> is called \<open>iterations\<close> times, the seed
  grows by 13.\<close>

definition pBitCntFunc :: "(64 word \<Rightarrow> int option) list" where
  "pBitCntFunc =
     [\<lambda>x. Some (bit_count x), \<lambda>x. Some (bitcount x), \<lambda>x. ntbl_bitcnt (sint x), \<lambda>x. Some (ntbl_bitcount x),
      \<lambda>x. Some (BW_btbl_bitcount x), \<lambda>x. Some (AR_btbl_bitcount x), \<lambda>x. Some (bit_shifter x)]"

primrec bench_loop :: "(64 word \<Rightarrow> int option) \<Rightarrow> nat \<Rightarrow> 64 word \<Rightarrow> int \<Rightarrow> int option" where
  "bench_loop f 0 seed n = Some n"
| "bench_loop f (Suc r) seed n = do { c \<leftarrow> f seed; bench_loop f r (seed + 13) (n + c) }"

section \<open>Facts about the reference\<close>

lemma popcount_0 [simp]: "popcount 0 = 0"
  by (simp add: popcount.simps)

lemma popcount_double: "popcount (2 * n) = popcount n" "popcount (Suc (2 * n)) = Suc (popcount n)"
  by (simp_all add: popcount.simps [of "2 * n"] popcount.simps [of "Suc (2 * n)"])

lemma popcount_split: "popcount n = popcount (n mod 2 ^ k) + popcount (n div 2 ^ k)"
proof (induction k arbitrary: n)
  case (Suc k)
  have m: "n mod 2 ^ Suc k = n mod 2 + 2 * (n div 2 mod 2 ^ k)"
    by (simp add: mod_mult2_eq)
  have "popcount (n mod 2 ^ Suc k) = n mod 2 + popcount (n div 2 mod 2 ^ k)"
    unfolding m by (cases "even n") (simp_all add: popcount_double mod_2_eq_odd)
  moreover have "popcount n = n mod 2 + popcount (n div 2)" by (cases "n = 0") (simp_all add: popcount.simps [of n])
  ultimately show ?case using Suc.IH [of "n div 2"] by (simp add: div_mult2_eq)
qed simp

lemma popcount_and_minus_one: "0 < n \<Longrightarrow> popcount n = Suc (popcount (n AND (n - 1)))"
proof (induction n rule: less_induct)
  case (less n)
  show ?case
  proof (cases "even n")
    case True
    then obtain m where m: "n = 2 * m" by blast
    with less.prems have "0 < m" by simp
    have "n AND (n - 1) = 2 * (m AND (m - 1))"
    proof (rule bit_eqI)
      fix k
      have "(2 * m - 1) div 2 = m - 1" using \<open>0 < m\<close> by presburger
      then have "bit (2 * m - 1) (Suc j) = bit (m - 1) j" for j by (simp add: bit_Suc)
      then show "bit (n AND (n - 1)) k = bit (2 * (m AND (m - 1))) k"
        by (cases k) (auto simp: m bit_and_iff bit_double_iff bit_0 even_and_iff)
    qed
    with less.IH [of m] \<open>0 < m\<close> m show ?thesis by (simp add: popcount_double)
  next
    case False
    then obtain m where m: "n = Suc (2 * m)" by (metis oddE Suc_eq_plus1)
    have "n AND (n - 1) = 2 * m"
    proof (rule bit_eqI)
      show "bit (n AND (n - 1)) k = bit (2 * m) k" for k
        unfolding bit_and_iff m by (cases k) (auto simp: bit_0 bit_Suc)
    qed
    then show ?thesis by (simp add: m popcount_double)
  qed
qed

section \<open>Counting one set bit per turn\<close>

lemma unat_and_minus_one: "x \<noteq> 0 \<Longrightarrow> unat (x AND (x - 1)) = unat x AND (unat x - 1)" for x :: "64 word"
  by (simp add: unsigned_and_eq unat_minus_one)

lemma bit_count_loop_popcount:
  "x \<noteq> 0 \<Longrightarrow> bit_count_loop x n = n + int (popcount (unat x))"
proof (induction x n rule: bit_count_loop.induct)
  case (1 x n)
  have p: "popcount (unat x) = Suc (popcount (unat (x AND (x - 1))))"
    using 1(2) by (simp add: unat_and_minus_one popcount_and_minus_one [of "unat x"] unat_gt_0)
  show ?case
  proof (cases "x AND (x - 1) = 0")
    case True
    then show ?thesis using p by (subst bit_count_loop.simps) (simp add: Let_def)
  next
    case False
    then show ?thesis using p 1(1) [OF refl refl] by (subst bit_count_loop.simps) (simp add: Let_def)
  qed
qed

section \<open>Table look-up\<close>

lemma bits_popcount_table: "map (\<lambda>n. int (popcount n)) [0..<256] = bits"
  by code_simp

lemma bits_popcount: "n < 256 \<Longrightarrow> bits ! n = int (popcount n)"
  by (simp flip: bits_popcount_table)

lemma nibble_index:
  fixes x :: "64 word"
  assumes "m = push_bit k (mask n)" "k + n \<le> 64"
  shows "unat (drop_bit k (x AND m)) = unat x div 2 ^ k mod 2 ^ n"
proof -
  have "drop_bit k (x AND m) = take_bit n (drop_bit k x)"
    unfolding assms(1) by (rule bit_word_eqI) (use assms(2) in \<open>auto simp: bit_simps dest: bit_imp_le_length\<close>)
  then have "unat (drop_bit k (x AND m)) = take_bit n (unat (drop_bit k x))" by (simp add: unsigned_take_bit_eq)
  also have "unat (drop_bit k x) = unat x div 2 ^ k"
  proof -
    have "unat (drop_bit k x) = drop_bit k (take_bit LENGTH(64) (unat x))" by (rule unsigned_drop_bit_eq)
    also have "take_bit LENGTH(64) (unat x) = unat x"
      using unsigned_less [of x, where ?'a = nat] by (intro take_bit_nat_eq_self) simp
    finally show ?thesis by (simp only: drop_bit_eq_div)
  qed
  finally show ?thesis by (simp add: take_bit_eq_mod)
qed

lemma popcount_mod_step: "popcount (n mod 2 ^ (k + j)) = popcount (n mod 2 ^ k) + popcount (n div 2 ^ k mod 2 ^ j)"
proof -
  have "n mod 2 ^ (k + j) mod 2 ^ k = n mod 2 ^ k" by (simp add: mod_mod_cancel le_imp_power_dvd)
  moreover have "n mod 2 ^ (k + j) div 2 ^ k = n div 2 ^ k mod 2 ^ j"
    by (simp add: power_add mod_mult2_eq)
  ultimately show ?thesis using popcount_split [of "n mod 2 ^ (k + j)" k] by simp
qed

lemma bits_field:
  fixes x :: "64 word"
  assumes "m = push_bit k (mask n)" "k + n \<le> 64" "n \<le> 8"
  shows "bits ! unat (drop_bit k (x AND m)) = int (popcount (unat x div 2 ^ k mod 2 ^ n))"
proof -
  have "unat x div 2 ^ k mod 2 ^ n < 2 ^ n" by simp
  also have "(2::nat) ^ n \<le> 2 ^ 8" using assms(3) by (intro power_increasing) auto
  finally show ?thesis unfolding nibble_index [OF assms(1,2)] by (simp add: bits_popcount)
qed

lemma ntbl_bitcount_popcount: "ntbl_bitcount x = int (popcount (unat x mod 2 ^ 32))"
proof -
  have m: "(0xF :: 64 word) = push_bit 0 (mask 4)" "(0xF0 :: 64 word) = push_bit 4 (mask 4)"
    "(0xF00 :: 64 word) = push_bit 8 (mask 4)" "(0xF000 :: 64 word) = push_bit 12 (mask 4)"
    "(0xF0000 :: 64 word) = push_bit 16 (mask 4)" "(0xF00000 :: 64 word) = push_bit 20 (mask 4)"
    "(0xF000000 :: 64 word) = push_bit 24 (mask 4)" "(0xF0000000 :: 64 word) = push_bit 28 (mask 4)"
    by (simp_all add: mask_eq_exp_minus_1 push_bit_eq_mult)
  let ?n = "unat x"
  have "popcount (?n mod 2 ^ 32) = popcount (?n div 2 ^ 0 mod 2 ^ 4) + popcount (?n div 2 ^ 4 mod 2 ^ 4)
    + popcount (?n div 2 ^ 8 mod 2 ^ 4) + popcount (?n div 2 ^ 12 mod 2 ^ 4) + popcount (?n div 2 ^ 16 mod 2 ^ 4)
    + popcount (?n div 2 ^ 20 mod 2 ^ 4) + popcount (?n div 2 ^ 24 mod 2 ^ 4) + popcount (?n div 2 ^ 28 mod 2 ^ 4)"
    using popcount_mod_step [of ?n 4 4] popcount_mod_step [of ?n 8 4] popcount_mod_step [of ?n 12 4]
      popcount_mod_step [of ?n 16 4] popcount_mod_step [of ?n 20 4] popcount_mod_step [of ?n 24 4]
      popcount_mod_step [of ?n 28 4] by simp
  moreover have "bits ! unat (x AND 0x0000000F) = int (popcount (?n div 2 ^ 0 mod 2 ^ 4))"
    using bits_field [OF m(1), of x] by (simp only: drop_bit_0 id_apply)
  moreover note bits_field [OF m(2), of x] bits_field [OF m(3), of x] bits_field [OF m(4), of x]
      bits_field [OF m(5), of x] bits_field [OF m(6), of x] bits_field [OF m(7), of x] bits_field [OF m(8), of x]
  ultimately show ?thesis
    unfolding ntbl_bitcount_def by (simp only: of_nat_add)
qed

lemma long_byte_bits: "k < 8 \<Longrightarrow> bits ! unat (long_byte x k) = int (popcount (unat x div 2 ^ (8 * k) mod 2 ^ 8))"
proof -
  assume "k < 8"
  have "unat (long_byte x k) = unat (drop_bit (8 * k) (x AND push_bit (8 * k) (mask 8)))"
  proof -
    have "long_byte x k = ucast (drop_bit (8 * k) (x AND push_bit (8 * k) (mask 8)))"
      unfolding long_byte_def by (rule bit_word_eqI) (auto simp: bit_simps dest: bit_imp_le_length)
    moreover have "unat (drop_bit (8 * k) (x AND push_bit (8 * k) (mask 8))) < 2 ^ 8"
      using \<open>k < 8\<close> by (subst nibble_index [OF refl]) auto
    ultimately show ?thesis by (simp add: unsigned_ucast_eq take_bit_nat_eq_self)
  qed
  then show ?thesis using \<open>k < 8\<close> bits_field [OF refl, of "8 * k" 8 x] by simp
qed

lemma btbl_popcount: "BW_btbl_bitcount x = int (popcount (unat x mod 2 ^ 32))"
  "AR_btbl_bitcount x = int (popcount (unat x mod 2 ^ 32))"
proof -
  let ?n = "unat x"
  have p: "popcount (?n mod 2 ^ 32) = popcount (?n div 2 ^ (8 * 0) mod 2 ^ 8) + popcount (?n div 2 ^ (8 * 1) mod 2 ^ 8)
    + popcount (?n div 2 ^ (8 * 2) mod 2 ^ 8) + popcount (?n div 2 ^ (8 * 3) mod 2 ^ 8)"
    using popcount_mod_step [of ?n 8 8] popcount_mod_step [of ?n 16 8] popcount_mod_step [of ?n 24 8] by simp
  show "BW_btbl_bitcount x = int (popcount (unat x mod 2 ^ 32))"
    "AR_btbl_bitcount x = int (popcount (unat x mod 2 ^ 32))"
    unfolding p BW_btbl_bitcount_def AR_btbl_bitcount_def Let_def by (simp_all only: long_byte_bits of_nat_add)
qed

section \<open>Shift and count\<close>

lemma bit_shifter_loop_popcount:
  "bit_shifter_loop r x n = n + int (popcount (nat (take_bit r x)))"
proof (induction r arbitrary: x n)
  case (Suc r)
  show ?case
  proof (cases "x = 0")
    case False
    have t: "nat (take_bit (Suc r) x) = nat (x mod 2) + 2 * nat (take_bit r (x div 2))"
      by (simp add: take_bit_Suc nat_add_distrib nat_mult_distrib)
    have "popcount (nat (take_bit (Suc r) x)) = nat (x mod 2) + popcount (nat (take_bit r (x div 2)))"
      unfolding t by (cases "even x") (simp_all add: popcount_double mod_2_eq_odd)
    then show ?thesis using False Suc [of "x div 2"] by (simp add: sasr_div and_one_eq)
  qed simp
qed simp

lemma bit_shifter_popcount: "bit_shifter x = int (popcount (unat x))"
proof -
  have "take_bit 64 (sint x) = uint x" using uint_sint [of x] by simp
  then show ?thesis unfolding bit_shifter_def bit_shifter_loop_popcount by simp
qed

section \<open>The recursive counters\<close>

lemma ntbl_bitcnt_nonneg: "0 \<le> x \<Longrightarrow> ntbl_bitcnt x = Some (int (popcount (nat x)))"
proof (induction "nat x" arbitrary: x rule: less_induct)
  case less
  have "x AND 0xF = x mod 16" using and_mask [of x 4] by (simp add: mask_eq_exp_minus_1 take_bit_eq_mod)
  then have b: "bits ! nat (x AND 0xF) = int (popcount (nat x mod 2 ^ 4))"
    using less.prems by (simp add: bits_popcount nat_mod_distrib nat_less_iff)
  have s: "popcount (nat x) = popcount (nat x mod 2 ^ 4) + popcount (nat (x div 16))"
    using popcount_split [of "nat x" 4] less.prems by (simp add: nat_div_distrib)
  show ?case
  proof (cases "x div 16 = 0")
    case True
    then have "nat x mod 2 ^ 4 = nat x" using less.prems by auto
    with True b show ?thesis by (subst ntbl_bitcnt.simps) (simp add: sasr_div)
  next
    case False
    then have "nat (x div 16) < nat x" "0 \<le> x div 16" using less.prems by auto
    from less.hyps [OF this] False
    have "ntbl_bitcnt x = Some (int (popcount (nat x mod 2 ^ 4)) + int (popcount (nat (x div 16))))"
      by (subst ntbl_bitcnt.simps) (simp add: b sasr_div)
    then show ?thesis by (simp only: of_nat_add [symmetric] s [symmetric])
  qed
qed

lemma btbl_bitcnt_nonneg: "0 \<le> x \<Longrightarrow> btbl_bitcnt x = Some (int (popcount (nat x)))"
proof (induction "nat x" arbitrary: x rule: less_induct)
  case less
  have "take_bit 8 x AND 0xFF = x mod 256"
    using and_mask [of "take_bit 8 x" 8] by (simp add: mask_eq_exp_minus_1 take_bit_eq_mod)
  then have b: "bits ! nat (take_bit 8 x AND 0xFF) = int (popcount (nat x mod 2 ^ 8))"
    using less.prems by (simp add: bits_popcount nat_mod_distrib nat_less_iff)
  have s: "popcount (nat x) = popcount (nat x mod 2 ^ 8) + popcount (nat (x div 256))"
    using popcount_split [of "nat x" 8] less.prems by (simp add: nat_div_distrib)
  show ?case
  proof (cases "x div 256 = 0")
    case True
    then have "nat x mod 2 ^ 8 = nat x" using less.prems by auto
    with True b show ?thesis by (subst btbl_bitcnt.simps) (simp add: sasr_div)
  next
    case False
    then have "nat (x div 256) < nat x" "0 \<le> x div 256" using less.prems by auto
    from less.hyps [OF this] False
    have "btbl_bitcnt x = Some (int (popcount (nat x mod 2 ^ 8)) + int (popcount (nat (x div 256))))"
      by (subst btbl_bitcnt.simps) (simp add: b sasr_div)
    then show ?thesis by (simp only: of_nat_add [symmetric] s [symmetric])
  qed
qed

text \<open>On a negative argument the arithmetic shift never reaches 0.\<close>

lemma ntbl_bitcnt_Some_nonneg:
  assumes "ntbl_bitcnt x = Some r"
  shows "0 \<le> x"
proof (rule ntbl_bitcnt.raw_induct [where P = "\<lambda>x r. 0 \<le> x", OF _ assms])
  fix f :: "int \<Rightarrow> int option" and x r
  assume IH: "\<And>x r. f x = Some r \<Longrightarrow> 0 \<le> x"
    and body: "(let cnt = bits ! nat (x AND 0x0000000F); x = sasr x 4
      in if 0 \<noteq> x then do { c \<leftarrow> f x; Some (cnt + c) } else Some cnt) = Some r"
  show "0 \<le> x"
  proof (cases "x div 16 = 0")
    case True
    then show ?thesis by auto
  next
    case False
    with body obtain c where "f (x div 16) = Some c" by (auto simp: Let_def sasr_div bind_eq_Some_conv)
    from IH [OF this] show ?thesis by auto
  qed
qed

lemma btbl_bitcnt_Some_nonneg:
  assumes "btbl_bitcnt x = Some r"
  shows "0 \<le> x"
proof (rule btbl_bitcnt.raw_induct [where P = "\<lambda>x r. 0 \<le> x", OF _ assms])
  fix f :: "int \<Rightarrow> int option" and x r
  assume IH: "\<And>x r. f x = Some r \<Longrightarrow> 0 \<le> x"
    and body: "(let cnt = bits ! nat (take_bit 8 x AND 0xFF); x = sasr x 8
      in if 0 \<noteq> x then do { c \<leftarrow> f x; Some (cnt + c) } else Some cnt) = Some r"
  show "0 \<le> x"
  proof (cases "x div 256 = 0")
    case True
    then show ?thesis by auto
  next
    case False
    with body obtain c where "f (x div 256) = Some c" by (auto simp: Let_def sasr_div bind_eq_Some_conv)
    from IH [OF this] show ?thesis by auto
  qed
qed

lemma popcount_le: "n < 2 ^ k \<Longrightarrow> popcount n \<le> k"
proof (induction k arbitrary: n)
  case (Suc k)
  then have "popcount (n div 2) \<le> k" by simp
  then show ?case by (subst popcount.simps) (simp, linarith)
qed simp

lemma popcount_eq_0: "popcount n = 0 \<longleftrightarrow> n = 0"
proof (induction n rule: popcount.induct)
  case (1 n)
  show ?case
  proof (cases "n = 0")
    case False
    then have "popcount n = n mod 2 + popcount (n div 2)" by (simp add: popcount.simps [of n])
    moreover have "n mod 2 \<noteq> 0 \<or> n div 2 \<noteq> 0" using False by presburger
    ultimately show ?thesis using 1 False by linarith
  qed simp
qed

section \<open>Adding neighbouring fields\<close>

lemma low_bits: "c < 2 ^ k \<Longrightarrow> k \<le> i \<Longrightarrow> \<not> bit c i" for c :: nat
  by (metis bit_take_bit_iff not_le take_bit_nat_eq_self)

lemma digit_or: "b < 2 ^ k \<Longrightarrow> b + 2 ^ k * z = push_bit k z OR b" for b z :: nat
proof -
  assume "b < 2 ^ k"
  then have "push_bit k z AND b = 0" using low_bits [of b k] by (intro bit_eqI) (auto simp: bit_simps)
  then have "push_bit k z + b = push_bit k z OR b" by (rule disjunctive_add_eq_or)
  then show ?thesis by (simp add: push_bit_eq_mult mult.commute add.commute)
qed

lemma and_digit:
  fixes a m y M :: nat
  assumes "a < 2 ^ k" "m < 2 ^ k"
  shows "(a + 2 ^ k * y) AND (m + 2 ^ k * M) = (a AND m) + 2 ^ k * (y AND M)"
proof -
  have am: "a AND m < 2 ^ k" using nat_and_le [of a m] assms(2) by simp
  show ?thesis
    unfolding digit_or [OF assms(1)] digit_or [OF assms(2)] digit_or [OF am]
    by (intro bit_eqI) (use low_bits [OF assms(1)] low_bits [OF assms(2)] in \<open>auto simp: bit_simps\<close>)
qed

definition quad :: "nat \<Rightarrow> nat \<Rightarrow> nat \<Rightarrow> nat \<Rightarrow> nat" where
  "quad a b c d = a + 256 * (b + 256 * (c + 256 * d))"

definition swar :: "nat \<Rightarrow> nat \<Rightarrow> nat \<Rightarrow> nat \<Rightarrow> nat" where
  "swar s M1 M2 y = (y AND M1) div 2 ^ s + (y AND M2)"

lemma and_quad:
  assumes "a < 256" "b < 256" "c < 256" "d < 256" "p < 256" "q < 256" "r < 256" "s < 256"
  shows "quad a b c (d + 256 * h) AND quad p q r s = quad (a AND p) (b AND q) (c AND r) (d AND s)"
proof -
  have dig: "(a + 256 * y) AND (m + 256 * M) = (a AND m) + 256 * (y AND M)" if "a < 256" "m < 256" for a m y M :: nat
    using and_digit [of a 8 m y M] that by simp
  have "(d + 256 * h) AND s = d AND s" using dig [OF assms(4,8), of h 0] by simp
  then show ?thesis
    unfolding quad_def dig [OF assms(1,5)] dig [OF assms(2,6)] dig [OF assms(3,7)] by simp
qed

lemma swar_bytes:
  assumes "\<And>a. a < 256 \<Longrightarrow> 2 ^ s dvd (a AND m1)" "m1 < 256" "m2 < 256" "a < 256" "b < 256" "c < 256" "d < 256"
  shows "swar s (quad m1 m1 m1 m1) (quad m2 m2 m2 m2) (quad a b c (d + 256 * h))
    = quad (swar s m1 m2 a) (swar s m1 m2 b) (swar s m1 m2 c) (swar s m1 m2 d)"
proof -
  obtain a' where a: "a AND m1 = 2 ^ s * a'" using assms(1) [OF assms(4)] by (rule dvdE)
  obtain b' where b: "b AND m1 = 2 ^ s * b'" using assms(1) [OF assms(5)] by (rule dvdE)
  obtain c' where c: "c AND m1 = 2 ^ s * c'" using assms(1) [OF assms(6)] by (rule dvdE)
  obtain d' where d: "d AND m1 = 2 ^ s * d'" using assms(1) [OF assms(7)] by (rule dvdE)
  have q: "quad (2 ^ s * a') (2 ^ s * b') (2 ^ s * c') (2 ^ s * d') = 2 ^ s * quad a' b' c' d'"
    unfolding quad_def distrib_left by (simp only: mult.left_commute [of "2 ^ s" 256])
  have div: "2 ^ s * x div 2 ^ s = x" for x :: nat by simp
  have add: "quad a' b' c' d' + quad x y z w = quad (a' + x) (b' + y) (c' + z) (d' + w)" for x y z w
    by (simp add: quad_def)
  show ?thesis
    unfolding swar_def and_quad [OF assms(4-7) assms(2) assms(2) assms(2) assms(2)]
      and_quad [OF assms(4-7) assms(3) assms(3) assms(3) assms(3)] a b c d q div add ..
qed

lemma popcount_numeral [simp]: "popcount (Suc 0) = 1" "popcount (numeral (num.Bit0 n)) = popcount (numeral n)"
  "popcount (numeral (num.Bit1 n)) = Suc (popcount (numeral n))"
  using popcount_double [of 0] popcount_double [of "numeral n"] by (simp_all add: numeral_Bit0 numeral_Bit1)

lemma nibble_fold:
  assumes "a < 16"
  shows "2 dvd (a AND 10)" "4 dvd (a AND 12)" "swar 1 10 5 a < 16" "swar 2 12 3 (swar 1 10 5 a) = popcount a"
    "popcount a \<le> 4"
proof -
  have "a \<in> {0, 1, 2, 3, 4, 5, 6, 7, 8, 9, 10, 11, 12, 13, 14, 15}" using assms by (simp add: less_eq_Suc_le numeral_eq_Suc le_Suc_eq)
  then show "2 dvd (a AND 10)" "4 dvd (a AND 12)" "swar 1 10 5 a < 16" "swar 2 12 3 (swar 1 10 5 a) = popcount a"
    "popcount a \<le> 4"
    by (simp_all add: swar_def) (elim disjE; simp add: numeral_2_eq_2 [symmetric] numeral_3_eq_3 [symmetric])+
qed

lemma swar_nibbles:
  assumes "a < 16" "m1 < 16" "m2 < 16" "2 ^ s dvd (a AND m1)" "2 ^ s dvd (b AND M1)"
  shows "swar s (m1 + 16 * M1) (m2 + 16 * M2) (a + 16 * b) = swar s m1 m2 a + 16 * swar s M1 M2 b"
proof -
  obtain x y where "a AND m1 = 2 ^ s * x" "b AND M1 = 2 ^ s * y" using assms(4,5) by (meson dvdE)
  moreover have "(2 ^ s * x + 16 * (2 ^ s * y)) div 2 ^ s = x + 16 * y"
    using nonzero_mult_div_cancel_left [of "2 ^ s" "x + 16 * y"] by (simp only: distrib_left mult.left_commute) simp
  ultimately show ?thesis
    using and_digit [of a 4 m1 b M1] and_digit [of a 4 m2 b M2] assms(1-3) by (simp add: swar_def)
qed

lemma byte_fold:
  assumes "a < 256"
  shows "2 dvd (a AND 0xAA)" "4 dvd (a AND 0xCC)" "16 dvd (a AND 0xF0)"
    "swar 1 0xAA 0x55 a < 256" "swar 2 0xCC 0x33 (swar 1 0xAA 0x55 a) < 256"
    "swar 4 0xF0 0x0F (swar 2 0xCC 0x33 (swar 1 0xAA 0x55 a)) = popcount a" "popcount a \<le> 8"
proof -
  define l h where "l = a mod 16" and "h = a div 16"
  have a: "a = l + 16 * h" and lt: "l < 16" "h < 16" using assms by (simp_all add: l_def h_def)
  note L = nibble_fold [OF lt(1)] and H = nibble_fold [OF lt(2)]
  have dig: "(l + 16 * h) AND (m + 16 * M) = (l AND m) + 16 * (h AND M)" if "m < 16" for m M
    using and_digit [of l 4 m h M] lt that by simp
  show "2 dvd (a AND 0xAA)" unfolding a using dig [of 10 10] L H by simp
  show "4 dvd (a AND 0xCC)" unfolding a using dig [of 12 12] L H by simp
  show "16 dvd (a AND 0xF0)" unfolding a using dig [of 0 15] by simp
  have 1: "swar 1 0xAA 0x55 a = swar 1 10 5 l + 16 * swar 1 10 5 h"
    unfolding a using swar_nibbles [of l 10 5 1 h 10 5] lt L H by simp
  have 2: "swar 2 0xCC 0x33 (swar 1 0xAA 0x55 a) = popcount l + 16 * popcount h"
    unfolding 1 using swar_nibbles [of "swar 1 10 5 l" 12 3 2 "swar 1 10 5 h" 12 3] L H
      nibble_fold(2) [OF L(3)] nibble_fold(2) [OF H(3)] by simp
  show "swar 1 0xAA 0x55 a < 256" unfolding 1 using L(3) H(3) by simp
  show "swar 2 0xCC 0x33 (swar 1 0xAA 0x55 a) < 256" unfolding 2 using L(5) H(5) by simp
  have p: "popcount a = popcount l + popcount h" unfolding a using popcount_split [of "l + 16 * h" 4] lt by simp
  show "popcount a \<le> 8" unfolding p using L(5) H(5) by simp
  have "popcount h AND 15 = popcount h" using H(5) take_bit_nat_eq_self [of "popcount h" 4]
    by (simp add: take_bit_eq_mask mask_eq_exp_minus_1)
  moreover have "popcount l AND 15 = popcount l" using L(5) take_bit_nat_eq_self [of "popcount l" 4]
    by (simp add: take_bit_eq_mask mask_eq_exp_minus_1)
  ultimately show "swar 4 0xF0 0x0F (swar 2 0xCC 0x33 (swar 1 0xAA 0x55 a)) = popcount a"
    unfolding 2 unfolding p swar_def using and_digit [of "popcount l" 4 0 "popcount h" 15] and_digit [of "popcount l" 4 15 "popcount h" 0] L(5)
    by simp
qed

lemma and_255: "a < 256 \<Longrightarrow> a AND 255 = a" for a :: nat
proof -
  assume "a < 256"
  then have "take_bit 8 a = a" by (simp add: take_bit_nat_eq_self)
  then show ?thesis by (simp add: take_bit_eq_mask mask_eq_exp_minus_1)
qed

lemma swar_popcount:
  assumes "a < 256" "b < 256" "c < 256" "d < 256"
  shows "swar 16 0xFFFF0000 0x0000FFFF (swar 8 0xFF00FF00 0x00FF00FF (swar 4 0xF0F0F0F0 0x0F0F0F0F
      (swar 2 0xCCCCCCCC 0x33333333 (swar 1 0xAAAAAAAA 0x55555555 (quad a b c (d + 256 * h))))))
    = popcount a + popcount b + popcount c + popcount d"
proof -
  have M: "(0xAAAAAAAA :: nat) = quad 0xAA 0xAA 0xAA 0xAA" "(0x55555555 :: nat) = quad 0x55 0x55 0x55 0x55"
    "(0xCCCCCCCC :: nat) = quad 0xCC 0xCC 0xCC 0xCC" "(0x33333333 :: nat) = quad 0x33 0x33 0x33 0x33"
    "(0xF0F0F0F0 :: nat) = quad 0xF0 0xF0 0xF0 0xF0" "(0x0F0F0F0F :: nat) = quad 0x0F 0x0F 0x0F 0x0F"
    "(0xFF00FF00 :: nat) = quad 0 255 0 255" "(0x00FF00FF :: nat) = quad 255 0 255 0"
    "(0xFFFF0000 :: nat) = quad 0 0 255 255" "(0x0000FFFF :: nat) = quad 255 255 0 0"
    by (simp_all add: quad_def)
  note A = byte_fold [OF assms(1)] and B = byte_fold [OF assms(2)]
    and C = byte_fold [OF assms(3)] and D = byte_fold [OF assms(4)]
  have dv: "\<And>a. a < 256 \<Longrightarrow> 2 ^ 1 dvd (a AND (0xAA::nat))" "\<And>a. a < 256 \<Longrightarrow> 2 ^ 2 dvd (a AND (0xCC::nat))"
    "\<And>a. a < 256 \<Longrightarrow> 2 ^ 4 dvd (a AND (0xF0::nat))"
    using byte_fold(1-3) by simp_all
  have 1: "swar 1 0xAAAAAAAA 0x55555555 (quad a b c (d + 256 * h)) =
      quad (swar 1 0xAA 0x55 a) (swar 1 0xAA 0x55 b) (swar 1 0xAA 0x55 c) (swar 1 0xAA 0x55 d + 256 * 0)"
    unfolding M using swar_bytes [OF dv(1) _ _ assms, of "0x55" h] by simp
  have 2: "swar 2 0xCCCCCCCC 0x33333333 (quad (swar 1 0xAA 0x55 a) (swar 1 0xAA 0x55 b) (swar 1 0xAA 0x55 c) (swar 1 0xAA 0x55 d + 256 * 0)) =
      quad (swar 2 0xCC 0x33 (swar 1 0xAA 0x55 a)) (swar 2 0xCC 0x33 (swar 1 0xAA 0x55 b))
        (swar 2 0xCC 0x33 (swar 1 0xAA 0x55 c)) (swar 2 0xCC 0x33 (swar 1 0xAA 0x55 d) + 256 * 0)"
    unfolding M using swar_bytes [OF dv(2) _ _ A(4) B(4) C(4) D(4), of "0x33" 0] by simp
  have 3: "swar 4 0xF0F0F0F0 0x0F0F0F0F (quad (swar 2 0xCC 0x33 (swar 1 0xAA 0x55 a)) (swar 2 0xCC 0x33 (swar 1 0xAA 0x55 b))
        (swar 2 0xCC 0x33 (swar 1 0xAA 0x55 c)) (swar 2 0xCC 0x33 (swar 1 0xAA 0x55 d) + 256 * 0)) =
      quad (popcount a) (popcount b) (popcount c) (popcount d + 256 * 0)"
    unfolding M using swar_bytes [OF dv(3) _ _ A(5) B(5) C(5) D(5), of "0x0F" 0] A(6) B(6) C(6) D(6) by simp
  have lt: "popcount a < 256" "popcount b < 256" "popcount c < 256" "popcount d < 256"
    "popcount a + popcount b < 256" "popcount c + popcount d < 256"
    using A(7) B(7) C(7) D(7) by simp_all
  have 4: "swar 8 0xFF00FF00 0x00FF00FF (quad (popcount a) (popcount b) (popcount c) (popcount d + 256 * 0)) =
      quad (popcount a + popcount b) 0 (popcount c + popcount d) (0 + 256 * 0)"
    unfolding M swar_def using lt by (simp only: and_quad) (simp add: and_255 quad_def)
  have 5: "swar 16 0xFFFF0000 0x0000FFFF (quad (popcount a + popcount b) 0 (popcount c + popcount d) (0 + 256 * 0)) =
      popcount a + popcount b + popcount c + popcount d"
    unfolding M swar_def using lt by (simp only: and_quad) (simp add: and_255 quad_def)
  show ?thesis unfolding 1 2 3 4 5 ..
qed

lemma unat_swar:
  fixes i m1 m2 :: "64 word"
  assumes "unat m1 < 2 ^ 32" "unat m2 < 2 ^ 32"
  shows "unat (drop_bit s (i AND m1) + (i AND m2)) = swar s (unat m1) (unat m2) (unat i)"
proof -
  have u: "unat (i AND m1) = unat i AND unat m1" "unat (i AND m2) = unat i AND unat m2"
    by (simp_all add: unsigned_and_eq)
  have d: "unat (drop_bit s w) = unat w div 2 ^ s" for w :: "64 word"
  proof -
    have "unat (drop_bit s w) = drop_bit s (take_bit LENGTH(64) (unat w))" by (rule unsigned_drop_bit_eq)
    also have "take_bit LENGTH(64) (unat w) = unat w"
      using unsigned_less [of w, where ?'a = nat] by (intro take_bit_nat_eq_self) simp
    finally show ?thesis by (simp only: drop_bit_eq_div)
  qed
  have "(unat i AND unat m1) div 2 ^ s \<le> unat i AND unat m1" by (rule div_le_dividend)
  then have "(unat i AND unat m1) div 2 ^ s < 2 ^ 32" "unat i AND unat m2 < 2 ^ 32"
    using nat_and_le [of "unat i" "unat m1"] nat_and_le [of "unat i" "unat m2"] assms by linarith+
  then have "unat (drop_bit s (i AND m1)) + unat (i AND m2) < 2 ^ LENGTH(64)" unfolding d u by simp
  then have "unat (drop_bit s (i AND m1) + (i AND m2)) = unat (drop_bit s (i AND m1)) + unat (i AND m2)"
    by (rule unat_add_lem [THEN iffD1])
  then show ?thesis unfolding d u swar_def .
qed

lemma sint_small: "unat y < 2 ^ 63 \<Longrightarrow> sint y = int (unat y)" for y :: "64 word"
proof -
  assume "unat y < 2 ^ 63"
  then have "int (unat y) < int (2 ^ 63)" by (simp only: of_nat_less_iff)
  then have "uint y < 2 ^ 63" by simp
  moreover have "- (2 ^ 63) \<le> uint y" using order_trans [of "- (2 ^ 63)" 0 "uint y"] by simp
  ultimately have "sint y = uint y" unfolding sint_uint by (simp add: signed_take_bit_int_eq_self)
  then show ?thesis by simp
qed

lemma bitcount_popcount: "bitcount x = int (popcount (unat x mod 2 ^ 32))"
proof -
  let ?n = "unat x"
  define a b c d h where "a = ?n mod 256" and "b = ?n div 2 ^ 8 mod 256" and "c = ?n div 2 ^ 16 mod 256"
    and "d = ?n div 2 ^ 24 mod 256" and "h = ?n div 2 ^ 32"
  have lt: "a < 256" "b < 256" "c < 256" "d < 256" by (simp_all add: a_def b_def c_def d_def)
  have n: "?n = quad a b c (d + 256 * h)"
  proof -
    have e: "?n div 2 ^ 16 = ?n div 2 ^ 8 div 256" "?n div 2 ^ 24 = ?n div 2 ^ 16 div 256"
      "?n div 2 ^ 32 = ?n div 2 ^ 24 div 256" by (simp_all flip: div_mult2_eq)
    have "?n = 256 * (?n div 2 ^ 8) + a" "?n div 2 ^ 8 = 256 * (?n div 2 ^ 16) + b"
      "?n div 2 ^ 16 = 256 * (?n div 2 ^ 24) + c" "?n div 2 ^ 24 = 256 * h + d"
      unfolding a_def b_def c_def d_def h_def e by simp_all
    then show ?thesis unfolding quad_def by simp
  qed
  define y where "y = (let i = drop_bit 1 (x AND 0xAAAAAAAA) + (x AND 0x55555555);
          i = drop_bit 2 (i AND 0xCCCCCCCC) + (i AND 0x33333333);
          i = drop_bit 4 (i AND 0xF0F0F0F0) + (i AND 0x0F0F0F0F);
          i = drop_bit 8 (i AND 0xFF00FF00) + (i AND 0x00FF00FF)
      in drop_bit 16 (i AND 0xFFFF0000) + (i AND 0x0000FFFF))"
  have "unat y = popcount a + popcount b + popcount c + popcount d"
  proof -
    have m: "unat (0xAAAAAAAA :: 64 word) = 0xAAAAAAAA" "unat (0x55555555 :: 64 word) = 0x55555555"
      "unat (0xCCCCCCCC :: 64 word) = 0xCCCCCCCC" "unat (0x33333333 :: 64 word) = 0x33333333"
      "unat (0xF0F0F0F0 :: 64 word) = 0xF0F0F0F0" "unat (0x0F0F0F0F :: 64 word) = 0x0F0F0F0F"
      "unat (0xFF00FF00 :: 64 word) = 0xFF00FF00" "unat (0x00FF00FF :: 64 word) = 0x00FF00FF"
      "unat (0xFFFF0000 :: 64 word) = 0xFFFF0000" "unat (0x0000FFFF :: 64 word) = 0x0000FFFF"
      by simp_all
    have "unat y = swar 16 0xFFFF0000 0x0000FFFF (swar 8 0xFF00FF00 0x00FF00FF (swar 4 0xF0F0F0F0 0x0F0F0F0F
      (swar 2 0xCCCCCCCC 0x33333333 (swar 1 0xAAAAAAAA 0x55555555 ?n))))"
      unfolding y_def Let_def by (subst unat_swar, simp, simp)+ (simp only: m)
    then show ?thesis unfolding n swar_popcount [OF lt] .
  qed
  also have "\<dots> = popcount (?n mod 2 ^ 32)"
    using popcount_mod_step [of ?n 8 8] popcount_mod_step [of ?n 16 8] popcount_mod_step [of ?n 24 8]
    by (simp add: a_def b_def c_def d_def)
  finally have y: "unat y = popcount (?n mod 2 ^ 32)" .
  have "popcount a + popcount b + popcount c + popcount d \<le> 32"
    using byte_fold(7) [OF lt(1)] byte_fold(7) [OF lt(2)] byte_fold(7) [OF lt(3)] byte_fold(7) [OF lt(4)] by simp
  then have le: "unat y \<le> 32" using \<open>unat y = popcount a + popcount b + popcount c + popcount d\<close> by simp
  then have "sint y = int (unat y)" by (intro sint_small) simp
  moreover have "bitcount x = i32 (sint y)" unfolding bitcount_def Let_def y_def ..
  ultimately show ?thesis using le y by (simp add: i32_eq)
qed

section \<open>The contract of a bit counter\<close>

locale bit_counter =
  fixes count :: "64 word \<Rightarrow> int" and w :: nat
  assumes counts: "count x = int (popcount (unat x mod 2 ^ w))"
begin

lemma count_zero: "count 0 = 0"
  by (simp add: counts)

lemma count_bounds: "0 \<le> count x" "count x \<le> int w"
  using popcount_le [of "unat x mod 2 ^ w" w] by (simp_all add: counts)

lemma count_eq_0: "count x = 0 \<longleftrightarrow> unat x mod 2 ^ w = 0"
  by (simp add: counts popcount_eq_0)

lemma count_small: "unat x < 2 ^ w \<Longrightarrow> count x = int (popcount (unat x))"
  by (simp add: counts)

end

interpretation bc1: bit_counter bit_count 64
proof
  fix x show "bit_count x = int (popcount (unat x mod 2 ^ 64))"
    using unsigned_less [of x, where ?'a = nat] bit_count_loop_popcount [of x 0] by (simp add: bit_count_def)
qed

interpretation bc2: bit_counter bitcount 32
  by unfold_locales (rule bitcount_popcount)

interpretation bc3: bit_counter ntbl_bitcount 32
  by unfold_locales (rule ntbl_bitcount_popcount)

interpretation bc4: bit_counter BW_btbl_bitcount 32
  by unfold_locales (rule btbl_popcount)

interpretation bc5: bit_counter AR_btbl_bitcount 32
  by unfold_locales (use btbl_popcount in \<open>simp add: AR_btbl_bitcount_def BW_btbl_bitcount_def Let_def\<close>)

interpretation bc6: bit_counter bit_shifter 64
proof
  fix x show "bit_shifter x = int (popcount (unat x mod 2 ^ 64))"
    using unsigned_less [of x, where ?'a = nat] by (simp add: bit_shifter_popcount)
qed

section \<open>The benchmark loop\<close>

lemma bench_loop_sum:
  assumes f: "\<And>x. unat x < 2 ^ 32 \<Longrightarrow> f x = Some (int (popcount (unat x)))"
    and "s + 13 * j < 2 ^ 32"
  shows "bench_loop f j (of_nat s) n = Some (n + (\<Sum>i<j. int (popcount (s + 13 * i))))"
  using assms(2)
proof (induction j arbitrary: s n)
  case (Suc j)
  have u: "unat (of_nat s :: 64 word) = s" using Suc.prems by (simp add: unat_of_nat take_bit_nat_eq_self)
  have eq: "s + 13 + 13 * i = s + 13 * Suc i" for i by simp
  have "bench_loop f (Suc j) (of_nat s) n
      = bench_loop f j (of_nat (s + 13)) (n + int (popcount s))"
    using f [of "of_nat s"] Suc.prems by (simp add: u add.commute)
  also have "\<dots> = Some (n + int (popcount s) + (\<Sum>i<j. int (popcount (s + 13 + 13 * i))))"
    using Suc.prems by (intro Suc.IH) simp
  finally show ?case unfolding eq sum.lessThan_Suc_shift by (simp add: add.assoc)
qed simp

lemma pBitCntFunc_small:
  assumes "i < 7" "unat x < 2 ^ 32"
  shows "(pBitCntFunc ! i) x = Some (int (popcount (unat x)))"
proof -
  have s: "sint x = int (unat x)"
    by (rule sint_small) (use assms(2) in simp)
  have "unat x < 2 ^ 64" using assms(2) by simp
  then have *: "bit_count x = int (popcount (unat x))" "bitcount x = int (popcount (unat x))"
    "ntbl_bitcnt (sint x) = Some (int (popcount (unat x)))" "ntbl_bitcount x = int (popcount (unat x))"
    "BW_btbl_bitcount x = int (popcount (unat x))" "AR_btbl_bitcount x = int (popcount (unat x))"
    "bit_shifter x = int (popcount (unat x))"
    using assms(2) bc1.count_small bc2.count_small bc3.count_small bc4.count_small bc5.count_small bc6.count_small
      ntbl_bitcnt_nonneg [of "int (unat x)"] by (simp_all add: s)
  have "i \<in> {0, 1, 2, 3, 4, 5, 6}" using assms(1) by auto
  then show ?thesis using * by (elim insertE emptyE) (simp_all add: pBitCntFunc_def numeral_eq_Suc)
qed

section \<open>Properties\<close>

text \<open>C39 (the counters agree): \<open>bit_count\<close> and \<open>bit_shifter\<close> return the number of one bits of the whole
  64-bit argument, \<open>bitcount\<close> and the three table counters that of its low 32 bits; so they all
  agree on arguments below 2 to the power 32.\<close>

theorem bit_counters_correct:
  "bit_count x = int (popcount (unat x)) \<and> bit_shifter x = int (popcount (unat x))
   \<and> bitcount x = int (popcount (unat x mod 2 ^ 32)) \<and> ntbl_bitcount x = int (popcount (unat x mod 2 ^ 32))
   \<and> BW_btbl_bitcount x = int (popcount (unat x mod 2 ^ 32)) \<and> AR_btbl_bitcount x = int (popcount (unat x mod 2 ^ 32))"
proof -
  have "unat x < 2 ^ 64" using unsigned_less [of x, where ?'a = nat] by simp
  then show ?thesis
    using bc1.count_small [of x] bc6.count_small [of x] bc2.counts [of x] bc3.counts [of x] bc4.counts [of x]
      bc5.counts [of x] by blast
qed

text \<open>C40 (recursive counters): \<open>ntbl_bitcnt\<close> and \<open>btbl_bitcnt\<close> return exactly for the arguments that
  are not negative, and then the number of one bits; on a negative argument the arithmetic shift
  never reaches zero and the recursion does not end.\<close>

theorem recursive_counters_terminate:
  "(0 \<le> x \<longrightarrow> ntbl_bitcnt x = Some (int (popcount (nat x))) \<and> btbl_bitcnt x = Some (int (popcount (nat x))))
   \<and> (x < 0 \<longrightarrow> ntbl_bitcnt x = None \<and> btbl_bitcnt x = None)"
proof (intro conjI impI)
  assume "x < 0"
  show "ntbl_bitcnt x = None"
    using ntbl_bitcnt_Some_nonneg [of x] \<open>x < 0\<close> by (cases "ntbl_bitcnt x") auto
  show "btbl_bitcnt x = None"
    using btbl_bitcnt_Some_nonneg [of x] \<open>x < 0\<close> by (cases "btbl_bitcnt x") auto
qed (auto intro: ntbl_bitcnt_nonneg btbl_bitcnt_nonneg)

theorem recursive_counters_terminate_witness:
  "ntbl_bitcnt 5 = Some 2 \<and> btbl_bitcnt 5 = Some 2 \<and> ntbl_bitcnt (- 1) = None"
  using recursive_counters_terminate [of 5] recursive_counters_terminate [of "- 1"] by simp

text \<open>the benchmark: for every seed that \<open>rand\<close> may return, each of the seven timed functions
  reports the same total over the 7500 arguments, the sum of their bit counts; none of the calls
  fails to return.\<close>

lemma benchmark_totals_agree:
  assumes "i < 7" "seed < 2 ^ 31"
  shows "bench_loop (pBitCntFunc ! i) 7500 (of_nat seed) 0 = Some (\<Sum>j<7500. int (popcount (seed + 13 * j)))"
proof -
  have "seed + 13 * 7500 < 2 ^ 32" using assms(2) by simp
  from bench_loop_sum [where f = "pBitCntFunc ! i", OF pBitCntFunc_small [OF assms(1)] this] show ?thesis by simp
qed

end
