(* ===== verification/Spec2Isabelle.thy ===== *)
theory Spec2Isabelle
  imports Flex_Resource Flex_Thread_Spec Dijkstra Stringsearch Isqrt Blowfish Gsm_Codec Crc32_Detection Adpcm Bitcount
begin

text \<open>
  Verification of the programs of this repository: the FlexCPU model that the project adds to the
  gem5 simulator (\<open>src/gem5/src/cpu/flexcpu\<close>) and the C programs of the MiBench suite that the
  project runs on it (\<open>src/mibench\<close>). The programs do not call each other; within a program the
  theories follow the files and call each other as these do.

  The C programs are modelled for the target they are compiled for, riscv64 with the LP64 data
  model: \<open>int\<close> has 32 bits, \<open>long\<close> 64, \<open>char\<close> is unsigned. Where a width matters a value is a machine
  word, or an integer with the reduction written out. A failed \<open>assert\<close>, an access outside an array,
  a call that does not return and \<open>exit\<close> are the value \<open>None\<close> of an operation that can end so; every
  other operation is a total function. \<open>Prelude\<close> holds the vocabulary that the theories share: 16-
  and 32-bit reduction, arithmetic shifts, assertions, and loops that may be left early (\<open>fold_opt\<close>,
  \<open>map_opt\<close>), with their rules. \<open>Lockstep\<close> holds the contract of a coder and a decoder that keep a
  common state, as a locale.

  \<^bold>\<open>FlexCPU units\<close> (\<open>Flex_Resource\<close>; \<open>flexcpu.cc\<close>, \<open>ResourceThreadsManaged.cc\<close>,
  \<open>ResourceFetchDecision.cc\<close>). The records \<open>resource\<close> and \<open>threads_resource\<close> are the fields of
  \<open>Resource\<close> and \<open>ResourceThreadsManaged\<close>; \<open>addRequest\<close>, \<open>attemptAllRequests\<close>, \<open>schedule\<close>,
  \<open>resourceAvailable\<close> and the thread policies keep their names. The requests themselves and the world
  they act on are parameters (\<open>unit_env\<close>); loops that pop a queue are \<open>while_option\<close>, shown to end.
  The locale \<open>thread_policy\<close> states what a policy promises; round robin, coarse, event, longest queue
  and the fetch decision are interpretations. Shown: an activation returns, stays within the
  bandwidth and leaves the event scheduled when work remains, under a condition on the closures
  (\<open>settles\<close>) that at bandwidth 0, the default, is all that bounds the loop; an activation serves one
  queue, in order; the policies other than random and single-threaded choose only ready threads;
  round robin starves no ready thread.

  \<^bold>\<open>FlexCPU in-flight instructions\<close> (\<open>Flex_Inflight\<close>; \<open>inflight_inst.cc\<close>). A store of objects with
  their status, time stamps, dependency counters and lists of callbacks; closures are values and
  the calls still to be made are a stack, so that a client's callback may call any operation. The
  step relation \<open>step\<close> admits every operation that the contract \<open>permitted\<close> allows. Shown by
  induction on it: counters are the numbers of releases to come; an instruction is ready exactly
  when all it waits for has happened; a dependency is respected until the awaited status is announced. The
  contract is what the counters need, not something the class documents. \<open>executeInstruction\<close>
  announces the beginning of an execution twice: it keeps the contract if no instruction waits for that
  beginning, as on a CPU without \<open>in_order_begin_execute\<close>, and breaks it otherwise, with the
  consequences shown on two concrete states in \<open>executeInstruction_releases_twice\<close>; runs of such a CPU are not covered.

  \<^bold>\<open>FlexCPU threads\<close> (\<open>flexcpu_thread.cc\<close>, and what it uses of \<open>inflight_inst.cc\<close>, \<open>flexcpu.cc\<close> and the RISC-V port).
  \<open>Riscv_Decoder\<close>: program counters, the flags of a static instruction, and the decoder that
  assembles instructions of 16 or 32 bits from aligned words; shown to hand on the bits that are
  in memory. \<open>Flex_Thread\<close>: the record \<open>thread\<close> with the instruction buffer, one definition per handler, under its name.
  A lambda stored in an instruction and the rest of a function after a notification are values of
  \<open>frame\<close> on the stack of calls of \<open>Flex_Inflight\<close>, so the callbacks run where the code runs them. Requests to the units of the CPU
  are answered by events when the stack is empty, as the CPU's event queue does. \<open>tstep\<close> runs the top
  of the stack, or an event that \<open>permitted_event\<close> allows (an answer belongs to a request, an execution keeps the address of its instruction),
  or frees an object; the contract \<open>forward\<close>, that no status is taken back except by a store completing after its commit, is a guard of its
  steps and not proved of them. \<open>plain_cpu\<close> says that control instructions do not access memory. \<open>Flex_Buffer\<close>: the
  abstraction \<open>core\<close> of a thread to what decides the order of instructions, and the
  invariant as a conjunction of named parts. \<open>Flex_Buffer_Steps\<close>: elementary changes of the abstract state keep it.
  \<open>Flex_Thread_Inv\<close>, \<open>Flex_Thread_Fetch\<close>, \<open>Flex_Thread_Squash\<close>, \<open>Flex_Thread_Branch\<close>, \<open>Flex_Thread_Issue\<close>,
  \<open>Flex_Thread_Exec\<close>, \<open>Flex_Thread_Steps\<close>, \<open>Flex_Thread_Events\<close>: the handlers are such changes, up to the theorem that every step keeps the
  invariant. \<open>Flex_Thread_Arch\<close>: the architectural state takes the steps of a sequential machine
  \<open>seq_step\<close>, an interpretation of the locale \<open>simulation\<close> of \<open>Step_Systems\<close>. \<open>Flex_Thread_Room\<close>: the size of the buffer.
  \<open>Flex_Thread_Spec\<close>: commit is precise and in order; the buffer is numbered and follows the program counters; an
  issued instruction finds the youngest writer of its operands and waits for it. Not shown: that no assertion of the thread
  fails, and that every instruction is committed eventually.

  \<^bold>\<open>GSM 06.10 codec\<close> (\<open>src/mibench/telecomm/gsm\<close>). \<open>Gsm_Add\<close> and \<open>Gsm_Table\<close>: the fixed-point
  arithmetic of \<open>add.c\<close> and \<open>private.h\<close> and the tables of \<open>table.c\<close>. \<open>Gsm_State\<close>: the handle. \<open>Gsm_Frame\<close>:
  packing and unpacking of the 76 parameters (\<open>gsm_implode.c\<close>, \<open>gsm_explode.c\<close> and the copies inlined
  in \<open>gsm_encode.c\<close> and \<open>gsm_decode.c\<close>). \<open>Gsm_Preprocess\<close>, \<open>Gsm_Lpc\<close>, \<open>Gsm_Short_Term\<close>, \<open>Gsm_Long_Term\<close>,
  \<open>Gsm_Rpe\<close>: the stages, file by file. \<open>Gsm_Codec\<close>: \<open>code.c\<close>, \<open>decode.c\<close>, \<open>gsm_encode\<close>, \<open>gsm_decode\<close>.
  Arrays are lists, pointers into them are offsets, the static array of \<open>Gsm_Coder\<close> is passed in and
  out. The build is the integer one (no \<open>FAST\<close>, \<open>USE_FLOAT_MUL\<close>, \<open>USE_TABLE_MUL\<close>) with assertions
  enabled. Shown: stages keep their ranges and fail no assertion; searches return what they look
  for; filters and packings are inverse; coder and decoder process every sequence of frames and
  stay in agreement, which is the contract of \<open>Lockstep\<close>.

  \<^bold>\<open>Blowfish\<close> (\<open>Blowfish_Tables\<close>, \<open>Blowfish\<close>; \<open>src/mibench/security/blowfish\<close>). Key schedule, block cipher and
  the ECB, CBC, CFB64 and OFB64 modes. \<open>key_ok\<close> is the invariant that makes the unmasked table index
  safe; the locale \<open>block_cipher\<close> is the contract of the modes. Shown: decryption inverts encryption
  in every mode, for partial blocks and for data processed in pieces; the schedule establishes
  \<open>key_ok\<close>.

  \<^bold>\<open>Dijkstra\<close> (\<open>Dijkstra_Matrix\<close>, \<open>Dijkstra\<close>; \<open>src/mibench/network/dijkstra\<close>). The heap of queue cells is a map
  from addresses; \<open>malloc\<close> is a parameter that returns an unused address (\<open>malloc_ok\<close>). The loops are
  partial functions, shown to return. The queue implements the locale \<open>fifo\<close>; the search computes
  the least costs of walks.

  \<^bold>\<open>String search\<close> (\<open>Stringsearch\<close>; \<open>src/mibench/office/stringsearch\<close>). The static tables are records, the loops
  partial functions. \<open>tables_ok\<close> is what the search relies on; the three initialisations of the
  Boyer-Moore-Horspool searches are interpretations of the locale \<open>horspool\<close>. All searches are shown
  to return the first occurrence. \<^bold>\<open>Integer square root\<close> (\<open>Isqrt\<close>; \<open>src/mibench/automotive/basicmath/isqrt.c\<close>).

  \<^bold>\<open>CRC-32\<close> (\<open>Crc32\<close>, \<open>Crc32_Detection\<close>; \<open>src/mibench/telecomm/CRC32\<close>): the table-driven CRC against the
  bit-serial definition, and detection of a changed byte. The file read is a parameter.
  \<^bold>\<open>ADPCM\<close> (\<open>Adpcm\<close>; \<open>src/mibench/telecomm/adpcm\<close>): coder and decoder, their agreement and the error of a sample.
  \<^bold>\<open>Bit counters\<close> (\<open>Bitcount\<close>; \<open>src/mibench/automotive/bitcount\<close>): the seven counters against the population
  count, through the locale \<open>bit_counter\<close>.

  Not modelled: the rest of gem5, which is upstream code, except what the FlexCPU uses of it; of the
  FlexCPU the ports and packets, the operands other than integers, checkpoints and statistics, the tracers,
  which only write statistics, and the RioCPU, whose stages are empty. Of MiBench the programs that
  are floating point (FFT, susan, lame, rsynth, sphinx, most of basicmath), those that are third-party
  applications of tens of thousand lines (ghostscript, ispell, pgp, jpeg, mad, tiff, typeset), and the
  main programs that only read files and print. The Patricia trie, SHA and Rijndael are within
  reach and not modelled yet.
\<close>

end
